(* ===== verification/Prelude.thy ===== *)
theory Prelude
  imports Main "HOL-Library.Word"
begin

text \<open>
  Shared vocabulary of the development: identifiers, machine integers, Go error values and
  the explicit model of a network link to a datastore. The three \<open>named_theorems\<close>
  collections below are extended by every component: \<open>key_shape\<close> (facts that keep Redis key
  namespaces apart), \<open>link_simps\<close> (how a call over a link behaves) and \<open>err_simps\<close>
  (facts about error chains).
\<close>

named_theorems key_shape "Redis key namespaces"
named_theorems link_simps "calls over a datastore link"
named_theorems err_simps "Go error chains"

section \<open>Identifiers and machine integers\<close>

text \<open>A \<open>uuid.UUID\<close> is an array of 16 bytes; \<open>uuid.Nil\<close> is all zeros.\<close>

type_synonym uuid = "128 word"

abbreviation uuid_nil :: uuid where
  "uuid_nil \<equiv> 0"

text \<open>
  Go's \<open>int\<close> and \<open>int64\<close> are 64 bits wide and wrap; its integer division truncates towards
  zero. They are kept as \<open>int\<close>, with the wrap-around written out where it can matter.
\<close>

definition wrap64 :: "int \<Rightarrow> int" where
  "wrap64 x = (x + 2 ^ 63) mod 2 ^ 64 - 2 ^ 63"

definition in_int64 :: "int \<Rightarrow> bool" where
  "in_int64 x \<longleftrightarrow> - (2 ^ 63) \<le> x \<and> x < 2 ^ 63"

definition go_div :: "int \<Rightarrow> int \<Rightarrow> int" where
  "go_div a b = sgn a * sgn b * (\<bar>a\<bar> div \<bar>b\<bar>)"

lemma wrap64_id: "in_int64 x \<Longrightarrow> wrap64 x = x"
  by (simp add: wrap64_def in_int64_def)

lemma in_int64_wrap64: "in_int64 (wrap64 x)"
proof -
  have "0 \<le> (x + 2 ^ 63) mod 2 ^ 64" and "(x + 2 ^ 63) mod 2 ^ 64 < (2 ^ 64 :: int)"
    by simp_all
  then show ?thesis by (simp add: wrap64_def in_int64_def)
qed

lemma go_div_nonneg: "0 \<le> a \<Longrightarrow> 0 < b \<Longrightarrow> go_div a b = a div b"
  by (cases "a = 0") (simp_all add: go_div_def)

section \<open>Errors\<close>

text \<open>
  The error values of the program. \<open>Plain\<close> is an error of a driver or of \<open>fmt.Errorf\<close>
  without \<open>%w\<close>, \<open>Wrapped\<close> is \<open>fmt.Errorf\<close> with \<open>%w\<close>; the others are the
  sentinels of the packages. The three \<open>ValidationError\<close> types are distinct Go types.
\<close>

datatype goerr =
    Plain string
  | Wrapped string goerr
  | ErrEmailTaken
  | ErrInvalidCredentials
  | ErrUserNotFound
  | ErrInvalidRefresh
  | AuthValidationError string
  | ErrInvalidToken
  | ErrVideoNotFound
  | ErrForbidden
  | VideoValidationError string
  | ErrProductNotFound
  | ErrVideoAlreadyTaken
  | ProductValidationError string
  | ErrInvalidCursor
  | ErrStatsVideoNotFound

text \<open>\<open>errors.Is\<close> on a comparable sentinel: walk the chain of wrapped errors.\<close>

fun errors_is :: "goerr \<Rightarrow> goerr \<Rightarrow> bool" where
  "errors_is (Wrapped p e) t = (Wrapped p e = t \<or> errors_is e t)"
| "errors_is e t = (e = t)"

lemma errors_is_refl [err_simps]: "errors_is e e"
  by (cases e) simp_all

text \<open>\<open>errors.As\<close> with a target of each of the validation error types.\<close>

fun as_auth_validation :: "goerr \<Rightarrow> string option" where
  "as_auth_validation (AuthValidationError m) = Some m"
| "as_auth_validation (Wrapped p e) = as_auth_validation e"
| "as_auth_validation e = None"

fun as_video_validation :: "goerr \<Rightarrow> string option" where
  "as_video_validation (VideoValidationError m) = Some m"
| "as_video_validation (Wrapped p e) = as_video_validation e"
| "as_video_validation e = None"

fun as_product_validation :: "goerr \<Rightarrow> string option" where
  "as_product_validation (ProductValidationError m) = Some m"
| "as_product_validation (Wrapped p e) = as_product_validation e"
| "as_product_validation e = None"

section \<open>Links to the datastores\<close>

text \<open>
  What a client call over the network can do: reach the server and get the reply (\<open>Up\<close>),
  never reach it (\<open>Refused\<close>), or take effect and lose the reply (\<open>ReplyLost\<close>). A schedule
  of such outcomes, one per call, makes every theorem about a sequence of calls a theorem
  about every pattern of outages; an exhausted schedule means the link stays up.
\<close>

datatype link = Up | Refused | ReplyLost

type_synonym 'a result = "goerr + 'a"

fun link_call :: "link list \<Rightarrow> ('s \<Rightarrow> 'a \<times> 's) \<Rightarrow> 's \<Rightarrow> 'a result \<times> 's \<times> link list" where
  "link_call [] f s = (let (a, s') = f s in (Inr a, s', []))"
| "link_call (Up # ls) f s = (let (a, s') = f s in (Inr a, s', ls))"
| "link_call (Refused # ls) f s = (Inl (Plain ''connection refused''), s, ls)"
| "link_call (ReplyLost # ls) f s = (Inl (Plain ''i/o timeout''), snd (f s), ls)"

text \<open>Every outcome of a call is either the server's answer or an error, with the server in
  its old or its new state.\<close>

lemma link_call_cases:
  assumes "link_call ls f s = (r, s', ls')"
  obtains a where "r = Inr a" and "f s = (a, s')"
    | e where "r = Inl (Plain e)" and "s' = s"
    | e where "r = Inl (Plain e)" and "s' = snd (f s)"
  using assms by (cases "(ls, f, s)" rule: link_call.cases) (auto split: prod.splits)

lemma link_call_up [link_simps]: "link_call [] f s = (Inr (fst (f s)), snd (f s), [])"
  by (simp split: prod.splits)

lemma link_call_state: "fst (snd (link_call ls f s)) \<in> {s, snd (f s)}"
  by (cases "(ls, f, s)" rule: link_call.cases) (auto split: prod.splits)

section \<open>Generic lemmas\<close>

lemma map_fst_filter_distinct: "distinct (map f xs) \<Longrightarrow> distinct (map f (filter P xs))"
  by (induction xs) auto

lemma append_prefix_neq: "take n xs \<noteq> take n ys \<Longrightarrow> xs \<noteq> ys"
  by blast

lemma find_Some_iff': "find P xs = Some x \<Longrightarrow> x \<in> set xs \<and> P x"
  by (metis find_Some_iff nth_mem)

lemma filter_eq_single:
  "distinct (map f xs) \<Longrightarrow> x \<in> set xs \<Longrightarrow> filter (\<lambda>y. f y = f x) xs = [x]"
proof (induction xs)
  case Nil
  then show ?case by simp
next
  case (Cons y ys)
  show ?case
  proof (cases "f y = f x")
    case True
    with Cons.prems have "y = x" and "filter (\<lambda>y. f y = f x) ys = []"
      by (auto simp: filter_empty_conv rev_image_eqI)
    then show ?thesis by simp
  next
    case False
    with Cons show ?thesis by auto
  qed
qed

end
