(* ===== verification/GoLib.thy ===== *)
theory GoLib
  imports Prelude
begin

text \<open>
  The parts of Go's standard library that the repository's own logic depends on: decimal
  conversion (\<open>strconv\<close>), a few functions of \<open>strings\<close>, and the unpadded URL alphabet of
  \<open>encoding/base64\<close>. Strings are byte strings; white space and letter case are those of
  ASCII (the Unicode tables of \<open>strings.TrimSpace\<close> and \<open>strings.ToLower\<close> are not modelled).
\<close>

section \<open>strconv\<close>

definition digit_char :: "nat \<Rightarrow> char" where
  "digit_char d = char_of (48 + d)"

definition char_digit :: "char \<Rightarrow> nat option" where
  "char_digit c = (let n = of_char c :: nat in if 48 \<le> n \<and> n \<le> 57 then Some (n - 48) else None)"

lemma char_digit_digit_char [simp]: "d < 10 \<Longrightarrow> char_digit (digit_char d) = Some d"
  by (simp add: char_digit_def digit_char_def)

fun nat_digits :: "nat \<Rightarrow> string" where
  "nat_digits n = (if n < 10 then [digit_char n] else nat_digits (n div 10) @ [digit_char (n mod 10)])"

declare nat_digits.simps [simp del]

definition format_int :: "int \<Rightarrow> string" where
  "format_int n = (if n < 0 then CHR ''-'' # nat_digits (nat (- n)) else nat_digits (nat n))"

fun digits_value :: "nat \<Rightarrow> string \<Rightarrow> nat option" where
  "digits_value acc [] = Some acc"
| "digits_value acc (c # cs) =
     (case char_digit c of None \<Rightarrow> None | Some d \<Rightarrow> digits_value (10 * acc + d) cs)"

text \<open>\<open>strconv.ParseInt(s, 10, 64)\<close>, which is also \<open>strconv.Atoi\<close> on a 64-bit platform:
  an optional sign, at least one digit, nothing else, and a value that fits.\<close>

definition parse_int :: "string \<Rightarrow> int option" where
  "parse_int s =
     (let (neg, body) =
        (case s of [] \<Rightarrow> (False, [])
         | c # cs \<Rightarrow> if c = CHR ''-'' then (True, cs) else if c = CHR ''+'' then (False, cs)
                    else (False, s))
      in if body = [] then None
         else (case digits_value 0 body of
                 None \<Rightarrow> None
               | Some n \<Rightarrow> let v = (if neg then - int n else int n)
                           in if in_int64 v then Some v else None))"

text \<open>The value \<open>ParseInt\<close> returns beside an error the caller ignores: 0 for a syntax error, the
  nearest bound for a number that does not fit.\<close>

definition parse_int_value :: "string \<Rightarrow> int" where
  "parse_int_value s =
     (case parse_int s of
        Some v \<Rightarrow> v
      | None \<Rightarrow>
          (let (neg, body) =
             (case s of [] \<Rightarrow> (False, [])
              | c # cs \<Rightarrow> if c = CHR ''-'' then (True, cs) else if c = CHR ''+'' then (False, cs)
                         else (False, s))
           in if body = [] \<or> digits_value 0 body = None then 0
              else if neg then - (2 ^ 63) else 2 ^ 63 - 1))"

lemma parse_int_value_Some [simp]: "parse_int s = Some v \<Longrightarrow> parse_int_value s = v"
  by (simp add: parse_int_value_def)

lemma digits_value_append:
  "digits_value acc (xs @ ys) =
     (case digits_value acc xs of None \<Rightarrow> None | Some a \<Rightarrow> digits_value a ys)"
  by (induction xs arbitrary: acc) (auto split: option.splits)

lemma nat_digits_nonempty: "nat_digits n \<noteq> []"
  by (subst nat_digits.simps) simp

lemma digits_value_nat_digits: "digits_value 0 (nat_digits n) = Some n"
proof (induction n rule: nat_digits.induct)
  case (1 n)
  show ?case
  proof (cases "n < 10")
    case True
    then show ?thesis by (subst nat_digits.simps) simp
  next
    case False
    with 1 have "digits_value 0 (nat_digits (n div 10)) = Some (n div 10)" by simp
    with False show ?thesis by (subst nat_digits.simps) (simp add: digits_value_append)
  qed
qed

lemma nat_digits_chars: "c \<in> set (nat_digits n) \<Longrightarrow> \<exists>d < 10. c = digit_char d"
proof (induction n rule: nat_digits.induct)
  case (1 n)
  show ?case
  proof (cases "n < 10")
    case True
    with 1(2) show ?thesis by (auto simp: nat_digits.simps [of n])
  next
    case False
    with 1 have "c \<in> set (nat_digits (n div 10)) \<or> c = digit_char (n mod 10)"
      by (auto simp: nat_digits.simps [of n])
    with 1(1) False show ?thesis by (metis mod_less_divisor zero_less_numeral)
  qed
qed

lemma digit_char_not_sign: "d < 10 \<Longrightarrow> digit_char d \<noteq> CHR ''-'' \<and> digit_char d \<noteq> CHR ''+''"
proof
  assume d: "d < 10"
  show "digit_char d \<noteq> CHR ''-''"
  proof
    assume "digit_char d = CHR ''-''"
    then have "char_digit (CHR ''-'') = Some d" using char_digit_digit_char [OF d] by simp
    then show False by (simp add: char_digit_def)
  qed
  show "digit_char d \<noteq> CHR ''+''"
  proof
    assume "digit_char d = CHR ''+''"
    then have "char_digit (CHR ''+'') = Some d" using char_digit_digit_char [OF d] by simp
    then show False by (simp add: char_digit_def)
  qed
qed

lemma nat_digits_head:
  "\<exists>c cs. nat_digits n = c # cs \<and> c \<noteq> CHR ''-'' \<and> c \<noteq> CHR ''+''"
proof -
  obtain c cs where eq: "nat_digits n = c # cs"
    using nat_digits_nonempty [of n] by (cases "nat_digits n") auto
  then have "c \<in> set (nat_digits n)" by simp
  then obtain d where "d < 10" and "c = digit_char d" using nat_digits_chars by blast
  with eq show ?thesis using digit_char_not_sign by blast
qed

lemma parse_format_int [simp]: "in_int64 n \<Longrightarrow> parse_int (format_int n) = Some n"
proof (cases "n < 0")
  case True
  assume "in_int64 n"
  with True show ?thesis
    by (simp add: parse_int_def format_int_def nat_digits_nonempty digits_value_nat_digits)
next
  case False
  assume n: "in_int64 n"
  obtain c cs where "nat_digits (nat n) = c # cs" and "c \<noteq> CHR ''-''" and "c \<noteq> CHR ''+''"
    using nat_digits_head by blast
  moreover from this have "digits_value 0 (c # cs) = Some (nat n)"
    using digits_value_nat_digits [of "nat n"] by simp
  ultimately show ?thesis
    using False n by (simp add: parse_int_def format_int_def del: digits_value.simps)
qed

lemma parse_int_Some_in_range: "parse_int s = Some v \<Longrightarrow> in_int64 v"
  by (auto simp: parse_int_def Let_def split: option.splits prod.splits if_splits)

section \<open>strings\<close>

definition is_space :: "char \<Rightarrow> bool" where
  "is_space c \<longleftrightarrow> (of_char c :: nat) \<in> {9, 10, 11, 12, 13, 32}"

definition trim_space :: "string \<Rightarrow> string" where
  "trim_space s = rev (dropWhile is_space (rev (dropWhile is_space s)))"

definition lower_char :: "char \<Rightarrow> char" where
  "lower_char c = (let n = of_char c :: nat in if 65 \<le> n \<and> n \<le> 90 then char_of (n + 32) else c)"

definition upper_char :: "char \<Rightarrow> char" where
  "upper_char c = (let n = of_char c :: nat in if 97 \<le> n \<and> n \<le> 122 then char_of (n - 32) else c)"

definition to_lower :: "string \<Rightarrow> string" where
  "to_lower = map lower_char"

definition to_upper :: "string \<Rightarrow> string" where
  "to_upper = map upper_char"

definition has_prefix :: "string \<Rightarrow> string \<Rightarrow> bool" where
  "has_prefix s p \<longleftrightarrow> take (length p) s = p"

lemma lower_char_idem [simp]: "lower_char (lower_char c) = lower_char c"
  by (simp add: lower_char_def Let_def)

lemma to_lower_idem [simp]: "to_lower (to_lower s) = to_lower s"
  by (simp add: to_lower_def)

lemma is_space_lower_char [simp]: "is_space (lower_char c) = is_space c"
  by (auto simp: is_space_def lower_char_def Let_def)

lemma dropWhile_to_lower: "dropWhile is_space (to_lower s) = to_lower (dropWhile is_space s)"
  by (induction s) (simp_all add: to_lower_def)

lemma trim_space_to_lower: "trim_space (to_lower s) = to_lower (trim_space s)"
  by (simp add: trim_space_def dropWhile_to_lower to_lower_def rev_map)
     (metis dropWhile_to_lower rev_map to_lower_def)

lemma dropWhile_idem [simp]: "dropWhile P (dropWhile P xs) = dropWhile P xs"
  by (induction xs) auto

lemma dropWhile_rev_dropWhile:
  "dropWhile P (rev (dropWhile P (rev (dropWhile P xs)))) = rev (dropWhile P (rev (dropWhile P xs)))"
proof (cases "dropWhile P xs")
  case Nil
  show ?thesis by (simp only: Nil rev.simps dropWhile.simps)
next
  case (Cons y ys)
  then have y: "\<not> P y" by (simp add: dropWhile_eq_Cons_conv)
  have "dropWhile P (rev (y # ys)) = dropWhile P (rev ys) @ [y]"
    using y by (induction ys rule: rev_induct) (auto simp: dropWhile_append)
  then show ?thesis using Cons y by simp
qed

lemma trim_space_idem [simp]: "trim_space (trim_space s) = trim_space s"
  unfolding trim_space_def by (simp only: dropWhile_rev_dropWhile rev_rev_ident dropWhile_idem)

lemma trim_space_no_space: "\<forall>c \<in> set s. \<not> is_space c \<Longrightarrow> trim_space s = s"
proof -
  assume a: "\<forall>c \<in> set s. \<not> is_space c"
  then have "dropWhile is_space s = s" by (cases s) auto
  moreover have "\<forall>c \<in> set (rev s). \<not> is_space c" using a by simp
  then have "dropWhile is_space (rev s) = rev s" by (cases "rev s") simp_all
  ultimately show ?thesis by (simp add: trim_space_def)
qed

end
