(* ===== verification/Uuid.thy ===== *)
theory Uuid
  imports GoLib
begin

text \<open>
  The text form of identifiers comes from \<open>github.com/google/uuid\<close>, which is not part of the
  repository: \<open>UUID.String\<close> and \<open>uuid.Parse\<close> are the parameters \<open>uuid_str\<close> and
  \<open>uuid_parse\<close> of every definition that uses them. The locale \<open>uuid_lib\<close> states what the
  package documents (the canonical form is 36 lower-case hexadecimal digits and hyphens, and
  parses back); \<open>ref_libs\<close> is a concrete codec that satisfies it, used where a theorem is
  applied at a concrete input. Like the package's, its parser also takes upper-case digits
  and the bare 32-digit form.
\<close>

record libs =
  uuid_str :: "uuid \<Rightarrow> string"
  uuid_parse :: "string \<Rightarrow> uuid option"

locale uuid_lib =
  fixes L :: "'z libs_scheme"
  assumes parse_str: "uuid_parse L (uuid_str L u) = Some u"
    and str_chars: "set (uuid_str L u) \<subseteq> set ''0123456789abcdef-''"
    and str_length: "length (uuid_str L u) = 36"
begin

lemma str_inj [simp]: "uuid_str L u = uuid_str L v \<longleftrightarrow> u = v"
  by (metis parse_str option.inject)

lemma str_no_dot: "CHR ''.'' \<notin> set (uuid_str L u)"
  using str_chars [of u] by auto

lemma str_no_colon: "CHR '':'' \<notin> set (uuid_str L u)"
  using str_chars [of u] by auto

lemma str_nonempty: "uuid_str L u \<noteq> []"
  using str_length [of u] by auto

lemma str_append_inj [simp]: "uuid_str L u @ xs = uuid_str L v @ ys \<longleftrightarrow> u = v \<and> xs = ys"
  by (simp add: append_eq_append_conv str_length)

end

section \<open>A reference codec\<close>

definition hex_char :: "nat \<Rightarrow> char" where
  "hex_char d = ''0123456789abcdef'' ! d"

definition hex_val :: "char \<Rightarrow> nat option" where
  "hex_val c =
     (let n = of_char c :: nat
      in if 48 \<le> n \<and> n \<le> 57 then Some (n - 48)
         else if 97 \<le> n \<and> n \<le> 102 then Some (n - 87)
         else if 65 \<le> n \<and> n \<le> 70 then Some (n - 55) else None)"

fun hex_digits :: "nat \<Rightarrow> nat \<Rightarrow> string" where
  "hex_digits 0 n = []"
| "hex_digits (Suc k) n = hex_digits k (n div 16) @ [hex_char (n mod 16)]"

fun hex_value :: "nat \<Rightarrow> string \<Rightarrow> nat option" where
  "hex_value acc [] = Some acc"
| "hex_value acc (c # cs) = (case hex_val c of None \<Rightarrow> None | Some d \<Rightarrow> hex_value (16 * acc + d) cs)"

definition dashed :: "string \<Rightarrow> string" where
  "dashed h = take 8 h @ ''-'' @ take 4 (drop 8 h) @ ''-'' @ take 4 (drop 12 h) @ ''-'' @
     take 4 (drop 16 h) @ ''-'' @ drop 20 h"

definition undashed :: "string \<Rightarrow> string option" where
  "undashed s =
     (if length s = 32 then Some s
      else if length s = 36 \<and> s ! 8 = CHR ''-'' \<and> s ! 13 = CHR ''-'' \<and> s ! 18 = CHR ''-''
        \<and> s ! 23 = CHR ''-''
      then Some (take 8 s @ take 4 (drop 9 s) @ take 4 (drop 14 s) @ take 4 (drop 19 s) @ drop 24 s)
      else None)"

definition ref_uuid_str :: "uuid \<Rightarrow> string" where
  "ref_uuid_str u = dashed (hex_digits 32 (unat u))"

definition ref_uuid_parse :: "string \<Rightarrow> uuid option" where
  "ref_uuid_parse s =
     (case undashed s of None \<Rightarrow> None | Some h \<Rightarrow> map_option of_nat (hex_value 0 h))"

definition ref_libs :: libs where
  "ref_libs = \<lparr>uuid_str = ref_uuid_str, uuid_parse = ref_uuid_parse\<rparr>"

lemma hex_val_char [simp]: "d < 16 \<Longrightarrow> hex_val (hex_char d) = Some d"
proof -
  assume "d < 16"
  then have "d \<in> set [0..<16]" by simp
  then show ?thesis by (simp add: upt_rec hex_char_def) (elim disjE; simp add: hex_val_def)
qed

lemma length_hex_digits [simp]: "length (hex_digits k n) = k"
  by (induction k arbitrary: n) auto

lemma hex_value_append:
  "hex_value acc (xs @ ys) = (case hex_value acc xs of None \<Rightarrow> None | Some a \<Rightarrow> hex_value a ys)"
  by (induction xs arbitrary: acc) (auto split: option.splits)

lemma hex_value_digits: "hex_value 0 (hex_digits k n) = Some (n mod 16 ^ k)"
proof (induction k arbitrary: n)
  case 0
  show ?case by simp
next
  case (Suc k)
  have "16 * (n div 16 mod 16 ^ k) + n mod 16 = n mod 16 ^ Suc k"
    by (simp add: mod_mult2_eq)
  with Suc show ?case by (simp add: hex_value_append)
qed

lemma hex_char_range: "d < 16 \<Longrightarrow> hex_char d \<in> set ''0123456789abcdef''"
  unfolding hex_char_def by (rule nth_mem) simp

lemma hex_digits_range: "set (hex_digits k n) \<subseteq> set ''0123456789abcdef''"
proof (induction k arbitrary: n)
  case 0
  show ?case by simp
next
  case (Suc k)
  have "hex_char (n mod 16) \<in> set ''0123456789abcdef''" by (rule hex_char_range) simp
  with Suc show ?case by simp
qed

lemma undashed_dashed: "length h = 32 \<Longrightarrow> undashed (dashed h) = Some h"
proof -
  assume l: "length h = 32"
  define a b c d e where "a = take 8 h" and "b = take 4 (drop 8 h)" and "c = take 4 (drop 12 h)"
    and "d = take 4 (drop 16 h)" and "e = drop 20 h"
  have lens: "length a = 8" "length b = 4" "length c = 4" "length d = 4" "length e = 12"
    using l by (simp_all add: a_def b_def c_def d_def e_def)
  have "take 4 (drop 16 h) @ drop 20 h = drop 16 h"
    using append_take_drop_id [of 4 "drop 16 h"] by simp
  moreover have "take 4 (drop 12 h) @ drop 16 h = drop 12 h"
    using append_take_drop_id [of 4 "drop 12 h"] by simp
  moreover have "take 4 (drop 8 h) @ drop 12 h = drop 8 h"
    using append_take_drop_id [of 4 "drop 8 h"] by simp
  ultimately have h: "h = a @ b @ c @ d @ e"
    by (simp add: a_def b_def c_def d_def e_def)
  have "dashed h = a @ ''-'' @ b @ ''-'' @ c @ ''-'' @ d @ ''-'' @ e"
    by (simp add: dashed_def a_def b_def c_def d_def e_def)
  then show ?thesis
    by (simp add: undashed_def h nth_append lens)
qed

interpretation ref_uuid: uuid_lib ref_libs
proof
  fix u :: uuid
  have "unat u < 2 ^ LENGTH(128)" by (rule unsigned_less)
  then have "unat u mod 16 ^ 32 = unat u" by simp
  then show "uuid_parse ref_libs (uuid_str ref_libs u) = Some u"
    by (simp add: ref_libs_def ref_uuid_str_def ref_uuid_parse_def undashed_dashed hex_value_digits
        del: power_numeral)
  have "set (dashed h) \<subseteq> insert (CHR ''-'') (set h)" for h
    by (auto simp: dashed_def dest: in_set_takeD in_set_dropD)
  then show "set (uuid_str ref_libs u) \<subseteq> set ''0123456789abcdef-''"
    using hex_digits_range [of 32 "unat u"]
    by (fastforce simp: ref_libs_def ref_uuid_str_def)
  show "length (uuid_str ref_libs u) = 36"
    by (simp add: ref_libs_def ref_uuid_str_def dashed_def)
qed

end
