(* ===== verification/Redis.thy ===== *)
theory Redis
  imports Complex_Main Uuid "HOL-Library.List_Lexorder" "HOL-Library.Char_ord"
    "HOL-Library.Product_Lexorder"
begin

text \<open>
  The Redis server is a service outside the repository. Its commands are the parameters of
  the record \<open>redis\<close>, over an abstract server state; the locale \<open>redis_server\<close> states what
  the documentation of each command promises, through the contents of the keyspace
  (\<open>ks\<close>): every key holds at most one typed value and, possibly, a remaining time to live in
  milliseconds. What a command does to a key of another type is left unspecified, but it touches
  no key it does not name. Lua scripts of the
  repository are definitions over these commands; they run atomically on the server.

  \<open>ref_redis\<close> is an instance whose state is the keyspace itself, for applying theorems at
  concrete inputs; the interpretation \<open>ref_redis\<close> shows that the laws can hold together.
\<close>

section \<open>The keyspace\<close>

record xstream =
  xentries :: "(nat \<times> (string \<times> string) list) list"
  xlast :: nat
  xgroups :: "string \<Rightarrow> (nat \<times> nat list) option"

datatype rval =
    RStr string
  | RSet "string set"
  | RHash "string \<Rightarrow> rat option"
  | RZset "(int \<times> string) list"
  | RStream xstream
  | RBloom "string set"

type_synonym entry = "rval \<times> nat option"
type_synonym keyspace = "string \<Rightarrow> entry option"

fun str_val :: "entry option \<Rightarrow> string option" where
  "str_val (Some (RStr v, t)) = Some v"
| "str_val e = None"

fun is_str :: "entry option \<Rightarrow> bool" where
  "is_str None = True"
| "is_str (Some (RStr v, t)) = True"
| "is_str e = False"

fun num_val :: "entry option \<Rightarrow> int" where
  "num_val (Some (RStr v, t)) = (case parse_int v of Some n \<Rightarrow> n | None \<Rightarrow> 0)"
| "num_val e = 0"

fun is_counter :: "entry option \<Rightarrow> bool" where
  "is_counter None = True"
| "is_counter (Some (RStr v, t)) = (parse_int v \<noteq> None)"
| "is_counter e = False"

fun set_val :: "entry option \<Rightarrow> string set" where
  "set_val (Some (RSet m, t)) = m"
| "set_val e = {}"

fun is_set :: "entry option \<Rightarrow> bool" where
  "is_set None = True"
| "is_set (Some (RSet m, t)) = True"
| "is_set e = False"

fun hash_val :: "entry option \<Rightarrow> string \<Rightarrow> rat option" where
  "hash_val (Some (RHash h, t)) = h"
| "hash_val e = (\<lambda>_. None)"

fun is_hash :: "entry option \<Rightarrow> bool" where
  "is_hash None = True"
| "is_hash (Some (RHash h, t)) = True"
| "is_hash e = False"

fun zset_val :: "entry option \<Rightarrow> (int \<times> string) list" where
  "zset_val (Some (RZset z, t)) = z"
| "zset_val e = []"

fun is_zset :: "entry option \<Rightarrow> bool" where
  "is_zset None = True"
| "is_zset (Some (RZset z, t)) = (sorted z \<and> distinct (map snd z))"
| "is_zset e = False"

definition empty_stream :: xstream where
  "empty_stream = \<lparr>xentries = [], xlast = 0, xgroups = (\<lambda>_. None)\<rparr>"

fun stream_val :: "entry option \<Rightarrow> xstream" where
  "stream_val (Some (RStream x, t)) = x"
| "stream_val e = empty_stream"

fun is_stream :: "entry option \<Rightarrow> bool" where
  "is_stream None = True"
| "is_stream (Some (RStream x, t)) = True"
| "is_stream e = False"

fun bloom_val :: "entry option \<Rightarrow> string set" where
  "bloom_val (Some (RBloom b, t)) = b"
| "bloom_val e = {}"

fun is_bloom :: "entry option \<Rightarrow> bool" where
  "is_bloom None = True"
| "is_bloom (Some (RBloom b, t)) = True"
| "is_bloom e = False"

fun ttl_of :: "entry option \<Rightarrow> nat option" where
  "ttl_of (Some (v, t)) = t"
| "ttl_of None = None"

section \<open>What the documentation of each command says\<close>

definition doc_set :: "string \<Rightarrow> string \<Rightarrow> nat option \<Rightarrow> keyspace \<Rightarrow> keyspace" where
  "doc_set k v ttl m = m(k \<mapsto> (RStr v, ttl))"

text \<open>\<open>INCRBY\<close>: a missing key counts as 0; the time to live is kept.\<close>

definition doc_incrby :: "int \<Rightarrow> string \<Rightarrow> keyspace \<Rightarrow> keyspace" where
  "doc_incrby d k m = m(k \<mapsto> (RStr (format_int (num_val (m k) + d)), ttl_of (m k)))"

definition doc_expire :: "string \<Rightarrow> nat \<Rightarrow> keyspace \<Rightarrow> keyspace" where
  "doc_expire k t m = (case m k of None \<Rightarrow> m | Some (v, _) \<Rightarrow> m(k \<mapsto> (v, Some t)))"

definition doc_elapse :: "nat \<Rightarrow> keyspace \<Rightarrow> keyspace" where
  "doc_elapse d m = (\<lambda>k. case m k of
       Some (v, Some t) \<Rightarrow> if t \<le> d then None else Some (v, Some (t - d))
     | e \<Rightarrow> e)"

definition doc_sadd :: "string \<Rightarrow> string \<Rightarrow> keyspace \<Rightarrow> keyspace" where
  "doc_sadd k x m = m(k \<mapsto> (RSet (insert x (set_val (m k))), ttl_of (m k)))"

text \<open>\<open>SREM\<close> removes the key with the last member of the set.\<close>

definition doc_srem :: "string \<Rightarrow> string \<Rightarrow> keyspace \<Rightarrow> keyspace" where
  "doc_srem k x m =
     (let r = set_val (m k) - {x}
      in m(k := if r = {} then None else Some (RSet r, ttl_of (m k))))"

definition doc_hmset :: "string \<Rightarrow> (string \<times> rat) list \<Rightarrow> keyspace \<Rightarrow> keyspace" where
  "doc_hmset k fs m = m(k \<mapsto> (RHash (hash_val (m k) ++ map_of (rev fs)), ttl_of (m k)))"

definition zset_add :: "(int \<times> string) list \<Rightarrow> int \<times> string \<Rightarrow> (int \<times> string) list" where
  "zset_add z e = insort e (filter (\<lambda>x. snd x \<noteq> snd e) z)"

definition doc_zadd :: "string \<Rightarrow> (int \<times> string) list \<Rightarrow> keyspace \<Rightarrow> keyspace" where
  "doc_zadd k es m = m(k \<mapsto> (RZset (foldl zset_add (zset_val (m k)) es), ttl_of (m k)))"

text \<open>\<open>ZREMRANGEBYRANK\<close>: ranks count from the lowest score; a negative rank counts from the
  highest (\<open>-1\<close> is the last element); an empty sorted set is removed.\<close>

definition rank_index :: "nat \<Rightarrow> int \<Rightarrow> int" where
  "rank_index n i = (if i < 0 then int n + i else i)"

definition zset_remrange :: "int \<Rightarrow> int \<Rightarrow> 'a list \<Rightarrow> 'a list" where
  "zset_remrange a b z =
     (let n = length z; lo = max 0 (rank_index n a); hi = min (int n - 1) (rank_index n b)
      in if hi < lo then z else take (nat lo) z @ drop (nat (hi + 1)) z)"

definition doc_zremrangebyrank :: "string \<Rightarrow> int \<Rightarrow> int \<Rightarrow> keyspace \<Rightarrow> keyspace" where
  "doc_zremrangebyrank k a b m =
     (let z = zset_remrange a b (zset_val (m k))
      in m(k := if z = [] then None else Some (RZset z, ttl_of (m k))))"

text \<open>\<open>ZREVRANGEBYSCORE k max -inf LIMIT 0 n\<close> with an exclusive upper bound, or none.\<close>

definition zset_revrange :: "int option \<Rightarrow> nat \<Rightarrow> (int \<times> string) list \<Rightarrow> string list" where
  "zset_revrange mx n z =
     take n (map snd (rev (filter (\<lambda>x. case mx of None \<Rightarrow> True | Some b \<Rightarrow> fst x < b) z)))"

definition stream_add :: "nat \<Rightarrow> (string \<times> string) list \<Rightarrow> xstream \<Rightarrow> xstream" where
  "stream_add i fs x = x\<lparr>xentries := xentries x @ [(i, fs)], xlast := i\<rparr>"

definition stream_undelivered :: "string \<Rightarrow> xstream \<Rightarrow> (nat \<times> (string \<times> string) list) list" where
  "stream_undelivered g x =
     (case xgroups x g of None \<Rightarrow> [] | Some (l, p) \<Rightarrow> filter (\<lambda>e. l < fst e) (xentries x))"

definition stream_pending :: "string \<Rightarrow> xstream \<Rightarrow> nat list" where
  "stream_pending g x = (case xgroups x g of None \<Rightarrow> [] | Some (l, p) \<Rightarrow> p)"

text \<open>\<open>XREADGROUP ... COUNT n STREAMS k >\<close>: the first \<open>n\<close> entries never delivered to the group;
  they become pending.\<close>

definition stream_readgroup :: "string \<Rightarrow> nat \<Rightarrow> xstream \<Rightarrow> xstream" where
  "stream_readgroup g n x =
     (let es = take n (stream_undelivered g x)
      in if es = [] then x
         else x\<lparr>xgroups := (xgroups x)(g \<mapsto> (fst (last es), stream_pending g x @ map fst es))\<rparr>)"

definition stream_ack :: "string \<Rightarrow> nat list \<Rightarrow> xstream \<Rightarrow> xstream" where
  "stream_ack g ids x =
     (case xgroups x g of None \<Rightarrow> x
      | Some (l, p) \<Rightarrow> x\<lparr>xgroups := (xgroups x)(g \<mapsto> (l, filter (\<lambda>i. i \<notin> set ids) p))\<rparr>)"

text \<open>\<open>XGROUP CREATE k g $ MKSTREAM\<close>: the new group starts after the last entry.\<close>

definition stream_group :: "string \<Rightarrow> xstream \<Rightarrow> xstream" where
  "stream_group g x =
     (case xgroups x g of None \<Rightarrow> x\<lparr>xgroups := (xgroups x)(g \<mapsto> (xlast x, []))\<rparr> | Some _ \<Rightarrow> x)"

definition doc_stream :: "(xstream \<Rightarrow> xstream) \<Rightarrow> string \<Rightarrow> keyspace \<Rightarrow> keyspace" where
  "doc_stream f k m = m(k \<mapsto> (RStream (f (stream_val (m k))), ttl_of (m k)))"

definition doc_bfadd :: "string \<Rightarrow> string list \<Rightarrow> keyspace \<Rightarrow> keyspace" where
  "doc_bfadd k xs m = m(k \<mapsto> (RBloom (set xs \<union> bloom_val (m k)), ttl_of (m k)))"

lemmas doc_defs = doc_set_def doc_incrby_def doc_expire_def doc_elapse_def doc_sadd_def
  doc_srem_def doc_hmset_def doc_zadd_def doc_zremrangebyrank_def doc_stream_def doc_bfadd_def

section \<open>The commands as parameters\<close>

record 's redis = libs +
  rGET :: "string \<Rightarrow> 's \<Rightarrow> string option"
  rSET :: "string \<Rightarrow> string \<Rightarrow> nat option \<Rightarrow> 's \<Rightarrow> 's"
  rSETNX :: "string \<Rightarrow> string \<Rightarrow> nat option \<Rightarrow> 's \<Rightarrow> bool \<times> 's"
  rDEL :: "string \<Rightarrow> 's \<Rightarrow> 's"
  rINCR :: "string \<Rightarrow> 's \<Rightarrow> int \<times> 's"
  rDECR :: "string \<Rightarrow> 's \<Rightarrow> int \<times> 's"
  rEXPIRE :: "string \<Rightarrow> nat \<Rightarrow> 's \<Rightarrow> 's"
  rSISMEMBER :: "string \<Rightarrow> string \<Rightarrow> 's \<Rightarrow> bool"
  rSADD :: "string \<Rightarrow> string \<Rightarrow> 's \<Rightarrow> 's"
  rSREM :: "string \<Rightarrow> string \<Rightarrow> 's \<Rightarrow> 's"
  rHGET :: "string \<Rightarrow> string \<Rightarrow> 's \<Rightarrow> rat option"
  rHMSET :: "string \<Rightarrow> (string \<times> rat) list \<Rightarrow> 's \<Rightarrow> 's"
  rZADD :: "string \<Rightarrow> (int \<times> string) list \<Rightarrow> 's \<Rightarrow> 's"
  rZREMRANGEBYRANK :: "string \<Rightarrow> int \<Rightarrow> int \<Rightarrow> 's \<Rightarrow> 's"
  rZREVRANGEBYSCORE :: "string \<Rightarrow> int option \<Rightarrow> nat \<Rightarrow> 's \<Rightarrow> string list"
  rXADD :: "string \<Rightarrow> nat \<Rightarrow> (string \<times> string) list \<Rightarrow> 's \<Rightarrow> nat \<times> 's"
  rXGROUP :: "string \<Rightarrow> string \<Rightarrow> 's \<Rightarrow> bool \<times> 's"
  rXREADGROUP :: "string \<Rightarrow> string \<Rightarrow> nat \<Rightarrow> 's \<Rightarrow> (nat \<times> (string \<times> string) list) list \<times> 's"
  rXACK :: "string \<Rightarrow> string \<Rightarrow> nat list \<Rightarrow> 's \<Rightarrow> 's"
  rBFEXISTS :: "string \<Rightarrow> string \<Rightarrow> 's \<Rightarrow> bool"
  rBFADD :: "string \<Rightarrow> string list \<Rightarrow> 's \<Rightarrow> 's"
  rBFRESERVE :: "string \<Rightarrow> 's \<Rightarrow> bool \<times> 's"
  rBFINFO :: "string \<Rightarrow> 's \<Rightarrow> bool"
  rELAPSE :: "nat \<Rightarrow> 's \<Rightarrow> 's"

text \<open>\<open>rELAPSE d\<close> is not a command: it is \<open>d\<close> milliseconds of server time going by.\<close>

locale redis_server = uuid_lib R for R :: "('s, 'z) redis_scheme" +
  fixes ks :: "'s \<Rightarrow> keyspace"
  assumes get: "is_str (ks s k) \<Longrightarrow> rGET R k s = str_val (ks s k)"
    and set: "ks (rSET R k v t s) = doc_set k v t (ks s)"
    and setnx: "fst (rSETNX R k v t s) \<longleftrightarrow> ks s k = None"
      "ks (snd (rSETNX R k v t s)) = (if ks s k = None then doc_set k v t (ks s) else ks s)"
    and del: "ks (rDEL R k s) = (ks s)(k := None)"
    and incr: "is_counter (ks s k) \<Longrightarrow> in_int64 (num_val (ks s k) + 1) \<Longrightarrow>
        fst (rINCR R k s) = num_val (ks s k) + 1"
      "is_counter (ks s k) \<Longrightarrow> in_int64 (num_val (ks s k) + 1) \<Longrightarrow>
        ks (snd (rINCR R k s)) = doc_incrby 1 k (ks s)"
    and decr: "is_counter (ks s k) \<Longrightarrow> in_int64 (num_val (ks s k) - 1) \<Longrightarrow>
        fst (rDECR R k s) = num_val (ks s k) - 1"
      "is_counter (ks s k) \<Longrightarrow> in_int64 (num_val (ks s k) - 1) \<Longrightarrow>
        ks (snd (rDECR R k s)) = doc_incrby (- 1) k (ks s)"
    and expire: "ks (rEXPIRE R k n s) = doc_expire k n (ks s)"
    and sismember: "is_set (ks s k) \<Longrightarrow> rSISMEMBER R k x s \<longleftrightarrow> x \<in> set_val (ks s k)"
    and sadd: "is_set (ks s k) \<Longrightarrow> ks (rSADD R k x s) = doc_sadd k x (ks s)"
    and srem: "is_set (ks s k) \<Longrightarrow> ks (rSREM R k x s) = doc_srem k x (ks s)"
    and hget: "is_hash (ks s k) \<Longrightarrow> rHGET R k f s = hash_val (ks s k) f"
    and hmset: "is_hash (ks s k) \<Longrightarrow> ks (rHMSET R k fs s) = doc_hmset k fs (ks s)"
    and zadd: "is_zset (ks s k) \<Longrightarrow> es \<noteq> [] \<Longrightarrow> ks (rZADD R k es s) = doc_zadd k es (ks s)"
    and zremrangebyrank: "is_zset (ks s k) \<Longrightarrow>
        ks (rZREMRANGEBYRANK R k a b s) = doc_zremrangebyrank k a b (ks s)"
    and zset_frame: "k' \<noteq> k \<Longrightarrow> ks (rZADD R k es s) k' = ks s k'"
      "k' \<noteq> k \<Longrightarrow> ks (rZREMRANGEBYRANK R k a b s) k' = ks s k'"
    and zrevrangebyscore: "is_zset (ks s k) \<Longrightarrow>
        rZREVRANGEBYSCORE R k mx n s = zset_revrange mx n (zset_val (ks s k))"
    and xadd: "is_stream (ks s k) \<Longrightarrow> length (xentries (stream_val (ks s k))) < n \<Longrightarrow>
        xlast (stream_val (ks s k)) < fst (rXADD R k n ff s)"
      "is_stream (ks s k) \<Longrightarrow> length (xentries (stream_val (ks s k))) < n \<Longrightarrow>
        ks (snd (rXADD R k n ff s)) = doc_stream (stream_add (fst (rXADD R k n ff s)) ff) k (ks s)"
    and xgroup: "is_stream (ks s k) \<Longrightarrow>
        fst (rXGROUP R k g s) \<longleftrightarrow> xgroups (stream_val (ks s k)) g = None"
      "is_stream (ks s k) \<Longrightarrow> ks (snd (rXGROUP R k g s)) = doc_stream (stream_group g) k (ks s)"
    and xreadgroup: "is_stream (ks s k) \<Longrightarrow> xgroups (stream_val (ks s k)) g \<noteq> None \<Longrightarrow>
        fst (rXREADGROUP R k g n s) = take n (stream_undelivered g (stream_val (ks s k)))"
      "is_stream (ks s k) \<Longrightarrow> xgroups (stream_val (ks s k)) g \<noteq> None \<Longrightarrow>
        ks (snd (rXREADGROUP R k g n s)) = doc_stream (stream_readgroup g n) k (ks s)"
    and xack: "is_stream (ks s k) \<Longrightarrow> xgroups (stream_val (ks s k)) g \<noteq> None \<Longrightarrow>
        ks (rXACK R k g ids s) = doc_stream (stream_ack g ids) k (ks s)"
    and bfexists: "is_bloom (ks s k) \<Longrightarrow> x \<in> bloom_val (ks s k) \<Longrightarrow> rBFEXISTS R k x s"
    and bfadd: "is_bloom (ks s k) \<Longrightarrow> ks (rBFADD R k xs s) = doc_bfadd k xs (ks s)"
    and bfreserve: "fst (rBFRESERVE R k s) \<longleftrightarrow> ks s k = None"
      "ks (snd (rBFRESERVE R k s)) = (if ks s k = None then (ks s)(k \<mapsto> (RBloom {}, None)) else ks s)"
    and bfinfo: "is_bloom (ks s k) \<Longrightarrow> rBFINFO R k s \<longleftrightarrow> ks s k \<noteq> None"
    and own_key: "k' \<noteq> k \<Longrightarrow> ks (snd (rINCR R k s)) k' = ks s k'"
      "k' \<noteq> k \<Longrightarrow> ks (snd (rDECR R k s)) k' = ks s k'"
      "k' \<noteq> k \<Longrightarrow> ks (rSADD R k x s) k' = ks s k'"
      "k' \<noteq> k \<Longrightarrow> ks (rSREM R k x s) k' = ks s k'"
      "k' \<noteq> k \<Longrightarrow> ks (rHMSET R k fs s) k' = ks s k'"
      "k' \<noteq> k \<Longrightarrow> ks (snd (rXADD R k n ff s)) k' = ks s k'"
      "k' \<noteq> k \<Longrightarrow> ks (rBFADD R k xs s) k' = ks s k'"
      "k' \<noteq> k \<Longrightarrow> ks (snd (rXGROUP R k g s)) k' = ks s k'"
      "k' \<noteq> k \<Longrightarrow> ks (snd (rXREADGROUP R k g n s)) k' = ks s k'"
      "k' \<noteq> k \<Longrightarrow> ks (rXACK R k g ids s) k' = ks s k'"
    and elapse: "ks (rELAPSE R d s) = doc_elapse d (ks s)"

section \<open>The reference instance\<close>

definition ref_redis :: "keyspace redis" where
  "ref_redis = libs.extend ref_libs
     \<lparr>rGET = (\<lambda>k m. str_val (m k)),
      rSET = doc_set,
      rSETNX = (\<lambda>k v t m. (m k = None, if m k = None then doc_set k v t m else m)),
      rDEL = (\<lambda>k m. m(k := None)),
      rINCR = (\<lambda>k m. (num_val (m k) + 1, doc_incrby 1 k m)),
      rDECR = (\<lambda>k m. (num_val (m k) - 1, doc_incrby (- 1) k m)),
      rEXPIRE = doc_expire,
      rSISMEMBER = (\<lambda>k x m. x \<in> set_val (m k)),
      rSADD = doc_sadd,
      rSREM = doc_srem,
      rHGET = (\<lambda>k f m. hash_val (m k) f),
      rHMSET = doc_hmset,
      rZADD = doc_zadd,
      rZREMRANGEBYRANK = doc_zremrangebyrank,
      rZREVRANGEBYSCORE = (\<lambda>k mx n m. zset_revrange mx n (zset_val (m k))),
      rXADD = (\<lambda>k n fs m. let i = Suc (xlast (stream_val (m k)))
                           in (i, doc_stream (stream_add i fs) k m)),
      rXGROUP = (\<lambda>k g m. (xgroups (stream_val (m k)) g = None, doc_stream (stream_group g) k m)),
      rXREADGROUP = (\<lambda>k g n m. (take n (stream_undelivered g (stream_val (m k))),
                                 doc_stream (stream_readgroup g n) k m)),
      rXACK = (\<lambda>k g ids m. doc_stream (stream_ack g ids) k m),
      rBFEXISTS = (\<lambda>k x m. x \<in> bloom_val (m k)),
      rBFADD = doc_bfadd,
      rBFRESERVE = (\<lambda>k m. (m k = None, if m k = None then m(k \<mapsto> (RBloom {}, None)) else m)),
      rBFINFO = (\<lambda>k m. m k \<noteq> None),
      rELAPSE = doc_elapse\<rparr>"

lemma ref_redis_simps [simp]:
  "uuid_str ref_redis = ref_uuid_str"
  "uuid_parse ref_redis = ref_uuid_parse"
  "rGET ref_redis k m = str_val (m k)"
  "rSET ref_redis k v t m = doc_set k v t m"
  "rSETNX ref_redis k v t m = (m k = None, if m k = None then doc_set k v t m else m)"
  "rDEL ref_redis k m = m(k := None)"
  "rINCR ref_redis k m = (num_val (m k) + 1, doc_incrby 1 k m)"
  "rDECR ref_redis k m = (num_val (m k) - 1, doc_incrby (- 1) k m)"
  "rEXPIRE ref_redis k n m = doc_expire k n m"
  "rSISMEMBER ref_redis k x m \<longleftrightarrow> x \<in> set_val (m k)"
  "rSADD ref_redis k x m = doc_sadd k x m"
  "rSREM ref_redis k x m = doc_srem k x m"
  "rHGET ref_redis k f m = hash_val (m k) f"
  "rHMSET ref_redis k fs m = doc_hmset k fs m"
  "rZADD ref_redis k es m = doc_zadd k es m"
  "rZREMRANGEBYRANK ref_redis k a b m = doc_zremrangebyrank k a b m"
  "rZREVRANGEBYSCORE ref_redis k mx n m = zset_revrange mx n (zset_val (m k))"
  "rXADD ref_redis k n ff m = (Suc (xlast (stream_val (m k))),
     doc_stream (stream_add (Suc (xlast (stream_val (m k)))) ff) k m)"
  "rXGROUP ref_redis k g m = (xgroups (stream_val (m k)) g = None, doc_stream (stream_group g) k m)"
  "rXREADGROUP ref_redis k g n m = (take n (stream_undelivered g (stream_val (m k))),
     doc_stream (stream_readgroup g n) k m)"
  "rXACK ref_redis k g ids m = doc_stream (stream_ack g ids) k m"
  "rBFEXISTS ref_redis k x m \<longleftrightarrow> x \<in> bloom_val (m k)"
  "rBFADD ref_redis k xs m = doc_bfadd k xs m"
  "rBFRESERVE ref_redis k m = (m k = None, if m k = None then m(k \<mapsto> (RBloom {}, None)) else m)"
  "rBFINFO ref_redis k m \<longleftrightarrow> m k \<noteq> None"
  "rELAPSE ref_redis d m = doc_elapse d m"
  by (simp_all add: ref_redis_def ref_libs_def libs.defs Let_def)

lemma doc_other [simp]:
  "k' \<noteq> k \<Longrightarrow> doc_set k v t m k' = m k'"
  "k' \<noteq> k \<Longrightarrow> doc_incrby d k m k' = m k'"
  "k' \<noteq> k \<Longrightarrow> doc_expire k n m k' = m k'"
  "k' \<noteq> k \<Longrightarrow> doc_sadd k x m k' = m k'"
  "k' \<noteq> k \<Longrightarrow> doc_srem k x m k' = m k'"
  "k' \<noteq> k \<Longrightarrow> doc_hmset k fs m k' = m k'"
  "k' \<noteq> k \<Longrightarrow> doc_zadd k es m k' = m k'"
  "k' \<noteq> k \<Longrightarrow> doc_zremrangebyrank k a b m k' = m k'"
  "k' \<noteq> k \<Longrightarrow> doc_stream f k m k' = m k'"
  "k' \<noteq> k \<Longrightarrow> doc_bfadd k xs m k' = m k'"
  by (simp_all add: doc_defs Let_def split: option.splits prod.splits)

interpretation ref_redis: redis_server ref_redis "\<lambda>m. m"
proof (intro redis_server.intro redis_server_axioms.intro)
  show "uuid_lib ref_redis"
    using ref_uuid.parse_str ref_uuid.str_chars ref_uuid.str_length
    by (simp add: uuid_lib_def ref_libs_def)
qed simp_all

section \<open>Facts about the documented operations\<close>

lemma doc_same [simp]:
  "doc_set k v t m k = Some (RStr v, t)"
  "doc_incrby d k m k = Some (RStr (format_int (num_val (m k) + d)), ttl_of (m k))"
  "doc_sadd k x m k = Some (RSet (insert x (set_val (m k))), ttl_of (m k))"
  "set_val (doc_srem k x m k) = set_val (m k) - {x}"
  "is_set (doc_srem k x m k)"
  "doc_hmset k fs m k = Some (RHash (hash_val (m k) ++ map_of (rev fs)), ttl_of (m k))"
  "doc_stream f k m k = Some (RStream (f (stream_val (m k))), ttl_of (m k))"
  "doc_bfadd k xs m k = Some (RBloom (set xs \<union> bloom_val (m k)), ttl_of (m k))"
  by (simp_all add: doc_defs Let_def)

end
