(* ===== verification/World.thy ===== *)
theory World
  imports Redis
begin

text \<open>
  The rows of the three stores and the world a request runs in. The Postgres tables are those
  of the migrations under \<open>migrations/postgres\<close>, the ClickHouse tables those of
  \<open>migrations/clickhouse\<close>; the SQL of the repositories is translated, statement by statement,
  into functions over them. Each store is reached over a link with its own schedule of
  outages (see theory Prelude). Times are Go instants, counted in nanoseconds from the zero
  time; database clocks, generated ids and random secrets are arguments of the operations
  that read them.
\<close>

type_synonym gotime = int

definition unix_epoch :: gotime where
  "unix_epoch = 62135596800 * 1000000000"

definition unix_micro :: "gotime \<Rightarrow> int" where
  "unix_micro t = (t - unix_epoch) div 1000"

definition unix_milli :: "gotime \<Rightarrow> int" where
  "unix_milli t = (t - unix_epoch) div 1000000"

text \<open>A Go duration as the expiry of a Redis key: none for a duration that is not positive, whole
  milliseconds otherwise (at least one).\<close>

definition redis_ttl :: "int \<Rightarrow> nat option" where
  "redis_ttl d = (if d \<le> 0 then None else Some (max 1 (nat (d div 1000000))))"

section \<open>Rows\<close>

record user =
  u_id :: uuid
  u_email :: string
  u_password_hash :: string
  u_created_at :: gotime

record video =
  v_id :: uuid
  v_user_id :: uuid
  v_title :: string
  v_description :: string
  v_video_url :: string
  v_duration_sec :: int
  v_created_at :: gotime

record product =
  p_id :: uuid
  p_video_id :: uuid
  p_name :: string
  p_price_cents :: int
  p_currency :: string
  p_image_url :: string
  p_created_at :: gotime

record stats_row =
  s_video_id :: uuid
  s_likes_count :: int
  s_views_count :: int
  s_updated_at :: gotime

record postgres =
  users :: "user list"
  videos :: "video list"
  products :: "product list"
  likes :: "(uuid \<times> uuid) list"
  video_stats :: "stats_row list"

record view_row =
  vr_event_time :: int
  vr_video_id :: uuid
  vr_viewer_id :: "uuid option"
  vr_ip_hash :: string
  vr_country :: string
  vr_ua_hash :: string
  vr_is_unique :: nat

record daily_row =
  d_day :: int
  d_video_id :: uuid
  d_views :: nat
  d_unique_views :: nat

record clickhouse =
  video_views :: "view_row list"
  video_views_daily :: "daily_row list"

section \<open>The world and its calls\<close>

record 's world =
  srv :: 's
  net :: "link list"
  pg :: postgres
  pgnet :: "link list"
  ch :: clickhouse
  chnet :: "link list"

definition empty_postgres :: postgres where
  "empty_postgres = \<lparr>users = [], videos = [], products = [], likes = [], video_stats = []\<rparr>"

definition empty_clickhouse :: clickhouse where
  "empty_clickhouse = \<lparr>video_views = [], video_views_daily = []\<rparr>"

definition new_world :: "'s \<Rightarrow> 's world" where
  "new_world s = \<lparr>srv = s, net = [], pg = empty_postgres, pgnet = [], ch = empty_clickhouse,
     chnet = []\<rparr>"

definition redis_call :: "('s \<Rightarrow> 'a \<times> 's) \<Rightarrow> 's world \<Rightarrow> 'a result \<times> 's world" where
  "redis_call f w =
     (let (r, s, ls) = link_call (net w) f (srv w) in (r, w\<lparr>srv := s, net := ls\<rparr>))"

definition pg_call :: "(postgres \<Rightarrow> 'a \<times> postgres) \<Rightarrow> 's world \<Rightarrow> 'a result \<times> 's world" where
  "pg_call f w =
     (let (r, d, ls) = link_call (pgnet w) f (pg w) in (r, w\<lparr>pg := d, pgnet := ls\<rparr>))"

definition ch_call :: "(clickhouse \<Rightarrow> 'a \<times> clickhouse) \<Rightarrow> 's world \<Rightarrow> 'a result \<times> 's world" where
  "ch_call f w =
     (let (r, d, ls) = link_call (chnet w) f (ch w) in (r, w\<lparr>ch := d, chnet := ls\<rparr>))"

text \<open>A read-only statement or command.\<close>

abbreviation reading :: "('s \<Rightarrow> 'a) \<Rightarrow> 's \<Rightarrow> 'a \<times> 's" where
  "reading f \<equiv> (\<lambda>s. (f s, s))"

abbreviation writing :: "('s \<Rightarrow> 's) \<Rightarrow> 's \<Rightarrow> unit \<times> 's" where
  "writing f \<equiv> (\<lambda>s. ((), f s))"

text \<open>The outcomes of a call, and what it leaves alone.\<close>

lemma redis_call_cases:
  assumes "redis_call f w = (r, w')"
  obtains a where "r = Inr a" and "f (srv w) = (a, srv w')"
    | e where "r = Inl (Plain e)" and "srv w' = srv w"
    | e where "r = Inl (Plain e)" and "srv w' = snd (f (srv w))"
proof -
  obtain s ls where "link_call (net w) f (srv w) = (r, s, ls)" and "w' = w\<lparr>srv := s, net := ls\<rparr>"
    using assms by (auto simp: redis_call_def split: prod.splits)
  then show ?thesis by (cases rule: link_call_cases) (auto intro: that)
qed

lemma pg_call_cases:
  assumes "pg_call f w = (r, w')"
  obtains a where "r = Inr a" and "f (pg w) = (a, pg w')"
    | e where "r = Inl (Plain e)" and "pg w' = pg w"
    | e where "r = Inl (Plain e)" and "pg w' = snd (f (pg w))"
proof -
  obtain s ls where "link_call (pgnet w) f (pg w) = (r, s, ls)" and "w' = w\<lparr>pg := s, pgnet := ls\<rparr>"
    using assms by (auto simp: pg_call_def split: prod.splits)
  then show ?thesis by (cases rule: link_call_cases) (auto intro: that)
qed

lemma ch_call_cases:
  assumes "ch_call f w = (r, w')"
  obtains a where "r = Inr a" and "f (ch w) = (a, ch w')"
    | e where "r = Inl (Plain e)" and "ch w' = ch w"
    | e where "r = Inl (Plain e)" and "ch w' = snd (f (ch w))"
proof -
  obtain s ls where "link_call (chnet w) f (ch w) = (r, s, ls)" and "w' = w\<lparr>ch := s, chnet := ls\<rparr>"
    using assms by (auto simp: ch_call_def split: prod.splits)
  then show ?thesis by (cases rule: link_call_cases) (auto intro: that)
qed

lemma redis_call_frame [link_simps]:
  "pg (snd (redis_call f w)) = pg w"
  "pgnet (snd (redis_call f w)) = pgnet w"
  "ch (snd (redis_call f w)) = ch w"
  "chnet (snd (redis_call f w)) = chnet w"
  by (simp_all add: redis_call_def split: prod.splits)

lemma pg_call_frame [link_simps]:
  "srv (snd (pg_call f w)) = srv w"
  "net (snd (pg_call f w)) = net w"
  "ch (snd (pg_call f w)) = ch w"
  "chnet (snd (pg_call f w)) = chnet w"
  by (simp_all add: pg_call_def split: prod.splits)

lemma redis_call_stores:
  "redis_call f w = (r, w') \<Longrightarrow> pg w' = pg w \<and> pgnet w' = pgnet w \<and> ch w' = ch w \<and> chnet w' = chnet w"
  using redis_call_frame [of f w] by simp

lemma ch_call_frame [link_simps]:
  "srv (snd (ch_call f w)) = srv w"
  "net (snd (ch_call f w)) = net w"
  "pg (snd (ch_call f w)) = pg w"
  "pgnet (snd (ch_call f w)) = pgnet w"
  by (simp_all add: ch_call_def split: prod.splits)

lemma redis_call_up [link_simps]:
  "net w = [] \<Longrightarrow> redis_call f w = (Inr (fst (f (srv w))), w\<lparr>srv := snd (f (srv w))\<rparr>)"
  by (cases w) (simp add: redis_call_def split: prod.splits)

lemma pg_call_up [link_simps]:
  "pgnet w = [] \<Longrightarrow> pg_call f w = (Inr (fst (f (pg w))), w\<lparr>pg := snd (f (pg w))\<rparr>)"
  by (cases w) (simp add: pg_call_def split: prod.splits)

lemma ch_call_up [link_simps]:
  "chnet w = [] \<Longrightarrow> ch_call f w = (Inr (fst (f (ch w))), w\<lparr>ch := snd (f (ch w))\<rparr>)"
  by (cases w) (simp add: ch_call_def split: prod.splits)

text \<open>A call whose operation keeps a property of the store keeps it whatever the link does.\<close>

lemma redis_call_keeps:
  "redis_call f w = (r, w') \<Longrightarrow> P (srv w) \<Longrightarrow> P (snd (f (srv w))) \<Longrightarrow> P (srv w')"
  by (erule redis_call_cases) auto

lemma pg_call_keeps:
  "pg_call f w = (r, w') \<Longrightarrow> P (pg w) \<Longrightarrow> P (snd (f (pg w))) \<Longrightarrow> P (pg w')"
  by (erule pg_call_cases) auto

lemma pg_call_read:
  "pg_call (reading f) w = (r, w') \<Longrightarrow> pg w' = pg w \<and> (\<forall>a. r = Inr a \<longrightarrow> a = f (pg w))"
  by (erule pg_call_cases) auto

lemma redis_call_read:
  "redis_call (reading f) w = (r, w') \<Longrightarrow> srv w' = srv w \<and> (\<forall>a. r = Inr a \<longrightarrow> a = f (srv w))"
  by (erule redis_call_cases) auto

lemma ch_call_read:
  "ch_call (reading f) w = (r, w') \<Longrightarrow> ch w' = ch w \<and> (\<forall>a. r = Inr a \<longrightarrow> a = f (ch w))"
  by (erule ch_call_cases) auto

section \<open>SQL statements that can fail\<close>

text \<open>
  A statement runs to completion or is refused as a whole by a constraint, leaving the tables
  as they were. \<open>NoRows\<close> is pgx's \<open>ErrNoRows\<close>; \<open>ConnErr\<close> a failure of the link.
\<close>

datatype sqlstate = UniqueViolation | ForeignKeyViolation | CheckViolation

datatype pgerr = SqlState sqlstate | NoRows | ConnErr goerr

fun pg_goerr :: "pgerr \<Rightarrow> goerr" where
  "pg_goerr (SqlState UniqueViolation) = Plain ''SQLSTATE 23505''"
| "pg_goerr (SqlState ForeignKeyViolation) = Plain ''SQLSTATE 23503''"
| "pg_goerr (SqlState CheckViolation) = Plain ''SQLSTATE 23514''"
| "pg_goerr NoRows = Plain ''no rows in result set''"
| "pg_goerr (ConnErr e) = e"

definition pg_exec ::
  "(postgres \<Rightarrow> (pgerr + 'a) \<times> postgres) \<Rightarrow> 's world \<Rightarrow> (pgerr + 'a) \<times> 's world"
where
  "pg_exec f w =
     (case pg_call f w of (Inl e, w') \<Rightarrow> (Inl (ConnErr e), w') | (Inr r, w') \<Rightarrow> (r, w'))"

lemma pg_exec_cases:
  assumes "pg_exec f w = (r, w')"
  obtains "f (pg w) = (r, pg w')"
    | e where "r = Inl (ConnErr e)" and "pg w' = pg w"
    | e where "r = Inl (ConnErr e)" and "pg w' = snd (f (pg w))"
  using assms
  by (auto simp: pg_exec_def split: prod.splits sum.splits elim!: pg_call_cases intro: that)

lemma pg_exec_frame [link_simps]:
  "srv (snd (pg_exec f w)) = srv w"
  "net (snd (pg_exec f w)) = net w"
  "ch (snd (pg_exec f w)) = ch w"
  "chnet (snd (pg_exec f w)) = chnet w"
  by (simp_all add: pg_exec_def pg_call_def split: prod.splits sum.splits)

lemma pg_exec_up [link_simps]:
  "pgnet w = [] \<Longrightarrow> pg_exec f w = (fst (f (pg w)), w\<lparr>pg := snd (f (pg w))\<rparr>)"
  by (simp add: pg_exec_def pg_call_up)

lemma pg_exec_keeps:
  "pg_exec f w = (r, w') \<Longrightarrow> P (pg w) \<Longrightarrow> P (snd (f (pg w))) \<Longrightarrow> P (pg w')"
  by (erule pg_exec_cases) auto

lemma pg_exec_read:
  "pg_exec (reading f) w = (r, w') \<Longrightarrow> pg w' = pg w \<and> (\<forall>a. r = Inr a \<longrightarrow> f (pg w) = Inr a)"
  by (erule pg_exec_cases) auto

lemma pg_exec_error:
  "pg_exec f w = (Inl e, w') \<Longrightarrow> f (pg w) = (Inl e, pg w') \<or> (\<exists>x. e = ConnErr (Plain x))"
  by (auto simp: pg_exec_def split: prod.splits sum.splits elim!: pg_call_cases)

lemma pg_goerr_plain: "(\<forall>x. e = ConnErr x \<longrightarrow> (\<exists>s. x = Plain s)) \<Longrightarrow> \<exists>s. pg_goerr e = Plain s"
  by (cases e rule: pg_goerr.cases) auto

section \<open>Links that are up stay up\<close>

lemma redis_call_net: "redis_call f w = (r, w') \<Longrightarrow> net w = [] \<Longrightarrow> net w' = [] \<and> (\<exists>a. r = Inr a)"
  by (auto simp: redis_call_def split: prod.splits)

lemma pg_call_net: "pg_call f w = (r, w') \<Longrightarrow> pgnet w = [] \<Longrightarrow> pgnet w' = [] \<and> (\<exists>a. r = Inr a)"
  by (auto simp: pg_call_def split: prod.splits)

lemma pg_exec_net: "pg_exec f w = (r, w') \<Longrightarrow> pgnet w = [] \<Longrightarrow> pgnet w' = [] \<and> (r, pg w') = f (pg w)"
  by (auto simp: pg_exec_def pg_call_def split: prod.splits sum.splits)

end
