(* ===== verification/Httpx.thy ===== *)
theory Httpx
  imports Prelude
begin

text \<open>
  \<open>internal/platform/httpx\<close>: the response envelope every handler writes, the request-id and
  access-log middleware, and the shape of a Gin middleware (it aborts with a response or lets
  the request continue with a context). JSON rendering and the socket are not modelled: a
  handler's result is the response record.
\<close>

datatype meta =
    NoMeta
  | PageMeta string int int
  | RetryMeta int
  | DetailMeta string
  | DepsMeta "(string \<times> string) list"

record 'd response =
  status :: nat
  resp_code :: string
  resp_message :: string
  resp_data :: "'d option"
  resp_meta :: meta

definition httpx_ok :: "'d \<Rightarrow> 'd response" where
  "httpx_ok d = \<lparr>status = 200, resp_code = ''ok'', resp_message = [], resp_data = Some d,
     resp_meta = NoMeta\<rparr>"

definition httpx_ok_meta :: "'d \<Rightarrow> meta \<Rightarrow> 'd response" where
  "httpx_ok_meta d m = \<lparr>status = 200, resp_code = ''ok'', resp_message = [], resp_data = Some d,
     resp_meta = m\<rparr>"

definition httpx_created :: "'d \<Rightarrow> 'd response" where
  "httpx_created d = \<lparr>status = 201, resp_code = ''created'', resp_message = [], resp_data = Some d,
     resp_meta = NoMeta\<rparr>"

definition httpx_accepted :: "'d \<Rightarrow> 'd response" where
  "httpx_accepted d = \<lparr>status = 202, resp_code = ''accepted'', resp_message = [],
     resp_data = Some d, resp_meta = NoMeta\<rparr>"

definition httpx_error :: "nat \<Rightarrow> string \<Rightarrow> string \<Rightarrow> 'd response" where
  "httpx_error st c m = \<lparr>status = st, resp_code = c, resp_message = m, resp_data = None,
     resp_meta = NoMeta\<rparr>"

definition httpx_error_detail :: "nat \<Rightarrow> string \<Rightarrow> string \<Rightarrow> meta \<Rightarrow> 'd response" where
  "httpx_error_detail st c m d = \<lparr>status = st, resp_code = c, resp_message = m, resp_data = None,
     resp_meta = d\<rparr>"

lemmas httpx_defs = httpx_ok_def httpx_ok_meta_def httpx_created_def httpx_accepted_def
  httpx_error_def httpx_error_detail_def

text \<open>The outcome of a middleware: \<open>c.Next()\<close> with the context it set, or an abort.\<close>

datatype ('c, 'd) middleware = Next 'c | Abort "'d response"

text \<open>The request id: the caller's header if there is one, a fresh UUID otherwise.\<close>

definition request_id :: "string \<Rightarrow> string \<Rightarrow> string" where
  "request_id header fresh = (if header = [] then fresh else header)"

datatype severity = LogInfo | LogWarn | LogError

definition access_log_level :: "nat \<Rightarrow> severity" where
  "access_log_level st = (if 500 \<le> st then LogError else if 400 \<le> st then LogWarn else LogInfo)"

text \<open>\<open>Recover\<close>: a handler that panics (\<open>None\<close>) becomes a 500 with the usual envelope.\<close>

definition recover :: "'d response option \<Rightarrow> 'd response" where
  "recover r = (case r of
       Some x \<Rightarrow> x
     | None \<Rightarrow> httpx_error 500 ''internal_error'' ''internal server error'')"

end
