(* ===== verification/RateLimit.thy ===== *)
theory RateLimit
  imports World Httpx
begin

text \<open>
  \<open>internal/platform/ratelimit\<close>: the leaky-bucket Lua script, the Go client that runs it and
  the Gin middleware. Lua numbers and \<open>float64\<close> are exact rationals here (their rounding is
  not modelled); \<open>last_ms\<close> and \<open>level\<close> are the two fields of the bucket's hash. The leak
  rate is positive wherever a theorem needs the script's division to be meaningful.
\<close>

section \<open>The model\<close>

record policy =
  pol_capacity :: int
  pol_leak_per_second :: rat
  pol_ttl :: int

record lb_result =
  lb_allowed :: bool
  lb_remaining :: int
  lb_retry_after :: int

definition leaky_bucket_script ::
  "('s, 'z) redis_scheme \<Rightarrow> string \<Rightarrow> rat \<Rightarrow> rat \<Rightarrow> rat \<Rightarrow> rat \<Rightarrow> nat \<Rightarrow> 's \<Rightarrow> (int \<times> int \<times> int) \<times> 's"
where
  "leaky_bucket_script R key capacity leak_rate now_ms cost ttl s =
     (let level = (case rHGET R key ''level'' s of Some l \<Rightarrow> l | None \<Rightarrow> 0);
          last_ms = (case rHGET R key ''last_ms'' s of Some l \<Rightarrow> l | None \<Rightarrow> now_ms);
          elapsed_ms = max 0 (now_ms - last_ms);
          leaked = elapsed_ms / 1000 * leak_rate;
          level = max 0 (level - leaked);
          new_level = level + cost;
          (level, allowed, retry_after) =
            (if new_level \<le> capacity then (new_level, 1, 0)
             else (level, 0, \<lceil>(new_level - capacity) / leak_rate * 1000\<rceil>));
          s = rHMSET R key [(''level'', level), (''last_ms'', now_ms)] s;
          s = rEXPIRE R key (ttl * 1000) s;
          remaining = max 0 (capacity - level)
      in ((allowed, \<lfloor>remaining\<rfloor>, retry_after), s))"

definition second :: int where
  "second = 1000000000"

definition millisecond :: int where
  "millisecond = 1000000"

definition bucket_ttl :: "policy \<Rightarrow> nat" where
  "bucket_ttl p = (let ttl = go_div (pol_ttl p) second in nat (if ttl \<le> 0 then 3600 else ttl))"

definition bucket_allow ::
  "('s, 'z) redis_scheme \<Rightarrow> string \<Rightarrow> policy \<Rightarrow> int \<Rightarrow> int \<Rightarrow> 's world \<Rightarrow> lb_result result \<times> 's world"
where
  "bucket_allow R key p cost now w =
     (case redis_call (leaky_bucket_script R key (of_int (pol_capacity p)) (pol_leak_per_second p)
             (of_int now) (of_int cost) (bucket_ttl p)) w of
        (Inl e, w') \<Rightarrow> (Inl (Wrapped ''leaky bucket script'' e), w')
      | (Inr (allowed, remaining, retry_after_ms), w') \<Rightarrow>
          (Inr \<lparr>lb_allowed = (allowed = 1), lb_remaining = remaining,
                lb_retry_after = wrap64 (retry_after_ms * millisecond)\<rparr>, w'))"

text \<open>The middleware: fail open or closed on a backend error, 429 with \<open>Retry-After\<close> when the
  bucket is full. The context \<open>c\<close> is whatever the request carries.\<close>

record mw_config =
  mw_policy :: policy
  mw_fail_open :: bool

definition rate_limit_mw ::
  "('s, 'z) redis_scheme \<Rightarrow> mw_config \<Rightarrow> string \<Rightarrow> int \<Rightarrow> 'c \<Rightarrow> 's world
     \<Rightarrow> ('c, 'd) middleware \<times> 's world"
where
  "rate_limit_mw R cfg key now c w =
     (case bucket_allow R key (mw_policy cfg) 1 now w of
        (Inl e, w') \<Rightarrow>
          (if mw_fail_open cfg then Next c
           else Abort (httpx_error 503 ''service_unready'' ''rate limiter unavailable''), w')
      | (Inr res, w') \<Rightarrow>
          (if \<not> lb_allowed res then
             (let ra = go_div (lb_retry_after res) second; ra = (if ra < 1 then 1 else ra)
              in Abort (httpx_error_detail 429 ''rate_limited'' ''too many requests'' (RetryMeta ra)))
           else Next c, w'))"

section \<open>One request\<close>

text \<open>What is left of a level after \<open>d\<close> milliseconds, and the level of a stored bucket read at
  time \<open>now\<close>.\<close>

definition drain :: "rat \<Rightarrow> rat \<Rightarrow> rat \<Rightarrow> rat" where
  "drain leak level d = max 0 (level - max 0 d / 1000 * leak)"

definition level_at :: "rat \<Rightarrow> rat \<Rightarrow> entry option \<Rightarrow> rat" where
  "level_at leak now e =
     drain leak (case hash_val e ''level'' of Some l \<Rightarrow> l | None \<Rightarrow> 0)
       (now - (case hash_val e ''last_ms'' of Some l \<Rightarrow> l | None \<Rightarrow> now))"

lemma drain_nonneg [simp]: "0 \<le> drain leak level d"
  by (simp add: drain_def)

lemma drain_le: "0 \<le> leak \<Longrightarrow> 0 \<le> level \<Longrightarrow> drain leak level d \<le> level"
  by (simp add: drain_def)

lemma drain_empty [simp]: "0 \<le> leak \<Longrightarrow> drain leak 0 d = 0"
  by (simp add: drain_def)

lemma drain_zero [simp]: "0 \<le> level \<Longrightarrow> drain leak level 0 = level"
  by (simp add: drain_def)

lemma max_sub_sub: "0 \<le> (y :: rat) \<Longrightarrow> max 0 (max 0 (l - x) - y) = max 0 (l - (x + y))"
  by (simp add: max_def)

lemma drain_drain:
  assumes "0 \<le> leak" and "0 \<le> a" and "0 \<le> b"
  shows "drain leak (drain leak l a) b = drain leak l (a + b)"
proof -
  have "max 0 (max 0 (l - a / 1000 * leak) - b / 1000 * leak) =
      max 0 (l - (a / 1000 * leak + b / 1000 * leak))"
    using assms by (intro max_sub_sub) simp
  also have "a / 1000 * leak + b / 1000 * leak = (a + b) / 1000 * leak"
    by (simp add: add_divide_distrib distrib_right)
  finally show ?thesis using assms by (simp add: drain_def max_absorb2)
qed

text \<open>The script, seen through the keyspace: it decides by the drained level, stores the new
  level and the caller's clock, re-arms the time to live and touches no other key.\<close>

definition level_after :: "rat \<Rightarrow> rat \<Rightarrow> rat \<Rightarrow> rat" where
  "level_after capacity cost lv = (if lv + cost \<le> capacity then lv + cost else lv)"

context redis_server
begin

lemma script_reply:
  assumes "is_hash (ks s key)"
  shows "fst (leaky_bucket_script R key capacity leak now cost ttl s) =
    (let lv = level_at leak now (ks s key)
     in (if lv + cost \<le> capacity then 1 else 0,
         \<lfloor>max 0 (capacity - level_after capacity cost lv)\<rfloor>,
         if lv + cost \<le> capacity then 0 else \<lceil>(lv + cost - capacity) / leak * 1000\<rceil>))"
  using assms
  by (simp add: leaky_bucket_script_def Let_def hget level_at_def drain_def level_after_def)

lemma script_keyspace:
  assumes "is_hash (ks s key)"
  shows "\<exists>h. ks (snd (leaky_bucket_script R key capacity leak now cost ttl s)) =
      (ks s)(key \<mapsto> (RHash h, Some (ttl * 1000)))
    \<and> h ''level'' = Some (level_after capacity cost (level_at leak now (ks s key)))
    \<and> h ''last_ms'' = Some now"
  using assms
  by (auto simp: leaky_bucket_script_def Let_def hget hmset expire level_at_def drain_def
      level_after_def doc_expire_def doc_hmset_def)

text \<open>The level a later reader sees, with no request in between.\<close>

lemma script_level:
  assumes "is_hash (ks s key)"
  shows "level_at leak now' (ks (snd (leaky_bucket_script R key capacity leak now cost ttl s)) key) =
    drain leak (level_after capacity cost (level_at leak now (ks s key))) (now' - now)"
  using script_keyspace [OF assms, of capacity leak now cost ttl] by (auto simp: level_at_def)

lemma script_is_hash:
  assumes "is_hash (ks s key)"
  shows "is_hash (ks (snd (leaky_bucket_script R key capacity leak now cost ttl s)) key)"
  using script_keyspace [OF assms, of capacity leak now cost ttl] by auto

lemma script_frame:
  assumes "is_hash (ks s key)" and "k \<noteq> key"
  shows "ks (snd (leaky_bucket_script R key capacity leak now cost ttl s)) k = ks s k"
  using script_keyspace [OF assms(1), of capacity leak now cost ttl] assms(2) by auto

end

section \<open>Runs of requests\<close>

text \<open>A run: before each request \<open>d\<close> milliseconds pass on the server, then the request is
  charged with its caller's clock. In a paced run the caller's clock keeps the server's time.\<close>

fun bucket_run ::
  "('s, 'z) redis_scheme \<Rightarrow> string \<Rightarrow> rat \<Rightarrow> rat \<Rightarrow> nat \<Rightarrow> (nat \<times> rat) list \<Rightarrow> 's \<Rightarrow> bool list \<times> 's"
where
  "bucket_run R key capacity leak ttl [] s = ([], s)"
| "bucket_run R key capacity leak ttl ((d, now) # rs) s =
     (let ((a, _, _), s1) = leaky_bucket_script R key capacity leak now 1 ttl (rELAPSE R d s);
          (bs, s2) = bucket_run R key capacity leak ttl rs s1
      in ((a = 1) # bs, s2))"

fun paced :: "rat \<Rightarrow> nat list \<Rightarrow> (nat \<times> rat) list" where
  "paced t [] = []"
| "paced t (d # ds) = (d, t + of_nat d) # paced (t + of_nat d) ds"

lemma bucket_run_Cons:
  "fst (bucket_run R key capacity leak ttl ((d, now) # rs) s) =
     (let s1 = leaky_bucket_script R key capacity leak now 1 ttl (rELAPSE R d s)
      in (fst (fst s1) = 1) # fst (bucket_run R key capacity leak ttl rs (snd s1)))"
  by (simp add: Let_def split_beta)

definition admitted :: "bool list \<Rightarrow> nat" where
  "admitted bs = length (filter id bs)"

lemma admitted_simps [simp]:
  "admitted [] = 0" "admitted (True # bs) = Suc (admitted bs)" "admitted (False # bs) = admitted bs"
  by (simp_all add: admitted_def)

text \<open>The token bucket the package comment sets itself against: tokens accrue at the rate up to
  the capacity, a request takes one.\<close>

fun token_run :: "rat \<Rightarrow> rat \<Rightarrow> rat \<Rightarrow> nat list \<Rightarrow> bool list" where
  "token_run capacity rate tokens [] = []"
| "token_run capacity rate tokens (d # ds) =
     (let tokens = min capacity (tokens + of_nat d / 1000 * rate)
      in if 1 \<le> tokens then True # token_run capacity rate (tokens - 1) ds
         else False # token_run capacity rate tokens ds)"

text \<open>A bucket as requests at a common clock leave it: nothing stored, or a level within
  capacity, a clock reading not in the future, and the rest of the time to live.\<close>

definition bucket_inv :: "rat \<Rightarrow> nat \<Rightarrow> rat \<Rightarrow> entry option \<Rightarrow> bool" where
  "bucket_inv capacity ttl t e \<longleftrightarrow>
     e = None \<or> (\<exists>h lv last r. e = Some (RHash h, Some r) \<and> h ''level'' = Some lv \<and> h ''last_ms'' = Some last
       \<and> 0 \<le> lv \<and> lv \<le> capacity \<and> last \<le> t \<and> of_nat r + (t - last) = of_nat (ttl * 1000))"

lemma bucket_inv_is_hash: "bucket_inv capacity ttl t e \<Longrightarrow> is_hash e"
  by (auto simp: bucket_inv_def)

lemma bucket_inv_level:
  "bucket_inv capacity ttl t e \<Longrightarrow> 0 \<le> leak \<Longrightarrow> 0 \<le> capacity \<Longrightarrow>
     0 \<le> level_at leak t e \<and> level_at leak t e \<le> capacity"
proof -
  assume "bucket_inv capacity ttl t e" and nn: "0 \<le> leak" "0 \<le> capacity"
  then consider "e = None"
    | h lv last r where "e = Some (RHash h, Some r)" "h ''level'' = Some lv" "h ''last_ms'' = Some last"
      "0 \<le> lv" "lv \<le> capacity"
    by (auto simp: bucket_inv_def)
  then show ?thesis
  proof cases
    case 1
    with nn show ?thesis by (simp add: level_at_def)
  next
    case 2
    with drain_le [OF nn(1) 2(4), of "t - last"] show ?thesis by (simp add: level_at_def)
  qed
qed

text \<open>Letting time pass: an expired bucket had drained anyway, because the time to live covers
  the time a full bucket takes to drain.\<close>

lemma bucket_inv_elapse:
  assumes inv: "bucket_inv capacity ttl t (m key)" and leak: "0 \<le> leak"
    and covers: "capacity \<le> leak * of_nat ttl"
  shows "bucket_inv capacity ttl (t + of_nat d) (doc_elapse d m key)"
    and "level_at leak (t + of_nat d) (doc_elapse d m key) = drain leak (level_at leak t (m key)) (of_nat d)"
proof -
  consider "m key = None"
    | h lv last r where "m key = Some (RHash h, Some r)" "h ''level'' = Some lv" "h ''last_ms'' = Some last"
      "0 \<le> lv" "lv \<le> capacity" "last \<le> t" "of_nat r + (t - last) = of_nat (ttl * 1000)"
    using inv by (auto simp: bucket_inv_def)
  then have "bucket_inv capacity ttl (t + of_nat d) (doc_elapse d m key)
    \<and> level_at leak (t + of_nat d) (doc_elapse d m key) = drain leak (level_at leak t (m key)) (of_nat d)"
  proof cases
    case 1
    then show ?thesis using leak by (simp add: bucket_inv_def doc_elapse_def level_at_def)
  next
    case 2
    have merge: "drain leak (drain leak lv (t - last)) (of_nat d) = drain leak lv (t + of_nat d - last)"
      using 2 leak drain_drain [of leak "t - last" "of_nat d" lv] by (simp add: algebra_simps)
    show ?thesis
    proof (cases "r \<le> d")
      case True
      then have "(of_nat r :: rat) \<le> of_nat d" by simp
      then have "of_nat (ttl * 1000) \<le> t + of_nat d - last" using 2(7) by linarith
      then have "of_nat ttl \<le> (t + of_nat d - last) / 1000" by simp
      then have "leak * of_nat ttl \<le> leak * ((t + of_nat d - last) / 1000)"
        using leak by (intro mult_left_mono)
      then have "lv \<le> (t + of_nat d - last) / 1000 * leak"
        using 2(5) covers by (simp add: mult.commute)
      then have "drain leak lv (t + of_nat d - last) = 0"
        using 2(6) by (simp add: drain_def max_absorb2)
      with True 2 merge show ?thesis
        by (simp add: bucket_inv_def doc_elapse_def level_at_def)
    next
      case False
      then have "of_nat (r - d) = (of_nat r - of_nat d :: rat)" by (simp add: of_nat_diff)
      with False 2 merge show ?thesis
        by (auto simp: bucket_inv_def doc_elapse_def level_at_def)
    qed
  qed
  then show "bucket_inv capacity ttl (t + of_nat d) (doc_elapse d m key)"
    and "level_at leak (t + of_nat d) (doc_elapse d m key) = drain leak (level_at leak t (m key)) (of_nat d)"
    by simp_all
qed

lemma level_after_bounds:
  "0 \<le> lv \<Longrightarrow> lv \<le> capacity \<Longrightarrow> 0 \<le> cost \<Longrightarrow>
     0 \<le> level_after capacity cost lv \<and> level_after capacity cost lv \<le> capacity"
  by (simp add: level_after_def)

context redis_server
begin

lemma script_keeps_inv:
  assumes inv: "bucket_inv capacity ttl t (ks s key)" and "0 \<le> leak" "0 \<le> capacity" "0 \<le> cost"
  shows "bucket_inv capacity ttl t (ks (snd (leaky_bucket_script R key capacity leak t cost ttl s)) key)"
proof -
  have hash: "is_hash (ks s key)" using inv by (rule bucket_inv_is_hash)
  have "0 \<le> level_at leak t (ks s key) \<and> level_at leak t (ks s key) \<le> capacity"
    using bucket_inv_level [OF inv] assms by blast
  then show ?thesis
    using script_keyspace [OF hash, of capacity leak t cost ttl] assms(4)
    by (auto simp: bucket_inv_def level_after_bounds)
qed

text \<open>One step of a paced run: time passes, the request is decided by the drained level.\<close>

lemma paced_step:
  fixes d :: nat
  assumes inv: "bucket_inv capacity ttl t (ks s key)" and leak: "0 \<le> leak" and cap: "0 \<le> capacity"
    and covers: "capacity \<le> leak * of_nat ttl"
  defines "lv \<equiv> drain leak (level_at leak t (ks s key)) (of_nat d)"
  defines "s1 \<equiv> leaky_bucket_script R key capacity leak (t + of_nat d) 1 ttl (rELAPSE R d s)"
  shows "fst (fst s1) = (if lv + 1 \<le> capacity then 1 else 0)"
    and "bucket_inv capacity ttl (t + of_nat d) (ks (snd s1) key)"
    and "level_at leak (t + of_nat d) (ks (snd s1) key) = level_after capacity 1 lv"
proof -
  let ?s = "rELAPSE R d s" and ?t = "t + of_nat d"
  have e: "bucket_inv capacity ttl ?t (ks ?s key)" "level_at leak ?t (ks ?s key) = lv"
    using bucket_inv_elapse [where m = "ks s", OF inv leak covers] by (simp_all add: elapse lv_def)
  have hash: "is_hash (ks ?s key)" using e(1) by (rule bucket_inv_is_hash)
  show "fst (fst s1) = (if lv + 1 \<le> capacity then 1 else 0)"
    using script_reply [OF hash] e(2) by (simp add: s1_def Let_def)
  show "bucket_inv capacity ttl ?t (ks (snd s1) key)"
    unfolding s1_def by (rule script_keeps_inv [OF e(1) leak cap]) simp
  have "0 \<le> lv" by (simp add: lv_def)
  then have "0 \<le> level_after capacity 1 lv" by (simp add: level_after_def)
  then show "level_at leak ?t (ks (snd s1) key) = level_after capacity 1 lv"
    using script_level [OF hash] e(2) by (simp add: s1_def)
qed

lemma paced_run_bound:
  assumes "bucket_inv capacity ttl t (ks s key)" and "0 \<le> leak" and "0 \<le> capacity"
    and "capacity \<le> leak * of_nat ttl"
  shows "of_nat (admitted (fst (bucket_run R key capacity leak ttl (paced t ds) s)))
      + level_at leak t (ks s key) \<le> capacity + leak * of_nat (sum_list ds) / 1000"
  using assms(1)
proof (induction ds arbitrary: t s)
  case Nil
  then show ?case using bucket_inv_level assms(2,3) by simp
next
  case (Cons d ds)
  define s1 where "s1 = leaky_bucket_script R key capacity leak (t + of_nat d) 1 ttl (rELAPSE R d s)"
  let ?lv = "drain leak (level_at leak t (ks s key)) (of_nat d)"
  note step = paced_step [OF Cons.prems assms(2-4), of d, folded s1_def]
  let ?rest = "bucket_run R key capacity leak ttl (paced (t + of_nat d) ds) (snd s1)"
  have run: "fst (bucket_run R key capacity leak ttl (paced t (d # ds)) s) = (?lv + 1 \<le> capacity) # fst ?rest"
    using step(1) by (simp add: bucket_run_Cons s1_def [symmetric] Let_def del: bucket_run.simps)
  have "level_at leak t (ks s key) \<le> ?lv + leak * of_nat d / 1000"
    by (simp add: drain_def mult.commute)
  moreover have "of_nat (admitted (fst ?rest)) + level_after capacity 1 ?lv
      \<le> capacity + leak * of_nat (sum_list ds) / 1000"
    using Cons.IH [OF step(2)] step(3) by simp
  moreover have "of_nat (admitted ((?lv + 1 \<le> capacity) # fst ?rest)) + ?lv
      = of_nat (admitted (fst ?rest)) + level_after capacity 1 ?lv"
    by (simp add: level_after_def)
  ultimately show ?case
    unfolding run by (simp add: distrib_left add_divide_distrib)
qed

text \<open>A token bucket makes the same decisions: tokens are the room left in the bucket.\<close>

lemma paced_run_tokens:
  assumes "bucket_inv capacity ttl t (ks s key)" and "0 \<le> leak" and "0 \<le> capacity"
    and "capacity \<le> leak * of_nat ttl"
  shows "fst (bucket_run R key capacity leak ttl (paced t ds) s) =
    token_run capacity leak (capacity - level_at leak t (ks s key)) ds"
  using assms(1)
proof (induction ds arbitrary: t s)
  case Nil
  then show ?case by simp
next
  case (Cons d ds)
  define s1 where "s1 = leaky_bucket_script R key capacity leak (t + of_nat d) 1 ttl (rELAPSE R d s)"
  let ?lv = "drain leak (level_at leak t (ks s key)) (of_nat d)"
  note step = paced_step [OF Cons.prems assms(2-4), of d, folded s1_def]
  let ?rest = "bucket_run R key capacity leak ttl (paced (t + of_nat d) ds) (snd s1)"
  have run: "fst (bucket_run R key capacity leak ttl (paced t (d # ds)) s) = (?lv + 1 \<le> capacity) # fst ?rest"
    using step(1) by (simp add: bucket_run_Cons s1_def [symmetric] Let_def del: bucket_run.simps)
  have rest: "fst ?rest = token_run capacity leak (capacity - level_after capacity 1 ?lv) ds"
    using Cons.IH [OF step(2)] step(3) by simp
  have tokens: "min capacity (capacity - level_at leak t (ks s key) + of_nat d / 1000 * leak) = capacity - ?lv"
    by (simp add: drain_def min_def max_def)
  have enough: "1 \<le> capacity - ?lv \<longleftrightarrow> ?lv + 1 \<le> capacity"
    and taken: "capacity - (?lv + 1) = capacity - ?lv - 1" by linarith+
  show ?case
    unfolding run rest token_run.simps tokens Let_def enough level_after_def
    by (simp only: taken split: if_splits) simp
qed

text \<open>After a rejection, waiting \<open>j\<close> milliseconds is enough exactly when \<open>j\<close> reaches the
  \<open>retry_after\<close> of the reply.\<close>

lemma retry_after_exact:
  assumes inv: "bucket_inv capacity ttl t (ks s key)" and leak: "0 < leak" and cap: "1 \<le> capacity"
    and covers: "capacity \<le> leak * of_nat ttl"
    and reply: "leaky_bucket_script R key capacity leak t 1 ttl s = ((0, rem, ra), s')"
  shows "fst (fst (leaky_bucket_script R key capacity leak (t + of_nat j) 1 ttl (rELAPSE R j s'))) = 1
    \<longleftrightarrow> ra \<le> int j"
proof -
  let ?lv = "level_at leak t (ks s key)"
  have hash: "is_hash (ks s key)" using inv by (rule bucket_inv_is_hash)
  have lv: "0 \<le> ?lv" using bucket_inv_level [OF inv] leak cap by simp
  have full: "capacity < ?lv + 1" and ra: "ra = \<lceil>(?lv + 1 - capacity) / leak * 1000\<rceil>"
    using script_reply [OF hash, of capacity leak t 1 ttl] reply by (auto simp: Let_def split: if_splits)
  have inv': "bucket_inv capacity ttl t (ks s' key)" and lv': "level_at leak t (ks s' key) = ?lv"
    using script_keeps_inv [OF inv, of leak 1] script_level [OF hash, of leak t capacity t 1 ttl]
      reply leak cap lv full by (simp_all add: level_after_def)
  have "fst (fst (leaky_bucket_script R key capacity leak (t + of_nat j) 1 ttl (rELAPSE R j s'))) = 1
      \<longleftrightarrow> drain leak ?lv (of_nat j) + 1 \<le> capacity"
    using paced_step(1) [OF inv' _ _ covers, of j] leak cap lv' by simp
  also have "\<dots> \<longleftrightarrow> ?lv + 1 - capacity \<le> of_nat j / 1000 * leak"
    using cap by (auto simp: drain_def max_def)
  also have "\<dots> \<longleftrightarrow> (?lv + 1 - capacity) / leak * 1000 \<le> of_nat j"
    using leak by (simp add: field_simps)
  also have "\<dots> \<longleftrightarrow> ra \<le> int j" by (simp add: ra ceiling_le_iff)
  finally show ?thesis .
qed

end

section \<open>Outages and skewed clocks\<close>

text \<open>The weaker shape of a bucket that any clock and any outage keeps: a level within capacity.\<close>

definition bucket_ok :: "rat \<Rightarrow> entry option \<Rightarrow> bool" where
  "bucket_ok capacity e \<longleftrightarrow>
     e = None \<or> (\<exists>h t lv last. e = Some (RHash h, t) \<and> h ''level'' = Some lv \<and> h ''last_ms'' = Some last
       \<and> 0 \<le> lv \<and> lv \<le> capacity)"

lemma bucket_ok_is_hash: "bucket_ok capacity e \<Longrightarrow> is_hash e"
  by (auto simp: bucket_ok_def)

lemma bucket_ok_level:
  assumes "bucket_ok capacity e" and "0 \<le> leak" and "0 \<le> capacity"
  shows "0 \<le> level_at leak now e \<and> level_at leak now e \<le> capacity"
proof -
  from assms(1) consider "e = None"
    | h t lv last where "e = Some (RHash h, t)" "h ''level'' = Some lv" "h ''last_ms'' = Some last"
      "0 \<le> lv" "lv \<le> capacity"
    by (auto simp: bucket_ok_def)
  then show ?thesis
  proof cases
    case 1
    with assms show ?thesis by (simp add: level_at_def)
  next
    case 2
    with drain_le [OF assms(2) 2(4), of "now - last"] show ?thesis by (simp add: level_at_def)
  qed
qed

context redis_server
begin

lemma script_keeps_ok:
  assumes "bucket_ok capacity (ks s key)" and "0 \<le> leak" "0 \<le> capacity" "0 \<le> cost"
  shows "bucket_ok capacity (ks (snd (leaky_bucket_script R key capacity leak now cost ttl s)) key)"
  using script_keyspace [OF bucket_ok_is_hash [OF assms(1)], of capacity leak now cost ttl]
    bucket_ok_level [OF assms(1-3), of now] assms(4)
  by (auto simp: bucket_ok_def level_after_bounds)

lemma allow_reply:
  assumes "bucket_allow R key p cost now w = (Inr res, w')"
  obtains a rem ra where
    "leaky_bucket_script R key (of_int (pol_capacity p)) (pol_leak_per_second p) (of_int now) (of_int cost)
       (bucket_ttl p) (srv w) = ((a, rem, ra), srv w')"
    and "lb_allowed res = (a = 1)" and "lb_remaining res = rem"
    and "lb_retry_after res = wrap64 (ra * millisecond)"
  using assms by (auto simp: bucket_allow_def split: prod.splits sum.splits elim!: redis_call_cases)

lemma allow_keeps_ok:
  assumes "bucket_allow R key p cost now w = (r, w')" and "bucket_ok (of_int (pol_capacity p)) (ks (srv w) key)"
    and "0 \<le> pol_leak_per_second p" "0 \<le> pol_capacity p" "0 \<le> cost"
  shows "bucket_ok (of_int (pol_capacity p)) (ks (srv w') key)"
proof -
  let ?f = "leaky_bucket_script R key (of_int (pol_capacity p)) (pol_leak_per_second p) (of_int now)
    (of_int cost) (bucket_ttl p)"
  obtain x where "redis_call ?f w = (x, w')"
    using assms(1) by (auto simp: bucket_allow_def split: prod.splits sum.splits)
  moreover have "bucket_ok (of_int (pol_capacity p)) (ks (snd (?f (srv w))) key)"
    using assms(2-5) by (intro script_keeps_ok) simp_all
  ultimately show ?thesis
    using assms(2) redis_call_keeps [where P = "\<lambda>s. bucket_ok (of_int (pol_capacity p)) (ks s key)"]
    by blast
qed

text \<open>A clock that lags by \<open>skew\<close> leaves its own reading in the bucket, so the next request
  with the right clock leaks for \<open>skew\<close> milliseconds that never passed.\<close>

lemma skewed_round:
  fixes ttl :: nat
  assumes ok: "bucket_ok capacity (ks s key)" and last: "hash_val (ks s key) ''last_ms'' \<in> {None, Some (t - skew)}"
    and leak: "0 \<le> leak" and cap: "1 \<le> capacity" and skew: "0 \<le> skew" "1 \<le> leak * skew / 1000"
  defines "s1 \<equiv> leaky_bucket_script R key capacity leak t 1 ttl (rELAPSE R 0 s)"
  defines "s2 \<equiv> leaky_bucket_script R key capacity leak (t - skew) 1 ttl (rELAPSE R 0 (snd s1))"
  assumes ttl: "ttl_of (ks s key) \<noteq> Some 0" "0 < ttl"
  shows "fst (fst s1) = 1" and "bucket_ok capacity (ks (snd s2) key)"
    and "hash_val (ks (snd s2) key) ''last_ms'' = Some (t - skew)"
    and "ttl_of (ks (snd s2) key) \<noteq> Some 0"
proof -
  have still: "ks (rELAPSE R 0 x) key = ks x key" if "ttl_of (ks x key) \<noteq> Some 0" for x
    using that by (cases "ks x key") (auto simp: elapse doc_elapse_def split: option.splits)
  have e0: "ks (rELAPSE R 0 s) key = ks s key" by (rule still [OF ttl(1)])
  have ok0: "bucket_ok capacity (ks (rELAPSE R 0 s) key)" using ok e0 by simp
  have low: "level_at leak t (ks s key) + 1 \<le> capacity"
  proof (cases "ks s key")
    case None
    then show ?thesis using leak cap by (simp add: level_at_def)
  next
    case (Some e)
    then obtain h r lv where "e = (RHash h, r)" "h ''level'' = Some lv" "lv \<le> capacity"
      "h ''last_ms'' = Some (t - skew)"
      using ok last by (auto simp: bucket_ok_def)
    then show ?thesis using Some skew cap by (simp add: level_at_def drain_def mult.commute)
  qed
  then show "fst (fst s1) = 1"
    using script_reply [OF bucket_ok_is_hash [OF ok0]] e0 by (simp add: s1_def Let_def)
  have ok1: "bucket_ok capacity (ks (snd s1) key)"
    unfolding s1_def using ok0 leak cap by (intro script_keeps_ok) simp_all
  have "ttl_of (ks (snd s1) key) \<noteq> Some 0"
    using script_keyspace [OF bucket_ok_is_hash [OF ok0], of capacity leak t 1 ttl] ttl(2)
    by (auto simp: s1_def)
  then have ok1': "bucket_ok capacity (ks (rELAPSE R 0 (snd s1)) key)" using ok1 still by simp
  show "bucket_ok capacity (ks (snd s2) key)"
    unfolding s2_def using ok1' leak cap by (intro script_keeps_ok) simp_all
  show "hash_val (ks (snd s2) key) ''last_ms'' = Some (t - skew)"
    and "ttl_of (ks (snd s2) key) \<noteq> Some 0"
    using script_keyspace [OF bucket_ok_is_hash [OF ok1'], of capacity leak "t - skew" 1 ttl] ttl(2)
    by (auto simp: s2_def)
qed

lemma skewed_run:
  assumes "0 \<le> leak" "1 \<le> capacity" "0 \<le> skew" "1 \<le> leak * skew / 1000" "0 < ttl"
    and "bucket_ok capacity (ks s key)" "hash_val (ks s key) ''last_ms'' \<in> {None, Some (t - skew)}"
    "ttl_of (ks s key) \<noteq> Some 0"
  shows "n \<le> admitted (fst (bucket_run R key capacity leak ttl
      (concat (replicate n [(0, t), (0, t - skew)])) s))"
  using assms(6-)
proof (induction n arbitrary: s)
  case 0
  then show ?case by simp
next
  case (Suc n)
  define s1 where "s1 = leaky_bucket_script R key capacity leak t 1 ttl (rELAPSE R 0 s)"
  define s2 where "s2 = leaky_bucket_script R key capacity leak (t - skew) 1 ttl (rELAPSE R 0 (snd s1))"
  note r = skewed_round [OF Suc.prems(1,2) assms(1-4) Suc.prems(3) assms(5), folded s1_def, folded s2_def]
  have "n \<le> admitted (fst (bucket_run R key capacity leak ttl
      (concat (replicate n [(0, t), (0, t - skew)])) (snd s2)))"
    using r by (intro Suc.IH) simp_all
  then show ?case
    using r(1) by (simp add: bucket_run_Cons s1_def [symmetric] s2_def [symmetric] Let_def
        admitted_def del: bucket_run.simps)
qed

end

section \<open>Properties\<close>

text \<open>C5. Rate bound of the leaky bucket: whatever the arrival times, the requests admitted on
  one key in a window never exceed the capacity plus what leaks during the window (less what
  the bucket already held), also when Redis expires the idle key, because the time to live
  covers a full drain. Callers' clocks agree with the server's.\<close>

theorem rate_limit_admission_bound:
  assumes "redis_server R ks" and "bucket_inv capacity ttl t (ks s key)"
    and "0 \<le> leak" and "0 \<le> capacity" and "capacity \<le> leak * of_nat ttl"
  shows "of_nat (admitted (fst (bucket_run R key capacity leak ttl (paced t ds) s)))
      \<le> capacity + leak * of_nat (sum_list ds) / 1000 - level_at leak t (ks s key)"
  using redis_server.paced_run_bound [OF assms, of ds] by linarith

theorem rate_limit_admission_bound_witness:
  "of_nat (admitted (fst (bucket_run ref_redis ''bucket:login:ip'' 10 (1 / 6) 3600
       (paced 0 [0, 0, 5000]) (\<lambda>_. None)))) \<le> (10 + 1 / 6 * 5000 / 1000 - 0 :: rat)"
  using rate_limit_admission_bound [OF ref_redis.redis_server_axioms,
      of 10 3600 0 "\<lambda>_. None" "''bucket:login:ip''" "1 / 6" "[0, 0, 5000]"]
  by (simp add: bucket_inv_def level_at_def)




text \<open>A full bucket of capacity 1, last touched at time 0, and half a second later.\<close>

definition full_bucket :: keyspace where
  "full_bucket = (\<lambda>_. None)(''b'' \<mapsto> (RHash [''level'' \<mapsto> 1, ''last_ms'' \<mapsto> 0], Some 3600000))"


text \<open>Outages never corrupt a bucket: whatever the link does (up, refused, reply lost), and
  whatever the callers' clocks say, the stored level stays between 0 and the capacity.\<close>

theorem bucket_level_within_capacity:
  assumes "redis_server R ks" and "bucket_allow R key p cost now w = (r, w')"
    and "bucket_ok (of_int (pol_capacity p)) (ks (srv w) key)"
    and "0 \<le> pol_leak_per_second p" and "0 \<le> pol_capacity p" and "0 \<le> cost"
  shows "bucket_ok (of_int (pol_capacity p)) (ks (srv w') key)"
  by (rule redis_server.allow_keeps_ok [OF assms])

theorem bucket_level_within_capacity_witness:
  "bucket_ok 1 (srv (snd (bucket_allow ref_redis ''b'' \<lparr>pol_capacity = 1, pol_leak_per_second = 1 / 10, pol_ttl = 0\<rparr>
      1 500 ((new_world full_bucket)\<lparr>net := [ReplyLost]\<rparr>))) ''b'')"
proof -
  let ?a = "bucket_allow ref_redis ''b'' \<lparr>pol_capacity = 1, pol_leak_per_second = 1 / 10, pol_ttl = 0\<rparr>
      1 500 ((new_world full_bucket)\<lparr>net := [ReplyLost]\<rparr>)"
  have "?a = (fst ?a, snd ?a)" by simp
  from bucket_level_within_capacity [OF ref_redis.redis_server_axioms this] show ?thesis
    by (simp add: new_world_def bucket_ok_def full_bucket_def)
qed

text \<open>The admission bound needs agreeing clocks. Two callers whose clocks differ by a \<open>skew\<close> that
  leaks at least one unit, taking turns, get any number of requests through in no time at
  all: the lagging clock is stored, and the leading one then leaks time that never passed.\<close>

theorem skewed_clocks_defeat_the_limit:
  assumes "redis_server R ks" and "0 \<le> leak" and "1 \<le> capacity" and "0 \<le> skew"
    and "1 \<le> leak * skew / 1000" and "0 < ttl" and "ks s key = None"
  shows "n \<le> admitted (fst (bucket_run R key capacity leak ttl
      (concat (replicate n [(0, t), (0, t - skew)])) s))"
  using assms by (intro redis_server.skewed_run [OF assms(1-6)]) (simp_all add: bucket_ok_def)

theorem skewed_clocks_defeat_the_limit_witness:
  "1000 \<le> admitted (fst (bucket_run ref_redis ''bucket:login:ip'' 10 (1 / 6) 3600
      (concat (replicate 1000 [(0, 60000), (0, 54000)])) (\<lambda>_. None)))"
  using skewed_clocks_defeat_the_limit [OF ref_redis.redis_server_axioms,
      of "1 / 6" 10 6000 3600 "\<lambda>_. None" "''bucket:login:ip''" 1000 60000] by simp

text \<open>The middleware lets a request through exactly when the bucket admits it or the backend
  failed and the route fails open; a backend failure on a fail-closed route is a 503, and a
  full bucket a 429 whose \<open>Retry-After\<close> is at least one second.\<close>

theorem middleware_decision:
  "case rate_limit_mw R cfg key now c w of (m, w') \<Rightarrow>
     (case bucket_allow R key (mw_policy cfg) 1 now w of
        (Inl e, _) \<Rightarrow> (if mw_fail_open cfg then m = Next c
                       else (\<exists>r. m = Abort r \<and> status r = 503))
      | (Inr res, _) \<Rightarrow> (if lb_allowed res then m = Next c
                       else (\<exists>r ra. m = Abort r \<and> status r = 429 \<and> resp_meta r = RetryMeta ra \<and> 1 \<le> ra)))"
  by (simp add: rate_limit_mw_def httpx_defs Let_def split: prod.splits sum.splits)

text \<open>The \<open>Retry-After\<close> header is rounded down to whole seconds, so a client that waits
  exactly that long can be rejected again: with the full bucket of the example read half a second
  in, the header says 9 seconds, and 9 seconds later the answer is still 429.\<close>

definition example_cfg :: mw_config where
  "example_cfg = \<lparr>mw_policy = \<lparr>pol_capacity = 1, pol_leak_per_second = 1 / 10, pol_ttl = 3600 * second\<rparr>,
     mw_fail_open = False\<rparr>"

theorem retry_after_header_can_be_too_short:
  "\<exists>w1. rate_limit_mw ref_redis example_cfg ''b'' 500 () (new_world full_bucket)
      = (Abort (httpx_error_detail 429 ''rate_limited'' ''too many requests'' (RetryMeta 9) :: unit response), w1)
    \<and> fst (rate_limit_mw ref_redis example_cfg ''b'' (500 + 9 * 1000) () (w1\<lparr>srv := doc_elapse 9000 (srv w1)\<rparr>))
      = (Abort (httpx_error_detail 429 ''rate_limited'' ''too many requests'' (RetryMeta 1)) :: (unit, unit) middleware)"
  by (simp add: rate_limit_mw_def bucket_allow_def redis_call_def new_world_def leaky_bucket_script_def
      Let_def full_bucket_def example_cfg_def second_def millisecond_def go_div_def bucket_ttl_def
      wrap64_def doc_hmset_def doc_expire_def doc_elapse_def)

end
