(* ===== verification/Health.thy ===== *)
theory Health
  imports Config World Httpx
begin

text \<open>
  The datastore clients (\<open>internal/platform/db\<close>, \<open>redis\<close>, \<open>clickhouse\<close>) and the probes of
  \<open>internal/health\<close>. Parsing a DSN and opening a driver are library calls, parameters here; what
  the code adds is the options it passes and the ping that decides whether a client is returned.
  A ping is a round trip over the store's link that reads nothing.
\<close>

section \<open>The clients\<close>

definition ping_postgres :: "'s world \<Rightarrow> unit result \<times> 's world" where
  "ping_postgres = pg_call (reading (\<lambda>_. ()))"

definition ping_redis :: "'s world \<Rightarrow> unit result \<times> 's world" where
  "ping_redis = redis_call (reading (\<lambda>_. ()))"

definition ping_clickhouse :: "'s world \<Rightarrow> unit result \<times> 's world" where
  "ping_clickhouse = ch_call (reading (\<lambda>_. ()))"

text \<open>The pool sizes are converted to 32 bits, which wraps.\<close>

record pool_config =
  pl_dsn :: string
  pl_max_conns :: "32 word"
  pl_min_conns :: "32 word"
  pl_max_conn_lifetime :: int

definition pool_options :: "postgres_config \<Rightarrow> pool_config" where
  "pool_options cfg = \<lparr>pl_dsn = pc_dsn cfg, pl_max_conns = word_of_int (pc_max_open_conns cfg),
     pl_min_conns = word_of_int (pc_max_idle_conns cfg), pl_max_conn_lifetime = pc_conn_max_lifetime cfg\<rparr>"

record drivers =
  dv_parse_dsn :: "string \<Rightarrow> goerr option"
  dv_open_pool :: "pool_config \<Rightarrow> goerr option"
  dv_open_clickhouse :: "clickhouse_config \<Rightarrow> goerr option"

definition new_pool :: "drivers \<Rightarrow> postgres_config \<Rightarrow> 's world \<Rightarrow> unit result \<times> 's world" where
  "new_pool D cfg w =
     (case dv_parse_dsn D (pc_dsn cfg) of
        Some e \<Rightarrow> (Inl (Wrapped ''parse postgres dsn'' e), w)
      | None \<Rightarrow>
          (case dv_open_pool D (pool_options cfg) of
             Some e \<Rightarrow> (Inl (Wrapped ''open postgres pool'' e), w)
           | None \<Rightarrow>
               (case ping_postgres w of
                  (Inl e, w) \<Rightarrow> (Inl (Wrapped ''ping postgres'' e), w)
                | (Inr _, w) \<Rightarrow> (Inr (), w))))"

definition new_redis_client :: "redis_config \<Rightarrow> 's world \<Rightarrow> unit result \<times> 's world" where
  "new_redis_client cfg w =
     (case ping_redis w of
        (Inl e, w) \<Rightarrow> (Inl (Wrapped ''ping redis'' e), w)
      | (Inr _, w) \<Rightarrow> (Inr (), w))"

definition new_clickhouse_conn :: "drivers \<Rightarrow> clickhouse_config \<Rightarrow> 's world \<Rightarrow> unit result \<times> 's world" where
  "new_clickhouse_conn D cfg w =
     (case dv_open_clickhouse D cfg of
        Some e \<Rightarrow> (Inl (Wrapped ''open clickhouse'' e), w)
      | None \<Rightarrow>
          (case ping_clickhouse w of
             (Inl e, w) \<Rightarrow> (Inl (Wrapped ''ping clickhouse'' e), w)
           | (Inr _, w) \<Rightarrow> (Inr (), w)))"

section \<open>The probes\<close>

text \<open>\<open>err.Error()\<close>.\<close>

fun error_text :: "goerr \<Rightarrow> string" where
  "error_text (Plain s) = s"
| "error_text (Wrapped p e) = p @ '': '' @ error_text e"
| "error_text ErrEmailTaken = ''email already registered''"
| "error_text ErrInvalidCredentials = ''invalid email or password''"
| "error_text ErrUserNotFound = ''user not found''"
| "error_text ErrInvalidRefresh = ''invalid or expired refresh token''"
| "error_text (AuthValidationError m) = m"
| "error_text ErrInvalidToken = ''invalid token''"
| "error_text ErrVideoNotFound = ''video not found''"
| "error_text ErrForbidden = ''forbidden''"
| "error_text (VideoValidationError m) = m"
| "error_text ErrProductNotFound = ''product not found''"
| "error_text ErrVideoAlreadyTaken = ''a product already exists for this video''"
| "error_text (ProductValidationError m) = m"
| "error_text ErrInvalidCursor = ''invalid cursor''"
| "error_text ErrStatsVideoNotFound = ''video not found''"

type_synonym 'w pinger = "'w \<Rightarrow> unit result \<times> 'w"

text \<open>The loop over the dependencies, in the order the map hands them out: the status of each by
  name, and whether all of them answered.\<close>

fun ping_all :: "(string \<times> 'w pinger) list \<Rightarrow> 'w \<Rightarrow> ((string \<times> string) list \<times> bool) \<times> 'w" where
  "ping_all [] w = (([], True), w)"
| "ping_all ((name, p) # deps) w =
     (case p w of
        (Inl e, w) \<Rightarrow>
          (let ((results, _), w) = ping_all deps w
           in (((name, ''down: '' @ error_text e) # results, False), w))
      | (Inr _, w) \<Rightarrow>
          (let ((results, all_ok), w) = ping_all deps w
           in (((name, ''ok'') # results, all_ok), w)))"

definition handle_ready ::
  "(string \<times> 'w pinger) list \<Rightarrow> 'w \<Rightarrow> (string \<times> string) list response \<times> 'w"
where
  "handle_ready deps w =
     (let ((results, all_ok), w) = ping_all deps w
      in if \<not> all_ok
         then (httpx_error_detail 503 ''service_unready'' ''one or more dependencies are unavailable''
                 (DepsMeta results), w)
         else (httpx_ok results, w))"

definition handle_health :: "config \<Rightarrow> gotime \<Rightarrow> (string \<times> string \<times> gotime) response" where
  "handle_health cfg now = httpx_ok (cf_app_env cfg, fc_mode (cf_feed cfg), now)"

text \<open>The dependencies the router passes.\<close>

definition health_deps :: "(string \<times> 's world pinger) list" where
  "health_deps = [(''postgres'', ping_postgres), (''redis'', ping_redis), (''clickhouse'', ping_clickhouse)]"

section \<open>Properties\<close>

text \<open>A ping changes no store and uses up one outcome of its own link.\<close>

lemma ping_cases:
  "ping_postgres w = (r, w') \<Longrightarrow> w' = w\<lparr>pgnet := tl (pgnet w)\<rparr> \<and> (r = Inr ()) = (pgnet w = [] \<or> hd (pgnet w) = Up)"
  "ping_redis w = (r, w') \<Longrightarrow> w' = w\<lparr>net := tl (net w)\<rparr> \<and> (r = Inr ()) = (net w = [] \<or> hd (net w) = Up)"
  "ping_clickhouse w = (r, w') \<Longrightarrow> w' = w\<lparr>chnet := tl (chnet w)\<rparr> \<and> (r = Inr ()) = (chnet w = [] \<or> hd (chnet w) = Up)"
proof -
  have l: "link_call ls (reading (\<lambda>_. ())) s = (r, s', ls') \<Longrightarrow>
      s' = s \<and> ls' = tl ls \<and> (r = Inr ()) = (ls = [] \<or> hd ls = Up)" for ls and s :: 'x and r s' ls'
    by (cases "(ls, reading (\<lambda>_. ()) :: 'x \<Rightarrow> unit \<times> 'x, s)" rule: link_call.cases) auto
  show "ping_postgres w = (r, w') \<Longrightarrow> w' = w\<lparr>pgnet := tl (pgnet w)\<rparr> \<and> (r = Inr ()) = (pgnet w = [] \<or> hd (pgnet w) = Up)"
    by (cases w) (auto simp: ping_postgres_def pg_call_def dest!: l split: prod.splits)
  show "ping_redis w = (r, w') \<Longrightarrow> w' = w\<lparr>net := tl (net w)\<rparr> \<and> (r = Inr ()) = (net w = [] \<or> hd (net w) = Up)"
    by (cases w) (auto simp: ping_redis_def redis_call_def dest!: l split: prod.splits)
  show "ping_clickhouse w = (r, w') \<Longrightarrow> w' = w\<lparr>chnet := tl (chnet w)\<rparr> \<and> (r = Inr ()) = (chnet w = [] \<or> hd (chnet w) = Up)"
    by (cases w) (auto simp: ping_clickhouse_def ch_call_def dest!: l split: prod.splits)
qed

text \<open>What the probe needs of the dependencies: an answer that tells whether the one named is up,
  with no influence on the others, and nothing stored.\<close>

locale probes =
  fixes deps :: "(string \<times> 'w pinger) list" and up :: "string \<Rightarrow> 'w \<Rightarrow> bool" and kept :: "'w \<Rightarrow> 'w \<Rightarrow> bool"
  assumes ping: "(name, p) \<in> set deps \<Longrightarrow> p w = (r, w') \<Longrightarrow>
      (r = Inr ()) = up name w \<and> (\<forall>n. n \<noteq> name \<longrightarrow> up n w' = up n w) \<and> kept w w'"
    and kept_refl: "kept w w" and kept_trans: "kept w w' \<Longrightarrow> kept w' w'' \<Longrightarrow> kept w w''"
begin

lemma ping_all_exact:
  assumes "set ds \<subseteq> set deps" and "distinct (map fst ds)" and "ping_all ds w = ((results, all_ok), w')"
  shows "map fst results = map fst ds \<and> (\<forall>(n, s) \<in> set results. (s = ''ok'') = up n w)
    \<and> all_ok = (\<forall>n \<in> fst ` set ds. up n w) \<and> kept w w'"
  using assms
proof (induction ds arbitrary: w results all_ok)
  case Nil
  then show ?case by (simp add: kept_refl)
next
  case (Cons d ds)
  obtain name p where d: "d = (name, p)" by (metis surj_pair)
  obtain r w1 where p: "p w = (r, w1)" by (metis surj_pair)
  obtain rs ok where rest: "ping_all ds w1 = ((rs, ok), w')"
    using Cons.prems(3) d p by (auto split: sum.splits prod.splits)
  note one = ping [of name p w r w1]
  have o: "(r = Inr ()) = up name w" "\<And>n. n \<noteq> name \<Longrightarrow> up n w1 = up n w" "kept w w1"
    using one d p Cons.prems(1) by auto
  have IH: "map fst rs = map fst ds \<and> (\<forall>(n, s) \<in> set rs. (s = ''ok'') = up n w1)
      \<and> ok = (\<forall>n \<in> fst ` set ds. up n w1) \<and> kept w1 w'"
    using Cons.prems(1,2) by (intro Cons.IH [OF _ _ rest]) auto
  have fresh: "name \<notin> fst ` set ds" using Cons.prems(2) d by auto
  have same: "n \<in> fst ` set ds \<Longrightarrow> up n w1 = up n w" for n using fresh o(2) by metis
  have fsts: "fst ` set rs = fst ` set ds" using IH by (metis list.set_map)
  have res: "results = (name, if r = Inr () then ''ok'' else ''down: '' @ error_text (projl r)) # rs"
    and all: "all_ok = (r = Inr () \<and> ok)"
    using Cons.prems(3) d p rest by (auto split: sum.splits)
  have old: "(s = ''ok'') = up n w" if "(n, s) \<in> set rs" for n s
  proof -
    have "n \<in> fst ` set ds" using that fsts by force
    then show ?thesis using that IH same by auto
  qed
  have ok: "ok = (\<forall>n \<in> fst ` set ds. up n w)" using IH same by simp
  have "kept w w'" using kept_trans [OF o(3)] IH by simp
  moreover have "map fst results = map fst (d # ds)" using IH d res by simp
  moreover have "all_ok = (\<forall>n \<in> fst ` set (d # ds). up n w)" using all ok o(1) d by simp
  moreover have "\<forall>(n, s) \<in> set results. (s = ''ok'') = up n w"
    using old o(1) unfolding res by auto
  ultimately show ?case by blast
qed

end

definition link_up :: "link list \<Rightarrow> bool" where
  "link_up ls \<longleftrightarrow> ls = [] \<or> hd ls = Up"

definition store_up :: "string \<Rightarrow> 's world \<Rightarrow> bool" where
  "store_up n w = link_up (if n = ''postgres'' then pgnet w else if n = ''redis'' then net w
     else if n = ''clickhouse'' then chnet w else [])"

definition data_kept :: "'s world \<Rightarrow> 's world \<Rightarrow> bool" where
  "data_kept w w' \<longleftrightarrow> srv w' = srv w \<and> pg w' = pg w \<and> ch w' = ch w"

interpretation app_probes: probes health_deps store_up data_kept
proof (unfold_locales, goal_cases)
  case (1 name p w r w')
  then consider "name = ''postgres'' \<and> ping_postgres w = (r, w')" | "name = ''redis'' \<and> ping_redis w = (r, w')"
    | "name = ''clickhouse'' \<and> ping_clickhouse w = (r, w')"
    by (auto simp: health_deps_def)
  then show ?case
  proof cases
    case 1
    with ping_cases(1) [of w r w'] show ?thesis by (auto simp: store_up_def link_up_def data_kept_def)
  next
    case 2
    with ping_cases(2) [of w r w'] show ?thesis by (auto simp: store_up_def link_up_def data_kept_def)
  next
    case 3
    with ping_cases(3) [of w r w'] show ?thesis by (auto simp: store_up_def link_up_def data_kept_def)
  qed
qed (simp_all add: data_kept_def)

text \<open>
  The readiness probe is exact whatever order the map of dependencies is walked in: it answers
  200 when the three stores answer and 503 otherwise, and either way the body names each store
  once with \<open>ok\<close> if and only if that one answered. It changes no store.
\<close>

theorem readiness_is_exact:
  assumes "set deps = set health_deps" and "distinct (map fst deps)" and "handle_ready deps w = (resp, w')"
  shows "status resp = (if \<forall>n \<in> {''postgres'', ''redis'', ''clickhouse''}. store_up n w then 200 else 503)
    \<and> (\<exists>results. (resp_data resp = Some results \<or> resp_meta resp = DepsMeta results)
        \<and> map fst results = map fst deps \<and> (\<forall>(n, s) \<in> set results. (s = ''ok'') = store_up n w))
    \<and> data_kept w w'"
proof -
  obtain results all_ok w1 where p: "ping_all deps w = ((results, all_ok), w1)" by (metis surj_pair)
  note e = app_probes.ping_all_exact [OF _ assms(2) p]
  have "fst ` set deps = {''postgres'', ''redis'', ''clickhouse''}"
    unfolding assms(1) by (auto simp: health_deps_def)
  note names = this
  from e assms(1) have r: "map fst results = map fst deps" "\<forall>(n, s) \<in> set results. (s = ''ok'') = store_up n w"
    "all_ok = (\<forall>n \<in> {''postgres'', ''redis'', ''clickhouse''}. store_up n w)" "data_kept w w1"
    unfolding names by simp_all
  have "(resp, w') = (if \<not> all_ok
      then httpx_error_detail 503 ''service_unready'' ''one or more dependencies are unavailable'' (DepsMeta results)
      else httpx_ok results, w1)"
    using assms(3) p by (simp add: handle_ready_def split: if_splits)
  then have "resp = (if \<not> all_ok
      then httpx_error_detail 503 ''service_unready'' ''one or more dependencies are unavailable'' (DepsMeta results)
      else httpx_ok results)" and "w' = w1" by simp_all
  then have "w' = w1" and "status resp = (if all_ok then 200 else 503)"
    and "resp_data resp = Some results \<or> resp_meta resp = DepsMeta results"
    by (simp_all add: httpx_defs)
  with r show ?thesis by metis
qed

theorem readiness_is_exact_witness:
  "status (fst (handle_ready (rev health_deps) ((new_world ())\<lparr>net := [ReplyLost]\<rparr>))) = 503
   \<and> status (fst (handle_ready health_deps (new_world ()))) = 200"
proof -
  have "status (fst (handle_ready deps w)) = (if \<forall>n \<in> {''postgres'', ''redis'', ''clickhouse''}. store_up n w then 200 else 503)"
    if "set deps = set health_deps" "distinct (map fst deps)" for deps and w :: "unit world"
    using readiness_is_exact [OF that, of w] by (metis surj_pair fst_conv)
  note status = this
  have "distinct (map fst (health_deps :: (string \<times> unit world pinger) list))" by (simp add: health_deps_def)
  then show ?thesis
    by (simp add: status rev_map [symmetric] store_up_def link_up_def new_world_def)
qed

end
