(* ===== verification/LikeStore.thy ===== *)
theory LikeStore
  imports World
begin

text \<open>
  \<open>internal/like/repository.go\<close>: the Postgres side of likes. The two apply statements are the
  repository's CTEs, translated clause by clause over the tables of \<open>migrations/postgres\<close>
  (foreign keys included); the repository is a value of the interface record \<open>like_repo\<close>,
  which the worker and the reconciler take as an argument.
\<close>

section \<open>Operations and results\<close>

type_synonym op = string

abbreviation OpLike :: op where "OpLike \<equiv> ''like''"
abbreviation OpUnlike :: op where "OpUnlike \<equiv> ''unlike''"

record like_result =
  lr_changed :: bool
  lr_new_count :: int
  lr_was_noop :: bool

section \<open>The statements\<close>

definition user_exists :: "uuid \<Rightarrow> postgres \<Rightarrow> bool" where
  "user_exists u d \<longleftrightarrow> u \<in> set (map u_id (users d))"

definition video_exists :: "uuid \<Rightarrow> postgres \<Rightarrow> bool" where
  "video_exists v d \<longleftrightarrow> v \<in> set (map v_id (videos d))"

definition stats_count :: "uuid \<Rightarrow> postgres \<Rightarrow> int option" where
  "stats_count v d = map_option s_likes_count (find (\<lambda>r. s_video_id r = v) (video_stats d))"

definition update_stats :: "(stats_row \<Rightarrow> stats_row) \<Rightarrow> uuid \<Rightarrow> postgres \<Rightarrow> postgres" where
  "update_stats f v d =
     d\<lparr>video_stats := map (\<lambda>r. if s_video_id r = v then f r else r) (video_stats d)\<rparr>"

text \<open>The reply is the updated row's count, else the row's old count, else 0.\<close>

definition coalesce_count :: "int option \<Rightarrow> int option \<Rightarrow> int" where
  "coalesce_count a b = (case a of Some n \<Rightarrow> n | None \<Rightarrow> (case b of Some n \<Rightarrow> n | None \<Rightarrow> 0))"

definition apply_like_sql ::
  "uuid \<Rightarrow> uuid \<Rightarrow> gotime \<Rightarrow> postgres \<Rightarrow> (pgerr + bool \<times> int) \<times> postgres"
where
  "apply_like_sql u v now d =
     (let ins = ((u, v) \<notin> set (likes d))
      in if ins \<and> \<not> (user_exists u d \<and> video_exists v d) then (Inl (SqlState ForeignKeyViolation), d)
         else
           (let d1 = (if ins then d\<lparr>likes := likes d @ [(u, v)]\<rparr> else d);
                d2 = (if ins then update_stats
                          (\<lambda>r. r\<lparr>s_likes_count := s_likes_count r + 1, s_updated_at := now\<rparr>) v d1
                      else d1);
                upd = (if ins then stats_count v d2 else None)
            in (Inr (ins, coalesce_count upd (stats_count v d)), d2)))"

definition apply_unlike_sql ::
  "uuid \<Rightarrow> uuid \<Rightarrow> gotime \<Rightarrow> postgres \<Rightarrow> (pgerr + bool \<times> int) \<times> postgres"
where
  "apply_unlike_sql u v now d =
     (let del = ((u, v) \<in> set (likes d));
          d1 = d\<lparr>likes := filter (\<lambda>e. e \<noteq> (u, v)) (likes d)\<rparr>;
          d2 = (if del then update_stats
                    (\<lambda>r. r\<lparr>s_likes_count := max (s_likes_count r - 1) 0, s_updated_at := now\<rparr>) v d1
                else d1);
          upd = (if del then stats_count v d2 else None)
      in (Inr (del, coalesce_count upd (stats_count v d)), d2))"

section \<open>The repository\<close>

record 'w like_repo =
  repo_apply :: "uuid \<Rightarrow> uuid \<Rightarrow> op \<Rightarrow> gotime \<Rightarrow> 'w \<Rightarrow> like_result result \<times> 'w"
  repo_count :: "uuid \<Rightarrow> 'w \<Rightarrow> int result \<times> 'w"
  repo_count_from_edges :: "uuid \<Rightarrow> 'w \<Rightarrow> int result \<times> 'w"
  repo_reconcile :: "uuid \<Rightarrow> int \<Rightarrow> gotime \<Rightarrow> 'w \<Rightarrow> int result \<times> 'w"
  repo_sample :: "int \<Rightarrow> 'w \<Rightarrow> uuid list result \<times> 'w"

text \<open>The \<open>switch\<close> of \<open>Apply\<close> that picks the statement.\<close>

definition apply_sql ::
  "op \<Rightarrow> uuid \<Rightarrow> uuid \<Rightarrow> gotime \<Rightarrow> postgres \<Rightarrow> (pgerr + bool \<times> int) \<times> postgres"
where
  "apply_sql opr u v now =
     (if opr = OpLike then apply_like_sql u v now else apply_unlike_sql u v now)"

definition pg_apply ::
  "uuid \<Rightarrow> uuid \<Rightarrow> op \<Rightarrow> gotime \<Rightarrow> 's world \<Rightarrow> like_result result \<times> 's world"
where
  "pg_apply u v opr now w =
     (if opr \<noteq> OpLike \<and> opr \<noteq> OpUnlike then (Inl (Plain (''unknown op '' @ opr)), w)
      else (case pg_exec (apply_sql opr u v now) w of
              (Inl e, w') \<Rightarrow> (Inl (Wrapped (''apply '' @ opr) (pg_goerr e)), w')
            | (Inr (changed, count), w') \<Rightarrow>
                (Inr \<lparr>lr_changed = changed, lr_new_count = count, lr_was_noop = (\<not> changed)\<rparr>, w')))"

definition pg_count :: "uuid \<Rightarrow> 's world \<Rightarrow> int result \<times> 's world" where
  "pg_count v w =
     (case pg_exec (reading (\<lambda>d. case stats_count v d of None \<Rightarrow> Inl NoRows | Some n \<Rightarrow> Inr n)) w of
        (Inl e, w') \<Rightarrow> (Inl (Wrapped ''count'' (pg_goerr e)), w')
      | (Inr n, w') \<Rightarrow> (Inr n, w'))"

definition edge_count :: "uuid \<Rightarrow> postgres \<Rightarrow> int" where
  "edge_count v d = int (length (filter (\<lambda>e. snd e = v) (likes d)))"

definition pg_count_from_edges :: "uuid \<Rightarrow> 's world \<Rightarrow> int result \<times> 's world" where
  "pg_count_from_edges v w =
     (case pg_exec (reading (\<lambda>d. Inr (edge_count v d))) w of
        (Inl e, w') \<Rightarrow> (Inl (Wrapped ''count from edges'' (pg_goerr e)), w')
      | (Inr n, w') \<Rightarrow> (Inr n, w'))"

text \<open>\<open>UPDATE ... WHERE video_id = $1 AND likes_count <> $2\<close>, refused by the table's check
  when the new value is negative; the reply is the number of rows written.\<close>

definition reconcile_sql :: "uuid \<Rightarrow> int \<Rightarrow> gotime \<Rightarrow> postgres \<Rightarrow> (pgerr + int) \<times> postgres" where
  "reconcile_sql v exact now d =
     (let hit = (\<lambda>r. s_video_id r = v \<and> s_likes_count r \<noteq> exact);
          n = length (filter hit (video_stats d))
      in if 0 < n \<and> exact < 0 then (Inl (SqlState CheckViolation), d)
         else (Inr (int n),
               d\<lparr>video_stats := map (\<lambda>r. if hit r then r\<lparr>s_likes_count := exact, s_updated_at := now\<rparr>
                                        else r) (video_stats d)\<rparr>))"

definition pg_reconcile_counter ::
  "uuid \<Rightarrow> int \<Rightarrow> gotime \<Rightarrow> 's world \<Rightarrow> int result \<times> 's world"
where
  "pg_reconcile_counter v exact now w =
     (case pg_exec (reconcile_sql v exact now) w of
        (Inl e, w') \<Rightarrow> (Inl (Wrapped ''reconcile'' (pg_goerr e)), w')
      | (Inr n, w') \<Rightarrow> (Inr n, w'))"

text \<open>\<open>ORDER BY updated_at ASC LIMIT $1\<close>; rows with equal times keep the table's order.\<close>

definition sample_sql :: "int \<Rightarrow> postgres \<Rightarrow> uuid list" where
  "sample_sql limit d = map s_video_id (take (nat limit) (sort_key s_updated_at (video_stats d)))"

definition pg_sample_video_ids :: "int \<Rightarrow> 's world \<Rightarrow> uuid list result \<times> 's world" where
  "pg_sample_video_ids limit w =
     (if limit \<le> 0 then (Inr [], w)
      else (case pg_exec (reading (\<lambda>d. Inr (sample_sql limit d))) w of
              (Inl e, w') \<Rightarrow> (Inl (Wrapped ''sample'' (pg_goerr e)), w')
            | (Inr ids, w') \<Rightarrow> (Inr ids, w')))"

definition pg_like_repo :: "'s world like_repo" where
  "pg_like_repo = \<lparr>repo_apply = pg_apply, repo_count = pg_count,
     repo_count_from_edges = pg_count_from_edges, repo_reconcile = pg_reconcile_counter,
     repo_sample = pg_sample_video_ids\<rparr>"

section \<open>The schema invariant\<close>

text \<open>
  The primary keys of the two tables, one statistics row per video (the trigger of the
  migration), edges only between existing rows, and the exactness of the counter.
\<close>

definition likes_keyed :: "postgres \<Rightarrow> bool" where
  "likes_keyed d \<longleftrightarrow> distinct (likes d) \<and> distinct (map s_video_id (video_stats d))
     \<and> (\<forall>v. video_exists v d \<longrightarrow> v \<in> set (map s_video_id (video_stats d)))
     \<and> (\<forall>u v. (u, v) \<in> set (likes d) \<longrightarrow> user_exists u d \<and> video_exists v d)"

definition counts_exact :: "postgres \<Rightarrow> bool" where
  "counts_exact d \<longleftrightarrow> (\<forall>r \<in> set (video_stats d). s_likes_count r = edge_count (s_video_id r) d)"

lemma edge_count_nonneg [simp]: "0 \<le> edge_count v d"
  by (simp add: edge_count_def)

lemma edge_count_append:
  "edge_count v (d\<lparr>likes := likes d @ [(u, v')]\<rparr>) = edge_count v d + (if v = v' then 1 else 0)"
  by (simp add: edge_count_def)

lemma length_filter_neq:
  "distinct xs \<Longrightarrow> e \<in> set xs \<Longrightarrow> P e \<Longrightarrow> Suc (length (filter (\<lambda>x. P x \<and> x \<noteq> e) xs)) = length (filter P xs)"
proof (induction xs)
  case Nil
  then show ?case by simp
next
  case (Cons x xs)
  show ?case
  proof (cases "x = e")
    case True
    with Cons.prems have "e \<notin> set xs" by simp
    then have "filter (\<lambda>y. P y \<and> y \<noteq> e) xs = filter P xs" by (metis (mono_tags, lifting) filter_cong)
    with True Cons.prems show ?thesis by simp
  next
    case False
    with Cons show ?thesis by simp
  qed
qed

lemma edge_count_remove:
  assumes "distinct (likes d)" and "(u, v') \<in> set (likes d)"
  shows "edge_count v (d\<lparr>likes := filter (\<lambda>e. e \<noteq> (u, v')) (likes d)\<rparr>) =
    edge_count v d - (if v = v' then 1 else 0)"
proof (cases "v = v'")
  case True
  then show ?thesis
    using length_filter_neq [OF assms, of "\<lambda>e. snd e = v"] by (simp add: edge_count_def conj_commute)
next
  case False
  then have "filter (\<lambda>e. snd e = v \<and> e \<noteq> (u, v')) (likes d) = filter (\<lambda>e. snd e = v) (likes d)"
    by (metis (mono_tags, lifting) filter_cong snd_conv)
  with False show ?thesis by (simp add: edge_count_def conj_commute)
qed

lemma update_stats_simps [simp]:
  "likes (update_stats f v d) = likes d"
  "users (update_stats f v d) = users d"
  "videos (update_stats f v d) = videos d"
  "edge_count x (update_stats f v d) = edge_count x d"
  "user_exists u (update_stats f v d) = user_exists u d"
  "video_exists x (update_stats f v d) = video_exists x d"
  by (simp_all add: update_stats_def edge_count_def user_exists_def video_exists_def)

lemma update_stats_ids:
  "(\<And>r. s_video_id (f r) = s_video_id r) \<Longrightarrow>
     map s_video_id (video_stats (update_stats f v d)) = map s_video_id (video_stats d)"
  by (simp add: update_stats_def)

lemma update_stats_id_set:
  "(\<And>r. s_video_id (f r) = s_video_id r) \<Longrightarrow>
     s_video_id ` set (video_stats (update_stats f v d)) = s_video_id ` set (video_stats d)"
  using update_stats_ids [of f v d] by (metis list.set_map)

lemma counts_exact_update:
  assumes "\<And>r. s_video_id (f r) = s_video_id r"
    and "\<And>r. r \<in> set (video_stats d) \<Longrightarrow>
      s_likes_count (if s_video_id r = v then f r else r) = edge_count (s_video_id r) d"
  shows "counts_exact (update_stats f v d)"
  unfolding counts_exact_def
proof
  fix r
  assume "r \<in> set (video_stats (update_stats f v d))"
  then obtain x where x: "x \<in> set (video_stats d)" and r: "r = (if s_video_id x = v then f x else x)"
    by (auto simp: update_stats_def)
  have "s_video_id r = s_video_id x" by (simp add: r assms(1))
  with assms(2) [OF x] show "s_likes_count r = edge_count (s_video_id r) (update_stats f v d)"
    by (simp add: r)
qed

lemma edges_unchanged_simps [simp]:
  "user_exists u (d\<lparr>likes := x\<rparr>) = user_exists u d"
  "video_exists v (d\<lparr>likes := x\<rparr>) = video_exists v d"
  "edge_count v (d\<lparr>video_stats := y\<rparr>) = edge_count v d"
  "user_exists u (d\<lparr>video_stats := y\<rparr>) = user_exists u d"
  "video_exists v (d\<lparr>video_stats := y\<rparr>) = video_exists v d"
  by (simp_all add: user_exists_def video_exists_def edge_count_def)

text \<open>What the two statements do to the edges.\<close>

lemma apply_like_edges:
  "apply_like_sql u v now d = (r, d') \<Longrightarrow>
     set (likes d') = (case r of Inl e \<Rightarrow> set (likes d) | Inr x \<Rightarrow> insert (u, v) (set (likes d)))"
  by (auto simp: apply_like_sql_def Let_def split: if_splits)

lemma apply_unlike_edges:
  "set (likes (snd (apply_unlike_sql u v now d))) = set (likes d) - {(u, v)}"
  by (auto simp: apply_unlike_sql_def Let_def)

lemma apply_like_keyed:
  "likes_keyed d \<Longrightarrow> likes_keyed (snd (apply_like_sql u v now d))"
  by (auto simp: likes_keyed_def apply_like_sql_def Let_def update_stats_ids update_stats_id_set)

lemma apply_unlike_keyed:
  "likes_keyed d \<Longrightarrow> likes_keyed (snd (apply_unlike_sql u v now d))"
  by (auto simp: likes_keyed_def apply_unlike_sql_def Let_def update_stats_ids update_stats_id_set)

lemma apply_like_exact:
  assumes "counts_exact d"
  shows "counts_exact (snd (apply_like_sql u v now d))"
proof -
  have "counts_exact (update_stats (\<lambda>r. r\<lparr>s_likes_count := s_likes_count r + 1, s_updated_at := now\<rparr>) v
      (d\<lparr>likes := likes d @ [(u, v)]\<rparr>))"
    using assms by (intro counts_exact_update) (auto simp: counts_exact_def edge_count_append)
  with assms show ?thesis by (simp add: apply_like_sql_def Let_def)
qed

lemma edge_count_pos: "(u, v) \<in> set (likes d) \<Longrightarrow> 1 \<le> edge_count v d"
proof -
  assume "(u, v) \<in> set (likes d)"
  then have "filter (\<lambda>e. snd e = v) (likes d) \<noteq> []" by (force simp: filter_empty_conv)
  then show ?thesis by (cases "filter (\<lambda>e. snd e = v) (likes d)") (simp_all add: edge_count_def)
qed

lemma apply_unlike_exact:
  assumes "counts_exact d" and "likes_keyed d"
  shows "counts_exact (snd (apply_unlike_sql u v now d))"
proof (cases "(u, v) \<in> set (likes d)")
  case True
  have dist: "distinct (likes d)" using assms(2) by (simp add: likes_keyed_def)
  have "counts_exact (update_stats
      (\<lambda>r. r\<lparr>s_likes_count := max (s_likes_count r - 1) 0, s_updated_at := now\<rparr>) v
      (d\<lparr>likes := filter (\<lambda>e. e \<noteq> (u, v)) (likes d)\<rparr>))"
    using assms(1) edge_count_remove [OF dist True] edge_count_pos [OF True]
    by (intro counts_exact_update) (simp_all add: counts_exact_def)
  with True show ?thesis by (simp add: apply_unlike_sql_def Let_def)
next
  case False
  then have "filter (\<lambda>e. e \<noteq> (u, v)) (likes d) = likes d" by (metis (mono_tags, lifting) filter_True)
  with False assms(1) show ?thesis
    by (simp add: apply_unlike_sql_def Let_def)
qed

text \<open>The count a statement replies is the number of edges it leaves.\<close>

lemma stats_count_exact:
  assumes "likes_keyed d" and "counts_exact d"
  shows "(case stats_count v d of None \<Rightarrow> 0 | Some n \<Rightarrow> n) = edge_count v d"
proof (cases "find (\<lambda>r. s_video_id r = v) (video_stats d)")
  case None
  then have "v \<notin> set (map s_video_id (video_stats d))" by (auto simp: find_None_iff)
  then have "\<forall>e \<in> set (likes d). snd e \<noteq> v" using assms(1) by (auto simp: likes_keyed_def)
  then have "edge_count v d = 0" by (simp add: edge_count_def filter_empty_conv)
  then show ?thesis by (simp add: stats_count_def None)
next
  case (Some r)
  then have "r \<in> set (video_stats d)" and "s_video_id r = v" by (auto dest: find_Some_iff')
  then show ?thesis using assms(2) by (auto simp: stats_count_def Some counts_exact_def)
qed

lemma update_stats_count:
  assumes "\<And>r. s_video_id (f r) = s_video_id r"
  shows "stats_count v (update_stats f v d) = map_option s_likes_count (map_option f (find (\<lambda>r. s_video_id r = v) (video_stats d)))"
proof -
  have "find (\<lambda>r. s_video_id r = v) (map (\<lambda>r. if s_video_id r = v then f r else r) rs) =
      map_option f (find (\<lambda>r. s_video_id r = v) rs)" for rs
    using assms by (induction rs) auto
  then show ?thesis by (simp add: stats_count_def update_stats_def)
qed

lemma coalesce_update:
  assumes "\<And>r. s_video_id (f r) = s_video_id r" and "video_stats d1 = video_stats d"
  shows "coalesce_count (stats_count v (update_stats f v d1)) (stats_count v d) =
    (case stats_count v (update_stats f v d1) of None \<Rightarrow> 0 | Some n \<Rightarrow> n)"
proof -
  have "stats_count v (update_stats f v d1) =
      map_option s_likes_count (map_option f (find (\<lambda>r. s_video_id r = v) (video_stats d)))"
    using update_stats_count [of f v d1] assms by simp
  then show ?thesis by (simp add: coalesce_count_def stats_count_def [of v d] split: option.split)
qed

lemma apply_sql_count:
  assumes "apply_sql opr u v now d = (Inr (chg, n), d')" and "likes_keyed d" and "counts_exact d"
  shows "n = edge_count v d'"
proof -
  have k: "likes_keyed d'" "counts_exact d'"
    using assms apply_like_keyed [of d u v now] apply_unlike_keyed [of d u v now]
      apply_like_exact [of d u v now] apply_unlike_exact [of d u v now]
    by (cases "opr = OpLike"; simp add: apply_sql_def)+
  have "n = (case stats_count v d' of None \<Rightarrow> 0 | Some n \<Rightarrow> n)"
  proof (cases "opr = OpLike")
    case True
    then have sql: "apply_like_sql u v now d = (Inr (chg, n), d')" using assms(1) by (simp add: apply_sql_def)
    show ?thesis
    proof (cases "(u, v) \<in> set (likes d)")
      case old: True
      then show ?thesis using sql by (auto simp: apply_like_sql_def Let_def coalesce_count_def split: option.split)
    next
      case False
      then show ?thesis using sql
        by (auto simp: apply_like_sql_def Let_def coalesce_update split: if_split_asm)
    qed
  next
    case False
    then have sql: "apply_unlike_sql u v now d = (Inr (chg, n), d')" using assms(1) by (simp add: apply_sql_def)
    show ?thesis
    proof (cases "(u, v) \<in> set (likes d)")
      case True
      then show ?thesis using sql by (auto simp: apply_unlike_sql_def Let_def coalesce_update)
    next
      case new: False
      have "stats_count v (d\<lparr>likes := x\<rparr>) = stats_count v d" for x by (simp add: stats_count_def)
      then show ?thesis using sql new
        by (auto simp: apply_unlike_sql_def Let_def coalesce_count_def split: option.split)
    qed
  qed
  with stats_count_exact [OF k] show ?thesis by simp
qed

end
