(* ===== verification/Streams.thy ===== *)
theory Streams
  imports Redis
begin

text \<open>
  Redis streams and consumer groups as the two workers use them: the messages a worker reads,
  and what reading (\<open>XREADGROUP ... >\<close>) and acknowledging do to the part of a stream a group
  has not been given yet and to the part it has been given and not acknowledged.
\<close>

section \<open>Messages\<close>

type_synonym message = "nat \<times> (string \<times> string) list"

text \<open>\<open>m.Values[name].(string)\<close>; a missing field reads as the empty string.\<close>

definition field :: "string \<Rightarrow> message \<Rightarrow> string" where
  "field name m = (case map_of (rev (snd m)) name of Some v \<Rightarrow> v | None \<Rightarrow> [])"

section \<open>Groups\<close>

text \<open>Ids increase along the stream, and no group is ahead of it.\<close>

definition stream_ok :: "xstream \<Rightarrow> bool" where
  "stream_ok x \<longleftrightarrow> sorted_wrt (<) (map fst (xentries x)) \<and> (\<forall>e \<in> set (xentries x). fst e \<le> xlast x)
     \<and> (\<forall>g l p. xgroups x g = Some (l, p) \<longrightarrow> l \<le> xlast x)"

lemma sorted_le_last:
  fixes es :: "(nat \<times> 'b) list"
  shows "sorted (map fst es) \<Longrightarrow> e \<in> set es \<Longrightarrow> fst e \<le> fst (last es)"
  by (induction es rule: rev_induct) (auto simp: sorted_append)

lemma filter_gt_take_last:
  fixes es :: "(nat \<times> 'b) list"
  assumes "sorted_wrt (<) (map fst es)" and "take n es \<noteq> []"
  shows "filter (\<lambda>e. fst (last (take n es)) < fst e) es = drop n es"
proof -
  let ?l = "fst (last (take n es))"
  have es: "es = take n es @ drop n es" by simp
  have srt: "sorted_wrt (<) (map fst (take n es) @ map fst (drop n es))"
    using assms(1) by (metis es map_append)
  have "sorted (map fst (take n es))"
    using srt by (simp add: sorted_wrt_append strict_sorted_imp_sorted)
  then have le: "fst e \<le> ?l" if "e \<in> set (take n es)" for e
    using that by (rule sorted_le_last)
  have "?l < fst e" if "e \<in> set (drop n es)" for e
    using srt that assms(2) last_in_set [OF assms(2)] by (auto simp: sorted_wrt_append)
  then have "filter (\<lambda>e. ?l < fst e) (drop n es) = drop n es" by (simp add: filter_id_conv)
  moreover have "filter (\<lambda>e. ?l < fst e) (take n es) = []" using le by (fastforce simp: filter_empty_conv)
  ultimately show ?thesis using es by (metis append_Nil filter_append)
qed

lemma filter_filter_le:
  "(l::nat) \<le> l' \<Longrightarrow> filter (\<lambda>e. l' < fst e) (filter (\<lambda>e. l < fst e) es) = filter (\<lambda>e. l' < fst e) es"
  by (induction es) auto

lemma undelivered_sorted: "stream_ok x \<Longrightarrow> sorted_wrt (<) (map fst (stream_undelivered g x))"
  by (auto simp: stream_ok_def stream_undelivered_def sorted_wrt_map intro!: sorted_wrt_filter
      split: option.split)

lemma readgroup_undelivered:
  assumes "stream_ok x"
  shows "stream_undelivered g (stream_readgroup g n x) = drop n (stream_undelivered g x)"
proof (cases "take n (stream_undelivered g x) = []")
  case True
  then show ?thesis by (auto simp: stream_readgroup_def)
next
  case False
  let ?es = "stream_undelivered g x"
  obtain l p where g: "xgroups x g = Some (l, p)"
    using False by (auto simp: stream_undelivered_def split: option.splits)
  then have es: "?es = filter (\<lambda>e. l < fst e) (xentries x)" by (simp add: stream_undelivered_def)
  have "last (take n ?es) \<in> set ?es" using False in_set_takeD last_in_set by metis
  then have "l \<le> fst (last (take n ?es))" by (simp add: es)
  then have "filter (\<lambda>e. fst (last (take n ?es)) < fst e) (xentries x) = filter (\<lambda>e. fst (last (take n ?es)) < fst e) ?es"
    unfolding es by (simp only: filter_filter_le)
  also have "\<dots> = drop n ?es" by (rule filter_gt_take_last [OF undelivered_sorted [OF assms] False])
  finally show ?thesis using False by (simp add: stream_readgroup_def stream_undelivered_def [of g "xgroups_update _ x"] Let_def)
qed

lemma ack_undelivered [simp]: "stream_undelivered g (stream_ack g ids x) = stream_undelivered g x"
  by (auto simp: stream_undelivered_def stream_ack_def split: option.splits)

lemma ack_pending: "stream_pending g (stream_ack g ids x) = filter (\<lambda>i. i \<notin> set ids) (stream_pending g x)"
  by (auto simp: stream_pending_def stream_ack_def split: option.splits)

lemma readgroup_pending:
  "stream_pending g (stream_readgroup g n x) =
     stream_pending g x @ map fst (take n (stream_undelivered g x))"
  by (auto simp: stream_pending_def stream_readgroup_def Let_def)

lemma ack_ok: "stream_ok x \<Longrightarrow> stream_ok (stream_ack g ids x)"
  by (auto simp: stream_ok_def stream_ack_def split: option.splits)

lemma readgroup_ok:
  assumes "stream_ok x"
  shows "stream_ok (stream_readgroup g n x)"
proof (cases "take n (stream_undelivered g x) = []")
  case True
  then show ?thesis using assms by (simp add: stream_readgroup_def)
next
  case False
  then have "last (take n (stream_undelivered g x)) \<in> set (stream_undelivered g x)"
    using in_set_takeD last_in_set by metis
  then have "last (take n (stream_undelivered g x)) \<in> set (xentries x)"
    by (auto simp: stream_undelivered_def split: option.splits)
  with assms False show ?thesis by (auto simp: stream_ok_def stream_readgroup_def Let_def)
qed

lemma group_kept [simp]:
  "xgroups (stream_ack g ids x) g = None \<longleftrightarrow> xgroups x g = None"
  "xgroups x g \<noteq> None \<Longrightarrow> xgroups (stream_readgroup g n x) g \<noteq> None"
  by (auto simp: stream_ack_def stream_readgroup_def Let_def split: option.splits)

lemma readgroup_entries: "xentries (stream_readgroup g n x) = xentries x"
  by (simp add: stream_readgroup_def Let_def)

lemma ack_entries: "xentries (stream_ack g ids x) = xentries x"
  by (auto simp: stream_ack_def split: option.splits)

lemma fold_ack:
  "stream_ok x \<Longrightarrow> stream_ok (fold (\<lambda>i. stream_ack g [i]) is x)"
  "stream_undelivered g (fold (\<lambda>i. stream_ack g [i]) is x) = stream_undelivered g x"
  "stream_pending g (fold (\<lambda>i. stream_ack g [i]) is x) = filter (\<lambda>i. i \<notin> set is) (stream_pending g x)"
  "xentries (fold (\<lambda>i. stream_ack g [i]) is x) = xentries x"
  by (induction "is" arbitrary: x) (auto simp: ack_ok ack_pending ack_entries intro!: filter_cong)

lemma stream_add_undelivered:
  assumes "stream_ok x" and "xgroups x g \<noteq> None" and "xlast x < i"
  shows "stream_undelivered g (stream_add i fs x) = stream_undelivered g x @ [(i, fs)]"
    and "stream_ok (stream_add i fs x)"
proof -
  obtain l p where g: "xgroups x g = Some (l, p)" using assms(2) by (cases "xgroups x g") auto
  then have "l < i" using assms(1,3) by (fastforce simp: stream_ok_def)
  then show "stream_undelivered g (stream_add i fs x) = stream_undelivered g x @ [(i, fs)]"
    by (simp add: stream_undelivered_def stream_add_def g)
  show "stream_ok (stream_add i fs x)"
    using assms(1,3) by (fastforce simp: stream_ok_def stream_add_def sorted_wrt_append)
qed

definition group_last :: "string \<Rightarrow> xstream \<Rightarrow> nat" where
  "group_last g x = (case xgroups x g of None \<Rightarrow> 0 | Some (l, p) \<Rightarrow> l)"

lemma undelivered_after_last:
  "xgroups x g \<noteq> None \<Longrightarrow>
     e \<in> set (stream_undelivered g x) \<longleftrightarrow> e \<in> set (xentries x) \<and> group_last g x < fst e"
  by (auto simp: stream_undelivered_def group_last_def split: option.splits)

text \<open>An entry a read moved the group past is pending.\<close>

lemma readgroup_delivered:
  assumes "stream_ok x" and "xgroups x g \<noteq> None" and "e \<in> set (xentries x)"
    and "fst e \<le> group_last g (stream_readgroup g n x)"
    and "fst e \<notin> set (stream_pending g (stream_readgroup g n x))"
  shows "fst e \<le> group_last g x"
proof (rule ccontr)
  assume "\<not> fst e \<le> group_last g x"
  then have "e \<in> set (stream_undelivered g x)" using assms(2,3) by (simp add: undelivered_after_last)
  moreover have "e \<notin> set (take n (stream_undelivered g x))"
    using assms(5) by (auto simp: readgroup_pending)
  ultimately have "e \<in> set (drop n (stream_undelivered g x))"
    by (metis Un_iff append_take_drop_id set_append)
  then have "e \<in> set (stream_undelivered g (stream_readgroup g n x))"
    by (simp add: readgroup_undelivered [OF assms(1)])
  then show False
    using assms(4) group_kept(2) [OF assms(2), of n] by (auto simp: undelivered_after_last)
qed

lemma ack_last [simp]: "group_last g (stream_ack g ids x) = group_last g x"
  by (auto simp: group_last_def stream_ack_def split: option.splits)

lemma stream_ok_unique:
  "stream_ok x \<Longrightarrow> (i, fs) \<in> set (xentries x) \<Longrightarrow> (i, fs') \<in> set (xentries x) \<Longrightarrow> fs = fs'"
proof -
  assume "stream_ok x" and in1: "(i, fs) \<in> set (xentries x)" and in2: "(i, fs') \<in> set (xentries x)"
  then have "distinct (map fst (xentries x))" by (auto simp: stream_ok_def strict_sorted_iff)
  with in1 in2 show "fs = fs'" by (meson eq_key_imp_eq_value)
qed

end
