(* ===== verification/LikeApi.thy ===== *)
theory LikeApi
  imports LikeStore Streams Httpx
begin

text \<open>
  \<open>internal/like/service.go\<close> and \<open>handler.go\<close>: the like script that runs inside Redis, the
  service around it and the two HTTP handlers. The locale \<open>redis_server\<close> carries the lemmas
  about the script; the abstract view is the set of (user, video) pairs in the users' sets.
\<close>

section \<open>Keys\<close>

definition user_liked_set_key :: "'z libs_scheme \<Rightarrow> uuid \<Rightarrow> string" where
  "user_liked_set_key L u = ''user:'' @ uuid_str L u @ '':liked:videos''"

definition video_likes_count_key :: "'z libs_scheme \<Rightarrow> uuid \<Rightarrow> string" where
  "video_likes_count_key L v = ''video:'' @ uuid_str L v @ '':likes''"

definition like_stream_key :: string where
  "like_stream_key = ''stream:likes''"

definition like_stream_max_len :: nat where
  "like_stream_max_len = 1000000"

lemma like_keys_differ [simp, key_shape]:
  "user_liked_set_key L u \<noteq> video_likes_count_key L' v"
  "video_likes_count_key L' v \<noteq> user_liked_set_key L u"
  "user_liked_set_key L u \<noteq> like_stream_key"
  "like_stream_key \<noteq> user_liked_set_key L u"
  "video_likes_count_key L' v \<noteq> like_stream_key"
  "like_stream_key \<noteq> video_likes_count_key L' v"
  by (simp_all add: user_liked_set_key_def video_likes_count_key_def like_stream_key_def)

section \<open>The script\<close>

text \<open>\<open>tonumber(redis.call("GET", counter)) or 0\<close>.\<close>

definition counter_or_zero :: "('s, 'z) redis_scheme \<Rightarrow> string \<Rightarrow> 's \<Rightarrow> int" where
  "counter_or_zero R k s =
     (case rGET R k s of None \<Rightarrow> 0
      | Some v \<Rightarrow> (case parse_int v of None \<Rightarrow> 0 | Some n \<Rightarrow> n))"

text \<open>The reply is \<open>Inl\<close> an error reply, or the liked flag, the count and the status.\<close>

definition like_script ::
  "('s, 'z) redis_scheme \<Rightarrow> string \<Rightarrow> string \<Rightarrow> string \<Rightarrow> string \<Rightarrow> string \<Rightarrow> op \<Rightarrow> string \<Rightarrow> nat
     \<Rightarrow> 's \<Rightarrow> (string + int \<times> int \<times> string) \<times> 's"
where
  "like_script R user_set counter stream vid uid opr ts maxlen s =
     (let is_member = rSISMEMBER R user_set vid s
      in if opr = ''like'' then
           (if is_member then (Inr (1, counter_or_zero R counter s, ''noop''), s)
            else
              (let s = rSADD R user_set vid s;
                   (new_c, s) = rINCR R counter s;
                   (_, s) = rXADD R stream maxlen
                     [(''uid'', uid), (''vid'', vid), (''op'', ''like''), (''ts'', ts)] s
               in (Inr (1, new_c, ''applied''), s)))
         else if opr = ''unlike'' then
           (if \<not> is_member then (Inr (0, counter_or_zero R counter s, ''noop''), s)
            else
              (let s = rSREM R user_set vid s;
                   (new_c, s) = rDECR R counter s;
                   (new_c, s) = (if new_c < 0 then (0, rSET R counter ''0'' None s) else (new_c, s));
                   (_, s) = rXADD R stream maxlen
                     [(''uid'', uid), (''vid'', vid), (''op'', ''unlike''), (''ts'', ts)] s
               in (Inr (0, new_c, ''applied''), s)))
         else (Inl (''unknown op: '' @ opr), s))"

text \<open>The call of the script by the service, with the service's keys and arguments.\<close>

definition run_like_script ::
  "('s, 'z) redis_scheme \<Rightarrow> uuid \<Rightarrow> uuid \<Rightarrow> op \<Rightarrow> int \<Rightarrow> 's \<Rightarrow> (string + int \<times> int \<times> string) \<times> 's"
where
  "run_like_script R u v opr ts =
     like_script R (user_liked_set_key R u) (video_likes_count_key R v) like_stream_key
       (uuid_str R v) (uuid_str R u) opr (format_int ts) like_stream_max_len"

section \<open>The service\<close>

record like_state =
  ls_liked :: bool
  ls_count :: int

definition like_apply ::
  "('s, 'z) redis_scheme \<Rightarrow> uuid \<Rightarrow> uuid \<Rightarrow> op \<Rightarrow> int \<Rightarrow> 's world \<Rightarrow> like_state result \<times> 's world"
where
  "like_apply R u v opr now_ms w =
     (case redis_call (run_like_script R u v opr now_ms) w of
        (Inl e, w') \<Rightarrow> (Inl (Wrapped ''like script'' e), w')
      | (Inr (Inl msg), w') \<Rightarrow> (Inl (Wrapped ''like script'' (Plain msg)), w')
      | (Inr (Inr (liked, count, _)), w') \<Rightarrow> (Inr \<lparr>ls_liked = (liked = 1), ls_count = count\<rparr>, w'))"

definition service_like ::
  "('s, 'z) redis_scheme \<Rightarrow> uuid \<Rightarrow> uuid \<Rightarrow> int \<Rightarrow> 's world \<Rightarrow> like_state result \<times> 's world"
where
  "service_like R u v now_ms = like_apply R u v OpLike now_ms"

definition service_unlike ::
  "('s, 'z) redis_scheme \<Rightarrow> uuid \<Rightarrow> uuid \<Rightarrow> int \<Rightarrow> 's world \<Rightarrow> like_state result \<times> 's world"
where
  "service_unlike R u v now_ms = like_apply R u v OpUnlike now_ms"

definition is_liked_by ::
  "('s, 'z) redis_scheme \<Rightarrow> uuid \<Rightarrow> uuid \<Rightarrow> 's world \<Rightarrow> bool result \<times> 's world"
where
  "is_liked_by R u v w =
     (case redis_call (reading (rSISMEMBER R (user_liked_set_key R u) (uuid_str R v))) w of
        (Inl e, w') \<Rightarrow> (Inl (Wrapped ''sismember'' e), w')
      | (Inr b, w') \<Rightarrow> (Inr b, w'))"

definition day_ms :: nat where
  "day_ms = 24 * 60 * 60 * 1000"

text \<open>The count of a video: the Redis counter; on a miss the repository's count (if there is a
  repository), written back with SETNX. The parse error of a counter
  that is not a number is ignored.\<close>

definition service_count ::
  "('s, 'z) redis_scheme \<Rightarrow> (uuid \<Rightarrow> 's world \<Rightarrow> int result \<times> 's world) option \<Rightarrow> uuid \<Rightarrow> 's world
     \<Rightarrow> int result \<times> 's world"
where
  "service_count R repo v w =
     (case redis_call (reading (rGET R (video_likes_count_key R v))) w of
        (Inr (Some raw), w1) \<Rightarrow> (Inr (parse_int_value raw), w1)
      | (Inr None, w1) \<Rightarrow>
          (case repo of
             None \<Rightarrow> (Inr 0, w1)
           | Some count \<Rightarrow>
               (case count v w1 of
                  (Inl e, w2) \<Rightarrow> (Inl e, w2)
                | (Inr n, w2) \<Rightarrow>
                    (let (_, w3) = redis_call
                           (rSETNX R (video_likes_count_key R v) (format_int n) (Some day_ms)) w2
                     in (Inr n, w3))))
      | (Inl e, w1) \<Rightarrow> (Inl (Wrapped ''counter get'' e), w1))"

section \<open>The handlers\<close>

text \<open>\<open>parseVideoID\<close> writes a 400 for a malformed path parameter.\<close>

definition parse_video_id :: "'z libs_scheme \<Rightarrow> string \<Rightarrow> 'd response + uuid" where
  "parse_video_id L param =
     (case uuid_parse L param of
        None \<Rightarrow> Inl (httpx_error 400 ''validation_failed'' ''invalid video id'')
      | Some v \<Rightarrow> Inr v)"

definition handle_like ::
  "('s, 'z) redis_scheme \<Rightarrow> uuid \<Rightarrow> string \<Rightarrow> int \<Rightarrow> 's world \<Rightarrow> like_state response \<times> 's world"
where
  "handle_like R u param now_ms w =
     (case parse_video_id R param of
        Inl resp \<Rightarrow> (resp, w)
      | Inr v \<Rightarrow>
          (case service_like R u v now_ms w of
             (Inl e, w') \<Rightarrow> (httpx_error 500 ''internal_error'' ''like failed'', w')
           | (Inr st, w') \<Rightarrow> (httpx_accepted st, w')))"

definition handle_unlike ::
  "('s, 'z) redis_scheme \<Rightarrow> uuid \<Rightarrow> string \<Rightarrow> int \<Rightarrow> 's world \<Rightarrow> like_state response \<times> 's world"
where
  "handle_unlike R u param now_ms w =
     (case parse_video_id R param of
        Inl resp \<Rightarrow> (resp, w)
      | Inr v \<Rightarrow>
          (case service_unlike R u v now_ms w of
             (Inl e, w') \<Rightarrow> (httpx_error 500 ''internal_error'' ''unlike failed'', w')
           | (Inr st, w') \<Rightarrow> (httpx_accepted st, w')))"

section \<open>The abstract view of the Redis state\<close>

definition redis_edges :: "'z libs_scheme \<Rightarrow> keyspace \<Rightarrow> (uuid \<times> uuid) set" where
  "redis_edges L m = {(u, v). uuid_str L v \<in> set_val (m (user_liked_set_key L u))}"

definition edge_step :: "op \<Rightarrow> uuid \<Rightarrow> uuid \<Rightarrow> (uuid \<times> uuid) set \<Rightarrow> (uuid \<times> uuid) set" where
  "edge_step opr u v E = (if opr = OpLike then insert (u, v) E else E - {(u, v)})"

definition likers :: "uuid \<Rightarrow> (uuid \<times> uuid) set \<Rightarrow> uuid set" where
  "likers v E = {u. (u, v) \<in> E}"

definition like_event_fields :: "'z libs_scheme \<Rightarrow> uuid \<Rightarrow> uuid \<Rightarrow> op \<Rightarrow> int \<Rightarrow> (string \<times> string) list" where
  "like_event_fields L u v opr ts =
     [(''uid'', uuid_str L u), (''vid'', uuid_str L v), (''op'', opr), (''ts'', format_int ts)]"

text \<open>The keys have the types the script expects, and the counters their numbers; the stream
  has room below its cap.\<close>

definition like_typed :: "'z libs_scheme \<Rightarrow> keyspace \<Rightarrow> bool" where
  "like_typed L m \<longleftrightarrow> (\<forall>u. is_set (m (user_liked_set_key L u)))
     \<and> (\<forall>v. is_counter (m (video_likes_count_key L v))) \<and> is_stream (m like_stream_key)"

definition like_stream :: "keyspace \<Rightarrow> xstream" where
  "like_stream m = stream_val (m like_stream_key)"

definition like_stream_room :: "keyspace \<Rightarrow> bool" where
  "like_stream_room m \<longleftrightarrow> length (xentries (like_stream m)) < like_stream_max_len"

definition counters_exact :: "'z libs_scheme \<Rightarrow> keyspace \<Rightarrow> bool" where
  "counters_exact L m \<longleftrightarrow>
     (\<forall>v. num_val (m (video_likes_count_key L v)) = int (card (likers v (redis_edges L m))))"

lemma card_likers_insert:
  "card (likers x (insert (u, v) E)) =
     card (likers x E) + (if x = v \<and> (u, v) \<notin> E then 1 else 0)"
proof (cases "x = v")
  case True
  then have "likers x (insert (u, v) E) = insert u (likers x E)" by (auto simp: likers_def)
  then show ?thesis using True by (simp add: card_insert_if) (simp add: likers_def)
next
  case False
  then have "likers x (insert (u, v) E) = likers x E" by (auto simp: likers_def)
  with False show ?thesis by simp
qed

lemma card_likers_remove:
  "int (card (likers x (E - {(u, v)}))) =
     int (card (likers x E)) - (if x = v \<and> (u, v) \<in> E then 1 else 0)"
proof (cases "x = v \<and> (u, v) \<in> E")
  case True
  then have eq: "likers x (E - {(u, v)}) = likers x E - {u}" and mem: "u \<in> likers x E"
    by (auto simp: likers_def)
  then have "0 < card (likers x E)" by (auto simp: card_gt_0_iff)
  then have "int (card (likers x E - {u})) = int (card (likers x E)) - 1"
    using mem by (simp add: card_Diff_singleton)
  with True show ?thesis unfolding eq by simp
next
  case False
  then have "likers x (E - {(u, v)}) = likers x E" by (auto simp: likers_def)
  with False show ?thesis by auto
qed

section \<open>What the script does\<close>

context uuid_lib
begin

lemma user_liked_set_key_inj [simp]: "user_liked_set_key L u = user_liked_set_key L u' \<longleftrightarrow> u = u'"
  by (simp add: user_liked_set_key_def)

lemma video_likes_count_key_inj [simp]: "video_likes_count_key L v = video_likes_count_key L v' \<longleftrightarrow> v = v'"
  by (simp add: video_likes_count_key_def)

end

lemma is_counter_is_str: "is_counter e \<Longrightarrow> is_str e"
  by (cases e rule: is_counter.cases) simp_all

definition like_count_room :: "'z libs_scheme \<Rightarrow> uuid \<Rightarrow> keyspace \<Rightarrow> bool" where
  "like_count_room L v m \<longleftrightarrow>
     - (2 ^ 63) < num_val (m (video_likes_count_key L v)) \<and> num_val (m (video_likes_count_key L v)) < 2 ^ 63 - 1"

lemma num_val_incrby [simp]:
  "in_int64 (num_val (m k) + d) \<Longrightarrow> num_val (doc_incrby d k m k) = num_val (m k) + d"
  "in_int64 (num_val (m k) + d) \<Longrightarrow> is_counter (doc_incrby d k m k)"
  by simp_all

context redis_server
begin

lemma counter_or_zero_num_val: "is_counter (ks s k) \<Longrightarrow> counter_or_zero R k s = num_val (ks s k)"
  by (cases "ks s k" rule: is_counter.cases) (auto simp: counter_or_zero_def get)

lemma script_like_noop:
  assumes "like_typed R (ks s)" and "(u, v) \<in> redis_edges R (ks s)"
  shows "run_like_script R u v OpLike ts s =
    (Inr (1, num_val (ks s (video_likes_count_key R v)), ''noop''), s)"
proof -
  have "is_counter (ks s (video_likes_count_key R v))" using assms(1) by (simp add: like_typed_def)
  then have "counter_or_zero R (video_likes_count_key R v) s = num_val (ks s (video_likes_count_key R v))"
    by (rule counter_or_zero_num_val)
  then show ?thesis
    using assms by (simp add: run_like_script_def like_script_def Let_def sismember like_typed_def redis_edges_def)
qed

lemma script_unlike_noop:
  assumes "like_typed R (ks s)" and "(u, v) \<notin> redis_edges R (ks s)"
  shows "run_like_script R u v OpUnlike ts s =
    (Inr (0, num_val (ks s (video_likes_count_key R v)), ''noop''), s)"
proof -
  have "is_counter (ks s (video_likes_count_key R v))" using assms(1) by (simp add: like_typed_def)
  then have "counter_or_zero R (video_likes_count_key R v) s = num_val (ks s (video_likes_count_key R v))"
    by (rule counter_or_zero_num_val)
  then show ?thesis
    using assms by (simp add: run_like_script_def like_script_def Let_def sismember like_typed_def redis_edges_def)
qed

text \<open>The two branches that change state, as one update of the keyspace each.\<close>

lemma script_like_applied:
  assumes typed: "like_typed R (ks s)" and new: "(u, v) \<notin> redis_edges R (ks s)"
    and room: "like_stream_room (ks s)" and count: "like_count_room R v (ks s)"
  shows "\<exists>i s'. run_like_script R u v OpLike ts s =
      (Inr (1, num_val (ks s (video_likes_count_key R v)) + 1, ''applied''), s')
    \<and> xlast (like_stream (ks s)) < i
    \<and> ks s' = doc_stream (stream_add i (like_event_fields R u v OpLike ts)) like_stream_key
        (doc_incrby 1 (video_likes_count_key R v) (doc_sadd (user_liked_set_key R u) (uuid_str R v) (ks s)))"
proof -
  let ?uk = "user_liked_set_key R u" and ?ck = "video_likes_count_key R v"
  define s1 where "s1 = rSADD R ?uk (uuid_str R v) s"
  define s2 where "s2 = snd (rINCR R ?ck s1)"
  define x where "x = rXADD R like_stream_key like_stream_max_len (like_event_fields R u v OpLike ts) s2"
  have t: "is_set (ks s ?uk)" "is_counter (ks s ?ck)" "is_stream (ks s like_stream_key)"
    using typed by (simp_all add: like_typed_def)
  have k1: "ks s1 = doc_sadd ?uk (uuid_str R v) (ks s)" by (simp add: s1_def sadd t)
  have n: "in_int64 (num_val (ks s1 ?ck) + 1)" using count by (simp add: k1 like_count_room_def in_int64_def)
  have c1: "is_counter (ks s1 ?ck)" by (simp add: k1 t)
  have k2: "ks s2 = doc_incrby 1 ?ck (ks s1)" unfolding s2_def by (rule incr(2) [OF c1 n])
  have r2: "fst (rINCR R ?ck s1) = num_val (ks s ?ck) + 1" using incr(1) [OF c1 n] by (simp add: k1)
  have st: "is_stream (ks s2 like_stream_key)" "length (xentries (stream_val (ks s2 like_stream_key))) < like_stream_max_len"
    using room t by (simp_all add: k2 k1 like_stream_room_def like_stream_def)
  have "run_like_script R u v OpLike ts s = (Inr (1, num_val (ks s ?ck) + 1, ''applied''), snd x)"
    using new r2 t by (simp add: run_like_script_def like_script_def Let_def split_beta sismember redis_edges_def
        s1_def [symmetric] s2_def [symmetric] x_def like_event_fields_def)
  moreover have "xlast (like_stream (ks s)) < fst x"
    using xadd(1) [OF st] by (simp add: x_def k2 k1 like_stream_def)
  moreover have "ks (snd x) = doc_stream (stream_add (fst x) (like_event_fields R u v OpLike ts)) like_stream_key
      (doc_incrby 1 ?ck (doc_sadd ?uk (uuid_str R v) (ks s)))"
    using xadd(2) [OF st] by (simp add: x_def k2 k1)
  ultimately show ?thesis by blast
qed

lemma script_unlike_applied:
  assumes typed: "like_typed R (ks s)" and old: "(u, v) \<in> redis_edges R (ks s)"
    and room: "like_stream_room (ks s)" and count: "like_count_room R v (ks s)"
  defines "n \<equiv> num_val (ks s (video_likes_count_key R v)) - 1"
  shows "\<exists>i s'. run_like_script R u v OpUnlike ts s = (Inr (0, max 0 n, ''applied''), s')
    \<and> xlast (like_stream (ks s)) < i
    \<and> ks s' = doc_stream (stream_add i (like_event_fields R u v OpUnlike ts)) like_stream_key
        ((if n < 0 then doc_set (video_likes_count_key R v) ''0'' None else (\<lambda>m. m))
          (doc_incrby (- 1) (video_likes_count_key R v)
            (doc_srem (user_liked_set_key R u) (uuid_str R v) (ks s))))"
proof -
  let ?uk = "user_liked_set_key R u" and ?ck = "video_likes_count_key R v"
  define s1 where "s1 = rSREM R ?uk (uuid_str R v) s"
  define s2 where "s2 = snd (rDECR R ?ck s1)"
  define s3 where "s3 = (if n < 0 then rSET R ?ck ''0'' None s2 else s2)"
  define x where "x = rXADD R like_stream_key like_stream_max_len (like_event_fields R u v OpUnlike ts) s3"
  have t: "is_set (ks s ?uk)" "is_counter (ks s ?ck)" "is_stream (ks s like_stream_key)"
    using typed by (simp_all add: like_typed_def)
  have k1: "ks s1 = doc_srem ?uk (uuid_str R v) (ks s)" by (simp add: s1_def srem t)
  have b: "in_int64 (num_val (ks s1 ?ck) - 1)" using count by (simp add: k1 like_count_room_def in_int64_def)
  have c1: "is_counter (ks s1 ?ck)" by (simp add: k1 t)
  have k2: "ks s2 = doc_incrby (- 1) ?ck (ks s1)" unfolding s2_def by (rule decr(2) [OF c1 b])
  have r2: "fst (rDECR R ?ck s1) = n" using decr(1) [OF c1 b] by (simp add: k1 n_def)
  have k3: "ks s3 = (if n < 0 then doc_set ?ck ''0'' None else (\<lambda>m. m)) (ks s2)"
    by (simp add: s3_def set)
  have st: "is_stream (ks s3 like_stream_key)" "length (xentries (stream_val (ks s3 like_stream_key))) < like_stream_max_len"
    using room t by (simp_all add: k3 k2 k1 like_stream_room_def like_stream_def)
  have "run_like_script R u v OpUnlike ts s = (Inr (0, max 0 n, ''applied''), snd x)"
    using old r2 t by (simp add: run_like_script_def like_script_def Let_def split_beta sismember redis_edges_def
        s1_def [symmetric] s2_def [symmetric] s3_def x_def like_event_fields_def)
  moreover have "stream_val (ks s3 like_stream_key) = like_stream (ks s)"
    by (simp add: k3 k2 k1 like_stream_def)
  then have "xlast (like_stream (ks s)) < fst x"
    using xadd(1) [OF st] by (simp add: x_def)
  moreover have "ks (snd x) = doc_stream (stream_add (fst x) (like_event_fields R u v OpUnlike ts)) like_stream_key
      ((if n < 0 then doc_set ?ck ''0'' None else (\<lambda>m. m))
        (doc_incrby (- 1) ?ck (doc_srem ?uk (uuid_str R v) (ks s))))"
    using xadd(2) [OF st] by (simp add: x_def k3 k2 k1)
  ultimately show ?thesis by blast
qed

end

section \<open>The contract of one operation\<close>

text \<open>
  What one run of the script promises, as a relation between the keyspaces before and after:
  the edge set takes the step, the video's counter follows it and never goes below zero, an
  event is appended exactly when the edge set changed, and no other key is touched.
\<close>

definition op_delta :: "op \<Rightarrow> int \<Rightarrow> int" where
  "op_delta opr n = (if opr = OpLike then n + 1 else max 0 (n - 1))"

definition like_contract :: "'z libs_scheme \<Rightarrow> uuid \<Rightarrow> uuid \<Rightarrow> op \<Rightarrow> int \<Rightarrow> keyspace \<Rightarrow> keyspace \<Rightarrow> bool" where
  "like_contract L u v opr ts m m' \<longleftrightarrow>
     (let E = redis_edges L m; E' = edge_step opr u v E; c = video_likes_count_key L v
      in redis_edges L m' = E'
       \<and> like_typed L m'
       \<and> num_val (m' c) = (if E' = E then num_val (m c) else op_delta opr (num_val (m c)))
       \<and> (\<exists>i > xlast (like_stream m). like_stream m' =
            (if E' = E then like_stream m
             else stream_add i (like_event_fields L u v opr ts) (like_stream m)))
       \<and> (\<forall>k. k \<notin> {user_liked_set_key L u, c, like_stream_key} \<longrightarrow> m' k = m k))"

definition like_room :: "'z libs_scheme \<Rightarrow> nat \<Rightarrow> keyspace \<Rightarrow> bool" where
  "like_room L n m \<longleftrightarrow> length (xentries (like_stream m)) + n \<le> like_stream_max_len
     \<and> (\<forall>v. int n - 2 ^ 63 \<le> num_val (m (video_likes_count_key L v))
            \<and> num_val (m (video_likes_count_key L v)) + int n < 2 ^ 63)"

lemma like_room_one:
  "like_room L (Suc n) m \<Longrightarrow> like_stream_room m \<and> like_count_room L v m"
proof
  assume r: "like_room L (Suc n) m"
  then show "like_stream_room m" by (simp add: like_room_def like_stream_room_def)
  have "int (Suc n) - 2 ^ 63 \<le> num_val (m (video_likes_count_key L v))
      \<and> num_val (m (video_likes_count_key L v)) + int (Suc n) < 2 ^ 63"
    using r unfolding like_room_def by blast
  then show "like_count_room L v m" unfolding like_count_room_def by linarith
qed

lemma edge_step_same:
  "opr = OpLike \<or> opr = OpUnlike \<Longrightarrow> edge_step opr u v E = E \<longleftrightarrow> ((u, v) \<in> E \<longleftrightarrow> opr = OpLike)"
  by (auto simp: edge_step_def)

lemma doc_set_num [simp]: "num_val (doc_set k ''0'' t m k) = 0" "is_counter (doc_set k ''0'' t m k)"
  by (simp_all add: parse_int_def char_digit_def in_int64_def)

context redis_server
begin

lemma like_applied_contract:
  assumes typed: "like_typed R m" and new: "(u, v) \<notin> redis_edges R m"
    and count: "like_count_room R v m" and i: "xlast (like_stream m) < i"
    and m': "m' = doc_stream (stream_add i (like_event_fields R u v OpLike ts)) like_stream_key
        (doc_incrby 1 (video_likes_count_key R v) (doc_sadd (user_liked_set_key R u) (uuid_str R v) m))"
  shows "like_contract R u v OpLike ts m m'"
proof -
  let ?c = "video_likes_count_key R v"
  have uk: "m' (user_liked_set_key R x) =
      (if x = u then doc_sadd (user_liked_set_key R u) (uuid_str R v) m (user_liked_set_key R u)
       else m (user_liked_set_key R x))" for x
    by (simp add: m')
  have cnt: "in_int64 (num_val (m ?c) + 1)" using count by (simp add: like_count_room_def in_int64_def)
  then have ck: "num_val (m' ?c) = num_val (m ?c) + 1" "is_counter (m' ?c)" by (simp_all add: m')
  have ck': "m' (video_likes_count_key R x) = m (video_likes_count_key R x)" if "x \<noteq> v" for x
    using that by (simp add: m')
  have edges: "redis_edges R m' = insert (u, v) (redis_edges R m)"
    by (auto simp: redis_edges_def uk split: if_splits)
  have typed': "like_typed R m'"
    unfolding like_typed_def
  proof (intro conjI allI)
    fix x
    show "is_set (m' (user_liked_set_key R x))" using typed by (simp add: uk like_typed_def)
    show "is_counter (m' (video_likes_count_key R x))"
      using typed ck(2) ck' by (cases "x = v") (simp_all add: like_typed_def)
    show "is_stream (m' like_stream_key)" by (simp add: m')
  qed
  have "like_stream m' = stream_add i (like_event_fields R u v OpLike ts) (like_stream m)"
    by (simp add: m' like_stream_def)
  moreover have "insert (u, v) (redis_edges R m) \<noteq> redis_edges R m" using new by auto
  moreover have "m' k = m k" if "k \<notin> {user_liked_set_key R u, ?c, like_stream_key}" for k
    using that by (simp add: m')
  ultimately show ?thesis
    using i edges typed' ck(1) by (auto simp: like_contract_def Let_def edge_step_def op_delta_def)
qed

lemma unlike_applied_contract:
  assumes typed: "like_typed R m" and old: "(u, v) \<in> redis_edges R m"
    and count: "like_count_room R v m" and i: "xlast (like_stream m) < i"
    and n: "n = num_val (m (video_likes_count_key R v)) - 1"
    and m': "m' = doc_stream (stream_add i (like_event_fields R u v OpUnlike ts)) like_stream_key
        ((if n < 0 then doc_set (video_likes_count_key R v) ''0'' None else (\<lambda>m. m))
          (doc_incrby (- 1) (video_likes_count_key R v)
            (doc_srem (user_liked_set_key R u) (uuid_str R v) m)))"
  shows "like_contract R u v OpUnlike ts m m'"
proof -
  let ?c = "video_likes_count_key R v"
  have uk: "m' (user_liked_set_key R x) =
      (if x = u then doc_srem (user_liked_set_key R u) (uuid_str R v) m (user_liked_set_key R u)
       else m (user_liked_set_key R x))" for x
    by (simp add: m')
  have cnt: "in_int64 (num_val (m ?c) + - 1)" using count by (simp add: like_count_room_def in_int64_def)
  then have ck: "num_val (m' ?c) = max 0 (num_val (m ?c) - 1)" "is_counter (m' ?c)"
    by (cases "n < 0"; simp add: m' n del: doc_same(1))+
  have ck': "m' (video_likes_count_key R x) = m (video_likes_count_key R x)" if "x \<noteq> v" for x
    using that by (simp add: m')
  have edges: "redis_edges R m' = redis_edges R m - {(u, v)}"
    by (auto simp: redis_edges_def uk split: if_splits)
  have typed': "like_typed R m'"
    unfolding like_typed_def
  proof (intro conjI allI)
    fix x
    show "is_set (m' (user_liked_set_key R x))" using typed by (simp add: uk like_typed_def)
    show "is_counter (m' (video_likes_count_key R x))"
      using typed ck(2) ck' by (cases "x = v") (simp_all add: like_typed_def)
    show "is_stream (m' like_stream_key)" by (simp add: m')
  qed
  have "like_stream m' = stream_add i (like_event_fields R u v OpUnlike ts) (like_stream m)"
    by (simp add: m' like_stream_def)
  moreover have "redis_edges R m - {(u, v)} \<noteq> redis_edges R m" using old by auto
  moreover have "m' k = m k" if "k \<notin> {user_liked_set_key R u, ?c, like_stream_key}" for k
    using that by (simp add: m')
  ultimately show ?thesis
    using i edges typed' ck(1) by (auto simp: like_contract_def Let_def edge_step_def op_delta_def)
qed

lemma like_noop_contract:
  assumes "like_typed R m" and "edge_step opr u v (redis_edges R m) = redis_edges R m"
  shows "like_contract R u v opr ts m m"
  using assms by (auto simp: like_contract_def Let_def)

lemma script_contract:
  assumes "like_typed R (ks s)" and "like_room R (Suc n) (ks s)" and op: "opr = OpLike \<or> opr = OpUnlike"
  shows "\<exists>s'. run_like_script R u v opr ts s =
      (Inr (if opr = OpLike then 1 else 0, num_val (ks s' (video_likes_count_key R v)),
            if edge_step opr u v (redis_edges R (ks s)) = redis_edges R (ks s) then ''noop'' else ''applied''), s')
    \<and> like_contract R u v opr ts (ks s) (ks s')"
proof (cases "edge_step opr u v (redis_edges R (ks s)) = redis_edges R (ks s)")
  case True
  then have same: "(u, v) \<in> redis_edges R (ks s) \<longleftrightarrow> opr = OpLike" using edge_step_same [OF op] by blast
  have "run_like_script R u v opr ts s =
      (Inr (if opr = OpLike then 1 else 0, num_val (ks s (video_likes_count_key R v)), ''noop''), s)"
    using op same assms(1) by (cases "opr = OpLike") (simp_all add: script_like_noop script_unlike_noop)
  then show ?thesis using True like_noop_contract [OF assms(1) True] by (intro exI [of _ s]) simp
next
  case False
  then have diff: "(u, v) \<in> redis_edges R (ks s) \<longleftrightarrow> opr = OpUnlike" using edge_step_same [OF op] op by auto
  note room = like_room_one [OF assms(2), THEN conjunct1] like_room_one [OF assms(2), THEN conjunct2, of v]
  show ?thesis
  proof (cases "opr = OpLike")
    case True
    then have new: "(u, v) \<notin> redis_edges R (ks s)" using diff by simp
    obtain i s' where run: "run_like_script R u v OpLike ts s =
        (Inr (1, num_val (ks s (video_likes_count_key R v)) + 1, ''applied''), s')"
      and i: "xlast (like_stream (ks s)) < i"
      and s': "ks s' = doc_stream (stream_add i (like_event_fields R u v OpLike ts)) like_stream_key
        (doc_incrby 1 (video_likes_count_key R v) (doc_sadd (user_liked_set_key R u) (uuid_str R v) (ks s)))"
      using script_like_applied [OF assms(1) new room] by blast
    have "like_contract R u v OpLike ts (ks s) (ks s')"
      by (rule like_applied_contract [OF assms(1) new room(2) i s'])
    moreover from this have "num_val (ks s' (video_likes_count_key R v)) = num_val (ks s (video_likes_count_key R v)) + 1"
      using False True by (simp add: like_contract_def Let_def op_delta_def)
    ultimately show ?thesis using run True False by auto
  next
    case notlike: False
    then have un: "opr = OpUnlike" using op by blast
    then have old: "(u, v) \<in> redis_edges R (ks s)" using diff by simp
    obtain i s' where run: "run_like_script R u v OpUnlike ts s =
        (Inr (0, max 0 (num_val (ks s (video_likes_count_key R v)) - 1), ''applied''), s')"
      and i: "xlast (like_stream (ks s)) < i"
      and s': "ks s' = doc_stream (stream_add i (like_event_fields R u v OpUnlike ts)) like_stream_key
        ((if num_val (ks s (video_likes_count_key R v)) - 1 < 0
            then doc_set (video_likes_count_key R v) ''0'' None else (\<lambda>m. m))
          (doc_incrby (- 1) (video_likes_count_key R v)
            (doc_srem (user_liked_set_key R u) (uuid_str R v) (ks s))))"
      using script_unlike_applied [OF assms(1) old room] by blast
    have "like_contract R u v OpUnlike ts (ks s) (ks s')"
      by (rule unlike_applied_contract [OF assms(1) old room(2) i refl s'])
    moreover from this have "num_val (ks s' (video_likes_count_key R v)) =
        max 0 (num_val (ks s (video_likes_count_key R v)) - 1)"
      using False un by (simp add: like_contract_def Let_def op_delta_def)
    ultimately show ?thesis using run un False by auto
  qed
qed

end

section \<open>Sequences of requests\<close>

type_synonym like_request = "uuid \<times> uuid \<times> op \<times> int"

fun valid_request :: "like_request \<Rightarrow> bool" where
  "valid_request (u, v, opr, ts) = (opr = OpLike \<or> opr = OpUnlike)"

fun run_like_requests :: "('s, 'z) redis_scheme \<Rightarrow> like_request list \<Rightarrow> 's \<Rightarrow> 's" where
  "run_like_requests R [] s = s"
| "run_like_requests R ((u, v, opr, ts) # rs) s =
     run_like_requests R rs (snd (run_like_script R u v opr ts s))"

fun requested_edges :: "like_request list \<Rightarrow> (uuid \<times> uuid) set \<Rightarrow> (uuid \<times> uuid) set" where
  "requested_edges [] E = E"
| "requested_edges ((u, v, opr, ts) # rs) E = requested_edges rs (edge_step opr u v E)"

text \<open>The entries of a part of the stream, as the events they carry.\<close>

definition logs :: "'z libs_scheme \<Rightarrow> like_request list \<Rightarrow> (nat \<times> (string \<times> string) list) list \<Rightarrow> bool" where
  "logs L evs es \<longleftrightarrow> map snd es = map (\<lambda>(u, v, opr, ts). like_event_fields L u v opr ts) evs"

lemma likers_edge_step:
  assumes "opr = OpLike \<or> opr = OpUnlike"
  shows "int (card (likers x (edge_step opr u v E))) =
    (if edge_step opr u v E = E \<or> x \<noteq> v then int (card (likers x E))
     else op_delta opr (int (card (likers x E))))"
proof (cases "edge_step opr u v E = E")
  case False
  then have "(u, v) \<in> E \<longleftrightarrow> opr = OpUnlike" using assms by (auto simp: edge_step_def)
  then show ?thesis
    using assms False card_likers_insert [of x u v E] card_likers_remove [of x E u v]
    by (auto simp: edge_step_def op_delta_def)
qed simp

context uuid_lib
begin

lemma contract_counters_exact:
  assumes "like_contract L u v opr ts m m'" and "counters_exact L m" and "opr = OpLike \<or> opr = OpUnlike"
  shows "counters_exact L m'"
  unfolding counters_exact_def
proof
  fix x
  have e: "redis_edges L m' = edge_step opr u v (redis_edges L m)"
    and c: "num_val (m' (video_likes_count_key L v)) =
      (if edge_step opr u v (redis_edges L m) = redis_edges L m then num_val (m (video_likes_count_key L v))
       else op_delta opr (num_val (m (video_likes_count_key L v))))"
    and o: "x \<noteq> v \<Longrightarrow> m' (video_likes_count_key L x) = m (video_likes_count_key L x)"
    using assms(1) by (simp_all add: like_contract_def Let_def)
  show "num_val (m' (video_likes_count_key L x)) = int (card (likers x (redis_edges L m')))"
    using assms(2) c o unfolding e likers_edge_step [OF assms(3)] counters_exact_def
    by (cases "x = v") simp_all
qed

lemma contract_room:
  assumes "like_contract L u v opr ts m m'" and "like_room L (Suc n) m"
  shows "like_room L n m'"
proof -
  have len: "length (xentries (like_stream m')) \<le> Suc (length (xentries (like_stream m)))"
    and c: "num_val (m' (video_likes_count_key L v)) =
      (if edge_step opr u v (redis_edges L m) = redis_edges L m then num_val (m (video_likes_count_key L v))
       else op_delta opr (num_val (m (video_likes_count_key L v))))"
    and o: "\<And>x. x \<noteq> v \<Longrightarrow> m' (video_likes_count_key L x) = m (video_likes_count_key L x)"
    using assms(1) by (auto simp: like_contract_def Let_def stream_add_def)
  have l: "length (xentries (like_stream m)) + Suc n \<le> like_stream_max_len"
    and b: "\<And>x. int (Suc n) - 2 ^ 63 \<le> num_val (m (video_likes_count_key L x))"
      "\<And>x. num_val (m (video_likes_count_key L x)) + int (Suc n) < 2 ^ 63"
    using assms(2) unfolding like_room_def by blast+
  have n: "int n < 2 ^ 63" using l by (simp add: like_stream_max_len_def)
  have "int n - 2 ^ 63 \<le> num_val (m' (video_likes_count_key L x))
      \<and> num_val (m' (video_likes_count_key L x)) + int n < 2 ^ 63" for x
  proof (cases "x = v")
    case True
    show ?thesis
      using b [of v] n unfolding True c op_delta_def
      by (simp add: max_def split: if_splits)
  next
    case False
    with b [of x] show ?thesis unfolding o [OF False] by linarith
  qed
  with len l show ?thesis by (simp add: like_room_def)
qed

end

context redis_server
begin

lemma run_like_requests_history:
  assumes "like_typed R (ks s)" and "like_room R (length rs) (ks s)" and "\<forall>r \<in> set rs. valid_request r"
  shows "redis_edges R (ks (run_like_requests R rs s)) = requested_edges rs (redis_edges R (ks s))
    \<and> like_typed R (ks (run_like_requests R rs s))
    \<and> (counters_exact R (ks s) \<longrightarrow> counters_exact R (ks (run_like_requests R rs s)))
    \<and> (\<exists>evs es. xentries (like_stream (ks (run_like_requests R rs s))) = xentries (like_stream (ks s)) @ es
        \<and> xgroups (like_stream (ks (run_like_requests R rs s))) = xgroups (like_stream (ks s))
        \<and> sorted_wrt (<) (xlast (like_stream (ks s)) # map fst es)
        \<and> logs R evs es \<and> set evs \<subseteq> set rs \<and> length evs \<le> length rs
        \<and> requested_edges evs (redis_edges R (ks s)) = requested_edges rs (redis_edges R (ks s)))"
  using assms
proof (induction rs arbitrary: s)
  case Nil
  then show ?case by (auto simp: logs_def intro!: exI [of _ "[]"])
next
  case (Cons r rs)
  obtain u v opr ts where r: "r = (u, v, opr, ts)" by (cases r)
  have op: "opr = OpLike \<or> opr = OpUnlike" using Cons.prems(3) by (simp add: r)
  have room: "like_room R (Suc (length rs)) (ks s)" using Cons.prems(2) by simp
  obtain s1 where run: "snd (run_like_script R u v opr ts s) = s1"
    and con: "like_contract R u v opr ts (ks s) (ks s1)"
    using script_contract [OF Cons.prems(1) room op, of u v ts] by (metis snd_conv)
  let ?E = "redis_edges R (ks s)" and ?x = "like_stream (ks s)"
  have e1: "redis_edges R (ks s1) = edge_step opr u v ?E" and t1: "like_typed R (ks s1)"
    using con by (simp_all add: like_contract_def Let_def)
  obtain i where i: "xlast ?x < i" and st1: "like_stream (ks s1) =
      (if edge_step opr u v ?E = ?E then ?x else stream_add i (like_event_fields R u v opr ts) ?x)"
    using con by (auto simp: like_contract_def Let_def)
  have IH: "redis_edges R (ks (run_like_requests R rs s1)) = requested_edges rs (redis_edges R (ks s1))
    \<and> like_typed R (ks (run_like_requests R rs s1))
    \<and> (counters_exact R (ks s1) \<longrightarrow> counters_exact R (ks (run_like_requests R rs s1)))
    \<and> (\<exists>evs es. xentries (like_stream (ks (run_like_requests R rs s1))) = xentries (like_stream (ks s1)) @ es
        \<and> xgroups (like_stream (ks (run_like_requests R rs s1))) = xgroups (like_stream (ks s1))
        \<and> sorted_wrt (<) (xlast (like_stream (ks s1)) # map fst es)
        \<and> logs R evs es \<and> set evs \<subseteq> set rs \<and> length evs \<le> length rs
        \<and> requested_edges evs (redis_edges R (ks s1)) = requested_edges rs (redis_edges R (ks s1)))"
    using Cons.IH [OF t1 contract_room [OF con room]] Cons.prems(3) by simp
  then obtain evs es where x1: "xentries (like_stream (ks (run_like_requests R rs s1))) = xentries (like_stream (ks s1)) @ es"
    and g1: "xgroups (like_stream (ks (run_like_requests R rs s1))) = xgroups (like_stream (ks s1))"
    and srt: "sorted_wrt (<) (xlast (like_stream (ks s1)) # map fst es)"
    and lg: "logs R evs es" "set evs \<subseteq> set rs \<and> length evs \<le> length rs"
    and rq: "requested_edges evs (redis_edges R (ks s1)) = requested_edges rs (redis_edges R (ks s1))"
    by blast
  have log: "\<exists>evs es. xentries (like_stream (ks (run_like_requests R rs s1))) = xentries ?x @ es
        \<and> xgroups (like_stream (ks (run_like_requests R rs s1))) = xgroups ?x
        \<and> sorted_wrt (<) (xlast ?x # map fst es)
        \<and> logs R evs es \<and> set evs \<subseteq> set (r # rs) \<and> length evs \<le> length (r # rs)
        \<and> requested_edges evs ?E = requested_edges rs (edge_step opr u v ?E)"
  proof (cases "edge_step opr u v ?E = ?E")
    case True
    with x1 g1 srt lg rq show ?thesis unfolding st1 e1 by (auto intro!: exI [of _ evs])
  next
    case False
    have new: "xentries (like_stream (ks s1)) = xentries ?x @ [(i, like_event_fields R u v opr ts)]"
      "xlast (like_stream (ks s1)) = i" "xgroups (like_stream (ks s1)) = xgroups ?x"
      using False by (simp_all add: st1 stream_add_def)
    let ?evs = "(u, v, opr, ts) # evs" and ?es = "(i, like_event_fields R u v opr ts) # es"
    have "xentries (like_stream (ks (run_like_requests R rs s1))) = xentries ?x @ ?es"
      using x1 new(1) by simp
    moreover have "sorted_wrt (<) (xlast ?x # map fst ?es)" using srt i unfolding new(2) by auto
    moreover have "logs R ?evs ?es" using lg(1) by (simp add: logs_def)
    moreover have "set ?evs \<subseteq> set (r # rs) \<and> length ?evs \<le> length (r # rs)" using lg(2) by (auto simp: r)
    moreover have "requested_edges ?evs ?E = requested_edges rs (edge_step opr u v ?E)" using rq by (simp add: e1)
    ultimately show ?thesis using g1 new(3) by metis
  qed
  have "counters_exact R (ks s) \<longrightarrow> counters_exact R (ks s1)"
    using contract_counters_exact [OF con _ op] by blast
  with IH log show ?case by (simp add: r run e1)
qed

end

text \<open>The empty keyspace of the reference server.\<close>

lemma no_likes:
  "like_typed ref_redis (\<lambda>_. None)"
  "like_room ref_redis 1 (\<lambda>_. None)"
  by (simp_all add: like_typed_def like_room_def like_stream_def empty_stream_def like_stream_max_len_def)

section \<open>Properties\<close>

text \<open>
  C4. One like or unlike, on any Redis state whose keys have the types of the namespace: the
  script replies the new state of the pair and the video's counter after the operation, the
  status says whether anything changed, and the keyspace takes exactly the abstract step
  (edge set, counter with its clamp at zero, one event if and only if the edge changed, no
  other key touched). In particular repeating an operation is a no-op that emits no event.
\<close>

theorem like_script_meets_its_contract:
  assumes "redis_server R ks" and "like_typed R (ks s)" and "like_room R 1 (ks s)"
    and "opr = OpLike \<or> opr = OpUnlike"
  shows "\<exists>s'. run_like_script R u v opr ts s =
      (Inr (if opr = OpLike then 1 else 0, num_val (ks s' (video_likes_count_key R v)),
            if edge_step opr u v (redis_edges R (ks s)) = redis_edges R (ks s) then ''noop'' else ''applied''), s')
    \<and> like_contract R u v opr ts (ks s) (ks s')"
  using redis_server.script_contract [OF assms(1,2) _ assms(4), of 0] assms(3) by simp

theorem like_script_meets_its_contract_witness:
  "\<exists>s'. run_like_script ref_redis 1 2 OpLike 5 (\<lambda>_. None) =
      (Inr (1, num_val (s' (video_likes_count_key ref_redis 2)), ''applied''), s')
    \<and> like_contract ref_redis 1 2 OpLike 5 (\<lambda>_. None) s'"
proof -
  have "edge_step OpLike 1 2 (redis_edges ref_redis (\<lambda>_. None)) \<noteq> redis_edges ref_redis (\<lambda>_. None)"
    by (auto simp: edge_step_def redis_edges_def)
  then show ?thesis
    using like_script_meets_its_contract [OF ref_redis.redis_server_axioms no_likes, of OpLike 1 2 5] by simp
qed

text \<open>
  The stream is a faithful history: after any sequence of valid requests, the edges are the
  requested ones, the stream has grown by entries with strictly increasing ids, and replaying
  just those entries over the initial edges gives the final edges again.
\<close>

theorem like_stream_is_the_history:
  assumes "redis_server R ks" and "like_typed R (ks s)" and "like_room R (length rs) (ks s)"
    and "\<forall>r \<in> set rs. valid_request r"
  shows "redis_edges R (ks (run_like_requests R rs s)) = requested_edges rs (redis_edges R (ks s))
    \<and> (\<exists>evs es. xentries (like_stream (ks (run_like_requests R rs s))) = xentries (like_stream (ks s)) @ es
        \<and> sorted_wrt (<) (xlast (like_stream (ks s)) # map fst es) \<and> logs R evs es
        \<and> requested_edges evs (redis_edges R (ks s)) = redis_edges R (ks (run_like_requests R rs s)))"
  using redis_server.run_like_requests_history [OF assms] by auto

theorem like_stream_is_the_history_witness:
  "redis_edges ref_redis (run_like_requests ref_redis
      [(1, 7, OpLike, 0), (1, 7, OpLike, 1), (2, 7, OpLike, 2), (1, 7, OpUnlike, 3)] (\<lambda>_. None)) = {(2, 7)}"
  using like_stream_is_the_history [OF ref_redis.redis_server_axioms no_likes(1),
      of "[(1, 7, OpLike, 0), (1, 7, OpLike, 1), (2, 7, OpLike, 2), (1, 7, OpUnlike, 3)]"]
  by (auto simp: edge_step_def redis_edges_def like_room_def like_stream_def empty_stream_def
      like_stream_max_len_def)

text \<open>
  The fast counter is exact as long as only the script writes it: starting from counters
  that equal the number of users whose set holds the video, every sequence of likes and unlikes
  keeps them equal.
\<close>

theorem like_counters_stay_exact:
  assumes "redis_server R ks" and "like_typed R (ks s)" and "like_room R (length rs) (ks s)"
    and "\<forall>r \<in> set rs. valid_request r" and "counters_exact R (ks s)"
  shows "counters_exact R (ks (run_like_requests R rs s))"
  using redis_server.run_like_requests_history [OF assms(1-4)] assms(5) by blast

theorem like_counters_stay_exact_witness:
  "counters_exact ref_redis (run_like_requests ref_redis
      [(1, 7, OpLike, 0), (1, 7, OpLike, 1), (2, 7, OpLike, 2), (1, 7, OpUnlike, 3)] (\<lambda>_. None))"
  by (rule like_counters_stay_exact [OF ref_redis.redis_server_axioms no_likes(1)])
     (auto simp: redis_edges_def likers_def counters_exact_def like_room_def like_stream_def
        empty_stream_def like_stream_max_len_def)

text \<open>
  C11. A like request is all or nothing whatever the link to Redis does: the handler answers 400
  and touches nothing when the id does not parse; otherwise it answers 202 with the new state
  after the whole contract has taken effect, or 500 with the keyspace either untouched or
  after the whole contract (the reply was lost) - never in between, and no other store changes.
\<close>

theorem like_request_is_atomic:
  assumes "redis_server R ks" and "like_typed R (ks (srv w))" and "like_room R 1 (ks (srv w))"
    and "handle_like R u param now_ms w = (resp, w')"
  shows "case uuid_parse R param of
      None \<Rightarrow> status resp = 400 \<and> w' = w
    | Some v \<Rightarrow> pg w' = pg w \<and> ch w' = ch w \<and>
        (let done = like_contract R u v OpLike now_ms (ks (srv w)) (ks (srv w'))
         in (status resp = 202 \<and> done \<and> resp_data resp =
               Some \<lparr>ls_liked = True, ls_count = num_val (ks (srv w') (video_likes_count_key R v))\<rparr>)
          \<or> (status resp = 500 \<and> resp_data resp = None \<and> (srv w' = srv w \<or> done)))"
proof (cases "uuid_parse R param")
  case None
  with assms(4) show ?thesis by (auto simp: handle_like_def parse_video_id_def httpx_defs)
next
  case (Some v)
  obtain s' where run: "run_like_script R u v OpLike now_ms (srv w) =
      (Inr (1, num_val (ks s' (video_likes_count_key R v)),
        if edge_step OpLike u v (redis_edges R (ks (srv w))) = redis_edges R (ks (srv w))
        then ''noop'' else ''applied''), s')"
    and con: "like_contract R u v OpLike now_ms (ks (srv w)) (ks s')"
    using redis_server.script_contract [OF assms(1,2), of 0 OpLike u v now_ms] assms(3) by auto
  obtain r w1 where call: "redis_call (run_like_script R u v OpLike now_ms) w = (r, w1)" by (metis surj_pair)
  then have frame: "pg w1 = pg w" "ch w1 = ch w"
    using redis_call_frame [of "run_like_script R u v OpLike now_ms" w] by simp_all
  from call show ?thesis
  proof (cases rule: redis_call_cases)
    case (1 a)
    with call run con frame Some assms(4) show ?thesis
      by (auto simp: handle_like_def parse_video_id_def service_like_def like_apply_def httpx_defs Let_def)
  next
    case (2 e)
    with call frame Some assms(4) show ?thesis
      by (auto simp: handle_like_def parse_video_id_def service_like_def like_apply_def httpx_defs Let_def)
  next
    case (3 e)
    with call run con frame Some assms(4) show ?thesis
      by (auto simp: handle_like_def parse_video_id_def service_like_def like_apply_def httpx_defs Let_def)
  qed
qed

theorem like_request_is_atomic_witness:
  "case handle_like ref_redis 1 (ref_uuid_str 7) 5 ((new_world (\<lambda>_. None))\<lparr>net := [ReplyLost]\<rparr>) of (resp, w') \<Rightarrow>
     (status resp = 202 \<and> resp_data resp =
        Some \<lparr>ls_liked = True, ls_count = num_val (srv w' (video_likes_count_key ref_redis 7))\<rparr>)
   \<or> (status resp = 500 \<and> resp_data resp = None \<and>
        (srv w' = (\<lambda>_. None) \<or> like_contract ref_redis 1 7 OpLike 5 (\<lambda>_. None) (srv w')))"
proof -
  let ?w = "(new_world (\<lambda>_. None))\<lparr>net := [ReplyLost]\<rparr> :: keyspace world"
  have parse: "uuid_parse ref_redis (ref_uuid_str 7) = Some 7" using ref_redis.parse_str [of 7] by simp
  obtain resp w' where eq: "handle_like ref_redis 1 (ref_uuid_str 7) 5 ?w = (resp, w')" by (metis surj_pair)
  have typed: "like_typed ref_redis (srv ?w)" "like_room ref_redis 1 (srv ?w)"
    using no_likes by (simp_all add: new_world_def)
  show ?thesis
    using like_request_is_atomic [OF ref_redis.redis_server_axioms typed eq] parse
    unfolding eq by (auto simp: Let_def new_world_def)
qed

end
