(* ===== verification/LikeWorker.thy ===== *)
theory LikeWorker
  imports LikeApi
begin

text \<open>
  \<open>internal/like/worker.go\<close>: the consumer of the like stream. The locale \<open>like_repository\<close> is
  the contract of \<open>like.Repository\<close> the worker relies on (the step on the edge set, an
  invariant that no call breaks, what an error may leave behind); it is interpreted on the
  Postgres repository of theory LikeStore. The consumer loop is a number of passes, one
  \<open>XREADGROUP\<close> each; the database clock is read per entry.
\<close>

section \<open>The worker\<close>

record worker_config =
  wc_group :: string
  wc_consumer :: string
  wc_batch_size :: int
  wc_block_timeout :: int

definition new_worker :: "worker_config \<Rightarrow> worker_config" where
  "new_worker c =
     \<lparr>wc_group = (if wc_group c = [] then ''vidmerce-workers'' else wc_group c),
      wc_consumer = (if wc_consumer c = [] then ''worker-1'' else wc_consumer c),
      wc_batch_size = (if wc_batch_size c \<le> 0 then 100 else wc_batch_size c),
      wc_block_timeout = (if wc_block_timeout c \<le> 0 then 5 * 1000000000 else wc_block_timeout c)\<rparr>"

record like_event =
  le_user_id :: uuid
  le_video_id :: uuid
  le_op :: op
  le_stream_id :: nat

definition like_parse_event :: "'z libs_scheme \<Rightarrow> message \<Rightarrow> like_event option" where
  "like_parse_event L m =
     (let opr = field ''op'' m
      in case (uuid_parse L (field ''uid'' m), uuid_parse L (field ''vid'' m)) of
           (Some u, Some v) \<Rightarrow>
             if opr \<noteq> OpLike \<and> opr \<noteq> OpUnlike then None
             else Some \<lparr>le_user_id = u, le_video_id = v, le_op = opr, le_stream_id = fst m\<rparr>
         | _ \<Rightarrow> None)"

text \<open>\<open>XGROUP CREATE ... $ MKSTREAM\<close>; the \<open>BUSYGROUP\<close> reply is not an error.\<close>

definition like_ensure_group ::
  "('s, 'z) redis_scheme \<Rightarrow> worker_config \<Rightarrow> 's world \<Rightarrow> unit result \<times> 's world"
where
  "like_ensure_group R c w =
     (case redis_call (rXGROUP R like_stream_key (wc_group c)) w of
        (Inl e, w') \<Rightarrow> (Inl (Wrapped ''ensure group'' e), w')
      | (Inr _, w') \<Rightarrow> (Inr (), w'))"

definition like_read ::
  "('s, 'z) redis_scheme \<Rightarrow> worker_config \<Rightarrow> 's world \<Rightarrow> message list result \<times> 's world"
where
  "like_read R c = redis_call (rXREADGROUP R like_stream_key (wc_group c) (nat (wc_batch_size c)))"

definition like_ack :: "('s, 'z) redis_scheme \<Rightarrow> worker_config \<Rightarrow> nat \<Rightarrow> 's world \<Rightarrow> 's world" where
  "like_ack R c i w = snd (redis_call (writing (rXACK R like_stream_key (wc_group c) [i])) w)"

definition like_process ::
  "('s, 'z) redis_scheme \<Rightarrow> 's world like_repo \<Rightarrow> worker_config \<Rightarrow> (nat \<Rightarrow> gotime) \<Rightarrow> message
     \<Rightarrow> 's world \<Rightarrow> 's world"
where
  "like_process R repo c clk m w =
     (case like_parse_event R m of
        None \<Rightarrow> like_ack R c (fst m) w
      | Some ev \<Rightarrow>
          (case repo_apply repo (le_user_id ev) (le_video_id ev) (le_op ev) (clk (fst m)) w of
             (Inl e, w') \<Rightarrow> w'
           | (Inr res, w') \<Rightarrow> like_ack R c (fst m) w'))"

text \<open>One turn of the loop: a failed read backs off, otherwise the batch is processed in order.\<close>

definition like_pass ::
  "('s, 'z) redis_scheme \<Rightarrow> 's world like_repo \<Rightarrow> worker_config \<Rightarrow> (nat \<Rightarrow> gotime) \<Rightarrow> 's world \<Rightarrow> 's world"
where
  "like_pass R repo c clk w =
     (case like_read R c w of
        (Inl e, w') \<Rightarrow> w'
      | (Inr es, w') \<Rightarrow> fold (like_process R repo c clk) es w')"

fun like_passes ::
  "('s, 'z) redis_scheme \<Rightarrow> 's world like_repo \<Rightarrow> worker_config \<Rightarrow> (nat \<Rightarrow> gotime) \<Rightarrow> nat
     \<Rightarrow> 's world \<Rightarrow> 's world"
where
  "like_passes R repo c clk 0 w = w"
| "like_passes R repo c clk (Suc n) w = like_passes R repo c clk n (like_pass R repo c clk w)"

text \<open>\<open>Run\<close>, cancelled after \<open>n\<close> turns.\<close>

definition like_run ::
  "('s, 'z) redis_scheme \<Rightarrow> 's world like_repo \<Rightarrow> worker_config \<Rightarrow> (nat \<Rightarrow> gotime) \<Rightarrow> nat
     \<Rightarrow> 's world \<Rightarrow> unit result \<times> 's world"
where
  "like_run R repo c clk n w =
     (case like_ensure_group R c w of
        (Inl e, w') \<Rightarrow> (Inl e, w')
      | (Inr _, w') \<Rightarrow> (Inr (), like_passes R repo c clk n w'))"

section \<open>The contract of the repository\<close>

locale like_repository =
  fixes repo :: "'s world like_repo"
    and E :: "postgres \<Rightarrow> (uuid \<times> uuid) set"
    and inv :: "postgres \<Rightarrow> bool"
    and admits :: "uuid \<Rightarrow> uuid \<Rightarrow> postgres \<Rightarrow> bool"
  assumes apply_frame: "srv (snd (repo_apply repo u v opr now w)) = srv w"
      "net (snd (repo_apply repo u v opr now w)) = net w"
      "pgnet w = [] \<Longrightarrow> pgnet (snd (repo_apply repo u v opr now w)) = []"
    and apply_inv: "inv (pg w) \<Longrightarrow> inv (pg (snd (repo_apply repo u v opr now w)))"
    and apply_done: "opr = OpLike \<or> opr = OpUnlike \<Longrightarrow> repo_apply repo u v opr now w = (Inr res, w') \<Longrightarrow>
        E (pg w') = edge_step opr u v (E (pg w)) \<and> lr_changed res = (E (pg w') \<noteq> E (pg w))"
    and apply_failed: "repo_apply repo u v opr now w = (Inl e, w') \<Longrightarrow>
        E (pg w') = E (pg w) \<or> E (pg w') = edge_step opr u v (E (pg w))"
    and apply_admitted: "opr = OpLike \<or> opr = OpUnlike \<Longrightarrow> pgnet w = [] \<Longrightarrow> admits u v (pg w) \<Longrightarrow>
        \<exists>res. fst (repo_apply repo u v opr now w) = Inr res"
    and apply_admits: "admits x y (pg (snd (repo_apply repo u v opr now w))) = admits x y (pg w)"

lemma set_likes_step:
  assumes "opr = OpLike \<or> opr = OpUnlike" and "apply_sql opr u v now d = (Inr (chg, n), d')"
  shows "set (likes d') = edge_step opr u v (set (likes d)) \<and> chg = (set (likes d') \<noteq> set (likes d))"
proof (cases "opr = OpLike")
  case True
  then have sql: "apply_like_sql u v now d = (Inr (chg, n), d')" using assms(2) by (simp add: apply_sql_def)
  have "set (likes d') = insert (u, v) (set (likes d))" using apply_like_edges [OF sql] by simp
  moreover have "chg = ((u, v) \<notin> set (likes d))"
    using sql by (simp add: apply_like_sql_def Let_def split: if_split_asm)
  ultimately show ?thesis using True by (auto simp: edge_step_def)
next
  case False
  then have sql: "apply_unlike_sql u v now d = (Inr (chg, n), d')"
    using assms by (simp add: apply_sql_def)
  then have "set (likes d') = set (likes d) - {(u, v)}" using apply_unlike_edges [of u v now d] by simp
  moreover have "chg = ((u, v) \<in> set (likes d))" using sql by (simp add: apply_unlike_sql_def Let_def)
  ultimately show ?thesis using False by (auto simp: edge_step_def)
qed

lemma apply_sql_rows:
  "users (snd (apply_sql opr u v now d)) = users d"
  "videos (snd (apply_sql opr u v now d)) = videos d"
  by (simp_all add: apply_sql_def apply_like_sql_def apply_unlike_sql_def Let_def)

lemma apply_sql_inv:
  "likes_keyed d \<and> counts_exact d \<Longrightarrow>
     likes_keyed (snd (apply_sql opr u v now d))
   \<and> counts_exact (snd (apply_sql opr u v now d))"
  by (simp add: apply_sql_def apply_like_keyed apply_unlike_keyed apply_like_exact apply_unlike_exact)

definition row_exists :: "uuid \<Rightarrow> uuid \<Rightarrow> postgres \<Rightarrow> bool" where
  "row_exists u v d \<longleftrightarrow> user_exists u d \<and> video_exists v d"

text \<open>A call of the repository: nothing, or the statement with its reply or its lost reply.\<close>

lemma pg_apply_cases:
  assumes "pg_apply u v opr now w = (r, w')"
  obtains (refused) e where "r = Inl e" and "pg w' = pg w"
    | (lost) e where "r = Inl e" and "opr = OpLike \<or> opr = OpUnlike"
        and "pg w' = snd (apply_sql opr u v now (pg w))"
    | (replied) chg n where "r = Inr \<lparr>lr_changed = chg, lr_new_count = n, lr_was_noop = (\<not> chg)\<rparr>"
        and "opr = OpLike \<or> opr = OpUnlike"
        and "apply_sql opr u v now (pg w) =
          (Inr (chg, n), pg w')"
proof -
  let ?f = "apply_sql opr u v now"
  show ?thesis
  proof (cases "opr = OpLike \<or> opr = OpUnlike")
    case False
    with assms show ?thesis by (auto simp: pg_apply_def intro: refused)
  next
    case True
    obtain q w1 where call: "pg_exec ?f w = (q, w1)" by (metis surj_pair)
    with assms True have r: "(r, w') = (case q of Inl e \<Rightarrow> (Inl (Wrapped (''apply '' @ opr) (pg_goerr e)), w1)
        | Inr (chg, n) \<Rightarrow> (Inr \<lparr>lr_changed = chg, lr_new_count = n, lr_was_noop = (\<not> chg)\<rparr>, w1))"
      by (auto simp: pg_apply_def split: sum.splits)
    from call show ?thesis
    proof (cases rule: pg_exec_cases)
      case 1
      show ?thesis
      proof (cases q)
        case (Inl e)
        have "r = Inl (Wrapped (''apply '' @ opr) (pg_goerr e))" and "w' = w1" using r Inl by simp_all
        moreover have "pg w1 = snd (apply_sql opr u v now (pg w))"
          using 1 by (metis snd_conv)
        ultimately show ?thesis using True lost by blast
      next
        case (Inr a)
        obtain chg n where a: "a = (chg, n)" by (cases a)
        have "r = Inr \<lparr>lr_changed = chg, lr_new_count = n, lr_was_noop = (\<not> chg)\<rparr>" and "w' = w1"
          using r Inr a by simp_all
        moreover have "apply_sql opr u v now (pg w) =
            (Inr (chg, n), pg w1)" using 1 Inr a by (metis (no_types, lifting))
        ultimately show ?thesis using True replied by blast
      qed
    next
      case (2 e)
      then show ?thesis using r refused by auto
    next
      case (3 e)
      have "r = Inl (Wrapped (''apply '' @ opr) e)" and "w' = w1" using r 3(1) by simp_all
      moreover have "pg w1 = snd (apply_sql opr u v now (pg w))"
        using 3(2) by (metis (no_types, lifting))
      ultimately show ?thesis using True lost by blast
    qed
  qed
qed

lemma set_likes_of_snd:
  "opr = OpLike \<or> opr = OpUnlike \<Longrightarrow>
     set (likes (snd (apply_sql opr u v now d)))
       \<in> {set (likes d), edge_step opr u v (set (likes d))}"
  by (auto simp: apply_sql_def apply_like_sql_def apply_unlike_sql_def Let_def edge_step_def)

lemma pg_apply_done:
  assumes "pg_apply u v opr now w = (Inr res, w')"
  shows "set (likes (pg w')) = edge_step opr u v (set (likes (pg w)))
    \<and> lr_changed res = (set (likes (pg w')) \<noteq> set (likes (pg w)))"
  using assms
proof (cases rule: pg_apply_cases)
  case (replied chg n)
  then show ?thesis using set_likes_step [OF replied(2,3)] by simp
qed simp_all

lemma pg_apply_failed:
  assumes "pg_apply u v opr now w = (Inl e, w')"
  shows "set (likes (pg w')) = set (likes (pg w)) \<or> set (likes (pg w')) = edge_step opr u v (set (likes (pg w)))"
  using assms
proof (cases rule: pg_apply_cases)
  case (lost e)
  then show ?thesis using set_likes_of_snd [OF lost(2), of u v now "pg w"] by simp
qed simp_all

lemma apply_sql_admitted:
  "row_exists u v d \<Longrightarrow> \<exists>x d'. apply_sql opr u v now d = (Inr x, d')"
  by (cases "opr = OpLike")
     (simp_all add: apply_sql_def apply_like_sql_def apply_unlike_sql_def Let_def row_exists_def)

lemma pg_apply_admitted:
  assumes "opr = OpLike \<or> opr = OpUnlike" and "pgnet w = []" and "row_exists u v (pg w)"
  shows "\<exists>res. fst (pg_apply u v opr now w) = Inr res"
proof -
  obtain x d' where "apply_sql opr u v now (pg w) = (Inr x, d')"
    using apply_sql_admitted [OF assms(3)] by blast
  then have "pg_exec (apply_sql opr u v now) w = (Inr x, w\<lparr>pg := d'\<rparr>)"
    using assms(2) by (simp add: pg_exec_up)
  then show ?thesis using assms(1) by (cases x) (auto simp: pg_apply_def)
qed

interpretation pg_likes: like_repository pg_like_repo "\<lambda>d. set (likes d)"
  "\<lambda>d. likes_keyed d \<and> counts_exact d" row_exists
proof
  fix u v :: uuid and opr :: op and now and w :: "'s world"
  obtain q wq where pq: "pg_exec (apply_sql opr u v now) w = (q, wq)" by (metis surj_pair)
  have "snd (pg_apply u v opr now w) = w \<or> snd (pg_apply u v opr now w) = wq"
    by (simp add: pg_apply_def pq split: sum.split prod.split)
  then have frame: "srv (snd (pg_apply u v opr now w)) = srv w" "net (snd (pg_apply u v opr now w)) = net w"
    "pgnet w = [] \<Longrightarrow> pgnet (snd (pg_apply u v opr now w)) = []"
    using pg_exec_frame [of "apply_sql opr u v now" w] pg_exec_up [of w "apply_sql opr u v now"] pq
    by auto
  then show "srv (snd (repo_apply pg_like_repo u v opr now w)) = srv w"
    "net (snd (repo_apply pg_like_repo u v opr now w)) = net w"
    "pgnet w = [] \<Longrightarrow> pgnet (snd (repo_apply pg_like_repo u v opr now w)) = []"
    by (simp_all add: pg_like_repo_def)
  obtain r w1 where call: "pg_apply u v opr now w = (r, w1)" by (metis surj_pair)
  then have w1: "pg (snd (pg_apply u v opr now w)) = pg w1" by simp
  show "likes_keyed (pg w) \<and> counts_exact (pg w) \<Longrightarrow>
      likes_keyed (pg (snd (repo_apply pg_like_repo u v opr now w)))
      \<and> counts_exact (pg (snd (repo_apply pg_like_repo u v opr now w)))"
    using call apply_sql_inv [of "pg w" opr u v now]
    by (cases rule: pg_apply_cases) (simp_all add: pg_like_repo_def w1)
  show "row_exists x y (pg (snd (repo_apply pg_like_repo u v opr now w))) = row_exists x y (pg w)" for x y
    using call apply_sql_rows [of opr u v now "pg w"]
    by (cases rule: pg_apply_cases) (simp_all add: pg_like_repo_def w1 row_exists_def user_exists_def video_exists_def)
  show "opr = OpLike \<or> opr = OpUnlike \<Longrightarrow> repo_apply pg_like_repo u v opr now w = (Inr res, w') \<Longrightarrow>
      set (likes (pg w')) = edge_step opr u v (set (likes (pg w)))
      \<and> lr_changed res = (set (likes (pg w')) \<noteq> set (likes (pg w)))" for res w'
    using pg_apply_done by (simp add: pg_like_repo_def)
  show "repo_apply pg_like_repo u v opr now w = (Inl e, w') \<Longrightarrow>
      set (likes (pg w')) = set (likes (pg w)) \<or> set (likes (pg w')) = edge_step opr u v (set (likes (pg w)))" for e w'
    using pg_apply_failed by (simp add: pg_like_repo_def)
  show "opr = OpLike \<or> opr = OpUnlike \<Longrightarrow> pgnet w = [] \<Longrightarrow> row_exists u v (pg w) \<Longrightarrow>
      \<exists>res. fst (repo_apply pg_like_repo u v opr now w) = Inr res"
    using pg_apply_admitted by (simp add: pg_like_repo_def)
qed

section \<open>Draining the stream\<close>

lemma requested_edges_append: "requested_edges (a @ b) X = requested_edges b (requested_edges a X)"
  by (induction a X rule: requested_edges.induct) auto

lemma logs_take_drop:
  assumes "logs L evs es"
  shows "logs L (take n evs) (take n es)" and "logs L (drop n evs) (drop n es)"
  using assms by (simp_all add: logs_def take_map [symmetric] drop_map [symmetric])

lemma logs_length: "logs L evs es \<Longrightarrow> length evs = length es"
  unfolding logs_def by (metis length_map)

text \<open>The worker's group on the like stream, and a world whose links are up.\<close>

definition like_ready :: "worker_config \<Rightarrow> keyspace \<Rightarrow> bool" where
  "like_ready c m \<longleftrightarrow> is_stream (m like_stream_key) \<and> xgroups (like_stream m) (wc_group c) \<noteq> None"

definition links_up :: "'s world \<Rightarrow> bool" where
  "links_up w \<longleftrightarrow> net w = [] \<and> pgnet w = []"

locale like_worker = redis_server R ks + like_repository repo E inv admits
  for R :: "('s, 'z) redis_scheme" and ks and repo :: "'s world like_repo" and E inv admits
begin

lemma parse_log:
  "opr = OpLike \<or> opr = OpUnlike \<Longrightarrow> like_parse_event R (i, like_event_fields R u v opr ts) =
     Some \<lparr>le_user_id = u, le_video_id = v, le_op = opr, le_stream_id = i\<rparr>"
  by (auto simp: like_parse_event_def field_def like_event_fields_def parse_str)

lemma ack_effect:
  assumes "net w = []" and "like_ready c (ks (srv w))"
  shows "ks (srv (like_ack R c i w)) = doc_stream (stream_ack (wc_group c) [i]) like_stream_key (ks (srv w))"
    and "pg (like_ack R c i w) = pg w" and "net (like_ack R c i w) = []" and "pgnet (like_ack R c i w) = pgnet w"
  using assms
  by (simp_all add: like_ack_def redis_call_up xack like_ready_def like_stream_def)

lemma process_log:
  fixes clk :: "nat \<Rightarrow> gotime" and i :: nat and ts :: int
  assumes "links_up w" and "like_ready c (ks (srv w))" and op: "opr = OpLike \<or> opr = OpUnlike"
    and "admits u v (pg w)"
  defines "w' \<equiv> like_process R repo c clk (i, like_event_fields R u v opr ts) w"
  shows "ks (srv w') = doc_stream (stream_ack (wc_group c) [i]) like_stream_key (ks (srv w))
    \<and> E (pg w') = edge_step opr u v (E (pg w)) \<and> links_up w'
    \<and> (inv (pg w) \<longrightarrow> inv (pg w')) \<and> (\<forall>x y. admits x y (pg w') = admits x y (pg w))"
proof -
  obtain res w1 where call: "repo_apply repo u v opr (clk i) w = (Inr res, w1)"
    using apply_admitted [OF op _ assms(4)] assms(1) by (metis links_up_def prod.collapse)
  have w': "w' = like_ack R c i w1" by (simp add: w'_def like_process_def parse_log [OF op] call)
  have f: "srv w1 = srv w" "net w1 = []" "pgnet w1 = []"
    using apply_frame(1,2) [of u v opr "clk i" w] apply_frame(3) [of w u v opr "clk i"] call assms(1) by (simp_all add: links_up_def)
  have "inv (pg w) \<longrightarrow> inv (pg w1)" "\<forall>x y. admits x y (pg w1) = admits x y (pg w)"
    using apply_inv [of w u v opr "clk i"] apply_admits [of _ _ u v opr "clk i" w] call by simp_all
  then show ?thesis
    using apply_done [OF op call] ack_effect [of w1 c i] f assms(2) by (simp add: w' links_up_def)
qed

lemma ack_stream:
  "like_stream (doc_stream f like_stream_key m) = f (like_stream m)"
  "like_ready c m \<Longrightarrow> like_ready c (doc_stream (stream_ack (wc_group c) ids) like_stream_key m)"
  by (simp_all add: like_stream_def like_ready_def)

lemma fold_process:
  fixes clk :: "nat \<Rightarrow> gotime"
  assumes "links_up w" and "like_ready c (ks (srv w))" and "logs R evs es"
    and "\<forall>(u, v, opr, ts) \<in> set evs. (opr = OpLike \<or> opr = OpUnlike) \<and> admits u v (pg w)"
  defines "w' \<equiv> fold (like_process R repo c clk) es w"
  shows "like_stream (ks (srv w')) = fold (\<lambda>i. stream_ack (wc_group c) [i]) (map fst es) (like_stream (ks (srv w)))
    \<and> like_ready c (ks (srv w')) \<and> E (pg w') = requested_edges evs (E (pg w)) \<and> links_up w'
    \<and> (inv (pg w) \<longrightarrow> inv (pg w')) \<and> (\<forall>x y. admits x y (pg w') = admits x y (pg w))
    \<and> (\<forall>k. k \<noteq> like_stream_key \<longrightarrow> ks (srv w') k = ks (srv w) k)"
  using assms(1-4) unfolding w'_def
proof (induction es arbitrary: evs w)
  case Nil
  then show ?case by (simp add: logs_def)
next
  case (Cons e es)
  obtain i fs where e: "e = (i, fs)" by (cases e)
  obtain u v opr ts evs' where evs: "evs = (u, v, opr, ts) # evs'" and fs: "fs = like_event_fields R u v opr ts"
    and lg: "logs R evs' es"
    using Cons.prems(3) by (auto simp: logs_def e)
  let ?w1 = "like_process R repo c clk (i, like_event_fields R u v opr ts) w"
  have op: "opr = OpLike \<or> opr = OpUnlike" and adm: "admits u v (pg w)"
    using Cons.prems(4) by (auto simp: evs)
  note step = process_log [OF Cons.prems(1,2) op adm, of clk i ts]
  have ready: "like_ready c (ks (srv ?w1))" using step Cons.prems(2) by (simp add: ack_stream)
  have adm': "\<forall>(u, v, opr, ts) \<in> set evs'. (opr = OpLike \<or> opr = OpUnlike) \<and> admits u v (pg ?w1)"
    using Cons.prems(4) step by (auto simp: evs)
  show ?case using Cons.IH [OF _ ready lg adm'] step by (simp add: e fs evs ack_stream)
qed

text \<open>One pass over a log: the batch is applied in order and acknowledged, the rest remains.\<close>

lemma pass_log:
  fixes clk :: "nat \<Rightarrow> gotime"
  assumes "links_up w" and "like_ready c (ks (srv w))" and "stream_ok (like_stream (ks (srv w)))"
    and "logs R evs (stream_undelivered (wc_group c) (like_stream (ks (srv w))))"
    and "\<forall>(u, v, opr, ts) \<in> set evs. (opr = OpLike \<or> opr = OpUnlike) \<and> admits u v (pg w)"
  defines "n \<equiv> nat (wc_batch_size c)" and "w' \<equiv> like_pass R repo c clk w"
  shows "links_up w' \<and> like_ready c (ks (srv w')) \<and> stream_ok (like_stream (ks (srv w')))
    \<and> logs R (drop n evs) (stream_undelivered (wc_group c) (like_stream (ks (srv w'))))
    \<and> set (stream_pending (wc_group c) (like_stream (ks (srv w')))) \<subseteq> set (stream_pending (wc_group c) (like_stream (ks (srv w))))
    \<and> xentries (like_stream (ks (srv w'))) = xentries (like_stream (ks (srv w)))
    \<and> E (pg w') = requested_edges (take n evs) (E (pg w))
    \<and> (inv (pg w) \<longrightarrow> inv (pg w')) \<and> (\<forall>x y. admits x y (pg w') = admits x y (pg w))
    \<and> (\<forall>k. k \<noteq> like_stream_key \<longrightarrow> ks (srv w') k = ks (srv w) k)"
proof -
  let ?g = "wc_group c" and ?x = "like_stream (ks (srv w))"
  define es where "es = take n (stream_undelivered ?g ?x)"
  define s1 where "s1 = snd (rXREADGROUP R like_stream_key ?g n (srv w))"
  have st: "is_stream (ks (srv w) like_stream_key)" and gr: "xgroups (stream_val (ks (srv w) like_stream_key)) ?g \<noteq> None"
    using assms(2) by (simp_all add: like_ready_def like_stream_def)
  have k1: "ks s1 = doc_stream (stream_readgroup ?g n) like_stream_key (ks (srv w))"
    unfolding s1_def by (rule xreadgroup(2) [OF st gr])
  have rd: "like_read R c w = (Inr es, w\<lparr>srv := s1\<rparr>)"
    using assms(1) xreadgroup(1) [OF st gr, of n]
    by (simp add: like_read_def redis_call_up links_up_def es_def s1_def n_def [symmetric] like_stream_def)
  have w': "w' = fold (like_process R repo c clk) es (w\<lparr>srv := s1\<rparr>)" by (simp add: w'_def like_pass_def rd)
  have x1: "like_stream (ks s1) = stream_readgroup ?g n ?x" by (simp add: k1 ack_stream)
  have ready: "like_ready c (ks (srv (w\<lparr>srv := s1\<rparr>)))"
    using group_kept(2) [OF gr, of n] by (simp add: like_ready_def x1 like_stream_def) (simp add: k1)
  have up: "links_up (w\<lparr>srv := s1\<rparr>)" using assms(1) by (simp add: links_up_def)
  have lg: "logs R (take n evs) es" unfolding es_def by (rule logs_take_drop(1) [OF assms(4)])
  have adm: "\<forall>(u, v, opr, ts) \<in> set (take n evs). (opr = OpLike \<or> opr = OpUnlike) \<and> admits u v (pg (w\<lparr>srv := s1\<rparr>))"
    using assms(5) by (auto dest!: in_set_takeD)
  note fold = fold_process [OF up ready lg adm, of clk]
  have x': "like_stream (ks (srv w')) = fold (\<lambda>i. stream_ack ?g [i]) (map fst es) (stream_readgroup ?g n ?x)"
    using fold by (simp add: w' x1)
  have "stream_undelivered ?g (like_stream (ks (srv w'))) = drop n (stream_undelivered ?g ?x)"
    by (simp add: x' fold_ack readgroup_undelivered [OF assms(3)])
  then have "logs R (drop n evs) (stream_undelivered ?g (like_stream (ks (srv w'))))"
    using logs_take_drop(2) [OF assms(4)] by simp
  moreover have "set (stream_pending ?g (like_stream (ks (srv w')))) \<subseteq> set (stream_pending ?g ?x)"
    by (auto simp: x' fold_ack readgroup_pending es_def)
  moreover have "stream_ok (like_stream (ks (srv w')))"
    using readgroup_ok [OF assms(3)] by (simp add: x' fold_ack)
  moreover have "xentries (like_stream (ks (srv w'))) = xentries ?x"
    by (simp add: x' fold_ack readgroup_entries)
  ultimately show ?thesis using fold by (simp add: w' k1)
qed

lemma passes_drain:
  fixes clk :: "nat \<Rightarrow> gotime"
  assumes "links_up w" and "like_ready c (ks (srv w))" and "stream_ok (like_stream (ks (srv w)))"
    and "logs R evs (stream_undelivered (wc_group c) (like_stream (ks (srv w))))"
    and "\<forall>(u, v, opr, ts) \<in> set evs. (opr = OpLike \<or> opr = OpUnlike) \<and> admits u v (pg w)"
    and "length evs \<le> k * nat (wc_batch_size c)"
  defines "w' \<equiv> like_passes R repo c clk k w"
  shows "stream_undelivered (wc_group c) (like_stream (ks (srv w'))) = []
    \<and> set (stream_pending (wc_group c) (like_stream (ks (srv w')))) \<subseteq> set (stream_pending (wc_group c) (like_stream (ks (srv w))))
    \<and> E (pg w') = requested_edges evs (E (pg w)) \<and> (inv (pg w) \<longrightarrow> inv (pg w'))
    \<and> (\<forall>k. k \<noteq> like_stream_key \<longrightarrow> ks (srv w') k = ks (srv w) k)"
  using assms(1-6) unfolding w'_def
proof (induction k arbitrary: w evs)
  case 0
  then have "evs = []" by simp
  with 0 show ?case by (simp add: logs_def)
next
  case (Suc k)
  let ?n = "nat (wc_batch_size c)" and ?w1 = "like_pass R repo c clk w"
  note pass = pass_log [OF Suc.prems(1-5), of clk]
  have adm: "\<forall>(u, v, opr, ts) \<in> set (drop ?n evs). (opr = OpLike \<or> opr = OpUnlike) \<and> admits u v (pg ?w1)"
    using Suc.prems(5) pass by (auto dest!: in_set_dropD)
  have len: "length (drop ?n evs) \<le> k * ?n" using Suc.prems(6) by simp
  have "requested_edges (drop ?n evs) (requested_edges (take ?n evs) (E (pg w))) = requested_edges evs (E (pg w))"
    by (simp add: requested_edges_append [symmetric])
  with Suc.IH [of ?w1 "drop ?n evs"] pass adm len show ?case by auto
qed

end

section \<open>Requests and passes interleaved\<close>

text \<open>
  The relation between the two stores while events are under way: replaying the events the
  group has not been given over the Postgres edges gives the Redis edges.
\<close>

definition like_lag ::
  "'z libs_scheme \<Rightarrow> worker_config \<Rightarrow> nat \<Rightarrow> (uuid \<Rightarrow> uuid \<Rightarrow> bool) \<Rightarrow> keyspace \<Rightarrow> (uuid \<times> uuid) set \<Rightarrow> bool"
where
  "like_lag L c n ok m X \<longleftrightarrow> like_typed L m \<and> like_room L n m \<and> like_ready c m \<and> stream_ok (like_stream m)
     \<and> counters_exact L m
     \<and> (\<exists>evs. logs L evs (stream_undelivered (wc_group c) (like_stream m))
          \<and> (\<forall>(u, v, opr, ts) \<in> set evs. (opr = OpLike \<or> opr = OpUnlike) \<and> ok u v)
          \<and> requested_edges evs X = redis_edges L m)"

datatype like_action = Ask like_request | Turn

fun like_act ::
  "('s, 'z) redis_scheme \<Rightarrow> 's world like_repo \<Rightarrow> worker_config \<Rightarrow> (nat \<Rightarrow> gotime) \<Rightarrow> like_action
     \<Rightarrow> 's world \<Rightarrow> 's world"
where
  "like_act R repo c clk (Ask (u, v, opr, ts)) w = snd (like_apply R u v opr ts w)"
| "like_act R repo c clk Turn w = like_pass R repo c clk w"

fun asks :: "like_action list \<Rightarrow> nat" where
  "asks [] = 0"
| "asks (Ask r # as) = Suc (asks as)"
| "asks (Turn # as) = asks as"

fun action_ok :: "(uuid \<Rightarrow> uuid \<Rightarrow> bool) \<Rightarrow> like_action \<Rightarrow> bool" where
  "action_ok ok (Ask (u, v, opr, ts)) \<longleftrightarrow> (opr = OpLike \<or> opr = OpUnlike) \<and> ok u v"
| "action_ok ok Turn \<longleftrightarrow> True"

lemma edge_count_is_redis_counter:
  assumes "likes_keyed d" and "counters_exact L m" and "set (likes d) = redis_edges L m"
  shows "edge_count v d = num_val (m (video_likes_count_key L v))"
proof -
  have "edge_count v d = int (card (set (filter (\<lambda>e. snd e = v) (likes d))))"
    using assms(1) by (simp only: edge_count_def likes_keyed_def distinct_card [OF distinct_filter])
  also have "set (filter (\<lambda>e. snd e = v) (likes d)) = (\<lambda>u. (u, v)) ` likers v (redis_edges L m)"
    by (auto simp: assms(3) [symmetric] likers_def)
  also have "int (card ((\<lambda>u. (u, v)) ` likers v (redis_edges L m))) = int (card (likers v (redis_edges L m)))"
    by (subst card_image) (auto simp: inj_on_def)
  finally show ?thesis using assms(2) by (simp add: counters_exact_def)
qed

lemma stats_equal_counters:
  assumes "counts_exact d" and "likes_keyed d" and "counters_exact L m" and "set (likes d) = redis_edges L m"
    and "stats_count v d = Some n"
  shows "num_val (m (video_likes_count_key L v)) = n"
proof -
  have "n = edge_count v d"
    using assms(1,5) by (auto simp: counts_exact_def stats_count_def dest!: find_Some_iff')
  then show ?thesis using edge_count_is_redis_counter [OF assms(2-4)] by simp
qed

context like_worker
begin

lemma lag_ask:
  fixes ts :: int
  assumes "like_lag R c (Suc n) ok (ks (srv w)) X" and "links_up w"
    and op: "opr = OpLike \<or> opr = OpUnlike" and "ok u v"
  defines "w' \<equiv> snd (like_apply R u v opr ts w)"
  shows "like_lag R c n ok (ks (srv w')) X \<and> links_up w' \<and> pg w' = pg w"
proof -
  let ?m = "ks (srv w)" and ?g = "wc_group c"
  have typed: "like_typed R ?m" and room: "like_room R (Suc n) ?m" and ready: "like_ready c ?m"
    and sok: "stream_ok (like_stream ?m)" and exact: "counters_exact R ?m"
    using assms(1) by (simp_all add: like_lag_def)
  obtain evs where lg: "logs R evs (stream_undelivered ?g (like_stream ?m))"
    and evs: "\<forall>(u, v, opr, ts) \<in> set evs. (opr = OpLike \<or> opr = OpUnlike) \<and> ok u v"
    and rq: "requested_edges evs X = redis_edges R ?m"
    using assms(1) unfolding like_lag_def by blast
  obtain r s' where run: "run_like_script R u v opr ts (srv w) = (Inr r, s')"
    and con: "like_contract R u v opr ts ?m (ks s')"
    using script_contract [OF typed room op, of u v ts] by blast
  have w': "srv w' = s'" "links_up w'" "pg w' = pg w"
    using assms(2) run by (cases r; simp add: w'_def like_apply_def redis_call_up links_up_def)+
  obtain i where i: "xlast (like_stream ?m) < i" and st: "like_stream (ks s') =
      (if edge_step opr u v (redis_edges R ?m) = redis_edges R ?m then like_stream ?m
       else stream_add i (like_event_fields R u v opr ts) (like_stream ?m))"
    and e: "redis_edges R (ks s') = edge_step opr u v (redis_edges R ?m)" and t': "like_typed R (ks s')"
    using con by (auto simp: like_contract_def Let_def)
  have g: "xgroups (like_stream ?m) ?g \<noteq> None" using ready by (simp add: like_ready_def)
  have "is_stream (ks s' like_stream_key)" using t' by (simp add: like_typed_def)
  moreover have "xgroups (like_stream (ks s')) ?g \<noteq> None" using g by (simp add: st stream_add_def)
  ultimately have ready': "like_ready c (ks s')" by (simp add: like_ready_def)
  have "\<exists>evs'. logs R evs' (stream_undelivered ?g (like_stream (ks s')))
      \<and> (\<forall>(u, v, opr, ts) \<in> set evs'. (opr = OpLike \<or> opr = OpUnlike) \<and> ok u v)
      \<and> requested_edges evs' X = redis_edges R (ks s')"
  proof (cases "edge_step opr u v (redis_edges R ?m) = redis_edges R ?m")
    case True
    then show ?thesis using lg evs rq by (auto simp: st e)
  next
    case False
    have "logs R (evs @ [(u, v, opr, ts)]) (stream_undelivered ?g (like_stream (ks s')))"
      using lg False stream_add_undelivered(1) [OF sok g i] by (simp add: st logs_def)
    moreover have "\<forall>(u, v, opr, ts) \<in> set (evs @ [(u, v, opr, ts)]). (opr = OpLike \<or> opr = OpUnlike) \<and> ok u v"
      using evs op assms(4) by auto
    moreover have "requested_edges (evs @ [(u, v, opr, ts)]) X = redis_edges R (ks s')"
      by (simp add: requested_edges_append rq e)
    ultimately show ?thesis by blast
  qed
  moreover have "stream_ok (like_stream (ks s'))"
    using sok stream_add_undelivered(2) [OF sok g i] by (simp add: st)
  moreover note contract_room [OF con room] contract_counters_exact [OF con exact op]
  ultimately show ?thesis using t' ready' w' by (simp add: like_lag_def)
qed

lemma user_edges_frame:
  assumes "\<forall>k. k \<noteq> like_stream_key \<longrightarrow> m' k = m k"
  shows "redis_edges R m' = redis_edges R m" and "counters_exact R m' = counters_exact R m"
    and "like_typed R m \<Longrightarrow> is_stream (m' like_stream_key) \<Longrightarrow> like_typed R m'"
    and "\<And>v. m' (video_likes_count_key R v) = m (video_likes_count_key R v)"
proof -
  have k: "m' (user_liked_set_key R u) = m (user_liked_set_key R u)"
    "m' (video_likes_count_key R v) = m (video_likes_count_key R v)" for u v
    using assms by simp_all
  show e: "redis_edges R m' = redis_edges R m" by (simp add: redis_edges_def k)
  show "counters_exact R m' = counters_exact R m" by (simp add: counters_exact_def e k)
  show "like_typed R m \<Longrightarrow> is_stream (m' like_stream_key) \<Longrightarrow> like_typed R m'" by (simp add: like_typed_def k)
  show "\<And>v. m' (video_likes_count_key R v) = m (video_likes_count_key R v)" by (rule k)
qed

lemma lag_turn:
  fixes clk :: "nat \<Rightarrow> gotime"
  assumes "like_lag R c n (\<lambda>u v. admits u v (pg w)) (ks (srv w)) (E (pg w))" and "links_up w"
  defines "w' \<equiv> like_pass R repo c clk w"
  shows "like_lag R c n (\<lambda>u v. admits u v (pg w')) (ks (srv w')) (E (pg w')) \<and> links_up w'
    \<and> (inv (pg w) \<longrightarrow> inv (pg w')) \<and> (\<forall>x y. admits x y (pg w') = admits x y (pg w))"
proof -
  let ?m = "ks (srv w)" and ?g = "wc_group c" and ?n = "nat (wc_batch_size c)"
  have typed: "like_typed R ?m" and room: "like_room R n ?m" and ready: "like_ready c ?m"
    and sok: "stream_ok (like_stream ?m)" and exact: "counters_exact R ?m"
    using assms(1) by (simp_all add: like_lag_def)
  obtain evs where lg: "logs R evs (stream_undelivered ?g (like_stream ?m))"
    and evs: "\<forall>(u, v, opr, ts) \<in> set evs. (opr = OpLike \<or> opr = OpUnlike) \<and> admits u v (pg w)"
    and rq: "requested_edges evs (E (pg w)) = redis_edges R ?m"
    using assms(1) unfolding like_lag_def by blast
  note pass = pass_log [OF assms(2) ready sok lg evs, of clk, folded w'_def]
  have frame: "\<forall>k. k \<noteq> like_stream_key \<longrightarrow> ks (srv w') k = ?m k" using pass by blast
  have ready': "like_ready c (ks (srv w'))" using pass by blast
  have "is_stream (ks (srv w') like_stream_key)" using ready' by (simp add: like_ready_def)
  then have "like_typed R (ks (srv w'))" by (rule user_edges_frame(3) [OF frame typed])
  moreover have "like_room R n (ks (srv w'))"
    using room pass by (simp add: like_room_def user_edges_frame(4) [OF frame])
  moreover have "requested_edges (drop ?n evs) (E (pg w')) = redis_edges R (ks (srv w'))"
    using pass rq by (simp add: requested_edges_append [symmetric] user_edges_frame(1) [OF frame])
  moreover have "\<forall>(u, v, opr, ts) \<in> set (drop ?n evs). (opr = OpLike \<or> opr = OpUnlike) \<and> admits u v (pg w')"
    using evs pass by (auto dest!: in_set_dropD)
  moreover have "counters_exact R (ks (srv w'))" using exact by (simp add: user_edges_frame(2) [OF frame])
  ultimately show ?thesis using pass ready' unfolding like_lag_def by blast
qed

lemma lag_actions:
  fixes clk :: "nat \<Rightarrow> gotime"
  assumes "like_lag R c (asks as) (\<lambda>u v. admits u v (pg w)) (ks (srv w)) (E (pg w))" and "links_up w"
    and "\<forall>a \<in> set as. action_ok (\<lambda>u v. admits u v (pg w)) a" and "inv (pg w)"
  defines "w' \<equiv> fold (like_act R repo c clk) as w"
  shows "like_lag R c 0 (\<lambda>u v. admits u v (pg w')) (ks (srv w')) (E (pg w')) \<and> links_up w' \<and> inv (pg w')"
  using assms(1-4) unfolding w'_def
proof (induction "as" arbitrary: w)
  case Nil
  then show ?case by simp
next
  case (Cons a as)
  let ?w1 = "like_act R repo c clk a w"
  show ?case
  proof (cases a)
    case (Ask r)
    obtain u v opr ts where r: "r = (u, v, opr, ts)" by (cases r)
    have op: "opr = OpLike \<or> opr = OpUnlike" and adm: "admits u v (pg w)"
      using Cons.prems(3) by (auto simp: Ask r)
    have lag: "like_lag R c (Suc (asks as)) (\<lambda>u v. admits u v (pg w)) (ks (srv w)) (E (pg w))"
      using Cons.prems(1) by (simp add: Ask)
    note step = lag_ask [OF lag Cons.prems(2) op adm, of ts]
    show ?thesis using Cons.IH [of ?w1] step Cons.prems(3,4) by (simp add: Ask r)
  next
    case Turn
    have lag: "like_lag R c (asks as) (\<lambda>u v. admits u v (pg w)) (ks (srv w)) (E (pg w))"
      using Cons.prems(1) by (simp add: Turn)
    note step = lag_turn [OF lag Cons.prems(2), of clk]
    have ok: "(\<lambda>u v. admits u v (pg (like_pass R repo c clk w))) = (\<lambda>u v. admits u v (pg w))"
      using step by (intro ext) blast
    show ?thesis using Cons.IH [of ?w1] step Cons.prems(3,4) by (simp add: Turn ok)
  qed
qed

end

section \<open>Entries that are never retried\<close>

text \<open>An entry the group was given and has not acknowledged, behind the group's position.\<close>

definition stuck :: "string \<Rightarrow> nat \<Rightarrow> xstream \<Rightarrow> bool" where
  "stuck g i x \<longleftrightarrow> i \<in> set (stream_pending g x) \<and> i \<le> group_last g x"

lemma stuck_ack: "j \<noteq> i \<Longrightarrow> stuck g i x \<Longrightarrow> stuck g i (stream_ack g [j] x)"
  by (auto simp: stuck_def ack_pending)

lemma stuck_undelivered: "stuck g i x \<Longrightarrow> e \<in> set (stream_undelivered g x) \<Longrightarrow> fst e \<noteq> i"
  by (auto simp: stuck_def stream_undelivered_def group_last_def split: option.splits)

lemma stuck_read:
  assumes "stuck g i x"
  shows "stuck g i (stream_readgroup g n x)"
proof (cases "take n (stream_undelivered g x) = []")
  case True
  then show ?thesis using assms by (simp add: stream_readgroup_def)
next
  case False
  then have "last (take n (stream_undelivered g x)) \<in> set (stream_undelivered g x)"
    using in_set_takeD last_in_set by metis
  then have "group_last g x < fst (last (take n (stream_undelivered g x)))"
    by (auto simp: stream_undelivered_def group_last_def split: option.splits)
  then have "group_last g x \<le> group_last g (stream_readgroup g n x)"
    using False by (simp add: stream_readgroup_def group_last_def Let_def)
  then show ?thesis using assms by (simp add: stuck_def readgroup_pending)
qed

definition like_stuck :: "worker_config \<Rightarrow> nat \<Rightarrow> keyspace \<Rightarrow> bool" where
  "like_stuck c i m \<longleftrightarrow> like_ready c m \<and> stuck (wc_group c) i (like_stream m)"

context like_worker
begin

lemma stuck_acked:
  assumes "like_stuck c i (ks (srv w))" and "j \<noteq> i"
  shows "like_stuck c i (ks (srv (like_ack R c j w)))"
proof -
  let ?f = "writing (rXACK R like_stream_key (wc_group c) [j])"
  obtain r w' where call: "redis_call ?f w = (r, w')" by (metis surj_pair)
  have "like_ready c (ks (srv w))" using assms(1) by (simp add: like_stuck_def)
  then have k: "ks (rXACK R like_stream_key (wc_group c) [j] (srv w)) =
      doc_stream (stream_ack (wc_group c) [j]) like_stream_key (ks (srv w))"
    by (simp add: like_ready_def like_stream_def xack)
  have "like_stuck c i (ks (srv w'))"
    using call assms(1)
  proof (rule redis_call_keeps)
    show "like_stuck c i (ks (snd (?f (srv w))))"
      using assms by (auto simp: k like_stuck_def ack_stream stuck_ack)
  qed
  then show ?thesis by (simp add: like_ack_def call)
qed

lemma stuck_processed:
  assumes "like_stuck c i (ks (srv w))" and "fst m \<noteq> i"
  shows "like_stuck c i (ks (srv (like_process R repo c clk m w)))"
  using assms apply_frame(1) [of _ _ _ "clk (fst m)" w] stuck_acked
  by (auto simp: like_process_def split: option.split sum.split prod.split) (metis snd_conv)+

lemma stuck_fold:
  "like_stuck c i (ks (srv w)) \<Longrightarrow> i \<notin> fst ` set es \<Longrightarrow>
     like_stuck c i (ks (srv (fold (like_process R repo c clk) es w)))"
  by (induction es arbitrary: w) (auto simp: stuck_processed)

lemma stuck_pass:
  assumes "like_stuck c i (ks (srv w))"
  shows "like_stuck c i (ks (srv (like_pass R repo c clk w)))"
proof -
  let ?g = "wc_group c" and ?f = "rXREADGROUP R like_stream_key (wc_group c) (nat (wc_batch_size c))"
  have st: "is_stream (ks (srv w) like_stream_key)" and gr: "xgroups (stream_val (ks (srv w) like_stream_key)) ?g \<noteq> None"
    and sk: "stuck ?g i (like_stream (ks (srv w)))"
    using assms by (simp_all add: like_stuck_def like_ready_def like_stream_def)
  have k: "ks (snd (?f (srv w))) = doc_stream (stream_readgroup ?g (nat (wc_batch_size c))) like_stream_key (ks (srv w))"
    by (rule xreadgroup(2) [OF st gr])
  have new: "like_stuck c i (ks (snd (?f (srv w))))"
    using stuck_read [OF sk] group_kept(2) [OF gr] by (simp add: like_stuck_def like_ready_def k ack_stream(1))
      (simp add: like_stream_def)
  obtain r w1 where call: "redis_call ?f w = (r, w1)" by (metis surj_pair)
  then have s1: "like_stuck c i (ks (srv w1))" using assms new by (rule redis_call_keeps)
  show ?thesis
  proof (cases r)
    case (Inl e)
    then show ?thesis using s1 by (simp add: like_pass_def like_read_def call)
  next
    case (Inr es)
    from call have "es = fst (?f (srv w))" using Inr by (cases rule: redis_call_cases) auto
    then have "es = take (nat (wc_batch_size c)) (stream_undelivered ?g (like_stream (ks (srv w))))"
      using xreadgroup(1) [OF st gr] by (simp add: like_stream_def)
    then have "i \<notin> fst ` set es" using stuck_undelivered [OF sk] by (force dest: in_set_takeD)
    with s1 Inr show ?thesis by (simp add: like_pass_def like_read_def call stuck_fold)
  qed
qed

lemma stuck_passes:
  "like_stuck c i (ks (srv w)) \<Longrightarrow> like_stuck c i (ks (srv (like_passes R repo c clk n w)))"
  by (induction n arbitrary: w) (simp_all add: stuck_pass)

end

lemma pg_like_worker: "redis_server R ks \<Longrightarrow>
  like_worker R ks pg_like_repo (\<lambda>d. set (likes d)) (\<lambda>d. likes_keyed d \<and> counts_exact d) row_exists"
  by (intro like_worker.intro pg_likes.like_repository_axioms)

interpretation ref_worker: like_worker ref_redis "\<lambda>m. m" pg_like_repo "\<lambda>d. set (likes d)"
  "\<lambda>d. likes_keyed d \<and> counts_exact d" row_exists
  by (rule pg_like_worker [OF ref_redis.redis_server_axioms])

text \<open>A small system: two users, one video with its statistics row, and a worker group; in
  \<open>like_backlog\<close> the first user has liked the video and the event waits in the stream.\<close>

definition example_worker :: worker_config where
  "example_worker = new_worker \<lparr>wc_group = [], wc_consumer = [], wc_batch_size = 0, wc_block_timeout = 0\<rparr>"

definition example_pg :: postgres where
  "example_pg = empty_postgres
     \<lparr>users := [\<lparr>u_id = 1, u_email = ''a@b'', u_password_hash = [], u_created_at = 0\<rparr>,
                \<lparr>u_id = 2, u_email = ''c@d'', u_password_hash = [], u_created_at = 0\<rparr>],
      videos := [\<lparr>v_id = 7, v_user_id = 1, v_title = ''t'', v_description = [], v_video_url = ''u'',
                  v_duration_sec = 30, v_created_at = 0\<rparr>],
      video_stats := [\<lparr>s_video_id = 7, s_likes_count = 0, s_views_count = 0, s_updated_at = 0\<rparr>]\<rparr>"

definition like_quiet :: keyspace where
  "like_quiet = [like_stream_key \<mapsto> (RStream \<lparr>xentries = [], xlast = 0,
     xgroups = [''vidmerce-workers'' \<mapsto> (0, [])]\<rparr>, None)]"

definition like_backlog :: keyspace where
  "like_backlog =
     [like_stream_key \<mapsto> (RStream \<lparr>xentries = [(1, like_event_fields ref_redis 1 7 OpLike 0)], xlast = 1,
        xgroups = [''vidmerce-workers'' \<mapsto> (0, [])]\<rparr>, None),
      user_liked_set_key ref_redis 1 \<mapsto> (RSet {ref_uuid_str 7}, None),
      video_likes_count_key ref_redis 7 \<mapsto> (RStr ''1'', None)]"

definition example_world :: "keyspace \<Rightarrow> keyspace world" where
  "example_world m = (new_world m)\<lparr>pg := example_pg\<rparr>"

lemma example_world_simps [simp]:
  "srv (example_world m) = m" "net (example_world m) = []" "pgnet (example_world m) = []"
  "pg (example_world m) = example_pg" "links_up (example_world m)"
  by (simp_all add: example_world_def new_world_def links_up_def)

lemma example_worker_simps [simp]:
  "wc_group example_worker = ''vidmerce-workers''" "wc_batch_size example_worker = 100"
  by (simp_all add: example_worker_def new_worker_def)

lemma example_pg_simps [simp]:
  "likes example_pg = []" "likes_keyed example_pg" "counts_exact example_pg"
  "row_exists 1 7 example_pg" "row_exists 2 7 example_pg"
  by (simp_all add: example_pg_def empty_postgres_def likes_keyed_def counts_exact_def edge_count_def
      video_exists_def user_exists_def row_exists_def)

lemma like_quiet_lag: "n \<le> 1000 \<Longrightarrow> like_lag ref_redis example_worker n ok like_quiet {}"
proof -
  assume n: "n \<le> 1000"
  have k: "like_quiet (user_liked_set_key ref_redis u) = None" "like_quiet (video_likes_count_key ref_redis v) = None" for u v
    by (simp_all add: like_quiet_def)
  have e: "redis_edges ref_redis like_quiet = {}" by (simp add: redis_edges_def k)
  have s: "like_stream like_quiet = \<lparr>xentries = [], xlast = 0, xgroups = [''vidmerce-workers'' \<mapsto> (0, [])]\<rparr>"
    "is_stream (like_quiet like_stream_key)"
    by (simp_all add: like_quiet_def like_stream_def)
  show ?thesis
    using n by (auto simp: like_lag_def like_typed_def k s e like_room_def like_stream_max_len_def like_ready_def
        stream_ok_def counters_exact_def likers_def logs_def stream_undelivered_def split: if_splits
        intro!: exI [of _ "[]"])
qed

lemma like_backlog_lag: "like_lag ref_redis example_worker 0 (\<lambda>u v. row_exists u v example_pg) like_backlog {}"
proof -
  have k: "like_backlog (user_liked_set_key ref_redis u) = (if u = 1 then Some (RSet {ref_uuid_str 7}, None) else None)"
    "like_backlog (video_likes_count_key ref_redis v) = (if v = 7 then Some (RStr ''1'', None) else None)" for u v
    by (auto simp: like_backlog_def ref_redis.user_liked_set_key_inj ref_redis.video_likes_count_key_inj)
  have e: "redis_edges ref_redis like_backlog = {(1, 7)}"
    using ref_redis.str_inj by (auto simp: redis_edges_def k split: if_splits)
  have s: "like_stream like_backlog = \<lparr>xentries = [(1, like_event_fields ref_redis 1 7 OpLike 0)], xlast = 1,
      xgroups = [''vidmerce-workers'' \<mapsto> (0, [])]\<rparr>" "is_stream (like_backlog like_stream_key)"
    by (simp_all add: like_backlog_def like_stream_def)
  have one: "parse_int ''1'' = Some 1" by (simp add: parse_int_def char_digit_def in_int64_def)
  have l: "likers v {(1, 7)} = (if v = 7 then {1} else {})" for v by (auto simp: likers_def)
  show ?thesis
    by (auto simp: like_lag_def like_typed_def k s e one l like_room_def like_stream_max_len_def like_ready_def
        stream_ok_def counters_exact_def logs_def stream_undelivered_def edge_step_def split: if_splits
        intro!: exI [of _ "[(1, 7, OpLike, 0)]"])
qed

section \<open>Properties\<close>

text \<open>
  The edge and its counter change together: whatever the operation string, and whether the
  connection holds, is refused or loses the reply, a call of the repository keeps the keys, the
  foreign keys and the exactness of every counter; when it reports success it has taken the
  abstract step, \<open>Changed\<close> says whether anything changed and \<open>NewCount\<close> is the number of edges.
\<close>

theorem repository_apply_keeps_counts_exact:
  assumes "likes_keyed (pg w)" and "counts_exact (pg w)" and "pg_apply u v opr now w = (r, w')"
  shows "likes_keyed (pg w') \<and> counts_exact (pg w')
    \<and> (\<forall>res. r = Inr res \<longrightarrow> set (likes (pg w')) = edge_step opr u v (set (likes (pg w)))
          \<and> lr_changed res = (set (likes (pg w')) \<noteq> set (likes (pg w)))
          \<and> lr_was_noop res = (\<not> lr_changed res) \<and> lr_new_count res = edge_count v (pg w'))"
  using assms(3)
proof (cases rule: pg_apply_cases)
  case (replied chg n)
  then show ?thesis
    using apply_sql_inv [of "pg w" opr u v now] apply_sql_count [OF replied(3) assms(1,2)]
      set_likes_step [OF replied(2,3)] assms(1,2) by auto
qed (use assms(1,2) apply_sql_inv [of "pg w" opr u v now] in simp_all)

theorem repository_apply_keeps_counts_exact_witness:
  "counts_exact (pg (snd (pg_apply 1 7 OpLike 0 ((new_world (\<lambda>_. None) :: keyspace world)\<lparr>pgnet := [ReplyLost]\<rparr>))))"
proof -
  let ?w = "(new_world (\<lambda>_. None) :: keyspace world)\<lparr>pgnet := [ReplyLost]\<rparr>"
  obtain r w' where eq: "pg_apply 1 7 OpLike 0 ?w = (r, w')" by (metis surj_pair)
  have "likes_keyed (pg ?w)" "counts_exact (pg ?w)"
    by (simp_all add: new_world_def empty_postgres_def likes_keyed_def counts_exact_def video_exists_def)
  from repository_apply_keeps_counts_exact [OF this eq] show ?thesis by (simp add: eq)
qed

text \<open>
  What the script emits the worker reads back: the fields of an event written by the script
  parse to the same user, video, operation and entry id, and are rejected exactly when the
  operation is neither of the two.
\<close>

theorem like_event_round_trip:
  assumes "uuid_lib L"
  shows "like_parse_event L (i, like_event_fields L u v opr ts) =
    (if opr = OpLike \<or> opr = OpUnlike
     then Some \<lparr>le_user_id = u, le_video_id = v, le_op = opr, le_stream_id = i\<rparr> else None)"
  by (simp add: like_parse_event_def field_def like_event_fields_def uuid_lib.parse_str [OF assms])

theorem like_event_round_trip_witness:
  "like_parse_event ref_libs (4, like_event_fields ref_libs 1 7 OpUnlike 99) =
     Some \<lparr>le_user_id = 1, le_video_id = 7, le_op = OpUnlike, le_stream_id = 4\<rparr>"
  using like_event_round_trip [OF ref_uuid.uuid_lib_axioms, of 4 1 7 OpUnlike 99] by simp

text \<open>
  C3. The pipeline never loses or reorders an event while the links are up: for every
  interleaving of like and unlike requests with passes of the worker (on existing users and
  videos), replaying the events not yet delivered over the Postgres edges gives exactly the
  Redis edges, the Redis counters stay exact, and the Postgres keys and counters stay exact.
\<close>

theorem like_pipeline_invariant:
  fixes clk :: "nat \<Rightarrow> gotime"
  assumes "redis_server R ks" and "links_up w"
    and "like_lag R c (asks as) (\<lambda>u v. row_exists u v (pg w)) (ks (srv w)) (set (likes (pg w)))"
    and "\<forall>a \<in> set as. action_ok (\<lambda>u v. row_exists u v (pg w)) a"
    and "likes_keyed (pg w)" and "counts_exact (pg w)"
  defines "w' \<equiv> fold (like_act R pg_like_repo c clk) as w"
  shows "like_lag R c 0 (\<lambda>u v. row_exists u v (pg w')) (ks (srv w')) (set (likes (pg w')))
    \<and> likes_keyed (pg w') \<and> counts_exact (pg w')"
  using like_worker.lag_actions [OF pg_like_worker [OF assms(1)] assms(3,2,4)] assms(5,6)
  by (simp add: w'_def)

theorem like_pipeline_invariant_witness:
  "let w' = fold (like_act ref_redis pg_like_repo example_worker (\<lambda>_. 0))
       [Ask (1, 7, OpLike, 0), Turn, Ask (2, 7, OpLike, 0), Ask (1, 7, OpUnlike, 0)] (example_world like_quiet)
   in like_lag ref_redis example_worker 0 (\<lambda>u v. row_exists u v (pg w')) (srv w') (set (likes (pg w')))
    \<and> likes_keyed (pg w') \<and> counts_exact (pg w')"
  unfolding Let_def
  by (rule like_pipeline_invariant [OF ref_redis.redis_server_axioms])
     (simp_all add: like_quiet_lag)

text \<open>
  C1. Eventual consistency: from any such state, enough passes of the worker (batch size times
  passes at least the backlog) make the Postgres edges equal to the Redis edges, leave nothing
  undelivered and nothing newly pending, and every \<open>video_stats\<close> row then equals the Redis
  counter of its video.
\<close>

theorem like_pipeline_converges:
  fixes clk :: "nat \<Rightarrow> gotime"
  assumes "redis_server R ks" and "links_up w"
    and "like_lag R c 0 (\<lambda>u v. row_exists u v (pg w)) (ks (srv w)) (set (likes (pg w)))"
    and "likes_keyed (pg w)" and "counts_exact (pg w)"
    and "length (stream_undelivered (wc_group c) (like_stream (ks (srv w)))) \<le> k * nat (wc_batch_size c)"
  defines "w' \<equiv> like_passes R pg_like_repo c clk k w"
  shows "set (likes (pg w')) = redis_edges R (ks (srv w'))
    \<and> redis_edges R (ks (srv w')) = redis_edges R (ks (srv w))
    \<and> stream_undelivered (wc_group c) (like_stream (ks (srv w'))) = []
    \<and> set (stream_pending (wc_group c) (like_stream (ks (srv w'))))
        \<subseteq> set (stream_pending (wc_group c) (like_stream (ks (srv w))))
    \<and> (\<forall>v n. stats_count v (pg w') = Some n \<longrightarrow> num_val (ks (srv w') (video_likes_count_key R v)) = n)"
proof -
  note W = pg_like_worker [OF assms(1)]
  let ?m = "ks (srv w)" and ?g = "wc_group c"
  obtain evs where lg: "logs R evs (stream_undelivered ?g (like_stream ?m))"
    and evs: "\<forall>(u, v, opr, ts) \<in> set evs. (opr = OpLike \<or> opr = OpUnlike) \<and> row_exists u v (pg w)"
    and rq: "requested_edges evs (set (likes (pg w))) = redis_edges R ?m"
    using assms(3) unfolding like_lag_def by blast
  have ready: "like_ready c ?m" and sok: "stream_ok (like_stream ?m)" and exact: "counters_exact R ?m"
    using assms(3) by (simp_all add: like_lag_def)
  have len: "length evs \<le> k * nat (wc_batch_size c)" using assms(6) logs_length [OF lg] by simp
  note drain = like_worker.passes_drain [OF W assms(2) ready sok lg evs len, of clk, folded w'_def]
  have frame: "\<forall>k. k \<noteq> like_stream_key \<longrightarrow> ks (srv w') k = ?m k" using drain by blast
  note fr = like_worker.user_edges_frame [OF W frame]
  have edges: "set (likes (pg w')) = redis_edges R (ks (srv w'))" using drain rq by (simp add: fr(1))
  have "num_val (ks (srv w') (video_likes_count_key R v)) = n" if "stats_count v (pg w') = Some n" for v n
  proof (rule stats_equal_counters [OF _ _ _ edges that])
    show "counts_exact (pg w')" "likes_keyed (pg w')" using drain assms(4,5) by blast+
    show "counters_exact R (ks (srv w'))" using exact by (simp add: fr(2))
  qed
  with drain edges show ?thesis by (simp add: fr(1))
qed

theorem like_pipeline_converges_witness:
  "set (likes (pg (like_passes ref_redis pg_like_repo example_worker (\<lambda>_. 0) 1 (example_world like_backlog)))) =
     redis_edges ref_redis like_backlog"
  using like_pipeline_converges [OF ref_redis.redis_server_axioms, of "example_world like_backlog" example_worker 1 "\<lambda>_. 0"]
    like_backlog_lag
  by (simp add: stream_undelivered_def like_backlog_def like_stream_def)

text \<open>An entry whose Apply did not reach Postgres.\<close>

lemma refused_like_is_stuck:
  "like_stuck example_worker 1 (srv (like_pass ref_redis pg_like_repo example_worker (\<lambda>_. 0)
     ((example_world like_backlog)\<lparr>pgnet := [Refused]\<rparr>)))"
proof -
  have log: "like_parse_event ref_redis (Suc 0, like_event_fields ref_redis 1 7 OpLike 0) =
      Some \<lparr>le_user_id = 1, le_video_id = 7, le_op = OpLike, le_stream_id = Suc 0\<rparr>"
    by (rule ref_worker.parse_log) simp
  show ?thesis
    by (simp add: like_pass_def like_read_def redis_call_up like_backlog_def stream_undelivered_def
        like_process_def log pg_like_repo_def pg_apply_def pg_exec_def pg_call_def like_stuck_def
        like_ready_def like_stream_def stuck_def stream_pending_def group_last_def stream_readgroup_def)
qed

text \<open>
  C34. An entry the worker was given and could not apply is never retried: it stays pending
  through every later number of passes, whatever the links to Redis and Postgres do and
  whatever else is in the stream, since the worker only ever asks for undelivered entries.
\<close>

theorem failed_like_is_never_retried:
  assumes "redis_server R ks" and "like_stuck c i (ks (srv w))"
  shows "like_stuck c i (ks (srv (like_passes R pg_like_repo c clk n w)))"
  by (rule like_worker.stuck_passes [OF pg_like_worker [OF assms(1)] assms(2)])

theorem failed_like_is_never_retried_witness:
  "like_stuck example_worker 1 (srv (like_passes ref_redis pg_like_repo example_worker (\<lambda>_. 0) 50
     (like_pass ref_redis pg_like_repo example_worker (\<lambda>_. 0)
       ((example_world like_backlog)\<lparr>pgnet := [Refused]\<rparr>))))"
  using refused_like_is_stuck by (rule failed_like_is_never_retried [OF ref_redis.redis_server_axioms])

end
