(* ===== verification/LikeReconciler.thy ===== *)
theory LikeReconciler
  imports LikeWorker "HOL-Library.Multiset"
begin

text \<open>
  \<open>internal/like/reconciler.go\<close>: the periodic check of \<open>video_stats.likes_count\<close> against the
  edges. The locale \<open>counter_repository\<close> is what the reconciler relies on while the database
  is reachable; it is interpreted on the Postgres repository. A run is a list of passes, one
  per tick, each with its own reading of the database clock.
\<close>

section \<open>The reconciler\<close>

record reconciler_config =
  rc_interval :: int
  rc_sample :: int

definition new_reconciler :: "reconciler_config \<Rightarrow> reconciler_config" where
  "new_reconciler c =
     \<lparr>rc_interval = (if rc_interval c \<le> 0 then 3600 * 1000000000 else rc_interval c),
      rc_sample = (if rc_sample c \<le> 0 then 200 else rc_sample c)\<rparr>"

record tally =
  t_checked :: int
  t_drifted :: int
  t_corrected :: int

text \<open>The body of the loop for one video.\<close>

definition reconcile_video ::
  "'w like_repo \<Rightarrow> gotime \<Rightarrow> uuid \<Rightarrow> tally \<times> 'w \<Rightarrow> tally \<times> 'w"
where
  "reconcile_video repo now v st =
     (let (t, w) = st
      in case repo_count repo v w of
           (Inl e, w1) \<Rightarrow> (t, w1)
         | (Inr stored, w1) \<Rightarrow>
             (case repo_count_from_edges repo v w1 of
                (Inl e, w2) \<Rightarrow> (t, w2)
              | (Inr exact, w2) \<Rightarrow>
                  (let t = t\<lparr>t_checked := t_checked t + 1\<rparr>
                   in if stored = exact then (t, w2)
                      else
                        (let t = t\<lparr>t_drifted := t_drifted t + 1\<rparr>
                         in case repo_reconcile repo v exact now w2 of
                              (Inl e, w3) \<Rightarrow> (t, w3)
                            | (Inr n, w3) \<Rightarrow> (t\<lparr>t_corrected := t_corrected t + n\<rparr>, w3)))))"

definition reconcile_once ::
  "'w like_repo \<Rightarrow> int \<Rightarrow> gotime \<Rightarrow> 'w \<Rightarrow> tally result \<times> 'w"
where
  "reconcile_once repo sample now w =
     (case repo_sample repo sample w of
        (Inl e, w1) \<Rightarrow> (Inl e, w1)
      | (Inr ids, w1) \<Rightarrow>
          (let (t, w2) = fold (reconcile_video repo now) ids
                 (\<lparr>t_checked = 0, t_drifted = 0, t_corrected = 0\<rparr>, w1)
           in (Inr t, w2)))"

text \<open>\<open>Run\<close>: the initial pass and one pass per tick; a failed pass is only logged.\<close>

fun reconcile_run :: "'w like_repo \<Rightarrow> int \<Rightarrow> gotime list \<Rightarrow> 'w \<Rightarrow> 'w" where
  "reconcile_run repo sample [] w = w"
| "reconcile_run repo sample (now # ticks) w =
     reconcile_run repo sample ticks (snd (reconcile_once repo sample now w))"

section \<open>The contract\<close>

locale counter_repository =
  fixes repo :: "'s world like_repo"
    and keyed :: "postgres \<Rightarrow> bool"
    and cnt :: "uuid \<Rightarrow> postgres \<Rightarrow> int option"
    and exact :: "uuid \<Rightarrow> postgres \<Rightarrow> int"
    and sample :: "int \<Rightarrow> postgres \<Rightarrow> uuid list"
  assumes count_up: "pgnet w = [] \<Longrightarrow> cnt v (pg w) = Some n \<Longrightarrow> repo_count repo v w = (Inr n, w)"
    and edges_up: "pgnet w = [] \<Longrightarrow> repo_count_from_edges repo v w = (Inr (exact v (pg w)), w)"
    and reconcile_up: "pgnet w = [] \<Longrightarrow> keyed (pg w) \<Longrightarrow> cnt v (pg w) = Some n \<Longrightarrow> 0 \<le> m \<Longrightarrow>
        repo_reconcile repo v m now w = (Inr (if n = m then 0 else 1), snd (repo_reconcile repo v m now w))
      \<and> pgnet (snd (repo_reconcile repo v m now w)) = [] \<and> keyed (pg (snd (repo_reconcile repo v m now w)))
      \<and> cnt x (pg (snd (repo_reconcile repo v m now w))) = (if x = v then Some m else cnt x (pg w))
      \<and> exact x (pg (snd (repo_reconcile repo v m now w))) = exact x (pg w)"
    and exact_nonneg: "0 \<le> exact v d"
    and sample_up: "pgnet w = [] \<Longrightarrow> 0 < k \<Longrightarrow> repo_sample repo k w = (Inr (sample k (pg w)), w)"
    and sample_rows: "keyed d \<Longrightarrow> distinct (sample k d) \<and> (\<forall>v \<in> set (sample k d). cnt v d \<noteq> None)"
begin

lemma reconcile_video_up:
  assumes "pgnet w = []" and "keyed (pg w)" and "cnt v (pg w) = Some n"
  defines "d \<equiv> (if n = exact v (pg w) then 0 else 1)"
  shows "\<exists>w'. reconcile_video repo now v (t, w) =
      (\<lparr>t_checked = t_checked t + 1, t_drifted = t_drifted t + d, t_corrected = t_corrected t + d\<rparr>, w')
    \<and> pgnet w' = [] \<and> keyed (pg w') \<and> (n = exact v (pg w) \<longrightarrow> w' = w)
    \<and> (\<forall>x. cnt x (pg w') = (if x = v then Some (exact v (pg w)) else cnt x (pg w)))
    \<and> (\<forall>x. exact x (pg w') = exact x (pg w))"
proof (cases "n = exact v (pg w)")
  case True
  then show ?thesis
    using assms(1-3) by (cases t) (simp add: reconcile_video_def count_up edges_up d_def)
next
  case False
  obtain r w' where call: "repo_reconcile repo v (exact v (pg w)) now w = (r, w')" by (metis surj_pair)
  note up = reconcile_up [OF assms(1-3) exact_nonneg [of v "pg w"], of now, unfolded call snd_conv]
  have "repo_reconcile repo v (exact v (pg w)) now w = (Inr 1, w')" using up False call by simp
  then have "reconcile_video repo now v (t, w) =
      (\<lparr>t_checked = t_checked t + 1, t_drifted = t_drifted t + d, t_corrected = t_corrected t + d\<rparr>, w')"
    using False assms(1,3) by (cases t) (simp add: reconcile_video_def count_up edges_up d_def)
  then show ?thesis using up False by blast
qed

lemma reconcile_fold:
  assumes "pgnet w = []" and "keyed (pg w)" and "distinct ids" and "\<forall>v \<in> set ids. cnt v (pg w) \<noteq> None"
  defines "bad \<equiv> int (length (filter (\<lambda>v. cnt v (pg w) \<noteq> Some (exact v (pg w))) ids))"
  shows "\<exists>w'. fold (reconcile_video repo now) ids (t, w) =
      (\<lparr>t_checked = t_checked t + int (length ids), t_drifted = t_drifted t + bad,
        t_corrected = t_corrected t + bad\<rparr>, w')
    \<and> pgnet w' = [] \<and> keyed (pg w') \<and> (bad = 0 \<longrightarrow> w' = w)
    \<and> (\<forall>x. cnt x (pg w') = (if x \<in> set ids then Some (exact x (pg w)) else cnt x (pg w)))
    \<and> (\<forall>x. exact x (pg w') = exact x (pg w))"
  using assms(1-4) unfolding bad_def
proof (induction ids arbitrary: t w)
  case Nil
  then show ?case by (cases t) simp
next
  case (Cons v ids)
  obtain n where n: "cnt v (pg w) = Some n" using Cons.prems(4) by auto
  let ?d = "if n = exact v (pg w) then 0 else 1"
  let ?t = "\<lparr>t_checked = t_checked t + 1, t_drifted = t_drifted t + ?d, t_corrected = t_corrected t + ?d\<rparr>"
  obtain w1 where one: "reconcile_video repo now v (t, w) = (?t, w1)"
    and up: "pgnet w1 = []" "keyed (pg w1)" and same: "n = exact v (pg w) \<longrightarrow> w1 = w"
    and cnt1: "\<forall>x. cnt x (pg w1) = (if x = v then Some (exact v (pg w)) else cnt x (pg w))"
    and ex1: "\<forall>x. exact x (pg w1) = exact x (pg w)"
    using reconcile_video_up [OF Cons.prems(1,2) n] by blast
  have rows: "\<forall>x \<in> set ids. cnt x (pg w1) \<noteq> None" and dist: "distinct ids" and v: "v \<notin> set ids"
    using Cons.prems(3,4) cnt1 by auto
  let ?bad = "int (length (filter (\<lambda>x. cnt x (pg w) \<noteq> Some (exact x (pg w))) ids))"
  have bad: "filter (\<lambda>x. cnt x (pg w1) \<noteq> Some (exact x (pg w1))) ids =
      filter (\<lambda>x. cnt x (pg w) \<noteq> Some (exact x (pg w))) ids"
    using cnt1 ex1 v by (intro filter_cong) auto
  obtain w' where two: "fold (reconcile_video repo now) ids (?t, w1) =
      (\<lparr>t_checked = t_checked ?t + int (length ids), t_drifted = t_drifted ?t + ?bad,
        t_corrected = t_corrected ?t + ?bad\<rparr>, w')"
    and up': "pgnet w' = []" "keyed (pg w')" and same': "?bad = 0 \<longrightarrow> w' = w1"
    and cnt': "\<forall>x. cnt x (pg w') = (if x \<in> set ids then Some (exact x (pg w1)) else cnt x (pg w1))"
    and ex': "\<forall>x. exact x (pg w') = exact x (pg w1)"
    using Cons.IH [OF up dist rows, of ?t] unfolding bad by blast
  have "cnt x (pg w') = (if x \<in> set (v # ids) then Some (exact x (pg w)) else cnt x (pg w))" for x
    using cnt' [rule_format, of x] cnt1 [rule_format, of x] ex1 [rule_format, of x] v by auto
  then have cnt2: "\<forall>x. cnt x (pg w') = (if x \<in> set (v # ids) then Some (exact x (pg w)) else cnt x (pg w))"
    by blast
  have ex2: "\<forall>x. exact x (pg w') = exact x (pg w)" using ex' ex1 by simp
  have sum: "int (length (filter (\<lambda>x. cnt x (pg w) \<noteq> Some (exact x (pg w))) (v # ids))) = ?d + ?bad"
    using n by simp
  have both: "fold (reconcile_video repo now) (v # ids) (t, w) =
      (\<lparr>t_checked = t_checked t + int (length (v # ids)), t_drifted = t_drifted t + (?d + ?bad),
        t_corrected = t_corrected t + (?d + ?bad)\<rparr>, w')"
    by (simp add: one two)
  have idle: "?d + ?bad = 0 \<longrightarrow> w' = w" using same same' by (cases "n = exact v (pg w)") auto
  show ?case unfolding sum by (intro exI [of _ w'] conjI) (fact both up' idle cnt2 ex2)+
qed

lemma reconcile_once_up:
  assumes "pgnet w = []" and "keyed (pg w)" and "0 < k"
  defines "ids \<equiv> sample k (pg w)"
  defines "bad \<equiv> int (length (filter (\<lambda>v. cnt v (pg w) \<noteq> Some (exact v (pg w))) ids))"
  shows "\<exists>w'. reconcile_once repo k now w =
      (Inr \<lparr>t_checked = int (length ids), t_drifted = bad, t_corrected = bad\<rparr>, w')
    \<and> pgnet w' = [] \<and> keyed (pg w') \<and> (bad = 0 \<longrightarrow> w' = w)
    \<and> (\<forall>x. cnt x (pg w') = (if x \<in> set ids then Some (exact x (pg w)) else cnt x (pg w)))
    \<and> (\<forall>x. exact x (pg w') = exact x (pg w))"
proof -
  have "distinct ids" "\<forall>v \<in> set ids. cnt v (pg w) \<noteq> None"
    using sample_rows [OF assms(2), of k] by (simp_all add: ids_def)
  from reconcile_fold [OF assms(1,2) this, of now "\<lparr>t_checked = 0, t_drifted = 0, t_corrected = 0\<rparr>"]
  obtain w' where "fold (reconcile_video repo now) ids (\<lparr>t_checked = 0, t_drifted = 0, t_corrected = 0\<rparr>, w) =
      (\<lparr>t_checked = int (length ids), t_drifted = bad, t_corrected = bad\<rparr>, w')"
    and rest: "pgnet w' = [] \<and> keyed (pg w') \<and> (bad = 0 \<longrightarrow> w' = w)
    \<and> (\<forall>x. cnt x (pg w') = (if x \<in> set ids then Some (exact x (pg w)) else cnt x (pg w)))
    \<and> (\<forall>x. exact x (pg w') = exact x (pg w))"
    unfolding bad_def by auto
  then have "reconcile_once repo k now w =
      (Inr \<lparr>t_checked = int (length ids), t_drifted = bad, t_corrected = bad\<rparr>, w')"
    using sample_up [OF assms(1,3)] by (simp add: reconcile_once_def ids_def)
  with rest show ?thesis by blast
qed

lemma reconcile_run_idle:
  assumes "pgnet w = []" and "keyed (pg w)" and "0 < k"
    and "\<forall>v \<in> set (sample k (pg w)). cnt v (pg w) = Some (exact v (pg w))"
  shows "reconcile_run repo k ticks w = w"
proof (induction ticks)
  case Nil
  show ?case by simp
next
  case (Cons now ticks)
  have "filter (\<lambda>v. cnt v (pg w) \<noteq> Some (exact v (pg w))) (sample k (pg w)) = []"
    using assms(4) by (simp add: filter_empty_conv)
  then have "snd (reconcile_once repo k now w) = w"
    using reconcile_once_up [OF assms(1-3), of now] by auto
  with Cons show ?case by simp
qed

end

section \<open>The Postgres repository keeps the contract\<close>

definition stats_keyed :: "postgres \<Rightarrow> bool" where
  "stats_keyed d \<longleftrightarrow> distinct (map s_video_id (video_stats d))"

lemma stats_count_row:
  "stats_keyed d \<Longrightarrow> r \<in> set (video_stats d) \<Longrightarrow> stats_count (s_video_id r) d = Some (s_likes_count r)"
proof -
  assume d: "stats_keyed d" and r: "r \<in> set (video_stats d)"
  have "find (\<lambda>x. s_video_id x = s_video_id r) xs = Some r"
    if "distinct (map s_video_id xs)" and "r \<in> set xs" for xs
    using that by (induction xs) auto
  then show ?thesis using d r by (simp add: stats_keyed_def stats_count_def)
qed

lemma reconcile_hits:
  assumes "stats_keyed d" and "stats_count v d = Some n"
  shows "length (filter (\<lambda>r. s_video_id r = v \<and> s_likes_count r \<noteq> m) (video_stats d)) = (if n = m then 0 else 1)"
proof -
  obtain r where r: "r \<in> set (video_stats d)" "s_video_id r = v" "s_likes_count r = n"
    using assms(2) by (auto simp: stats_count_def dest!: find_Some_iff')
  have "filter (\<lambda>x. s_video_id x = v) (video_stats d) = [r]"
    using filter_eq_single [of s_video_id "video_stats d" r] assms(1) r by (simp add: stats_keyed_def)
  moreover have "filter (\<lambda>r. s_video_id r = v \<and> s_likes_count r \<noteq> m) (video_stats d) =
      filter (\<lambda>r. s_likes_count r \<noteq> m) (filter (\<lambda>x. s_video_id x = v) (video_stats d))"
    by (simp add: conj_commute)
  ultimately show ?thesis using r(3) by simp
qed

lemma find_map_same:
  "(\<And>r. key (f r) = key r) \<Longrightarrow> find (\<lambda>r. key r = v) (map f rs) = map_option f (find (\<lambda>r. key r = v) rs)"
  by (induction rs) auto

lemma reconcile_sql_spec:
  assumes "stats_keyed d" and "stats_count v d = Some n" and "0 \<le> m"
  shows "\<exists>d'. reconcile_sql v m now d = (Inr (if n = m then 0 else 1), d') \<and> stats_keyed d'
    \<and> (\<forall>x. stats_count x d' = (if x = v then Some m else stats_count x d))
    \<and> (\<forall>x. edge_count x d' = edge_count x d)"
proof -
  let ?f = "\<lambda>r. if s_video_id r = v \<and> s_likes_count r \<noteq> m then r\<lparr>s_likes_count := m, s_updated_at := now\<rparr> else r"
  let ?d' = "d\<lparr>video_stats := map ?f (video_stats d)\<rparr>"
  have run: "reconcile_sql v m now d = (Inr (if n = m then 0 else 1), ?d')"
    using assms(3) by (simp add: reconcile_sql_def Let_def reconcile_hits [OF assms(1,2)])
  have ids: "map s_video_id (map ?f (video_stats d)) = map s_video_id (video_stats d)" by simp
  have rows: "video_stats ?d' = map ?f (video_stats d)" by simp
  have "stats_keyed ?d'" using assms(1) unfolding stats_keyed_def rows ids .
  moreover have "stats_count x ?d' = (if x = v then Some m else stats_count x d)" for x
  proof -
    have f: "find (\<lambda>r. s_video_id r = x) (map ?f (video_stats d)) =
        map_option ?f (find (\<lambda>r. s_video_id r = x) (video_stats d))"
      by (rule find_map_same) simp
    show ?thesis
      using assms(2) by (auto simp: stats_count_def f map_option_case split: option.splits dest: find_Some_iff')
  qed
  moreover have "edge_count x ?d' = edge_count x d" for x by simp
  ultimately show ?thesis using run by blast
qed

lemma sample_sql_rows:
  assumes "stats_keyed d"
  shows "distinct (sample_sql k d) \<and> (\<forall>v \<in> set (sample_sql k d). stats_count v d \<noteq> None)"
proof
  have perm: "mset (map s_video_id (sort_key s_updated_at (video_stats d))) = mset (map s_video_id (video_stats d))"
    by (metis mset_map mset_sort)
  have "distinct (map s_video_id (sort_key s_updated_at (video_stats d)))"
    using assms mset_eq_imp_distinct_iff [OF perm] by (simp add: stats_keyed_def)
  then show "distinct (sample_sql k d)" by (simp only: sample_sql_def take_map [symmetric] distinct_take)
  show "\<forall>v \<in> set (sample_sql k d). stats_count v d \<noteq> None"
    using stats_count_row [OF assms] by (auto simp: sample_sql_def dest!: in_set_takeD)
qed

interpretation pg_counters: counter_repository pg_like_repo stats_keyed stats_count edge_count sample_sql
proof
  fix w :: "'s world" and v x :: uuid and n m k :: int and now :: gotime and d :: postgres
  show "pgnet w = [] \<Longrightarrow> stats_count v (pg w) = Some n \<Longrightarrow> repo_count pg_like_repo v w = (Inr n, w)"
    by (simp add: pg_like_repo_def pg_count_def pg_exec_up)
  show "pgnet w = [] \<Longrightarrow> repo_count_from_edges pg_like_repo v w = (Inr (edge_count v (pg w)), w)"
    by (simp add: pg_like_repo_def pg_count_from_edges_def pg_exec_up)
  show "0 \<le> edge_count v d" by simp
  show "pgnet w = [] \<Longrightarrow> 0 < k \<Longrightarrow> repo_sample pg_like_repo k w = (Inr (sample_sql k (pg w)), w)"
    by (simp add: pg_like_repo_def pg_sample_video_ids_def pg_exec_up)
  show "stats_keyed d \<Longrightarrow> distinct (sample_sql k d) \<and> (\<forall>v \<in> set (sample_sql k d). stats_count v d \<noteq> None)"
    by (rule sample_sql_rows)
  assume up: "pgnet w = []" and d: "stats_keyed (pg w)" "stats_count v (pg w) = Some n" "0 \<le> m"
  obtain d' where "reconcile_sql v m now (pg w) = (Inr (if n = m then 0 else 1), d')" and "stats_keyed d'"
    and "\<forall>x. stats_count x d' = (if x = v then Some m else stats_count x (pg w))"
    and "\<forall>x. edge_count x d' = edge_count x (pg w)"
    using reconcile_sql_spec [OF d] by blast
  then show "repo_reconcile pg_like_repo v m now w = (Inr (if n = m then 0 else 1), snd (repo_reconcile pg_like_repo v m now w))
      \<and> pgnet (snd (repo_reconcile pg_like_repo v m now w)) = [] \<and> stats_keyed (pg (snd (repo_reconcile pg_like_repo v m now w)))
      \<and> stats_count x (pg (snd (repo_reconcile pg_like_repo v m now w))) = (if x = v then Some m else stats_count x (pg w))
      \<and> edge_count x (pg (snd (repo_reconcile pg_like_repo v m now w))) = edge_count x (pg w)"
    using up by (simp add: pg_like_repo_def pg_reconcile_counter_def pg_exec_up)
qed

section \<open>Properties\<close>

text \<open>
  C33. A pass repairs everything it samples: with the database reachable, after one pass every
  sampled row holds the exact number of edges, no other row and no edge has changed, and the
  pass counts as checked every sampled row and as drifted and corrected exactly the wrong ones.
\<close>

theorem reconciler_repairs_its_sample:
  assumes "pgnet w = []" and "stats_keyed (pg w)" and "0 < k"
  defines "ids \<equiv> sample_sql k (pg w)"
  defines "bad \<equiv> int (length (filter (\<lambda>v. stats_count v (pg w) \<noteq> Some (edge_count v (pg w))) ids))"
  shows "\<exists>w'. reconcile_once pg_like_repo k now w =
      (Inr \<lparr>t_checked = int (length ids), t_drifted = bad, t_corrected = bad\<rparr>, w')
    \<and> (\<forall>v. stats_count v (pg w') = (if v \<in> set ids then Some (edge_count v (pg w)) else stats_count v (pg w)))
    \<and> (\<forall>v. edge_count v (pg w') = edge_count v (pg w))"
  using pg_counters.reconcile_once_up [OF assms(1-3), of now] unfolding ids_def bad_def by blast

text \<open>A database with one right and one wrong counter, the right one least recently updated.\<close>

definition drifted_pg :: postgres where
  "drifted_pg = example_pg
     \<lparr>video_stats := [\<lparr>s_video_id = 7, s_likes_count = 0, s_views_count = 0, s_updated_at = 1\<rparr>,
                      \<lparr>s_video_id = 8, s_likes_count = 5, s_views_count = 0, s_updated_at = 2\<rparr>]\<rparr>"

definition drifted_world :: "unit world" where
  "drifted_world = (new_world ())\<lparr>pg := drifted_pg\<rparr>"

lemma drifted_simps [simp]:
  "pgnet drifted_world = []" "pg drifted_world = drifted_pg" "stats_keyed drifted_pg"
  "sample_sql 1 drifted_pg = [7]" "sample_sql 2 drifted_pg = [7, 8]"
  "stats_count 7 drifted_pg = Some 0" "stats_count 8 drifted_pg = Some 5" "edge_count v drifted_pg = 0"
  by (simp_all add: drifted_world_def drifted_pg_def new_world_def stats_keyed_def sample_sql_def
      stats_count_def edge_count_def)

theorem reconciler_repairs_its_sample_witness:
  "\<exists>w'. reconcile_once pg_like_repo 2 9 drifted_world = (Inr \<lparr>t_checked = 2, t_drifted = 1, t_corrected = 1\<rparr>, w')
     \<and> stats_count 8 (pg w') = Some 0"
  using reconciler_repairs_its_sample [of drifted_world 2 9] by auto

text \<open>
  Drift outside the sample is never found: when the least recently updated rows that fill a
  sample are right, every pass of the reconciler leaves the database - and so the next sample -
  as it was, however many passes are made. Only an unrelated like of a sampled video moves it on.
\<close>

theorem reconciler_starves:
  assumes "pgnet w = []" and "stats_keyed (pg w)" and "0 < k"
    and "\<forall>v \<in> set (sample_sql k (pg w)). stats_count v (pg w) = Some (edge_count v (pg w))"
  shows "reconcile_run pg_like_repo k ticks w = w"
  by (rule pg_counters.reconcile_run_idle [OF assms])

theorem reconciler_starves_witness:
  "stats_count 8 (pg (reconcile_run pg_like_repo 1 (replicate 1000 5) drifted_world)) = Some 5
   \<and> edge_count 8 (pg drifted_world) = 0"
  using reconciler_starves [of drifted_world 1 "replicate 1000 5"] by simp

text \<open>
  The reconciler is not safe beside the worker: it reads the counter, then the edges, then
  writes, in three statements. If the worker applies one new like of the video between the two
  reads and another before the write, a database whose counters were all exact ends with a
  counter that is one short.
\<close>

theorem reconciler_race_introduces_drift:
  fixes t1 t2 t3 :: gotime
  assumes "likes_keyed d0" and "counts_exact d0" and "u1 \<noteq> u2"
    and "row_exists u1 v d0" and "row_exists u2 v d0"
    and "(u1, v) \<notin> set (likes d0)" and "(u2, v) \<notin> set (likes d0)"
  defines "d1 \<equiv> snd (apply_like_sql u1 v t1 d0)"
  defines "d2 \<equiv> snd (apply_like_sql u2 v t2 d1)"
  shows "stats_count v d0 \<noteq> Some (edge_count v d1)
    \<and> counts_exact d2 \<and> \<not> counts_exact (snd (reconcile_sql v (edge_count v d1) t3 d2))"
proof -
  have k1: "likes_keyed d1" "counts_exact d1" unfolding d1_def
    using apply_like_keyed apply_like_exact assms(1,2) by blast+
  have k2: "likes_keyed d2" "counts_exact d2" unfolding d2_def
    using apply_like_keyed apply_like_exact k1 by blast+
  have rows1: "users d1 = users d0" "videos d1 = videos d0"
    by (simp_all add: d1_def apply_like_sql_def Let_def)
  have rows2: "videos d2 = videos d1" by (simp add: d2_def apply_like_sql_def Let_def)
  have ex1: "row_exists u2 v d1" using assms(5) by (simp add: row_exists_def user_exists_def video_exists_def rows1)
  have e1: "edge_count v d1 = edge_count v d0 + 1"
    using assms(4,6) by (simp add: d1_def apply_like_sql_def Let_def row_exists_def edge_count_append)
  have l1: "(u2, v) \<notin> set (likes d1)"
    using assms(3,4,6,7) by (simp add: d1_def apply_like_sql_def Let_def row_exists_def)
  have e2: "edge_count v d2 = edge_count v d1 + 1"
    using ex1 l1 by (simp add: d2_def apply_like_sql_def Let_def row_exists_def edge_count_append)
  have key2: "stats_keyed d2" using k2(1) by (simp add: stats_keyed_def likes_keyed_def)
  have "video_exists v d2" using assms(4) by (simp add: row_exists_def video_exists_def rows1 rows2)
  then have "v \<in> set (map s_video_id (video_stats d2))" using k2(1) by (simp add: likes_keyed_def)
  then obtain r where r: "r \<in> set (video_stats d2)" "s_video_id r = v" by auto
  then have c2: "stats_count v d2 = Some (edge_count v d2)"
    using stats_count_row [OF key2 r(1)] k2(2) by (auto simp: counts_exact_def)
  obtain d3 where d3: "snd (reconcile_sql v (edge_count v d1) t3 d2) = d3"
    and c3: "stats_count v d3 = Some (edge_count v d1)" and e3: "edge_count v d3 = edge_count v d2"
    using reconcile_sql_spec [OF key2 c2, of "edge_count v d1" t3] by auto
  have "\<not> counts_exact d3"
  proof
    assume "counts_exact d3"
    moreover obtain r where "r \<in> set (video_stats d3)" "s_video_id r = v" "s_likes_count r = edge_count v d1"
      using c3 by (auto simp: stats_count_def dest!: find_Some_iff')
    ultimately show False using e3 e2 by (auto simp: counts_exact_def)
  qed
  moreover have "stats_count v d0 \<noteq> Some (edge_count v d1)"
    using stats_count_exact [OF assms(1,2), of v] e1 by auto
  ultimately show ?thesis using k2(2) d3 by simp
qed

theorem reconciler_race_introduces_drift_witness:
  "\<not> counts_exact (snd (reconcile_sql 7 1 9
     (snd (apply_like_sql 2 7 8 (snd (apply_like_sql 1 7 8 example_pg))))))"
proof -
  have "edge_count 7 (snd (apply_like_sql 1 7 8 example_pg)) = 1"
    using example_pg_simps(4) by (simp add: apply_like_sql_def Let_def edge_count_def row_exists_def)
  then show ?thesis
    using reconciler_race_introduces_drift [of example_pg 1 2 7 8 8 9] by simp
qed

end
