(* ===== verification/JsonCache.thy ===== *)
theory JsonCache
  imports World
begin

text \<open>
  \<open>internal/platform/cache/jsoncache.go\<close>: values of a type as JSON under Redis keys. The JSON
  encoder is \<open>encoding/json\<close>, a parameter \<open>codec\<close> here, with the law that what it encodes it
  decodes again on a set of values it can represent (\<open>json_codec\<close>). The services see a cache
  through the interface \<open>cache\<close>; the locale \<open>value_cache\<close> is its contract, and \<open>json_cache\<close>
  provides it. A reference codec packs fields into strings, for concrete inputs.
\<close>

section \<open>The cache\<close>

record 'v codec =
  marshal :: "'v \<Rightarrow> string option"
  unmarshal :: "string \<Rightarrow> 'v option"

text \<open>The interface \<open>Cache\<close> of the services: a read gives the value and a hit flag.\<close>

record ('v, 'w) cache =
  cache_get :: "string \<Rightarrow> 'w \<Rightarrow> 'v option result \<times> 'w"
  cache_set :: "string \<Rightarrow> 'v \<Rightarrow> 'w \<Rightarrow> unit result \<times> 'w"
  cache_del :: "string \<Rightarrow> 'w \<Rightarrow> unit result \<times> 'w"

definition json_get ::
  "('s, 'z) redis_scheme \<Rightarrow> 'v codec \<Rightarrow> (string \<Rightarrow> string) \<Rightarrow> string \<Rightarrow> 's world \<Rightarrow> 'v option result \<times> 's world"
where
  "json_get R C key_fn i w =
     (case redis_call (reading (rGET R (key_fn i))) w of
        (Inr None, w') \<Rightarrow> (Inr None, w')
      | (Inl e, w') \<Rightarrow> (Inl (Wrapped ''cache get'' e), w')
      | (Inr (Some raw), w') \<Rightarrow>
          (case unmarshal C raw of
             None \<Rightarrow> (Inr None, snd (redis_call (writing (rDEL R (key_fn i))) w'))
           | Some v \<Rightarrow> (Inr (Some v), w')))"

definition json_set ::
  "('s, 'z) redis_scheme \<Rightarrow> 'v codec \<Rightarrow> (string \<Rightarrow> string) \<Rightarrow> int \<Rightarrow> string \<Rightarrow> 'v \<Rightarrow> 's world
     \<Rightarrow> unit result \<times> 's world"
where
  "json_set R C key_fn ttl i v w =
     (case marshal C v of
        None \<Rightarrow> (Inl (Wrapped ''cache marshal'' (Plain ''json'')), w)
      | Some b \<Rightarrow>
          (case redis_call (writing (rSET R (key_fn i) b (redis_ttl ttl))) w of
             (Inl e, w') \<Rightarrow> (Inl (Wrapped ''cache set'' e), w')
           | (Inr _, w') \<Rightarrow> (Inr (), w')))"

definition json_del ::
  "('s, 'z) redis_scheme \<Rightarrow> (string \<Rightarrow> string) \<Rightarrow> string \<Rightarrow> 's world \<Rightarrow> unit result \<times> 's world"
where
  "json_del R key_fn i w =
     (case redis_call (writing (rDEL R (key_fn i))) w of
        (Inl e, w') \<Rightarrow> (Inl (Wrapped ''cache del'' e), w')
      | (Inr _, w') \<Rightarrow> (Inr (), w'))"

definition json_cache_ops ::
  "('s, 'z) redis_scheme \<Rightarrow> 'v codec \<Rightarrow> (string \<Rightarrow> string) \<Rightarrow> int \<Rightarrow> ('v, 's world) cache"
where
  "json_cache_ops R C key_fn ttl =
     \<lparr>cache_get = json_get R C key_fn, cache_set = json_set R C key_fn ttl, cache_del = json_del R key_fn\<rparr>"

text \<open>
  The read path the services share: the cache first; on a miss or a cache failure the load
  from the repository, whose value is written back. A cache failure never fails the read.
  The service may be built without a cache.
\<close>

definition read_through ::
  "('v, 'w) cache option \<Rightarrow> string \<Rightarrow> ('w \<Rightarrow> 'v result \<times> 'w) \<Rightarrow> ('v \<Rightarrow> string) \<Rightarrow> 'w \<Rightarrow> 'v result \<times> 'w"
where
  "read_through copt i load key_of w =
     (let (hit, w) = (case copt of
            None \<Rightarrow> (None, w)
          | Some c \<Rightarrow> (case cache_get c i w of (Inr v, w') \<Rightarrow> (v, w') | (Inl e, w') \<Rightarrow> (None, w')))
      in case hit of
           Some v \<Rightarrow> (Inr v, w)
         | None \<Rightarrow>
             (case load w of
                (Inl e, w') \<Rightarrow> (Inl e, w')
              | (Inr v, w') \<Rightarrow>
                  (Inr v, (case copt of None \<Rightarrow> w' | Some c \<Rightarrow> snd (cache_set c (key_of v) v w')))))"

lemma read_through_errors:
  assumes "read_through c i load key_of w = (Inl e, w')"
  shows "\<exists>w1 w2. load w1 = (Inl e, w2)"
  using assms by (auto simp: read_through_def Let_def split: prod.splits option.splits sum.splits)

section \<open>What a service may rely on\<close>

text \<open>
  \<open>held w i\<close> is the value the cache would return for the id \<open>i\<close>. A read returns what is
  held, or a miss, or an error; no operation ever makes the cache hold anything but what was
  set. \<open>same i\<close> relates two worlds that differ at most in what the cache has for \<open>i\<close>.
\<close>

locale value_cache =
  fixes cache :: "('v, 's world) cache" and held :: "'s world \<Rightarrow> string \<Rightarrow> 'v option"
    and ready :: "'s world \<Rightarrow> bool" and fits :: "'v \<Rightarrow> bool"
    and same :: "string \<Rightarrow> 's world \<Rightarrow> 's world \<Rightarrow> bool" and ids :: "string set"
  assumes get: "ready w \<Longrightarrow> i \<in> ids \<Longrightarrow> cache_get cache i w = (r, w') \<Longrightarrow>
        ready w' \<and> same i w w' \<and> (\<forall>v. r = Inr (Some v) \<longrightarrow> held w i = Some v)
        \<and> (\<forall>j \<in> ids. \<forall>v. held w' j = Some v \<longrightarrow> held w j = Some v)"
    and set: "ready w \<Longrightarrow> i \<in> ids \<Longrightarrow> fits v \<Longrightarrow> cache_set cache i v w = (q, w') \<Longrightarrow>
        ready w' \<and> same i w w'
        \<and> (\<forall>j \<in> ids. \<forall>u. held w' j = Some u \<longrightarrow> held w j = Some u \<or> (j = i \<and> u = v))"
    and same_trans: "same i w w' \<Longrightarrow> same i w' w'' \<Longrightarrow> same i w w''"
begin

text \<open>Read-through and write-around keep a cache of the rows of a table truthful.\<close>

definition truthful :: "(string \<Rightarrow> 'v option) \<Rightarrow> 's world \<Rightarrow> bool" where
  "truthful rows w \<longleftrightarrow> (\<forall>i \<in> ids. \<forall>v. held w i = Some v \<longrightarrow> rows i = Some v)"

lemma truthful_get:
  "ready w \<Longrightarrow> i \<in> ids \<Longrightarrow> truthful rows w \<Longrightarrow> cache_get cache i w = (r, w') \<Longrightarrow>
     ready w' \<and> same i w w' \<and> truthful rows w' \<and> (\<forall>v. r = Inr (Some v) \<longrightarrow> rows i = Some v)"
  using get [of w i r w'] unfolding truthful_def by blast

lemma truthful_set:
  "ready w \<Longrightarrow> i \<in> ids \<Longrightarrow> truthful rows w \<Longrightarrow> fits v \<Longrightarrow> rows i = Some v \<Longrightarrow>
     cache_set cache i v w = (q, w') \<Longrightarrow> ready w' \<and> same i w w' \<and> truthful rows w'"
  using set [of w i v q w'] unfolding truthful_def by blast

text \<open>
  A load that answers with the row (or with an error from \<open>bad\<close>) and leaves the cache alone
  is still one after the cache is put in front of it.
\<close>

definition loads :: "(string \<Rightarrow> 'v option) \<Rightarrow> (goerr \<Rightarrow> bool) \<Rightarrow> string \<Rightarrow> ('v \<Rightarrow> string)
    \<Rightarrow> ('s world \<Rightarrow> 'v result \<times> 's world) \<Rightarrow> 's world \<Rightarrow> bool"
where
  "loads rows bad i key_of load w \<longleftrightarrow> (\<forall>r w'. load w = (r, w') \<longrightarrow>
     ready w' \<and> same i w w' \<and> held w' = held w
     \<and> (\<forall>v. r = Inr v \<longrightarrow> rows i = Some v \<and> fits v \<and> key_of v = i) \<and> (\<forall>e. r = Inl e \<longrightarrow> bad e))"

lemma read_through_truthful:
  assumes "ready w" and "i \<in> ids" and "truthful rows w" and refl: "same i w w"
    and load: "\<And>w1. ready w1 \<Longrightarrow> same i w w1 \<Longrightarrow> loads rows bad i key_of load w1"
    and call: "read_through (Some cache) i load key_of w = (r, w')"
  shows "ready w' \<and> same i w w' \<and> truthful rows w' \<and> (\<forall>v. r = Inr v \<longrightarrow> rows i = Some v)
    \<and> (\<forall>e. r = Inl e \<longrightarrow> bad e)"
proof -
  obtain g w1 where g: "cache_get cache i w = (g, w1)" by (metis surj_pair)
  note t1 = truthful_get [OF assms(1-3) g]
  show ?thesis
  proof (cases "\<exists>v. g = Inr (Some v)")
    case True
    then show ?thesis using t1 call g by (auto simp: read_through_def)
  next
    case False
    obtain q w2 where q: "load w1 = (q, w2)" by (metis surj_pair)
    have rt: "read_through (Some cache) i load key_of w =
        (case q of Inl e \<Rightarrow> (Inl e, w2) | Inr v \<Rightarrow> (Inr v, snd (cache_set cache (key_of v) v w2)))"
      using False g q by (auto simp: read_through_def split: sum.splits option.splits)
    have l: "ready w2 \<and> same i w1 w2 \<and> held w2 = held w1
        \<and> (\<forall>v. q = Inr v \<longrightarrow> rows i = Some v \<and> fits v \<and> key_of v = i) \<and> (\<forall>e. q = Inl e \<longrightarrow> bad e)"
      using load [of w1] t1 q by (simp add: loads_def)
    have s2: "same i w w2" using same_trans t1 l by blast
    have tr2: "truthful rows w2" using t1 l by (simp add: truthful_def)
    show ?thesis
    proof (cases q)
      case (Inl e)
      then show ?thesis using rt call l s2 tr2 by simp
    next
      case (Inr v)
      obtain p w3 where p: "cache_set cache i v w2 = (p, w3)" by (metis surj_pair)
      have "key_of v = i" "rows i = Some v" "fits v" using l Inr by auto
      then have r: "r = Inr v" "w' = w3" using rt call Inr p by simp_all
      note t3 = truthful_set [OF _ assms(2) tr2 \<open>fits v\<close> \<open>rows i = Some v\<close> p]
      then show ?thesis using l s2 same_trans \<open>rows i = Some v\<close> unfolding r by blast
    qed
  qed
qed

end

section \<open>The JSON cache keeps the contract\<close>

locale json_codec =
  fixes C :: "'v codec" and fits :: "'v \<Rightarrow> bool"
  assumes round_trip: "fits v \<Longrightarrow> \<exists>b. marshal C v = Some b \<and> unmarshal C b = Some v"

definition cache_held :: "'v codec \<Rightarrow> (string \<Rightarrow> string) \<Rightarrow> keyspace \<Rightarrow> string \<Rightarrow> 'v option" where
  "cache_held C key_fn m i = Option.bind (str_val (m (key_fn i))) (unmarshal C)"

text \<open>Every store but Redis is as it was, and Redis outside one key.\<close>

definition key_frame :: "('s \<Rightarrow> keyspace) \<Rightarrow> string \<Rightarrow> 's world \<Rightarrow> 's world \<Rightarrow> bool" where
  "key_frame ks key w w' \<longleftrightarrow> pg w' = pg w \<and> ch w' = ch w \<and> chnet w' = chnet w
     \<and> (pgnet w = [] \<longrightarrow> pgnet w' = []) \<and> (net w = [] \<longrightarrow> net w' = []) \<and> (\<forall>k. k \<noteq> key \<longrightarrow> ks (srv w') k = ks (srv w) k)"

locale json_cache = redis_server R ks + json_codec C fits
  for R :: "('s, 'z) redis_scheme" and ks and C :: "'v codec" and fits +
  fixes key_fn :: "string \<Rightarrow> string" and ttl :: int and ids :: "string set"
  assumes key_inj: "inj_on key_fn ids"
begin

definition cache_ready :: "'s world \<Rightarrow> bool" where
  "cache_ready w \<longleftrightarrow> (\<forall>i \<in> ids. is_str (ks (srv w) (key_fn i)))"

end

context json_cache
begin

lemma json_get_held:
  assumes "cache_ready w" and "i \<in> ids" and "json_get R C key_fn i w = (r, w')"
  shows "cache_ready w' \<and> key_frame ks (key_fn i) w w'
    \<and> (\<forall>v. r = Inr (Some v) \<longrightarrow> cache_held C key_fn (ks (srv w)) i = Some v)
    \<and> (\<forall>j \<in> ids. \<forall>v. cache_held C key_fn (ks (srv w')) j = Some v \<longrightarrow> cache_held C key_fn (ks (srv w)) j = Some v)"
proof -
  let ?k = "key_fn i"
  obtain r1 w1 where call: "redis_call (reading (rGET R ?k)) w = (r1, w1)" by (metis surj_pair)
  have st: "srv w1 = srv w \<and> (\<forall>a. r1 = Inr a \<longrightarrow> a = rGET R ?k (srv w))"
    by (rule redis_call_read [OF call])
  note fr = redis_call_stores [OF call]
  have raw: "rGET R ?k (srv w) = str_val (ks (srv w) ?k)"
    using assms(1,2) by (intro get) (simp add: cache_ready_def)
  have nt: "net w = [] \<longrightarrow> net w1 = []" using redis_call_net [OF call] by blast
  have plain: ?thesis if "w' = w1" and "\<forall>v. r = Inr (Some v) \<longrightarrow> cache_held C key_fn (ks (srv w)) i = Some v"
    using that assms(1) st fr nt by (simp add: cache_ready_def key_frame_def)
  show ?thesis
  proof (cases r1)
    case (Inl e)
    with assms(3) call show ?thesis by (intro plain) (auto simp: json_get_def)
  next
    case (Inr a)
    then have a: "a = str_val (ks (srv w) ?k)" using st raw by simp
    show ?thesis
    proof (cases "a = None \<or> unmarshal C (the a) \<noteq> None")
      case True
      with assms(3) call Inr a show ?thesis
        by (intro plain) (auto simp: json_get_def cache_held_def split: option.splits)
    next
      case False
      then obtain b where b: "a = Some b" and bad: "unmarshal C b = None" by auto
      obtain r2 w2 where del_call: "redis_call (writing (rDEL R ?k)) w1 = (r2, w2)" by (metis surj_pair)
      have rw: "r = Inr None" "w' = w2" using assms(3) call Inr b bad del_call by (simp_all add: json_get_def)
      note fr2 = redis_call_stores [OF del_call]
      have "srv w2 = srv w \<or> srv w2 = rDEL R ?k (srv w)"
        using del_call st by (auto elim!: redis_call_cases)
      then have "ks (srv w2) = ks (srv w) \<or> ks (srv w2) = (ks (srv w))(?k := None)" by (auto simp: del)
      moreover have "net w = [] \<longrightarrow> net w2 = []" using nt redis_call_net [OF del_call] by blast
      moreover have "is_str None" by simp
      ultimately show ?thesis
        using assms(1) fr fr2 unfolding rw cache_ready_def key_frame_def cache_held_def by (auto split: if_splits)
    qed
  qed
qed

lemma json_set_held:
  assumes "cache_ready w" and "i \<in> ids" and "fits v" and "json_set R C key_fn ttl i v w = (r, w')"
  shows "cache_ready w' \<and> key_frame ks (key_fn i) w w'
    \<and> (\<forall>j \<in> ids. \<forall>u. cache_held C key_fn (ks (srv w')) j = Some u \<longrightarrow>
         cache_held C key_fn (ks (srv w)) j = Some u \<or> (j = i \<and> u = v))"
proof -
  obtain b where b: "marshal C v = Some b" and ub: "unmarshal C b = Some v" using round_trip assms(3) by blast
  obtain r1 w1 where call: "redis_call (writing (rSET R (key_fn i) b (redis_ttl ttl))) w = (r1, w1)"
    by (metis surj_pair)
  have w': "w' = w1" using assms(4) b call by (simp add: json_set_def split: sum.splits)
  have "srv w1 = srv w \<or> srv w1 = rSET R (key_fn i) b (redis_ttl ttl) (srv w)"
    using call by (auto elim!: redis_call_cases)
  then have "ks (srv w1) = ks (srv w) \<or> ks (srv w1) = doc_set (key_fn i) b (redis_ttl ttl) (ks (srv w))"
    by (auto simp: set)
  then show ?thesis
  proof
    assume same: "ks (srv w1) = ks (srv w)"
    show ?thesis
      using assms(1) redis_call_stores [OF call] redis_call_net [OF call]
      unfolding w' cache_ready_def key_frame_def same by simp
  next
    assume new: "ks (srv w1) = doc_set (key_fn i) b (redis_ttl ttl) (ks (srv w))"
    have keys: "j \<in> ids \<Longrightarrow> key_fn j = key_fn i \<longleftrightarrow> j = i" for j
      using key_inj assms(2) by (auto dest: inj_onD)
    show ?thesis
      using assms(1) redis_call_stores [OF call] redis_call_net [OF call] ub
      unfolding w' cache_ready_def key_frame_def cache_held_def new doc_set_def by (auto simp: keys)
  qed
qed

end

lemma key_frame_refl [simp]: "key_frame ks k w w"
  by (simp add: key_frame_def)

lemma key_frame_trans: "key_frame ks k w w' \<Longrightarrow> key_frame ks k w' w'' \<Longrightarrow> key_frame ks k w w''"
  by (simp add: key_frame_def)

sublocale json_cache \<subseteq> held: value_cache "json_cache_ops R C key_fn ttl"
  "\<lambda>w. cache_held C key_fn (ks (srv w))" cache_ready fits "\<lambda>i. key_frame ks (key_fn i)" ids
proof (unfold_locales, goal_cases)
  case (1 w i r w')
  then show ?case using json_get_held [of w i r w'] by (simp add: json_cache_ops_def)
next
  case (2 w i v q w')
  then show ?case using json_set_held [of w i v q w'] by (simp add: json_cache_ops_def)
next
  case (3 i w w' w'')
  then show ?case by (rule key_frame_trans)
qed

text \<open>
  The cache in front of a table: with Postgres up the answer is the row, whatever the link to
  Redis does; with Postgres down an answer, if there is one, still is.
\<close>

context json_cache
begin

lemma read_row_exact:
  assumes pre: "cache_ready w" "held.truthful rows w" "s \<in> ids"
    and load: "\<And>w1 q w2. pg w1 = pg w \<Longrightarrow> load w1 = (q, w2) \<Longrightarrow>
       pg w2 = pg w1 \<and> srv w2 = srv w1 \<and> net w2 = net w1 \<and> ch w2 = ch w1 \<and> chnet w2 = chnet w1
       \<and> (pgnet w1 = [] \<longrightarrow> pgnet w2 = [] \<and> q = (case rows s of None \<Rightarrow> Inl nf | Some v \<Rightarrow> Inr v))
       \<and> (\<forall>v. q = Inr v \<longrightarrow> rows s = Some v \<and> fits v \<and> key_of v = s) \<and> (\<forall>e. q = Inl e \<longrightarrow> bad e)"
    and call: "read_through (Some (json_cache_ops R C key_fn ttl)) s load key_of w = (r, w')"
  shows "cache_ready w' \<and> key_frame ks (key_fn s) w w' \<and> held.truthful rows w'
    \<and> (\<forall>v. r = Inr v \<longrightarrow> rows s = Some v) \<and> (\<forall>e. r = Inl e \<longrightarrow> bad e)
    \<and> (pgnet w = [] \<longrightarrow> r = (case rows s of None \<Rightarrow> Inl nf | Some v \<Rightarrow> Inr v))"
proof -
  let ?bad = "\<lambda>e. bad e \<and> (pgnet w = [] \<longrightarrow> e = nf \<and> rows s = None)"
  have ld: "held.loads rows ?bad s key_of load w1"
    if rdy: "cache_ready w1" and fr: "key_frame ks (key_fn s) w w1" for w1
    unfolding held.loads_def
  proof (intro allI impI)
    fix q w2
    assume c: "load w1 = (q, w2)"
    have pg1: "pg w1 = pg w" and pn: "pgnet w = [] \<Longrightarrow> pgnet w1 = []" using fr by (simp_all add: key_frame_def)
    note l = load [OF pg1 c]
    have inr: "q = Inr v \<Longrightarrow> rows s = Some v \<and> fits v \<and> key_of v = s" for v using l by blast
    have inl: "bad e" if "q = Inl e" for e using l that by blast
    have up: "pgnet w = [] \<Longrightarrow> q = (case rows s of None \<Rightarrow> Inl nf | Some v \<Rightarrow> Inr v)" using l pn by blast
    have none: "pgnet w = [] \<longrightarrow> e = nf \<and> rows s = None" if "q = Inl e" for e
    proof
      assume "pgnet w = []"
      from up [OF this] that show "e = nf \<and> rows s = None" by (cases "rows s") simp_all
    qed
    have "cache_ready w2" using rdy l by (simp add: cache_ready_def)
    moreover have "key_frame ks (key_fn s) w1 w2" using l by (simp add: key_frame_def)
    moreover have "cache_held C key_fn (ks (srv w2)) = cache_held C key_fn (ks (srv w1))" using l by simp
    ultimately show "cache_ready w2 \<and> key_frame ks (key_fn s) w1 w2
        \<and> cache_held C key_fn (ks (srv w2)) = cache_held C key_fn (ks (srv w1))
        \<and> (\<forall>v. q = Inr v \<longrightarrow> rows s = Some v \<and> fits v \<and> key_of v = s)
        \<and> (\<forall>e. q = Inl e \<longrightarrow> ?bad e)" using inr inl none by (intro conjI allI impI) iprover+
  qed
  have main: "cache_ready w' \<and> key_frame ks (key_fn s) w w' \<and> held.truthful rows w'
      \<and> (\<forall>v. r = Inr v \<longrightarrow> rows s = Some v) \<and> (\<forall>e. r = Inl e \<longrightarrow> ?bad e)"
    by (rule held.read_through_truthful [OF pre(1,3,2) key_frame_refl ld call])
  have "pgnet w = [] \<longrightarrow> r = (case rows s of None \<Rightarrow> Inl nf | Some v \<Rightarrow> Inr v)"
  proof (cases r)
    case (Inl e)
    then have "?bad e" using main by blast
    then show ?thesis using Inl by simp
  next
    case (Inr v)
    then have "rows s = Some v" using main by blast
    then show ?thesis using Inr by simp
  qed
  moreover have "\<forall>e. r = Inl e \<longrightarrow> bad e" using main by simp
  ultimately show ?thesis using main by (elim conjE) (intro conjI, assumption+)
qed

end

section \<open>A reference codec\<close>

text \<open>A field is written character by character, each after a mark, and closed by a dot.\<close>

fun pack_field :: "string \<Rightarrow> string" where
  "pack_field [] = ''.''"
| "pack_field (c # cs) = CHR ''x'' # c # pack_field cs"

definition pack :: "string list \<Rightarrow> string" where
  "pack fs = concat (map pack_field fs)"

fun unpack_from :: "string \<Rightarrow> string \<Rightarrow> string list option" where
  "unpack_from cur [] = (if cur = [] then Some [] else None)"
| "unpack_from cur [m] = (if m = CHR ''.'' then Some [rev cur] else None)"
| "unpack_from cur (m # c # cs) =
     (if m = CHR ''.'' then map_option (Cons (rev cur)) (unpack_from [] (c # cs))
      else unpack_from (c # cur) cs)"

definition unpack :: "string \<Rightarrow> string list option" where
  "unpack = unpack_from []"

lemma unpack_from_field:
  "unpack_from cur (pack_field f @ s) = map_option (Cons (rev cur @ f)) (unpack_from [] s)"
proof (induction f arbitrary: cur)
  case Nil
  show ?case by (cases s) simp_all
next
  case (Cons c cs)
  then show ?case by simp
qed

lemma unpack_pack [simp]: "unpack (pack fs) = Some fs"
  by (induction fs) (simp_all add: unpack_def pack_def unpack_from_field)

definition ref_int_parse :: "string \<Rightarrow> int option" where
  "ref_int_parse s =
     (case s of [] \<Rightarrow> None
      | c # cs \<Rightarrow> if c = CHR ''-'' then map_option (\<lambda>n. - int n) (digits_value 0 cs)
                 else map_option int (digits_value 0 s))"

lemma ref_int_parse_format [simp]: "ref_int_parse (format_int n) = Some n"
proof (cases "n < 0")
  case True
  then show ?thesis by (simp add: ref_int_parse_def format_int_def digits_value_nat_digits)
next
  case False
  obtain c cs where "nat_digits (nat n) = c # cs" and "c \<noteq> CHR ''-''"
    using nat_digits_head by blast
  moreover from this have "digits_value 0 (c # cs) = Some (nat n)"
    using digits_value_nat_digits [of "nat n"] by simp
  ultimately show ?thesis using False by (simp add: ref_int_parse_def format_int_def del: digits_value.simps)
qed

definition ref_video_codec :: "video codec" where
  "ref_video_codec =
     \<lparr>marshal = (\<lambda>v. Some (pack [ref_uuid_str (v_id v), ref_uuid_str (v_user_id v), v_title v, v_description v,
        v_video_url v, format_int (v_duration_sec v), format_int (v_created_at v)])),
      unmarshal = (\<lambda>s. case unpack s of
          Some [i, u, t, d, l, n, c] \<Rightarrow>
            (case (ref_uuid_parse i, ref_uuid_parse u, ref_int_parse n, ref_int_parse c) of
               (Some i, Some u, Some n, Some c) \<Rightarrow>
                 Some \<lparr>v_id = i, v_user_id = u, v_title = t, v_description = d, v_video_url = l,
                   v_duration_sec = n, v_created_at = c\<rparr>
             | _ \<Rightarrow> None)
        | _ \<Rightarrow> None)\<rparr>"

definition ref_product_codec :: "product codec" where
  "ref_product_codec =
     \<lparr>marshal = (\<lambda>p. Some (pack [ref_uuid_str (p_id p), ref_uuid_str (p_video_id p), p_name p,
        format_int (p_price_cents p), p_currency p, p_image_url p, format_int (p_created_at p)])),
      unmarshal = (\<lambda>s. case unpack s of
          Some [i, u, t, n, d, l, c] \<Rightarrow>
            (case (ref_uuid_parse i, ref_uuid_parse u, ref_int_parse n, ref_int_parse c) of
               (Some i, Some u, Some n, Some c) \<Rightarrow>
                 Some \<lparr>p_id = i, p_video_id = u, p_name = t, p_price_cents = n, p_currency = d,
                   p_image_url = l, p_created_at = c\<rparr>
             | _ \<Rightarrow> None)
        | _ \<Rightarrow> None)\<rparr>"

lemma ref_parse_str [simp]: "ref_uuid_parse (ref_uuid_str u) = Some u"
  using ref_uuid.parse_str [of u] by (simp add: ref_libs_def)

interpretation ref_videos: json_codec ref_video_codec "\<lambda>_. True"
  by unfold_locales (simp add: ref_video_codec_def)

interpretation ref_products: json_codec ref_product_codec "\<lambda>_. True"
  by unfold_locales (simp add: ref_product_codec_def)

text \<open>The cache of videos of the composition root, on the reference Redis.\<close>

definition video_cache_key :: "string \<Rightarrow> string" where
  "video_cache_key i = ''video:'' @ i"

interpretation ref_video_cache: json_cache ref_redis "\<lambda>m. m" ref_video_codec "\<lambda>_. True" video_cache_key ttl UNIV
  for ttl
  by unfold_locales (simp add: video_cache_key_def inj_def)

end
