(* ===== verification/Bloom.thy ===== *)
theory Bloom
  imports World
begin

text \<open>
  \<open>internal/platform/bloom\<close>: a RedisBloom filter in front of a UNIQUE constraint, and its
  warm-up from Postgres. The services use it through the interface \<open>bloom_ops\<close>; what they may
  rely on is the locale \<open>member_filter\<close>: no false negatives for what was added. The false
  positive rate and the capacity are parameters of \<open>BF.RESERVE\<close> that only the server
  interprets; a positive answer promises nothing.
\<close>

definition bloom_key_emails :: string where
  "bloom_key_emails = ''bloom:emails''"

definition bloom_key_product_videos :: string where
  "bloom_key_product_videos = ''bloom:product_videos''"

text \<open>The interface \<open>Filter\<close>.\<close>

record 'w bloom_ops =
  may_contain :: "string \<Rightarrow> 'w \<Rightarrow> bool result \<times> 'w"
  bloom_add :: "string \<Rightarrow> 'w \<Rightarrow> unit result \<times> 'w"

text \<open>\<open>Init\<close>: an existing key is fine. A \<open>BF.RESERVE\<close> that got no reply is forgiven when
  \<open>BF.INFO\<close> then finds the filter.\<close>

definition bf_init :: "('s, 'z) redis_scheme \<Rightarrow> string \<Rightarrow> 's world \<Rightarrow> unit result \<times> 's world" where
  "bf_init R key w =
     (case redis_call (rBFRESERVE R key) w of
        (Inr _, w') \<Rightarrow> (Inr (), w')
      | (Inl e, w') \<Rightarrow>
          (case redis_call (reading (rBFINFO R key)) w' of
             (Inr True, w'') \<Rightarrow> (Inr (), w'')
           | (_, w'') \<Rightarrow> (Inl (Wrapped ''bf.reserve'' e), w'')))"

definition bf_may_contain ::
  "('s, 'z) redis_scheme \<Rightarrow> string \<Rightarrow> string \<Rightarrow> 's world \<Rightarrow> bool result \<times> 's world"
where
  "bf_may_contain R key x w =
     (case redis_call (reading (rBFEXISTS R key x)) w of
        (Inl e, w') \<Rightarrow> (Inl (Wrapped ''bf.exists'' e), w')
      | (Inr b, w') \<Rightarrow> (Inr b, w'))"

definition bf_add ::
  "('s, 'z) redis_scheme \<Rightarrow> string \<Rightarrow> string \<Rightarrow> 's world \<Rightarrow> unit result \<times> 's world"
where
  "bf_add R key x w =
     (case redis_call (writing (rBFADD R key [x])) w of
        (Inl e, w') \<Rightarrow> (Inl (Wrapped ''bf.add'' e), w')
      | (Inr _, w') \<Rightarrow> (Inr (), w'))"

definition bf_add_batch ::
  "('s, 'z) redis_scheme \<Rightarrow> string \<Rightarrow> string list \<Rightarrow> 's world \<Rightarrow> unit result \<times> 's world"
where
  "bf_add_batch R key xs w =
     (if xs = [] then (Inr (), w)
      else case redis_call (writing (rBFADD R key xs)) w of
             (Inl e, w') \<Rightarrow> (Inl (Wrapped ''bf.madd'' e), w')
           | (Inr _, w') \<Rightarrow> (Inr (), w'))"

definition redis_bloom :: "('s, 'z) redis_scheme \<Rightarrow> string \<Rightarrow> 's world bloom_ops" where
  "redis_bloom R key = \<lparr>may_contain = bf_may_contain R key, bloom_add = bf_add R key\<rparr>"

section \<open>Warm-up\<close>

definition warm_batch :: nat where
  "warm_batch = 5000"

text \<open>The loop over the rows: a full buffer is sent and emptied, the rest is sent at the end.\<close>

fun warm_rows ::
  "('s, 'z) redis_scheme \<Rightarrow> string \<Rightarrow> string list \<Rightarrow> string list \<Rightarrow> 's world \<Rightarrow> unit result \<times> 's world"
where
  "warm_rows R key buf [] w = (if 0 < length buf then bf_add_batch R key buf w else (Inr (), w))"
| "warm_rows R key buf (x # xs) w =
     (let buf = buf @ [x]
      in if warm_batch \<le> length buf then
           (case bf_add_batch R key buf w of
              (Inl e, w') \<Rightarrow> (Inl e, w')
            | (Inr _, w') \<Rightarrow> warm_rows R key [] xs w')
         else warm_rows R key buf xs w)"

definition warmup_emails :: "('s, 'z) redis_scheme \<Rightarrow> string \<Rightarrow> 's world \<Rightarrow> unit result \<times> 's world" where
  "warmup_emails R key w =
     (case bf_init R key w of
        (Inl e, w') \<Rightarrow> (Inl e, w')
      | (Inr _, w') \<Rightarrow>
          (case pg_call (reading (\<lambda>d. map u_email (users d))) w' of
             (Inl e, w'') \<Rightarrow> (Inl (Wrapped ''select emails'' e), w'')
           | (Inr rows, w'') \<Rightarrow> warm_rows R key [] rows w''))"

definition warmup_product_videos :: "('s, 'z) redis_scheme \<Rightarrow> string \<Rightarrow> 's world \<Rightarrow> unit result \<times> 's world" where
  "warmup_product_videos R key w =
     (case bf_init R key w of
        (Inl e, w') \<Rightarrow> (Inl e, w')
      | (Inr _, w') \<Rightarrow>
          (case pg_call (reading (\<lambda>d. map (\<lambda>p. uuid_str R (p_video_id p)) (products d))) w' of
             (Inl e, w'') \<Rightarrow> (Inl (Wrapped ''select video_ids'' e), w'')
           | (Inr rows, w'') \<Rightarrow> warm_rows R key [] rows w''))"

section \<open>The contract of a filter\<close>

text \<open>\<open>members w\<close> are the members added so far. A negative answer is right; an \<open>Add\<close> that
  succeeds adds its member; nothing is ever forgotten and no other store changes.\<close>

definition stores_same :: "'s world \<Rightarrow> 's world \<Rightarrow> bool" where
  "stores_same w w' \<longleftrightarrow> pg w' = pg w \<and> pgnet w' = pgnet w \<and> ch w' = ch w \<and> chnet w' = chnet w
     \<and> (net w = [] \<longrightarrow> net w' = [])"

lemma stores_same_refl [simp]: "stores_same w w"
  by (simp add: stores_same_def)

lemma stores_same_trans: "stores_same w w' \<Longrightarrow> stores_same w' w'' \<Longrightarrow> stores_same w w''"
  by (simp add: stores_same_def)

lemma redis_call_same: "redis_call f w = (r, w') \<Longrightarrow> stores_same w w'"
  using redis_call_stores [of f w r w']
  by (auto simp: stores_same_def redis_call_def split: prod.splits)

locale member_filter =
  fixes filter :: "'s world bloom_ops" and members :: "'s world \<Rightarrow> string set"
    and ready :: "'s world \<Rightarrow> bool" and same :: "'s world \<Rightarrow> 's world \<Rightarrow> bool"
  assumes may_contain: "ready w \<Longrightarrow> may_contain filter x w = (r, w') \<Longrightarrow>
        ready w' \<and> same w w' \<and> members w' = members w \<and> (x \<in> members w \<longrightarrow> r \<noteq> Inr False)"
    and add: "ready w \<Longrightarrow> bloom_add filter x w = (q, w') \<Longrightarrow>
        ready w' \<and> same w w' \<and> members w \<subseteq> members w' \<and> members w' \<subseteq> insert x (members w)
        \<and> (q = Inr () \<longrightarrow> x \<in> members w')"

definition bloom_members :: "string \<Rightarrow> keyspace \<Rightarrow> string set" where
  "bloom_members key m = bloom_val (m key)"

text \<open>Only the filter's key changes in Redis.\<close>

definition only_key :: "('s \<Rightarrow> keyspace) \<Rightarrow> string \<Rightarrow> 's world \<Rightarrow> 's world \<Rightarrow> bool" where
  "only_key ks key w w' \<longleftrightarrow> stores_same w w' \<and> (\<forall>k. k \<noteq> key \<longrightarrow> ks (srv w') k = ks (srv w) k)"

lemma only_key_trans: "only_key ks k w w' \<Longrightarrow> only_key ks k w' w'' \<Longrightarrow> only_key ks k w w''"
  by (auto simp: only_key_def intro: stores_same_trans)

locale bloom_key = redis_server R ks for R :: "('s, 'z) redis_scheme" and ks +
  fixes key :: string
begin

definition bloom_ready :: "'s world \<Rightarrow> bool" where
  "bloom_ready w \<longleftrightarrow> is_bloom (ks (srv w) key)"

lemma bf_exists_sound:
  assumes "bloom_ready w" and "bf_may_contain R key x w = (r, w')"
  shows "bloom_ready w' \<and> only_key ks key w w' \<and> bloom_members key (ks (srv w')) = bloom_members key (ks (srv w))
    \<and> (x \<in> bloom_members key (ks (srv w)) \<longrightarrow> r \<noteq> Inr False)"
proof -
  obtain r1 w1 where call: "redis_call (reading (rBFEXISTS R key x)) w = (r1, w1)" by (metis surj_pair)
  have w': "w' = w1" and r: "r = Inr False \<Longrightarrow> r1 = Inr False"
    using assms(2) call by (auto simp: bf_may_contain_def split: sum.splits)
  have st: "srv w1 = srv w \<and> (\<forall>a. r1 = Inr a \<longrightarrow> a = rBFEXISTS R key x (srv w))"
    by (rule redis_call_read [OF call])
  have ex: "x \<in> bloom_members key (ks (srv w)) \<Longrightarrow> rBFEXISTS R key x (srv w)"
    using assms(1) bfexists by (simp add: bloom_ready_def bloom_members_def)
  show ?thesis
    using assms(1) st redis_call_same [OF call] ex r
    unfolding w' by (auto simp: bloom_ready_def only_key_def)
qed

lemma bfadd_call:
  assumes "bloom_ready w" and "redis_call (writing (rBFADD R key xs)) w = (r, w')"
  shows "bloom_ready w' \<and> only_key ks key w w'
    \<and> bloom_members key (ks (srv w)) \<subseteq> bloom_members key (ks (srv w'))
    \<and> bloom_members key (ks (srv w')) \<subseteq> set xs \<union> bloom_members key (ks (srv w))
    \<and> (\<forall>a. r = Inr a \<longrightarrow> set xs \<subseteq> bloom_members key (ks (srv w')))"
proof -
  have add: "ks (rBFADD R key xs (srv w)) = doc_bfadd key xs (ks (srv w))"
    using assms(1) bfadd by (simp add: bloom_ready_def)
  have "srv w' = srv w \<and> (\<forall>a. r \<noteq> Inr a) \<or> srv w' = rBFADD R key xs (srv w)"
    using assms(2) by (auto elim!: redis_call_cases)
  then show ?thesis
    using assms(1) redis_call_same [OF assms(2)] add
    by (auto simp: bloom_ready_def only_key_def bloom_members_def)
qed

lemma bf_add_sound:
  assumes "bloom_ready w" and "bf_add R key x w = (q, w')"
  shows "bloom_ready w' \<and> only_key ks key w w'
    \<and> bloom_members key (ks (srv w)) \<subseteq> bloom_members key (ks (srv w'))
    \<and> bloom_members key (ks (srv w')) \<subseteq> insert x (bloom_members key (ks (srv w)))
    \<and> (q = Inr () \<longrightarrow> x \<in> bloom_members key (ks (srv w')))"
proof -
  obtain r1 w1 where call: "redis_call (writing (rBFADD R key [x])) w = (r1, w1)" by (metis surj_pair)
  then have "w' = w1" and "q = Inr () \<Longrightarrow> r1 = Inr ()"
    using assms(2) by (auto simp: bf_add_def split: sum.splits)
  then show ?thesis using bfadd_call [OF assms(1) call] by auto
qed

end

sublocale bloom_key \<subseteq> members: member_filter "redis_bloom R key"
  "\<lambda>w. bloom_members key (ks (srv w))" bloom_ready "only_key ks key"
proof (unfold_locales, goal_cases)
  case (1 w x r w')
  then show ?case using bf_exists_sound [of w x r w'] by (simp add: redis_bloom_def)
next
  case (2 w x q w')
  then show ?case using bf_add_sound [of w x q w'] by (simp add: redis_bloom_def)
qed

interpretation ref_email_bloom: bloom_key ref_redis "\<lambda>m. m" bloom_key_emails
  by unfold_locales

interpretation ref_product_bloom: bloom_key ref_redis "\<lambda>m. m" bloom_key_product_videos
  by unfold_locales

section \<open>Warm-up covers the table\<close>

context bloom_key
begin

lemma bf_add_batch_sound:
  assumes "bloom_ready w" and "bf_add_batch R key xs w = (r, w')"
  shows "bloom_ready w' \<and> only_key ks key w w'
    \<and> bloom_members key (ks (srv w)) \<subseteq> bloom_members key (ks (srv w'))
    \<and> (r = Inr () \<longrightarrow> set xs \<subseteq> bloom_members key (ks (srv w')))"
proof (cases "xs = []")
  case True
  with assms show ?thesis by (simp add: bf_add_batch_def only_key_def)
next
  case False
  obtain r1 w1 where call: "redis_call (writing (rBFADD R key xs)) w = (r1, w1)" by (metis surj_pair)
  then have "w' = w1" and "r = Inr () \<Longrightarrow> r1 = Inr ()"
    using assms(2) False by (auto simp: bf_add_batch_def split: sum.splits)
  then show ?thesis using bfadd_call [OF assms(1) call] by auto
qed

lemma warm_rows_sound:
  assumes "bloom_ready w" and "warm_rows R key buf xs w = (r, w')"
  shows "bloom_ready w' \<and> only_key ks key w w'
    \<and> bloom_members key (ks (srv w)) \<subseteq> bloom_members key (ks (srv w'))
    \<and> (r = Inr () \<longrightarrow> set buf \<union> set xs \<subseteq> bloom_members key (ks (srv w')))"
  using assms
proof (induction xs arbitrary: buf w)
  case Nil
  show ?case
  proof (cases "buf = []")
    case True
    with Nil show ?thesis by (simp add: only_key_def)
  next
    case False
    then show ?thesis using bf_add_batch_sound [of w buf r w'] Nil by simp
  qed
next
  case (Cons x xs)
  show ?case
  proof (cases "warm_batch \<le> length (buf @ [x])")
    case False
    then have "warm_rows R key (buf @ [x]) xs w = (r, w')" using Cons.prems(2) by (simp add: Let_def)
    then show ?thesis using Cons.IH [OF Cons.prems(1), of "buf @ [x]"] by simp
  next
    case True
    obtain r1 w1 where b: "bf_add_batch R key (buf @ [x]) w = (r1, w1)" by (metis surj_pair)
    note s = bf_add_batch_sound [OF Cons.prems(1) b]
    show ?thesis
    proof (cases r1)
      case (Inl e)
      then have "r = Inl e" "w' = w1" using Cons.prems(2) True b by (simp_all add: Let_def)
      then show ?thesis using s by simp
    next
      case (Inr u)
      then have r1: "r1 = Inr ()" by simp
      then have rest: "warm_rows R key [] xs w1 = (r, w')" using Cons.prems(2) True b by (simp add: Let_def)
      have IH: "bloom_ready w' \<and> only_key ks key w1 w'
          \<and> bloom_members key (ks (srv w1)) \<subseteq> bloom_members key (ks (srv w'))
          \<and> (r = Inr () \<longrightarrow> set [] \<union> set xs \<subseteq> bloom_members key (ks (srv w')))"
        using s by (intro Cons.IH [OF _ rest]) simp
      have "only_key ks key w w'" using s IH only_key_trans by blast
      with s IH r1 show ?thesis by auto
    qed
  qed
qed

lemma bf_init_sound:
  assumes "bloom_ready w" and "bf_init R key w = (r, w')"
  shows "bloom_ready w' \<and> only_key ks key w w'
    \<and> bloom_members key (ks (srv w')) = bloom_members key (ks (srv w))"
proof -
  obtain r1 w1 where call: "redis_call (rBFRESERVE R key) w = (r1, w1)" by (metis surj_pair)
  have "ks (snd (rBFRESERVE R key (srv w))) = ks (srv w)
      \<or> ks (srv w) key = None \<and> ks (snd (rBFRESERVE R key (srv w))) = (ks (srv w))(key \<mapsto> (RBloom {}, None))"
    by (simp add: bfreserve)
  moreover have "srv w1 = srv w \<or> srv w1 = snd (rBFRESERVE R key (srv w))"
    using call by (auto elim!: redis_call_cases dest: sym)
  ultimately have k1: "ks (srv w1) = ks (srv w)
      \<or> ks (srv w) key = None \<and> ks (srv w1) = (ks (srv w))(key \<mapsto> (RBloom {}, None))" by metis
  have s1: "bloom_ready w1 \<and> only_key ks key w w1
      \<and> bloom_members key (ks (srv w1)) = bloom_members key (ks (srv w))"
    using k1 assms(1) redis_call_same [OF call]
    by (auto simp: bloom_ready_def only_key_def bloom_members_def)
  show ?thesis
  proof (cases r1)
    case (Inr a)
    then show ?thesis using s1 assms(2) call by (simp add: bf_init_def)
  next
    case (Inl e)
    obtain r2 w2 where call2: "redis_call (reading (rBFINFO R key)) w1 = (r2, w2)" by (metis surj_pair)
    have w': "w' = w2" using assms(2) call call2 Inl by (simp add: bf_init_def split: sum.splits bool.splits)
    have "srv w2 = srv w1" using redis_call_read [OF call2] by simp
    then have "bloom_ready w2 \<and> only_key ks key w1 w2
        \<and> bloom_members key (ks (srv w2)) = bloom_members key (ks (srv w1))"
      using s1 redis_call_same [OF call2] by (simp add: bloom_ready_def only_key_def)
    then show ?thesis using s1 only_key_trans unfolding w' by blast
  qed
qed

lemma warmup_covers:
  assumes "bloom_ready w" and "bf_init R key w = (Inr (), w1)"
    and "pg_call (reading rows) w1 = (Inr xs, w2)" and "warm_rows R key [] xs w2 = (Inr (), w')"
  shows "pg w' = pg w \<and> set (rows (pg w)) \<subseteq> bloom_members key (ks (srv w'))"
proof -
  have i: "bloom_ready w1 \<and> only_key ks key w w1" using bf_init_sound [OF assms(1,2)] by blast
  have p: "pg w2 = pg w1 \<and> xs = rows (pg w1)" using pg_call_read [OF assms(3)] by simp
  have s: "srv w2 = srv w1" using assms(3) pg_call_frame(1) [of "reading rows" w1] by simp
  have "bloom_ready w2" using i s by (simp add: bloom_ready_def)
  from warm_rows_sound [OF this assms(4)] i p show ?thesis
    by (auto simp: only_key_def stores_same_def)
qed

end

end
