(* ===== verification/View.thy ===== *)
theory View
  imports RateLimit Streams
begin

text \<open>
  \<open>internal/view\<close>, the API side: the duration policy, the filter chain and its two filters, the
  duration cache, the unique-view marker, \<open>Service.Track\<close> and the handler. SHA-256 is the
  parameter \<open>sha\<close> (a digest of 64 hexadecimal characters). The locale \<open>view_filter\<close> is the
  contract of the \<open>Filter\<close> interface; the chain's lemmas rest on it, and it is interpreted on
  both filters of the repository.
\<close>

section \<open>Data\<close>

definition view_stream_key :: string where
  "view_stream_key = ''stream:views''"

definition view_stream_max_len :: nat where
  "view_stream_max_len = 5000000"

record view_input =
  vi_video_id :: uuid
  vi_viewer_id :: "uuid option"
  vi_ip_hash :: string
  vi_ua_hash :: string
  vi_country :: string
  vi_watch_ms :: int
  vi_duration_sec :: int

definition subject_key :: "'z libs_scheme \<Rightarrow> view_input \<Rightarrow> string" where
  "subject_key L i =
     (case vi_viewer_id i of
        Some u \<Rightarrow> ''u:'' @ uuid_str L u
      | None \<Rightarrow> ''a:'' @ vi_ip_hash i @ '':'' @ vi_ua_hash i)"

record track_result =
  tr_accepted :: bool
  tr_rejected_by :: string
  tr_is_unique :: bool

section \<open>The duration policy\<close>

record view_policy =
  vp_min_duration_sec :: int
  vp_unknown_min_watch_ms :: int

definition required_watch_ms :: "int \<Rightarrow> view_policy \<Rightarrow> int" where
  "required_watch_ms dur cfg =
     (let min_dur = (if vp_min_duration_sec cfg \<le> 0 then 5 else vp_min_duration_sec cfg);
          unknown_min = vp_unknown_min_watch_ms cfg
      in if dur \<le> 0 then unknown_min
         else if dur < min_dur then unknown_min
         else (let w = go_div (wrap64 (dur * 1000)) 3 in if w < 1 then 1 else w))"

definition hour :: int where
  "hour = 3600 * second"

definition rate_policy :: "int \<Rightarrow> view_policy \<Rightarrow> policy option" where
  "rate_policy dur cfg =
     (let min_dur = (if vp_min_duration_sec cfg \<le> 0 then 5 else vp_min_duration_sec cfg)
      in if dur < min_dur then None
         else (let per_min = go_div 60 dur; per_min = (if per_min < 1 then 1 else per_min)
               in Some \<lparr>pol_capacity = per_min, pol_leak_per_second = of_int per_min / 60,
                        pol_ttl = hour\<rparr>))"

section \<open>Filters\<close>

record 'w filter =
  f_name :: string
  f_allow :: "view_input \<Rightarrow> 'w \<Rightarrow> (bool \<times> string) \<times> 'w"

fun chain_apply :: "'w filter list \<Rightarrow> view_input \<Rightarrow> 'w \<Rightarrow> (bool \<times> string) \<times> 'w" where
  "chain_apply [] i w = ((True, []), w)"
| "chain_apply (f # fs) i w =
     (case f_allow f i w of
        ((ok, reason), w') \<Rightarrow>
          if \<not> ok then ((False, f_name f @ '':'' @ reason), w') else chain_apply fs i w')"

definition chain_names :: "'w filter list \<Rightarrow> string list" where
  "chain_names fs = map f_name fs"

definition watch_threshold_filter :: "view_policy \<Rightarrow> 'w filter" where
  "watch_threshold_filter cfg = \<lparr>f_name = ''watch_threshold'', f_allow = (\<lambda>i w.
     (let need = required_watch_ms (vi_duration_sec i) cfg
      in if need \<le> 0 then ((True, []), w)
         else if vi_watch_ms i < need then ((False, ''below_threshold''), w)
         else ((True, []), w)))\<rparr>"

definition min_watch_time_filter :: "int \<Rightarrow> 'w filter" where
  "min_watch_time_filter min_ms =
     (if min_ms \<le> 0
      then watch_threshold_filter \<lparr>vp_min_duration_sec = 1, vp_unknown_min_watch_ms = 0\<rparr>
      else watch_threshold_filter \<lparr>vp_min_duration_sec = 1, vp_unknown_min_watch_ms = min_ms\<rparr>)"

text \<open>The clock reading of the bucket call, \<open>now\<close> in milliseconds, is an argument.\<close>

definition view_bucket_key :: "'z libs_scheme \<Rightarrow> view_input \<Rightarrow> string" where
  "view_bucket_key L i = ''bucket:view:'' @ subject_key L i @ '':'' @ uuid_str L (vi_video_id i)"

definition duration_rate_filter ::
  "('s, 'z) redis_scheme \<Rightarrow> view_policy \<Rightarrow> bool \<Rightarrow> int \<Rightarrow> 's world filter"
where
  "duration_rate_filter R cfg fail_open now = \<lparr>f_name = ''duration_rate'', f_allow = (\<lambda>i w.
     (case rate_policy (vi_duration_sec i) cfg of
        None \<Rightarrow> ((True, []), w)
      | Some p \<Rightarrow>
          (case bucket_allow R (view_bucket_key R i) p 1 now w of
             (Inl e, w') \<Rightarrow> (if fail_open then (True, []) else (False, ''infra_error''), w')
           | (Inr r, w') \<Rightarrow> (if \<not> lb_allowed r then (False, ''rate_limited'') else (True, []), w'))))\<rparr>"

definition leaky_bucket_filter ::
  "('s, 'z) redis_scheme \<Rightarrow> policy \<Rightarrow> bool \<Rightarrow> int \<Rightarrow> 's world filter"
where
  "leaky_bucket_filter R p fail_open now =
     duration_rate_filter R \<lparr>vp_min_duration_sec = 5, vp_unknown_min_watch_ms = 0\<rparr> fail_open now"

text \<open>\<open>metrics.splitRejectedBy\<close>: the name and the reason behind a rejection.\<close>

definition split_rejected_by :: "string \<Rightarrow> string \<times> string" where
  "split_rejected_by s =
     (if s = [] then (''unknown'', ''unknown'')
      else if CHR '':'' \<in> set s
      then (takeWhile (\<lambda>c. c \<noteq> CHR '':'') s, tl (dropWhile (\<lambda>c. c \<noteq> CHR '':'') s))
      else (s, ''unknown''))"

section \<open>The duration cache\<close>

definition duration_key :: "'z libs_scheme \<Rightarrow> uuid \<Rightarrow> string" where
  "duration_key L v = ''video:'' @ uuid_str L v @ '':dur''"

record 'w duration_store =
  ds_get :: "uuid \<Rightarrow> 'w \<Rightarrow> int option \<times> 'w"
  ds_set :: "uuid \<Rightarrow> int \<Rightarrow> 'w \<Rightarrow> unit result \<times> 'w"

definition redis_duration_get ::
  "('s, 'z) redis_scheme \<Rightarrow> uuid \<Rightarrow> 's world \<Rightarrow> int option \<times> 's world"
where
  "redis_duration_get R v w =
     (case redis_call (reading (rGET R (duration_key R v))) w of
        (Inl e, w') \<Rightarrow> (None, w')
      | (Inr None, w') \<Rightarrow> (None, w')
      | (Inr (Some raw), w') \<Rightarrow>
          (case parse_int raw of
             None \<Rightarrow> (None, w')
           | Some sec \<Rightarrow> (if sec \<le> 0 then None else Some sec, w')))"

definition redis_duration_set ::
  "('s, 'z) redis_scheme \<Rightarrow> int \<Rightarrow> uuid \<Rightarrow> int \<Rightarrow> 's world \<Rightarrow> unit result \<times> 's world"
where
  "redis_duration_set R ttl v sec w =
     (if sec \<le> 0 then (Inl (Plain ''duration_sec must be positive''), w)
      else if ttl > 0
      then redis_call (writing (rSET R (duration_key R v) (format_int sec) (redis_ttl ttl))) w
      else redis_call (writing (rSET R (duration_key R v) (format_int sec) None)) w)"

definition redis_duration_store :: "('s, 'z) redis_scheme \<Rightarrow> int \<Rightarrow> 's world duration_store" where
  "redis_duration_store R ttl =
     \<lparr>ds_get = redis_duration_get R, ds_set = redis_duration_set R ttl\<rparr>"

section \<open>The unique-view marker\<close>

definition unique_key :: "'z libs_scheme \<Rightarrow> view_input \<Rightarrow> string" where
  "unique_key L i = ''view:unique:'' @ subject_key L i @ '':'' @ uuid_str L (vi_video_id i)"

definition try_mark ::
  "('s, 'z) redis_scheme \<Rightarrow> int \<Rightarrow> view_input \<Rightarrow> 's world \<Rightarrow> bool result \<times> 's world"
where
  "try_mark R ttl i = redis_call (rSETNX R (unique_key R i) ''1'' (redis_ttl ttl))"

section \<open>The service\<close>

text \<open>\<open>vs_unique\<close> is the marker's window, or \<open>None\<close> for a service without a marker.\<close>

record 'w view_service =
  vs_chain :: "'w filter list"
  vs_durations :: "'w duration_store"
  vs_unique :: "int option"

definition view_fields :: "'z libs_scheme \<Rightarrow> view_input \<Rightarrow> bool \<Rightarrow> int \<Rightarrow> (string \<times> string) list" where
  "view_fields L i uniq ts =
     [(''vid'', uuid_str L (vi_video_id i)), (''ip'', vi_ip_hash i), (''ua'', vi_ua_hash i),
      (''c'', vi_country i), (''u'', if uniq then ''1'' else ''0''), (''t'', format_int ts)] @
     (case vi_viewer_id i of Some u \<Rightarrow> [(''uid'', uuid_str L u)] | None \<Rightarrow> [])"

definition track ::
  "('s, 'z) redis_scheme \<Rightarrow> 's world view_service \<Rightarrow> view_input \<Rightarrow> int \<Rightarrow> 's world
     \<Rightarrow> track_result result \<times> 's world"
where
  "track R svc i ts w =
     (let (d, w) = ds_get (vs_durations svc) (vi_video_id i) w;
          i = (case d of Some sec \<Rightarrow> i\<lparr>vi_duration_sec := sec\<rparr> | None \<Rightarrow> i);
          ((ok, rejected_by), w) = chain_apply (vs_chain svc) i w
      in if \<not> ok
         then (Inr \<lparr>tr_accepted = False, tr_rejected_by = rejected_by, tr_is_unique = False\<rparr>, w)
         else
           (let (uniq, w) =
              (case vs_unique svc of
                 None \<Rightarrow> (True, w)
               | Some ttl \<Rightarrow>
                   (case try_mark R ttl i w of
                      (Inl e, w') \<Rightarrow> (False, w')
                    | (Inr marked, w') \<Rightarrow> (marked, w')))
            in case redis_call (rXADD R view_stream_key view_stream_max_len (view_fields R i uniq ts)) w of
                 (Inl e, w') \<Rightarrow> (Inl (Wrapped ''xadd view'' e), w')
               | (Inr _, w') \<Rightarrow>
                   (Inr \<lparr>tr_accepted = True, tr_rejected_by = [], tr_is_unique = uniq\<rparr>, w')))"

section \<open>The handler\<close>

text \<open>\<open>sha256.Sum256\<close> in hexadecimal is the parameter; the digests are truncations of it.\<close>

definition hash_ip :: "(string \<Rightarrow> string) \<Rightarrow> string \<Rightarrow> string" where
  "hash_ip sha ip = (if ip = [] then replicate 32 (CHR ''0'') else take 32 (sha ip))"

definition hash_ua :: "(string \<Rightarrow> string) \<Rightarrow> string \<Rightarrow> string" where
  "hash_ua sha ua = (if ua = [] then replicate 16 (CHR ''0'') else take 16 (sha ua))"

text \<open>The body as decoded: the zero values when it is missing or malformed.\<close>

record track_body =
  tb_watch_ms :: int
  tb_country :: string

definition handle_track ::
  "('s, 'z) redis_scheme \<Rightarrow> (string \<Rightarrow> string) \<Rightarrow> 's world view_service \<Rightarrow> string \<Rightarrow> string \<Rightarrow> string
     \<Rightarrow> track_body \<Rightarrow> uuid option \<Rightarrow> int \<Rightarrow> 's world \<Rightarrow> track_result response \<times> 's world"
where
  "handle_track R sha svc param ip ua body viewer ts w =
     (case uuid_parse R param of
        None \<Rightarrow> (httpx_error 400 ''validation_failed'' ''invalid video id'', w)
      | Some v \<Rightarrow>
          (let i = \<lparr>vi_video_id = v, vi_viewer_id = viewer, vi_ip_hash = hash_ip sha ip,
                    vi_ua_hash = hash_ua sha ua, vi_country = tb_country body,
                    vi_watch_ms = tb_watch_ms body, vi_duration_sec = 0\<rparr>
           in case track R svc i ts w of
                (Inl e, w') \<Rightarrow> (httpx_error 500 ''internal_error'' ''track failed'', w')
              | (Inr res, w') \<Rightarrow> (httpx_accepted res, w')))"

section \<open>The contract of a filter\<close>

text \<open>The keys of the view path have the types it expects.\<close>

definition view_typed :: "'z libs_scheme \<Rightarrow> keyspace \<Rightarrow> bool" where
  "view_typed L m \<longleftrightarrow> (\<forall>i. is_hash (m (view_bucket_key L i))) \<and> is_stream (m view_stream_key)
     \<and> (\<forall>v. is_str (m (duration_key L v)))"

definition is_bucket_key :: "string \<Rightarrow> bool" where
  "is_bucket_key k \<longleftrightarrow> has_prefix k ''bucket:view:''"

lemma view_keys [simp, key_shape]:
  "is_bucket_key (view_bucket_key L i)"
  "\<not> is_bucket_key view_stream_key"
  "\<not> is_bucket_key (duration_key L v)"
  "\<not> is_bucket_key (unique_key L i)"
  "unique_key L i \<noteq> view_stream_key"
  "unique_key L i \<noteq> duration_key L v"
  "unique_key L i \<noteq> view_bucket_key L' j"
  "view_stream_key \<noteq> duration_key L v"
  "view_stream_key \<noteq> view_bucket_key L i"
  "duration_key L v \<noteq> view_bucket_key L' i"
  "view_stream_key \<noteq> unique_key L i"
  "view_bucket_key L' j \<noteq> unique_key L i"
  "duration_key L v \<noteq> unique_key L i"
  "duration_key L v \<noteq> view_stream_key"
  "view_bucket_key L i \<noteq> view_stream_key"
  "view_bucket_key L' i \<noteq> duration_key L v"
  by (simp_all add: is_bucket_key_def has_prefix_def view_bucket_key_def view_stream_key_def
      duration_key_def unique_key_def)

definition simple_name :: "string \<Rightarrow> bool" where
  "simple_name n \<longleftrightarrow> n \<noteq> [] \<and> CHR '':'' \<notin> set n"

text \<open>What the chain and the service rely on: names and reasons that can be told apart again, a
  reason exactly with a rejection, and no effect outside the filter's own keys.\<close>

locale view_filter = redis_server R ks for R :: "('s, 'z) redis_scheme" and ks +
  fixes f :: "'s world filter"
  assumes name_ok: "simple_name (f_name f)"
    and reason_ok: "f_allow f i w = ((False, reason), w') \<Longrightarrow> simple_name reason"
    and allow_typed: "view_typed R (ks (srv w)) \<Longrightarrow> view_typed R (ks (srv (snd (f_allow f i w))))"
    and allow_frame: "view_typed R (ks (srv w)) \<Longrightarrow> \<not> is_bucket_key k \<Longrightarrow>
        ks (srv (snd (f_allow f i w))) k = ks (srv w) k"
    and allow_stores: "pg (snd (f_allow f i w)) = pg w" "ch (snd (f_allow f i w)) = ch w"
    and allow_up: "net w = [] \<Longrightarrow> net (snd (f_allow f i w)) = []"

lemma split_name_reason: "simple_name n \<Longrightarrow> split_rejected_by (n @ '':'' @ r) = (n, r)"
  by (auto simp: split_rejected_by_def simple_name_def takeWhile_append dropWhile_append)

lemma watch_threshold_filter_contract:
  assumes "redis_server R ks"
  shows "view_filter R ks (watch_threshold_filter cfg)"
  using assms
  by (intro view_filter.intro view_filter_axioms.intro)
     (auto simp: watch_threshold_filter_def simple_name_def Let_def split: if_splits)

lemma bucket_allow_stores:
  "bucket_allow R key p cost now w = (r, w') \<Longrightarrow> pg w' = pg w \<and> ch w' = ch w \<and> (net w = [] \<longrightarrow> net w' = [])"
proof -
  assume a: "bucket_allow R key p cost now w = (r, w')"
  let ?f = "leaky_bucket_script R key (of_int (pol_capacity p)) (pol_leak_per_second p) (of_int now)
    (of_int cost) (bucket_ttl p)"
  obtain x where "redis_call ?f w = (x, w')"
    using a by (auto simp: bucket_allow_def split: prod.splits sum.splits)
  then show ?thesis using redis_call_frame [of ?f w] redis_call_up [of w ?f] by auto
qed

context redis_server
begin

lemma bucket_allow_world:
  assumes "bucket_allow R key p cost now w = (r, w')" and "is_hash (ks (srv w) key)"
  shows "is_hash (ks (srv w') key)
    \<and> (\<forall>k. k \<noteq> key \<longrightarrow> ks (srv w') k = ks (srv w) k)"
proof -
  let ?f = "leaky_bucket_script R key (of_int (pol_capacity p)) (pol_leak_per_second p) (of_int now)
    (of_int cost) (bucket_ttl p)"
  let ?P = "\<lambda>s. is_hash (ks s key) \<and> (\<forall>k. k \<noteq> key \<longrightarrow> ks s k = ks (srv w) k)"
  obtain x where call: "redis_call ?f w = (x, w')"
    using assms(1) by (auto simp: bucket_allow_def split: prod.splits sum.splits)
  have old: "?P (srv w)" using assms(2) by simp
  have new: "?P (snd (?f (srv w)))"
    using script_is_hash [OF assms(2)] script_frame [OF assms(2)] by blast
  have "?P (srv w')" by (rule redis_call_keeps [OF call, where P = ?P, OF old new])
  then show ?thesis .
qed

lemma bucket_typed:
  assumes "view_typed R m" and "is_hash (m' (view_bucket_key R i))"
    and "\<forall>k. k \<noteq> view_bucket_key R i \<longrightarrow> m' k = m k"
  shows "view_typed R m'"
proof -
  have "is_hash (m' (view_bucket_key R j))" for j
    using assms by (cases "view_bucket_key R j = view_bucket_key R i") (simp_all add: view_typed_def)
  moreover have "m' view_stream_key = m view_stream_key" "m' (duration_key R v) = m (duration_key R v)" for v
    using assms(3) by simp_all
  ultimately show ?thesis using assms(1) by (simp add: view_typed_def)
qed

end

lemma duration_rate_filter_contract:
  assumes "redis_server R ks"
  shows "view_filter R ks (duration_rate_filter R cfg fail_open now)"
proof (intro view_filter.intro view_filter_axioms.intro assms)
  let ?f = "duration_rate_filter R cfg fail_open now"
  show "simple_name (f_name ?f)" by (simp add: duration_rate_filter_def simple_name_def)
  show "f_allow ?f i w = ((False, reason), w') \<Longrightarrow> simple_name reason" for i reason and w w' :: "'a world"
    by (auto simp: duration_rate_filter_def simple_name_def split: option.splits prod.splits sum.splits if_splits)
  fix i and w :: "'a world"
  obtain ok w' where run: "f_allow ?f i w = (ok, w')" by (metis surj_pair)
  then consider "w' = w"
    | p r where "bucket_allow R (view_bucket_key R i) p 1 now w = (r, w')"
    by (auto simp: duration_rate_filter_def split: option.splits prod.splits sum.splits if_splits)
  then have world: "pg w' = pg w \<and> ch w' = ch w \<and> (net w = [] \<longrightarrow> net w' = []) \<and>
      (is_hash (ks (srv w) (view_bucket_key R i)) \<longrightarrow> is_hash (ks (srv w') (view_bucket_key R i))
       \<and> (\<forall>k. k \<noteq> view_bucket_key R i \<longrightarrow> ks (srv w') k = ks (srv w) k))"
  proof cases
    case 2
    then show ?thesis using redis_server.bucket_allow_world [OF assms 2] bucket_allow_stores [OF 2] by blast
  qed simp
  then show "pg (snd (f_allow ?f i w)) = pg w" "ch (snd (f_allow ?f i w)) = ch w"
    "net w = [] \<Longrightarrow> net (snd (f_allow ?f i w)) = []" by (simp_all add: run)
  show "view_typed R (ks (srv w)) \<Longrightarrow> view_typed R (ks (srv (snd (f_allow ?f i w))))"
    using world redis_server.bucket_typed [OF assms] by (simp add: run) (metis view_typed_def)
  show "view_typed R (ks (srv w)) \<Longrightarrow> \<not> is_bucket_key k \<Longrightarrow>
      ks (srv (snd (f_allow ?f i w))) k = ks (srv w) k" for k
    using world view_keys(1) [of R i] unfolding run view_typed_def snd_conv by metis
qed

interpretation watch_filter: view_filter ref_redis "\<lambda>m. m" "watch_threshold_filter cfg" for cfg
  by (rule watch_threshold_filter_contract [OF ref_redis.redis_server_axioms])

interpretation rate_filter: view_filter ref_redis "\<lambda>m. m" "duration_rate_filter ref_redis cfg fail_open now"
  for cfg fail_open now
  by (rule duration_rate_filter_contract [OF ref_redis.redis_server_axioms])

section \<open>The chain\<close>

text \<open>The filters run one after the other while they all allow.\<close>

fun chain_pass :: "'w filter list \<Rightarrow> view_input \<Rightarrow> 'w \<Rightarrow> 'w option" where
  "chain_pass [] i w = Some w"
| "chain_pass (f # fs) i w =
     (case f_allow f i w of ((ok, _), w') \<Rightarrow> if ok then chain_pass fs i w' else None)"

lemma chain_apply_pass:
  "chain_apply fs i w = ((ok, by), w') \<Longrightarrow> ok \<Longrightarrow> by = [] \<and> chain_pass fs i w = Some w'"
  by (induction fs i w rule: chain_apply.induct) (auto split: prod.splits if_splits)

lemma chain_apply_reject:
  "chain_apply fs i w = ((ok, by), w') \<Longrightarrow> \<not> ok \<Longrightarrow>
     \<exists>n w0 reason. n < length fs \<and> chain_pass (take n fs) i w = Some w0
       \<and> f_allow (fs ! n) i w0 = ((False, reason), w') \<and> by = f_name (fs ! n) @ '':'' @ reason"
proof (induction fs arbitrary: w)
  case Nil
  then show ?case by simp
next
  case (Cons f fs)
  obtain ok1 r1 w1 where f: "f_allow f i w = ((ok1, r1), w1)" by (metis prod.exhaust)
  show ?case
  proof (cases ok1)
    case True
    then have "chain_apply fs i w1 = ((ok, by), w')" using Cons.prems(1) f by simp
    then obtain n w0 reason where "n < length fs" "chain_pass (take n fs) i w1 = Some w0"
      "f_allow (fs ! n) i w0 = ((False, reason), w')" "by = f_name (fs ! n) @ '':'' @ reason"
      using Cons.IH Cons.prems(2) by blast
    then show ?thesis using True f by (intro exI [of _ "Suc n"] exI [of _ w0] exI [of _ reason]) simp
  next
    case False
    then show ?thesis using Cons.prems(1) f by (intro exI [of _ 0] exI [of _ w] exI [of _ r1]) simp
  qed
qed

context redis_server
begin

lemma chain_frame:
  assumes "\<forall>f \<in> set fs. view_filter R ks f" and "view_typed R (ks (srv w))"
  shows "view_typed R (ks (srv (snd (chain_apply fs i w))))
    \<and> (\<forall>k. \<not> is_bucket_key k \<longrightarrow> ks (srv (snd (chain_apply fs i w))) k = ks (srv w) k)
    \<and> pg (snd (chain_apply fs i w)) = pg w \<and> ch (snd (chain_apply fs i w)) = ch w
    \<and> (net w = [] \<longrightarrow> net (snd (chain_apply fs i w)) = [])"
  using assms
proof (induction fs arbitrary: w)
  case Nil
  then show ?case by simp
next
  case (Cons f fs)
  obtain ok r w1 where f: "f_allow f i w = ((ok, r), w1)" by (metis prod.exhaust)
  have F: "view_filter R ks f" using Cons.prems(1) by simp
  note step = view_filter.allow_typed [OF F Cons.prems(2), of i] view_filter.allow_frame [OF F Cons.prems(2), of _ i]
    view_filter.allow_stores [OF F, of i w] view_filter.allow_up [OF F, of w i]
  show ?case
  proof (cases ok)
    case True
    then show ?thesis using Cons.IH [of w1] Cons.prems(1) step f by simp
  next
    case False
    then show ?thesis using step f by simp
  qed
qed

end

section \<open>One tracked view\<close>

text \<open>What a call of \<open>Track\<close> may do to the keyspace: nothing outside the buckets when the view
  is rejected; when it is accepted, one entry with the event's fields on the stream.\<close>

definition track_input :: "('s, 'z) redis_scheme \<Rightarrow> 's world view_service \<Rightarrow> view_input \<Rightarrow> 's world \<Rightarrow> view_input" where
  "track_input R svc i w =
     (case fst (ds_get (vs_durations svc) (vi_video_id i) w) of
        Some sec \<Rightarrow> i\<lparr>vi_duration_sec := sec\<rparr> | None \<Rightarrow> i)"

definition view_stream :: "keyspace \<Rightarrow> xstream" where
  "view_stream m = stream_val (m view_stream_key)"

definition view_stream_room :: "keyspace \<Rightarrow> bool" where
  "view_stream_room m \<longleftrightarrow> length (xentries (view_stream m)) < view_stream_max_len"

lemma track_input_ids [simp]:
  "vi_video_id (track_input R svc i w) = vi_video_id i"
  "subject_key L (track_input R svc i w) = subject_key L i"
  "unique_key L (track_input R svc i w) = unique_key L i"
  "view_fields L (track_input R svc i w) uniq ts = view_fields L i uniq ts"
  by (simp_all add: track_input_def subject_key_def unique_key_def view_fields_def split: option.split)

definition track_effect ::
  "'z libs_scheme \<Rightarrow> view_input \<Rightarrow> int \<Rightarrow> track_result result \<Rightarrow> keyspace \<Rightarrow> keyspace \<Rightarrow> bool"
where
  "track_effect L i ts r m m' \<longleftrightarrow>
     (let x = view_stream m; x' = view_stream m';
          emitted = (\<lambda>u. \<exists>j > xlast x. x' = stream_add j (view_fields L i u ts) x)
      in case r of
           Inr res \<Rightarrow>
             if tr_accepted res then tr_rejected_by res = [] \<and> emitted (tr_is_unique res)
             else x' = x \<and> tr_rejected_by res \<noteq> [] \<and> \<not> tr_is_unique res
               \<and> (\<forall>k. \<not> is_bucket_key k \<longrightarrow> m' k = m k)
         | Inl e \<Rightarrow> x' = x \<or> (\<exists>u. emitted u))"

context redis_server
begin

lemma mark_effect:
  assumes "redis_call (rSETNX R k v t) w = (r, w')"
  shows "(\<forall>k'. k' \<noteq> k \<longrightarrow> ks (srv w') k' = ks (srv w) k')
    \<and> (r = Inr True \<longrightarrow> ks (srv w) k = None) \<and> (\<forall>b. r = Inr b \<longrightarrow> ks (srv w') k \<noteq> None)
    \<and> (ks (srv w) k \<noteq> None \<longrightarrow> ks (srv w') k = ks (srv w) k)"
  using assms
proof (cases rule: redis_call_cases)
  case (1 a)
  then have a: "a = fst (rSETNX R k v t (srv w))" "srv w' = snd (rSETNX R k v t (srv w))" by simp_all
  show ?thesis using 1(1) setnx [of k v t "srv w"] unfolding a by (auto simp: a doc_set_def)
next
  case (2 e)
  then show ?thesis by simp
next
  case (3 e)
  then show ?thesis using setnx(2) [of k v t "srv w"] by (auto simp: doc_set_def)
qed

lemma emit_effect:
  assumes "redis_call (rXADD R view_stream_key view_stream_max_len fs) w = (r, w')"
    and "is_stream (ks (srv w) view_stream_key)" and "view_stream_room (ks (srv w))"
  shows "(\<forall>k. k \<noteq> view_stream_key \<longrightarrow> ks (srv w') k = ks (srv w) k)
    \<and> (let x = view_stream (ks (srv w)); x' = view_stream (ks (srv w'));
           emitted = (\<exists>j > xlast x. x' = stream_add j fs x)
       in case r of Inr j \<Rightarrow> emitted | Inl e \<Rightarrow> x' = x \<or> emitted)"
proof -
  let ?f = "rXADD R view_stream_key view_stream_max_len fs"
  have room: "length (xentries (stream_val (ks (srv w) view_stream_key))) < view_stream_max_len"
    using assms(3) by (simp add: view_stream_room_def view_stream_def)
  note add = xadd [OF assms(2) room, of fs]
  from assms(1) show ?thesis
  proof (cases rule: redis_call_cases)
    case (1 a)
    then have a: "srv w' = snd (?f (srv w))" by simp
    show ?thesis using 1(1) add by (auto simp: a view_stream_def Let_def)
  next
    case (2 e)
    then show ?thesis by (simp add: Let_def)
  next
    case (3 e)
    then show ?thesis using add by (auto simp: view_stream_def Let_def)
  qed
qed

lemma duration_get_reads:
  assumes "redis_duration_get R v w = (d, w')"
  shows "srv w' = srv w \<and> pg w' = pg w \<and> ch w' = ch w \<and> (net w = [] \<longrightarrow> net w' = [])"
proof -
  obtain x w1 where call: "redis_call (reading (rGET R (duration_key R v))) w = (x, w1)" by (metis surj_pair)
  then have "w' = w1"
    using assms by (simp add: redis_duration_get_def split: sum.splits option.splits)
  moreover have "net w = [] \<longrightarrow> net w1 = []" using call by (auto simp: redis_call_up)
  ultimately show ?thesis using redis_call_read [OF call] redis_call_stores [OF call] by simp
qed

lemma track_spec:
  assumes chain: "\<forall>f \<in> set (vs_chain svc). view_filter R ks f"
    and store: "vs_durations svc = redis_duration_store R cache_ttl"
    and typed: "view_typed R (ks (srv w))" and room: "view_stream_room (ks (srv w))"
    and run: "track R svc i ts w = (r, w')"
  shows "track_effect R i ts r (ks (srv w)) (ks (srv w')) \<and> pg w' = pg w \<and> ch w' = ch w
    \<and> (\<forall>res. r = Inr res \<and> tr_is_unique res \<and> vs_unique svc \<noteq> None \<longrightarrow> ks (srv w) (unique_key R i) = None)
    \<and> (\<forall>res. r = Inr res \<and> tr_accepted res \<and> vs_unique svc \<noteq> None \<and> net w = [] \<longrightarrow>
          ks (srv w') (unique_key R i) \<noteq> None
        \<and> tr_is_unique res = (ks (srv w) (unique_key R i) = None))"
proof -
  obtain d w1 where get: "redis_duration_get R (vi_video_id i) w = (d, w1)" by (metis surj_pair)
  define i' where "i' = (case d of Some sec \<Rightarrow> i\<lparr>vi_duration_sec := sec\<rparr> | None \<Rightarrow> i)"
  have i': "unique_key R i' = unique_key R i" "view_fields R i' u ts = view_fields R i u ts" for u
    by (simp_all add: i'_def unique_key_def subject_key_def view_fields_def split: option.split)
  obtain ok rej w2 where ca: "chain_apply (vs_chain svc) i' w1 = ((ok, rej), w2)" by (metis prod.exhaust)
  have w1: "srv w1 = srv w" "pg w1 = pg w" "ch w1 = ch w" "net w = [] \<Longrightarrow> net w1 = []"
    using duration_get_reads [OF get] by simp_all
  have typed1: "view_typed R (ks (srv w1))" using typed by (simp add: w1)
  have w2: "view_typed R (ks (srv w2))" "\<And>k. \<not> is_bucket_key k \<Longrightarrow> ks (srv w2) k = ks (srv w) k"
    "pg w2 = pg w" "ch w2 = ch w" "net w = [] \<Longrightarrow> net w2 = []"
    using chain_frame [OF chain typed1, of i'] by (simp_all add: ca w1)
  have x2: "view_stream (ks (srv w2)) = view_stream (ks (srv w))" by (simp add: view_stream_def w2)
  show ?thesis
  proof (cases ok)
    case False
    then have r: "r = Inr \<lparr>tr_accepted = False, tr_rejected_by = rej, tr_is_unique = False\<rparr>" "w' = w2"
      using run ca by (simp_all add: track_def store redis_duration_store_def get i'_def [symmetric])
    have "rej \<noteq> []" using chain_apply_reject [OF ca False] by auto
    then show ?thesis using w2 x2 by (simp add: r track_effect_def Let_def)
  next
    case True
    define marked where "marked = (case vs_unique svc of None \<Rightarrow> (True, w2)
      | Some ttl \<Rightarrow> (case try_mark R ttl i' w2 of (Inl e, w') \<Rightarrow> (False, w') | (Inr m, w') \<Rightarrow> (m, w')))"
    obtain u w3 where m: "marked = (u, w3)" by (metis surj_pair)
    obtain x w4 where emit: "redis_call (rXADD R view_stream_key view_stream_max_len (view_fields R i u ts)) w3 = (x, w4)"
      by (metis surj_pair)
    have r: "w' = w4" "r = (case x of Inl e \<Rightarrow> Inl (Wrapped ''xadd view'' e)
        | Inr _ \<Rightarrow> Inr \<lparr>tr_accepted = True, tr_rejected_by = [], tr_is_unique = u\<rparr>)"
      using run ca True m emit
      by (simp_all add: track_def store redis_duration_store_def get i'_def [symmetric] marked_def [symmetric] i'
          split: sum.splits)
    have w3: "\<And>k. k \<noteq> unique_key R i \<Longrightarrow> ks (srv w3) k = ks (srv w2) k" "pg w3 = pg w" "ch w3 = ch w"
      "u \<Longrightarrow> vs_unique svc \<noteq> None \<Longrightarrow> ks (srv w2) (unique_key R i) = None"
      "vs_unique svc \<noteq> None \<Longrightarrow> net w2 = [] \<Longrightarrow> ks (srv w3) (unique_key R i) \<noteq> None
        \<and> u = (ks (srv w2) (unique_key R i) = None)"
    proof -
      have "(\<forall>k. k \<noteq> unique_key R i \<longrightarrow> ks (srv w3) k = ks (srv w2) k) \<and> pg w3 = pg w \<and> ch w3 = ch w
        \<and> (u \<and> vs_unique svc \<noteq> None \<longrightarrow> ks (srv w2) (unique_key R i) = None)
        \<and> (vs_unique svc \<noteq> None \<and> net w2 = [] \<longrightarrow> ks (srv w3) (unique_key R i) \<noteq> None
            \<and> u = (ks (srv w2) (unique_key R i) = None))"
      proof (cases "vs_unique svc")
        case None
        then show ?thesis using m w2 by (simp add: marked_def)
      next
        case (Some ttl)
        obtain y w3' where call: "redis_call (rSETNX R (unique_key R i) ''1'' (redis_ttl ttl)) w2 = (y, w3')"
          by (metis surj_pair)
        then have eq: "w3 = w3'" "u = (case y of Inl e \<Rightarrow> False | Inr b \<Rightarrow> b)"
          using m by (simp_all add: marked_def Some try_mark_def i' split: sum.splits)
        have "net w2 = [] \<Longrightarrow> y = Inr (ks (srv w2) (unique_key R i) = None)"
          using call setnx(1) [of "unique_key R i" "''1''" "redis_ttl ttl" "srv w2"] by (simp add: redis_call_up)
        then show ?thesis
          using mark_effect [OF call] redis_call_stores [OF call] w2 by (auto simp: eq split: sum.splits)
      qed
      then show "\<And>k. k \<noteq> unique_key R i \<Longrightarrow> ks (srv w3) k = ks (srv w2) k" "pg w3 = pg w" "ch w3 = ch w"
        "u \<Longrightarrow> vs_unique svc \<noteq> None \<Longrightarrow> ks (srv w2) (unique_key R i) = None"
        "vs_unique svc \<noteq> None \<Longrightarrow> net w2 = [] \<Longrightarrow> ks (srv w3) (unique_key R i) \<noteq> None
          \<and> u = (ks (srv w2) (unique_key R i) = None)" by blast+
    qed
    have uk: "ks (srv w2) (unique_key R i) = ks (srv w) (unique_key R i)" by (simp add: w2)
    have st: "ks (srv w3) view_stream_key = ks (srv w) view_stream_key"
      using w3(1) [of view_stream_key] w2(2) [of view_stream_key] view_keys(5) [of R i] by auto
    have e: "is_stream (ks (srv w3) view_stream_key)" "view_stream_room (ks (srv w3))"
      using typed room by (simp_all add: st view_typed_def view_stream_room_def view_stream_def)
    note eff = emit_effect [OF emit e]
    have x3: "view_stream (ks (srv w3)) = view_stream (ks (srv w))" by (simp add: view_stream_def st)
    have "track_effect R i ts r (ks (srv w)) (ks (srv w'))"
      using eff by (cases x) (auto simp: r track_effect_def Let_def x3)
    moreover have "ks (srv w') (unique_key R i) = ks (srv w3) (unique_key R i)" using eff by (simp add: r)
    moreover have "net w = [] \<Longrightarrow> net w2 = []" by (rule w2(5))
    ultimately show ?thesis
      using w3 redis_call_stores [OF emit] by (cases x) (auto simp: r uk)
  qed
qed

end

section \<open>Runs of the rate filter\<close>

text \<open>The same view offered again and again: \<open>d\<close> milliseconds pass, then the filter is asked.\<close>

fun view_run ::
  "('s, 'z) redis_scheme \<Rightarrow> view_policy \<Rightarrow> bool \<Rightarrow> view_input \<Rightarrow> int \<Rightarrow> nat list \<Rightarrow> 's world \<Rightarrow> bool list"
where
  "view_run R cfg fail_open i t [] w = []"
| "view_run R cfg fail_open i t (d # ds) w =
     (let ((ok, _), w') = f_allow (duration_rate_filter R cfg fail_open (t + int d)) i
            (w\<lparr>srv := rELAPSE R d (srv w)\<rparr>)
      in ok # view_run R cfg fail_open i (t + int d) ds w')"

lemma bucket_allow_up:
  assumes "net w = []"
  shows "bucket_allow R key p 1 now w =
    (let ((a, rem, ra), s') = leaky_bucket_script R key (of_int (pol_capacity p)) (pol_leak_per_second p)
           (of_int now) 1 (bucket_ttl p) (srv w)
     in (Inr \<lparr>lb_allowed = (a = 1), lb_remaining = rem, lb_retry_after = wrap64 (ra * millisecond)\<rparr>,
         w\<lparr>srv := s'\<rparr>))"
  using assms by (simp add: bucket_allow_def redis_call_up split_beta Let_def)

lemma view_run_is_bucket_run:
  assumes "net w = []" and "rate_policy (vi_duration_sec i) cfg = Some p"
  shows "view_run R cfg fail_open i t ds w =
    fst (bucket_run R (view_bucket_key R i) (of_int (pol_capacity p)) (pol_leak_per_second p) (bucket_ttl p)
      (paced (of_int t) ds) (srv w))"
  using assms(1)
proof (induction ds arbitrary: t w)
  case Nil
  then show ?case by simp
next
  case (Cons d ds)
  let ?step = "leaky_bucket_script R (view_bucket_key R i) (of_int (pol_capacity p)) (pol_leak_per_second p)
    (of_int t + of_nat d) 1 (bucket_ttl p) (rELAPSE R d (srv w))"
  obtain a rem ra s' where step: "?step = ((a, rem, ra), s')" by (metis prod.exhaust)
  have "f_allow (duration_rate_filter R cfg fail_open (t + int d)) i (w\<lparr>srv := rELAPSE R d (srv w)\<rparr>) =
      ((if a = 1 then (True, []) else (False, ''rate_limited'')), w\<lparr>srv := s'\<rparr>)"
    using Cons.prems assms(2) step by (simp add: duration_rate_filter_def bucket_allow_up)
  then have "view_run R cfg fail_open i t (d # ds) w =
      (a = 1) # view_run R cfg fail_open i (t + int d) ds (w\<lparr>srv := s'\<rparr>)"
    by (simp add: Let_def)
  with Cons.IH [of "w\<lparr>srv := s'\<rparr>" "t + int d"] Cons.prems step show ?case
    by (simp add: Let_def split_beta)
qed

lemma rate_policy_Some:
  assumes "rate_policy dur cfg = Some p"
  shows "0 < dur" and "pol_capacity p = max 1 (60 div dur)"
    and "pol_leak_per_second p = of_int (pol_capacity p) / 60" and "bucket_ttl p = 3600"
proof -
  show d: "0 < dur" using assms by (simp add: rate_policy_def Let_def split: if_splits)
  show "pol_capacity p = max 1 (60 div dur)"
    using assms d by (auto simp: rate_policy_def Let_def go_div_nonneg split: if_splits)
  show "pol_leak_per_second p = of_int (pol_capacity p) / 60"
    using assms by (auto simp: rate_policy_def Let_def split: if_splits)
  have "pol_ttl p = hour" using assms by (auto simp: rate_policy_def Let_def split: if_splits)
  then show "bucket_ttl p = 3600" by (simp add: bucket_ttl_def hour_def second_def go_div_def)
qed

lemma less_third: "(x :: int) < y div 3 \<longleftrightarrow> 3 * (x + 1) \<le> y"
proof -
  define q r where "q = y div 3" and "r = y mod 3"
  then have "y = 3 * q + r" "0 \<le> r" "r < 3" by simp_all
  then show ?thesis unfolding q_def [symmetric] by auto
qed

section \<open>Properties\<close>

text \<open>
  The watch threshold: for a video of at least the minimum length, the filter lets a view
  through exactly when the watched time, counted up to the next millisecond, is more than a
  third of the video (the threshold is rounded down); for a shorter video, or an unknown
  length, exactly when it reaches the configured minimum. It never touches any state.
\<close>

theorem watch_threshold_decision:
  assumes "vi_duration_sec i < 2 ^ 63 div 1000"
  shows "f_allow (watch_threshold_filter cfg) i w =
    (let min_dur = (if vp_min_duration_sec cfg \<le> 0 then 5 else vp_min_duration_sec cfg);
         ok = (if min_dur \<le> vi_duration_sec i then 1000 * vi_duration_sec i < 3 * (vi_watch_ms i + 1)
               else vp_unknown_min_watch_ms cfg \<le> 0 \<or> vp_unknown_min_watch_ms cfg \<le> vi_watch_ms i)
     in ((ok, if ok then [] else ''below_threshold''), w))"
proof -
  let ?d = "vi_duration_sec i" and ?m = "if vp_min_duration_sec cfg \<le> 0 then 5 else vp_min_duration_sec cfg"
  show ?thesis
  proof (cases "?m \<le> ?d")
    case True
    then have d: "1 \<le> ?d" by (auto split: if_splits)
    then have "in_int64 (?d * 1000)" using assms by (simp add: in_int64_def)
    then have "required_watch_ms ?d cfg = ?d * 1000 div 3"
      using True d by (auto simp: required_watch_ms_def Let_def wrap64_id go_div_nonneg)
    moreover have "1 \<le> ?d * 1000 div 3" using d by linarith
    moreover have "vi_watch_ms i < ?d * 1000 div 3 \<longleftrightarrow> \<not> 1000 * ?d < 3 * (vi_watch_ms i + 1)"
      by (subst less_third) (simp add: mult.commute not_less)
    ultimately show ?thesis using True by (simp add: watch_threshold_filter_def Let_def del: One_nat_def)
  next
    case False
    then have "required_watch_ms ?d cfg = vp_unknown_min_watch_ms cfg"
      by (simp add: required_watch_ms_def Let_def)
    with False show ?thesis by (auto simp: watch_threshold_filter_def Let_def)
  qed
qed

definition example_view :: view_input where
  "example_view = \<lparr>vi_video_id = 7, vi_viewer_id = Some 1, vi_ip_hash = replicate 32 (CHR ''0''),
     vi_ua_hash = replicate 16 (CHR ''0''), vi_country = ''DE'', vi_watch_ms = 3333, vi_duration_sec = 10\<rparr>"

definition example_view_policy :: view_policy where
  "example_view_policy = \<lparr>vp_min_duration_sec = 5, vp_unknown_min_watch_ms = 1000\<rparr>"

theorem watch_threshold_decision_witness:
  "f_allow (watch_threshold_filter example_view_policy) example_view () = ((True, []), ())
   \<and> f_allow (watch_threshold_filter example_view_policy) (example_view\<lparr>vi_watch_ms := 3332\<rparr>) ()
       = ((False, ''below_threshold''), ())"
  using watch_threshold_decision [of example_view example_view_policy "()"]
    watch_threshold_decision [of "example_view\<lparr>vi_watch_ms := 3332\<rparr>" example_view_policy "()"]
  by (simp add: example_view_def example_view_policy_def Let_def)

text \<open>
  The chain short-circuits: it accepts after every filter allowed in order, or stops at the
  first filter that votes no, with the state that filter left (no later filter runs) and a
  \<open>RejectedBy\<close> from which the metrics recover exactly that filter's name and reason.
\<close>

theorem filter_chain_short_circuits:
  assumes "\<forall>f \<in> set fs. view_filter R ks f" and "chain_apply fs i w = ((ok, by), w')"
  shows "if ok then by = [] \<and> chain_pass fs i w = Some w'
    else \<exists>n w0 reason. n < length fs \<and> chain_pass (take n fs) i w = Some w0
       \<and> f_allow (fs ! n) i w0 = ((False, reason), w') \<and> split_rejected_by by = (f_name (fs ! n), reason)"
proof (cases ok)
  case True
  then show ?thesis using chain_apply_pass [OF assms(2)] by simp
next
  case False
  then obtain n w0 reason where "n < length fs" "chain_pass (take n fs) i w = Some w0"
    "f_allow (fs ! n) i w0 = ((False, reason), w')" "by = f_name (fs ! n) @ '':'' @ reason"
    using chain_apply_reject [OF assms(2)] by blast
  moreover from this have "simple_name (f_name (fs ! n))"
    using assms(1) by (auto intro: view_filter.name_ok)
  ultimately show ?thesis using False split_name_reason by auto
qed

theorem filter_chain_short_circuits_witness:
  "split_rejected_by (snd (fst (chain_apply [watch_threshold_filter example_view_policy,
       duration_rate_filter ref_redis example_view_policy True 0] (example_view\<lparr>vi_watch_ms := 0\<rparr>)
       (new_world (\<lambda>_. None))))) = (''watch_threshold'', ''below_threshold'')"
proof -
  let ?fs = "[watch_threshold_filter example_view_policy, duration_rate_filter ref_redis example_view_policy True 0]"
  let ?w = "new_world (\<lambda>_. None)" and ?i = "example_view\<lparr>vi_watch_ms := 0\<rparr>"
  have first: "f_allow (?fs ! 0) ?i ?w = ((False, ''below_threshold''), ?w)"
    by (simp add: watch_threshold_filter_def required_watch_ms_def example_view_def example_view_policy_def
        wrap64_def go_div_def)
  then have run: "chain_apply ?fs ?i ?w = ((False, ''watch_threshold:below_threshold''), ?w)"
    by (simp add: watch_threshold_filter_def)
  have ok: "\<forall>f \<in> set ?fs. view_filter ref_redis (\<lambda>m. m) f"
    using watch_filter.view_filter_axioms rate_filter.view_filter_axioms by simp
  obtain n w0 reason where n: "n < length ?fs" "chain_pass (take n ?fs) ?i ?w = Some w0"
    "split_rejected_by ''watch_threshold:below_threshold'' = (f_name (?fs ! n), reason)"
    "f_allow (?fs ! n) ?i w0 = ((False, reason), ?w)"
    using filter_chain_short_circuits [OF ok run] by auto
  have "n = 0"
  proof (rule ccontr)
    assume "n \<noteq> 0"
    then have "chain_pass (take n ?fs) ?i ?w = None" using first by (cases n) simp_all
    with n(2) show False by simp
  qed
  with n first show ?thesis by (simp add: run) (simp add: watch_threshold_filter_def)
qed

text \<open>
  C24. What a tracked view leaves behind, whatever the link does: a rejected view changes nothing
  but rate-limit buckets; an accepted one appends exactly one entry with its fields to the
  stream; on an error the stream has the entry or is as before. A view is reported unique only
  if the marker of its subject and video was not set. No other store is touched.
\<close>

theorem tracked_view_outcomes:
  assumes "redis_server R ks" and "\<forall>f \<in> set (vs_chain svc). view_filter R ks f"
    and "vs_durations svc = redis_duration_store R cache_ttl"
    and "view_typed R (ks (srv w))" and "view_stream_room (ks (srv w))"
    and "track R svc i ts w = (r, w')"
  shows "track_effect R i ts r (ks (srv w)) (ks (srv w')) \<and> pg w' = pg w \<and> ch w' = ch w
    \<and> (\<forall>res. r = Inr res \<and> tr_is_unique res \<and> vs_unique svc \<noteq> None \<longrightarrow> ks (srv w) (unique_key R i) = None)"
  using redis_server.track_spec [OF assms] by blast

text \<open>The service as the application wires it.\<close>

definition example_service :: "keyspace world view_service" where
  "example_service = \<lparr>vs_chain = [watch_threshold_filter example_view_policy,
       duration_rate_filter ref_redis example_view_policy True 0],
     vs_durations = redis_duration_store ref_redis 0, vs_unique = Some (600 * second)\<rparr>"

lemma example_service_simps [simp]:
  "\<forall>f \<in> set (vs_chain example_service). view_filter ref_redis (\<lambda>m. m) f"
  "vs_durations example_service = redis_duration_store ref_redis 0"
  "vs_unique example_service = Some (600 * second)"
  "view_typed ref_redis (\<lambda>_. None)" "view_stream_room (\<lambda>_. None)"
  using watch_filter.view_filter_axioms rate_filter.view_filter_axioms
  by (simp_all add: example_service_def view_typed_def view_stream_room_def view_stream_def empty_stream_def
      view_stream_max_len_def)

theorem tracked_view_outcomes_witness:
  "case track ref_redis example_service example_view 9 ((new_world (\<lambda>_. None))\<lparr>net := [Up, Up, ReplyLost]\<rparr>) of
     (r, w') \<Rightarrow> track_effect ref_redis example_view 9 r (\<lambda>_. None) (srv w')"
proof -
  let ?w = "(new_world (\<lambda>_. None))\<lparr>net := [Up, Up, ReplyLost]\<rparr> :: keyspace world"
  obtain r w' where run: "track ref_redis example_service example_view 9 ?w = (r, w')" by (metis surj_pair)
  have s: "srv ?w = (\<lambda>_. None)" by (simp add: new_world_def)
  show ?thesis
    using tracked_view_outcomes [OF ref_redis.redis_server_axioms example_service_simps(1,2) _ _ run]
    by (simp add: run s)
qed

text \<open>
  One unique view per window: with the link up, an accepted view is unique exactly when its
  subject has no marker for the video, and it leaves the marker set; so of two views accepted
  one after the other for the same subject and video, whatever other fields they carry, the
  second is counted but not unique.
\<close>

theorem second_view_in_window_is_not_unique:
  assumes "redis_server R ks" and "\<forall>f \<in> set (vs_chain svc). view_filter R ks f"
    and "vs_durations svc = redis_duration_store R cache_ttl" and "vs_unique svc \<noteq> None"
    and "view_typed R (ks (srv w))" and "view_stream_room (ks (srv w))"
    and "view_typed R (ks (srv w1))" and "view_stream_room (ks (srv w1))"
    and "net w = []" and "track R svc i ts w = (Inr res1, w1)" and "tr_accepted res1"
    and "track R svc j ts' w1 = (Inr res2, w2)" and "tr_accepted res2"
    and "subject_key R j = subject_key R i" and "vi_video_id j = vi_video_id i"
  shows "tr_is_unique res1 = (ks (srv w) (unique_key R i) = None) \<and> \<not> tr_is_unique res2"
proof -
  have "unique_key R j = unique_key R i" using assms(14,15) by (simp add: unique_key_def)
  then show ?thesis
    using redis_server.track_spec [OF assms(1,2,3,5,6,10)] redis_server.track_spec [OF assms(1,2,3,7,8,12)]
      assms(4,9,11) by auto
qed

text \<open>A service without filters, and what two views in a row do to an empty server.\<close>

definition bare_service :: "keyspace world view_service" where
  "bare_service = example_service\<lparr>vs_chain := []\<rparr>"

lemma bare_service_simps [simp]:
  "vs_chain bare_service = []" "vs_durations bare_service = redis_duration_store ref_redis 0"
  "vs_unique bare_service = Some (600 * second)"
  by (simp_all add: bare_service_def)

definition one_view :: keyspace where
  "one_view = doc_stream (stream_add 1 (view_fields ref_redis example_view True 9)) view_stream_key
     (doc_set (unique_key ref_redis example_view) ''1'' (Some 600000) (\<lambda>_. None))"

lemma one_view_ok: "view_typed ref_redis one_view" "view_stream_room one_view"
  by (simp_all add: one_view_def view_typed_def view_stream_room_def view_stream_def stream_add_def
      empty_stream_def view_stream_max_len_def)

lemma first_track:
  "track ref_redis bare_service example_view 9 (new_world (\<lambda>_. None)) =
     (Inr \<lparr>tr_accepted = True, tr_rejected_by = [], tr_is_unique = True\<rparr>, new_world one_view)"
  by (simp add: track_def redis_duration_store_def redis_duration_get_def redis_call_up new_world_def
      try_mark_def one_view_def redis_ttl_def second_def empty_stream_def Let_def)

lemma second_track:
  "\<exists>w. track ref_redis bare_service (example_view\<lparr>vi_country := ''FR''\<rparr>) 10 (new_world one_view) =
     (Inr \<lparr>tr_accepted = True, tr_rejected_by = [], tr_is_unique = False\<rparr>, w)"
proof -
  have uk: "unique_key ref_redis (example_view\<lparr>vi_country := ''FR''\<rparr>) = unique_key ref_redis example_view"
    by (simp add: unique_key_def subject_key_def split: option.split)
  show ?thesis
    by (simp add: track_def redis_duration_store_def redis_duration_get_def redis_call_up new_world_def
        try_mark_def one_view_def Let_def uk)
qed

theorem second_view_in_window_is_not_unique_witness:
  "tr_is_unique \<lparr>tr_accepted = True, tr_rejected_by = [], tr_is_unique = True\<rparr>
     = ((\<lambda>_. None :: entry option) (unique_key ref_redis example_view) = None)
   \<and> \<not> tr_is_unique \<lparr>tr_accepted = True, tr_rejected_by = [], tr_is_unique = False\<rparr>"
proof -
  obtain w where second: "track ref_redis bare_service (example_view\<lparr>vi_country := ''FR''\<rparr>) 10 (new_world one_view) =
     (Inr \<lparr>tr_accepted = True, tr_rejected_by = [], tr_is_unique = False\<rparr>, w)"
    using second_track by blast
  show ?thesis
    using second_view_in_window_is_not_unique [OF ref_redis.redis_server_axioms _ _ _ _ _ _ _ _ first_track _ second]
      one_view_ok
    by (simp add: new_world_def subject_key_def)
qed

text \<open>
  The marker is taken before the event is emitted and never given back: if Redis fails
  between the two, the client's retry is accepted, but as a replay - the first view of the
  window is in the stream with \<open>u = 0\<close> and no unique view is ever counted for it.
\<close>

theorem failed_emit_loses_the_unique_view:
  assumes "redis_server R ks" and "vs_chain svc = []" and "vs_durations svc = redis_duration_store R cache_ttl"
    and "vs_unique svc = Some ttl" and "view_typed R (ks (srv w))" and "view_stream_room (ks (srv w))"
    and "ks (srv w) (unique_key R i) = None" and "net w = [Up, Up, Refused]"
  shows "\<exists>e w1 w2 j. track R svc i ts w = (Inl e, w1) \<and> view_stream (ks (srv w1)) = view_stream (ks (srv w))
    \<and> track R svc i ts' w1 = (Inr \<lparr>tr_accepted = True, tr_rejected_by = [], tr_is_unique = False\<rparr>, w2)
    \<and> view_stream (ks (srv w2)) = stream_add j (view_fields R i False ts') (view_stream (ks (srv w)))"
proof -
  obtain s1 where setn: "rSETNX R (unique_key R i) ''1'' (redis_ttl ttl) (srv w) = (True, s1)"
    using redis_server.setnx(1) [OF assms(1), of "unique_key R i" "''1''" "redis_ttl ttl" "srv w"] assms(7)
    by (metis prod.collapse)
  let ?w1 = "w\<lparr>srv := s1, net := []\<rparr>"
  have get: "redis_duration_get R v x = (d, y) \<Longrightarrow> net x = l # ls \<Longrightarrow> l = Up \<Longrightarrow> y = x\<lparr>net := ls\<rparr>"
    for v d and x y :: "'a world" and l ls
    by (cases x) (auto simp: redis_duration_get_def redis_call_def split: option.splits)
  obtain d w0 where g: "redis_duration_get R (vi_video_id i) w = (d, w0)" by (metis surj_pair)
  have w0: "w0 = w\<lparr>net := [Up, Refused]\<rparr>" using get [OF g assms(8)] by simp
  have uk: "unique_key R (case d of None \<Rightarrow> i | Some sec \<Rightarrow> i\<lparr>vi_duration_sec := sec\<rparr>) = unique_key R i" for d
    by (simp add: unique_key_def subject_key_def split: option.split)
  have vf: "view_fields R (case d of None \<Rightarrow> i | Some sec \<Rightarrow> i\<lparr>vi_duration_sec := sec\<rparr>) u t = view_fields R i u t" for d u t
    by (simp add: view_fields_def split: option.split)
  have one: "\<exists>e. track R svc i ts w = (Inl e, ?w1)"
    using assms(2-4,8) setn
    by (simp add: track_def redis_duration_store_def g w0 try_mark_def uk redis_call_def Let_def)
  have k1: "ks s1 = doc_set (unique_key R i) ''1'' (redis_ttl ttl) (ks (srv w))"
    using redis_server.setnx(2) [OF assms(1), of "unique_key R i" "''1''" "redis_ttl ttl" "srv w"] assms(7) setn by simp
  then have st: "view_stream (ks (srv ?w1)) = view_stream (ks (srv w))" and u1: "ks (srv ?w1) (unique_key R i) \<noteq> None"
    by (simp_all add: view_stream_def)
  have typed: "view_typed R (ks (srv ?w1))" "view_stream_room (ks (srv ?w1))"
    using assms(5,6) by (simp_all add: k1 view_typed_def view_stream_room_def view_stream_def)
  obtain r w2 where two: "track R svc i ts' ?w1 = (r, w2)" by (metis surj_pair)
  obtain d' w0' where g': "redis_duration_get R (vi_video_id i) ?w1 = (d', w0')" by (metis surj_pair)
  have n0: "net w0' = []" using redis_server.duration_get_reads [OF assms(1) g'] by simp
  obtain b s2 where s2: "rSETNX R (unique_key R i) ''1'' (redis_ttl ttl) (srv w0') = (b, s2)" by (metis surj_pair)
  have "r = Inr \<lparr>tr_accepted = True, tr_rejected_by = [], tr_is_unique = b\<rparr>"
    using two assms(2-4) n0
    by (simp add: track_def redis_duration_store_def g' try_mark_def uk redis_call_up Let_def s2)
  then obtain res where r: "r = Inr res" "tr_accepted res" by simp
  have "\<forall>f \<in> set (vs_chain svc). view_filter R ks f" by (simp add: assms(2))
  from redis_server.track_spec [OF assms(1) this assms(3) typed two]
  have eff: "track_effect R i ts' r (ks (srv ?w1)) (ks (srv w2))" and nu: "\<not> tr_is_unique res"
    using u1 r assms(4) by auto
  then have "tr_rejected_by res = []" "\<exists>j. view_stream (ks (srv w2)) =
      stream_add j (view_fields R i False ts') (view_stream (ks (srv w)))"
    using r nu st by (auto simp: track_effect_def Let_def)
  moreover have "res = \<lparr>tr_accepted = True, tr_rejected_by = [], tr_is_unique = False\<rparr>"
    using calculation(1) r(2) nu by (cases res) simp
  ultimately show ?thesis using one st two r(1) by blast
qed

theorem failed_emit_loses_the_unique_view_witness:
  "\<exists>e w1 w2. track ref_redis bare_service example_view 9 ((new_world (\<lambda>_. None))\<lparr>net := [Up, Up, Refused]\<rparr>) = (Inl e, w1)
     \<and> track ref_redis bare_service example_view 12 w1
         = (Inr \<lparr>tr_accepted = True, tr_rejected_by = [], tr_is_unique = False\<rparr>, w2)"
proof -
  let ?w = "(new_world (\<lambda>_. None))\<lparr>net := [Up, Up, Refused]\<rparr> :: keyspace world"
  have "view_typed ref_redis (srv ?w)" "view_stream_room (srv ?w)"
    by (simp_all add: new_world_def)
  then show ?thesis
    using failed_emit_loses_the_unique_view [OF ref_redis.redis_server_axioms,
      of bare_service 0 "600 * second" ?w example_view 9 12]
    by (auto simp: new_world_def)
qed

text \<open>
  The duration cap: with one clock and Redis reachable, of any sequence of views of one
  subject on one video of length \<open>d\<close> spread over \<open>T\<close> milliseconds, the rate filter admits at most
  \<open>n + n T / 60000\<close> where \<open>n = max 1 (60 div d)\<close> - the bucket also admits a full burst first, so a
  minute can hold twice the \<open>60/d\<close> full watches that fit in it.
\<close>

theorem duration_rate_bound:
  assumes "redis_server R ks" and "net w = []" and "rate_policy (vi_duration_sec i) cfg = Some p"
    and "ks (srv w) (view_bucket_key R i) = None"
  defines "n \<equiv> of_int (max 1 (60 div vi_duration_sec i)) :: rat"
  shows "of_nat (admitted (view_run R cfg fail_open i t ds w)) \<le> n + n * of_nat (sum_list ds) / 60000"
proof -
  note p = rate_policy_Some [OF assms(3)]
  have n: "of_int (pol_capacity p) = n" "pol_leak_per_second p = n / 60" "0 \<le> n"
    by (simp_all add: n_def p)
  have inv: "bucket_inv n 3600 (of_int t) (ks (srv w) (view_bucket_key R i))"
    using assms(4) by (simp add: bucket_inv_def)
  have "of_nat (admitted (fst (bucket_run R (view_bucket_key R i) n (n / 60) 3600 (paced (of_int t) ds) (srv w))))
      + level_at (n / 60) (of_int t) (ks (srv w) (view_bucket_key R i)) \<le> n + n / 60 * of_nat (sum_list ds) / 1000"
    using n(3) by (intro redis_server.paced_run_bound [OF assms(1) inv]) simp_all
  moreover have "0 \<le> level_at (n / 60) (of_int t) (ks (srv w) (view_bucket_key R i))"
    by (simp add: level_at_def)
  ultimately show ?thesis
    using view_run_is_bucket_run [OF assms(2,3), of R fail_open t ds] by (simp add: n p(4))
qed

theorem duration_rate_bound_witness:
  "of_nat (admitted (view_run ref_redis example_view_policy True example_view 0 [0, 0, 0, 60000] (new_world (\<lambda>_. None))))
     \<le> (12 :: rat)"
  using duration_rate_bound [OF ref_redis.redis_server_axioms, of "new_world (\<lambda>_. None)" example_view example_view_policy
      "\<lparr>pol_capacity = 6, pol_leak_per_second = 6 / 60, pol_ttl = hour\<rparr>" True 0 "[0, 0, 0, 60000]"]
  by (simp add: new_world_def example_view_def example_view_policy_def rate_policy_def go_div_def)

end
