(* ===== verification/Video.thy ===== *)
theory Video
  imports JsonCache Bloom View LikeStore
begin

text \<open>
  \<open>internal/video\<close>: validation, the Postgres repository, the service with its read-through
  cache, the duration cache it fills for the view path and its create hook, and the handlers.
  \<open>url.Parse\<close> is a parameter that gives a scheme and a host. The property is that the cache
  never changes an answer.
\<close>

section \<open>Validation\<close>

record video_input =
  vc_title :: string
  vc_description :: string
  vc_video_url :: string
  vc_duration_sec :: int

type_synonym url_lib = "string \<Rightarrow> (string \<times> string) option"

text \<open>The test both packages make on a URL: it parses, to http or https with a host.\<close>

definition http_url :: "url_lib \<Rightarrow> string \<Rightarrow> bool" where
  "http_url url_parse s =
     (case url_parse s of None \<Rightarrow> False
      | Some (scheme, host) \<Rightarrow> (scheme = ''http'' \<or> scheme = ''https'') \<and> host \<noteq> [])"

definition validate_video :: "url_lib \<Rightarrow> video_input \<Rightarrow> goerr option" where
  "validate_video url_parse i =
     (let title = trim_space (vc_title i)
      in if title = [] then Some (VideoValidationError ''title is required'')
         else if 200 < length title
         then Some (VideoValidationError ''title must be at most 200 characters'')
         else if 5000 < length (vc_description i)
         then Some (VideoValidationError ''description must be at most 5000 characters'')
         else if trim_space (vc_video_url i) = []
         then Some (VideoValidationError ''video_url is required'')
         else if \<not> http_url url_parse (vc_video_url i)
         then Some (VideoValidationError ''video_url must be a valid http(s) URL'')
         else if 2048 < length (vc_video_url i)
         then Some (VideoValidationError ''video_url must be at most 2048 characters'')
         else if vc_duration_sec i \<le> 0
         then Some (VideoValidationError ''duration_sec is required'')
         else if 3600 < vc_duration_sec i
         then Some (VideoValidationError ''duration_sec must be at most 3600'')
         else None)"

section \<open>The repository\<close>

text \<open>A \<open>TIMESTAMPTZ\<close> has microseconds; the zero time and the Unix epoch are whole ones.\<close>

definition pg_time :: "gotime \<Rightarrow> gotime" where
  "pg_time t = t - t mod 1000"

lemma pg_time_idem [simp]: "pg_time (pg_time t) = pg_time t"
  by (simp add: pg_time_def mod_diff_left_eq)

definition new_video :: "uuid \<Rightarrow> video_input \<Rightarrow> uuid \<Rightarrow> gotime \<Rightarrow> video" where
  "new_video uid i fresh now =
     \<lparr>v_id = fresh, v_user_id = uid, v_title = trim_space (vc_title i),
      v_description = vc_description i, v_video_url = trim_space (vc_video_url i),
      v_duration_sec = vc_duration_sec i, v_created_at = pg_time now\<rparr>"

text \<open>The row, and the statistics row the trigger of the migration adds.\<close>

definition add_video :: "video \<Rightarrow> postgres \<Rightarrow> postgres" where
  "add_video v d = d\<lparr>videos := videos d @ [v],
     video_stats := video_stats d @ [\<lparr>s_video_id = v_id v, s_likes_count = 0, s_views_count = 0,
       s_updated_at = v_created_at v\<rparr>]\<rparr>"

definition insert_video_sql ::
  "uuid \<Rightarrow> video_input \<Rightarrow> uuid \<Rightarrow> gotime \<Rightarrow> postgres \<Rightarrow> (pgerr + video) \<times> postgres"
where
  "insert_video_sql uid i fresh now d =
     (if \<not> (0 < vc_duration_sec i \<and> vc_duration_sec i \<le> 3600)
      then (Inl (SqlState CheckViolation), d)
      else if video_exists fresh d \<or> stats_count fresh d \<noteq> None
      then (Inl (SqlState UniqueViolation), d)
      else if \<not> user_exists uid d then (Inl (SqlState ForeignKeyViolation), d)
      else (Inr (new_video uid i fresh now), add_video (new_video uid i fresh now) d))"

definition video_row :: "uuid \<Rightarrow> postgres \<Rightarrow> video option" where
  "video_row i d = find (\<lambda>v. v_id v = i) (videos d)"

text \<open>The interface; ids and the database's clock are arguments of \<open>Create\<close>.\<close>

record 'w video_repo =
  repo_create :: "uuid \<Rightarrow> video_input \<Rightarrow> uuid \<Rightarrow> gotime \<Rightarrow> 'w \<Rightarrow> video result \<times> 'w"
  repo_find_by_id :: "uuid \<Rightarrow> 'w \<Rightarrow> video result \<times> 'w"
  repo_find_by_ids :: "uuid list \<Rightarrow> 'w \<Rightarrow> video list result \<times> 'w"
  repo_feed_page :: "gotime \<Rightarrow> uuid \<Rightarrow> int \<Rightarrow> 'w \<Rightarrow> video list result \<times> 'w"

definition pg_create_video ::
  "uuid \<Rightarrow> video_input \<Rightarrow> uuid \<Rightarrow> gotime \<Rightarrow> 's world \<Rightarrow> video result \<times> 's world"
where
  "pg_create_video uid i fresh now w =
     (case pg_exec (insert_video_sql uid i fresh now) w of
        (Inl e, w') \<Rightarrow> (Inl (Wrapped ''insert video'' (pg_goerr e)), w')
      | (Inr v, w') \<Rightarrow> (Inr v, w'))"

definition pg_find_video :: "uuid \<Rightarrow> 's world \<Rightarrow> video result \<times> 's world" where
  "pg_find_video i w =
     (case pg_exec (reading (\<lambda>d. case video_row i d of None \<Rightarrow> Inl NoRows | Some v \<Rightarrow> Inr v)) w of
        (Inl NoRows, w') \<Rightarrow> (Inl ErrVideoNotFound, w')
      | (Inl e, w') \<Rightarrow> (Inl (Wrapped ''select video'' (pg_goerr e)), w')
      | (Inr v, w') \<Rightarrow> (Inr v, w'))"

text \<open>\<open>WHERE id = ANY($1)\<close> promises no order: \<open>arrange\<close> is the order the database picks.\<close>

definition pg_find_videos ::
  "(video list \<Rightarrow> video list) \<Rightarrow> uuid list \<Rightarrow> 's world \<Rightarrow> video list result \<times> 's world"
where
  "pg_find_videos arrange ids w =
     (if ids = [] then (Inr [], w)
      else case pg_call (reading (\<lambda>d. arrange (filter (\<lambda>v. v_id v \<in> set ids) (videos d)))) w of
             (Inl e, w') \<Rightarrow> (Inl (Wrapped ''select videos by ids'' e), w')
           | (Inr vs, w') \<Rightarrow> (Inr vs, w'))"

definition feed_key :: "video \<Rightarrow> gotime \<times> uuid" where
  "feed_key v = (v_created_at v, v_id v)"

text \<open>\<open>ORDER BY created_at DESC, id DESC\<close>.\<close>

definition newest_first :: "video list \<Rightarrow> video list" where
  "newest_first vs = rev (sort_key feed_key vs)"

definition pg_feed_page ::
  "gotime \<Rightarrow> uuid \<Rightarrow> int \<Rightarrow> 's world \<Rightarrow> video list result \<times> 's world"
where
  "pg_feed_page created i limit w =
     (if limit \<le> 0 then (Inr [], w)
      else case pg_call (reading (\<lambda>d.
               take (nat limit) (newest_first
                 (if created = 0 \<and> i = uuid_nil then videos d
                  else filter (\<lambda>v. feed_key v < (pg_time created, i)) (videos d))))) w of
             (Inl e, w') \<Rightarrow> (Inl (Wrapped ''feed page query'' e), w')
           | (Inr vs, w') \<Rightarrow> (Inr vs, w'))"

definition pg_video_repo :: "(video list \<Rightarrow> video list) \<Rightarrow> 's world video_repo" where
  "pg_video_repo arrange =
     \<lparr>repo_create = pg_create_video, repo_find_by_id = pg_find_video,
      repo_find_by_ids = pg_find_videos arrange, repo_feed_page = pg_feed_page\<rparr>"

section \<open>The service\<close>

record 'w video_service =
  vd_repo :: "'w video_repo"
  vd_cache :: "(video, 'w) cache option"
  vd_durations :: "'w duration_store option"
  vd_on_create :: "(video \<Rightarrow> 'w \<Rightarrow> 'w) option"

definition video_create ::
  "url_lib \<Rightarrow> 'z libs_scheme \<Rightarrow> 'w video_service \<Rightarrow> uuid \<Rightarrow> video_input \<Rightarrow> uuid \<Rightarrow> gotime \<Rightarrow> 'w
     \<Rightarrow> video result \<times> 'w"
where
  "video_create url_parse L svc uid i fresh now w =
     (case validate_video url_parse i of
        Some e \<Rightarrow> (Inl e, w)
      | None \<Rightarrow>
          (case repo_create (vd_repo svc) uid i fresh now w of
             (Inl e, w) \<Rightarrow> (Inl e, w)
           | (Inr v, w) \<Rightarrow>
               (let w = (case vd_cache svc of None \<Rightarrow> w
                         | Some c \<Rightarrow> snd (cache_set c (uuid_str L (v_id v)) v w));
                    w = (case vd_durations svc of None \<Rightarrow> w
                         | Some ds \<Rightarrow> snd (ds_set ds (v_id v) (v_duration_sec v) w));
                    w = (case vd_on_create svc of None \<Rightarrow> w | Some hook \<Rightarrow> hook v w)
                in (Inr v, w))))"

definition video_get ::
  "'z libs_scheme \<Rightarrow> 'w video_service \<Rightarrow> uuid \<Rightarrow> 'w \<Rightarrow> video result \<times> 'w"
where
  "video_get L svc i w =
     read_through (vd_cache svc) (uuid_str L i) (repo_find_by_id (vd_repo svc) i)
       (\<lambda>v. uuid_str L (v_id v)) w"

definition video_is_present ::
  "'z libs_scheme \<Rightarrow> 'w video_service \<Rightarrow> uuid \<Rightarrow> 'w \<Rightarrow> bool result \<times> 'w"
where
  "video_is_present L svc i w =
     (case video_get L svc i w of
        (Inl e, w') \<Rightarrow> (if errors_is e ErrVideoNotFound then Inr False else Inl e, w')
      | (Inr v, w') \<Rightarrow> (Inr True, w'))"

definition assert_owner ::
  "'z libs_scheme \<Rightarrow> 'w video_service \<Rightarrow> uuid \<Rightarrow> uuid \<Rightarrow> 'w \<Rightarrow> unit result \<times> 'w"
where
  "assert_owner L svc vid uid w =
     (case video_get L svc vid w of
        (Inl e, w') \<Rightarrow> (Inl e, w')
      | (Inr v, w') \<Rightarrow> (if v_user_id v \<noteq> uid then Inl ErrForbidden else Inr (), w'))"

definition video_is_not_found :: "goerr \<Rightarrow> bool" where
  "video_is_not_found e = errors_is e ErrVideoNotFound"

section \<open>The handlers\<close>

text \<open>The body is the outcome of \<open>ShouldBindJSON\<close>: its error message, or the request.\<close>

definition handle_create_video ::
  "url_lib \<Rightarrow> 'z libs_scheme \<Rightarrow> 'w video_service \<Rightarrow> uuid \<Rightarrow> string + video_input \<Rightarrow> uuid \<Rightarrow> gotime \<Rightarrow> 'w
     \<Rightarrow> video response \<times> 'w"
where
  "handle_create_video url_parse L svc uid body fresh now w =
     (case body of
        Inl msg \<Rightarrow> (httpx_error_detail 400 ''validation_failed'' ''invalid request body'' (DetailMeta msg), w)
      | Inr i \<Rightarrow>
          (case video_create url_parse L svc uid i fresh now w of
             (Inr v, w') \<Rightarrow> (httpx_created v, w')
           | (Inl e, w') \<Rightarrow>
               (case as_video_validation e of
                  Some msg \<Rightarrow> (httpx_error 400 ''validation_failed'' msg, w')
                | None \<Rightarrow> (httpx_error 500 ''internal_error'' ''create video failed'', w'))))"

definition handle_get_video ::
  "'z libs_scheme \<Rightarrow> 'w video_service \<Rightarrow> string \<Rightarrow> 'w \<Rightarrow> video response \<times> 'w"
where
  "handle_get_video L svc param w =
     (case uuid_parse L param of
        None \<Rightarrow> (httpx_error 400 ''validation_failed'' ''invalid video id'', w)
      | Some i \<Rightarrow>
          (case video_get L svc i w of
             (Inr v, w') \<Rightarrow> (httpx_ok v, w')
           | (Inl e, w') \<Rightarrow>
               (if errors_is e ErrVideoNotFound
                then (httpx_error 404 ''not_found'' ''video not found'', w')
                else (httpx_error 500 ''internal_error'' ''get video failed'', w'))))"

section \<open>The cache never changes an answer\<close>

text \<open>The row behind the text of an id, which is how the cache is keyed.\<close>

definition video_row_of :: "'z libs_scheme \<Rightarrow> postgres \<Rightarrow> string \<Rightarrow> video option" where
  "video_row_of L d s = Option.bind (uuid_parse L s) (\<lambda>i. video_row i d)"

lemma video_row_id: "video_row i d = Some v \<Longrightarrow> v_id v = i \<and> v \<in> set (videos d)"
  unfolding video_row_def by (drule find_Some_iff') blast

definition videos_keyed :: "postgres \<Rightarrow> bool" where
  "videos_keyed d \<longleftrightarrow> distinct (map v_id (videos d))"

lemma pg_find_video_cases:
  assumes "pg_find_video i w = (r, w')"
  shows "pg w' = pg w" and "srv w' = srv w \<and> net w' = net w \<and> ch w' = ch w \<and> chnet w' = chnet w"
    and "\<forall>v. r = Inr v \<longrightarrow> video_row i (pg w) = Some v"
    and "errors_is (projl r) ErrVideoNotFound \<and> isl r \<longrightarrow> video_row i (pg w) = None"
    and "pgnet w = [] \<longrightarrow> pgnet w' = [] \<and> r =
      (case video_row i (pg w) of None \<Rightarrow> Inl ErrVideoNotFound | Some v \<Rightarrow> Inr v)"
proof -
  let ?f = "\<lambda>d. case video_row i d of None \<Rightarrow> Inl NoRows | Some v \<Rightarrow> Inr v"
  obtain q w1 where call: "pg_exec (reading ?f) w = (q, w1)" by (metis surj_pair)
  have w': "w' = w1" and r: "r = (case q of Inl NoRows \<Rightarrow> Inl ErrVideoNotFound
      | Inl e \<Rightarrow> Inl (Wrapped ''select video'' (pg_goerr e)) | Inr v \<Rightarrow> Inr v)"
    using assms call by (auto simp: pg_find_video_def split: sum.splits pgerr.splits)
  show "pg w' = pg w" using pg_exec_read [OF call] unfolding w' by simp
  show "srv w' = srv w \<and> net w' = net w \<and> ch w' = ch w \<and> chnet w' = chnet w"
    using call pg_exec_frame [of "reading ?f" w] unfolding w' by simp
  have inr: "q = Inr v \<Longrightarrow> video_row i (pg w) = Some v" for v
    using pg_exec_read [OF call] by (auto split: option.splits)
  then show "\<forall>v. r = Inr v \<longrightarrow> video_row i (pg w) = Some v"
    unfolding r by (auto split: sum.splits pgerr.splits)
  have none: "video_row i (pg w) = None" if "q = Inl NoRows"
    using call that by (auto elim!: pg_exec_cases split: option.splits)
  have other: "\<not> errors_is (Wrapped p (pg_goerr e)) ErrVideoNotFound" if "q = Inl e" for e p
  proof -
    from call that have "e = NoRows \<or> (\<exists>x. e = ConnErr (Plain x))"
      by (auto simp: pg_exec_def split: prod.splits sum.splits option.splits elim!: pg_call_cases)
    then show ?thesis by auto
  qed
  show "errors_is (projl r) ErrVideoNotFound \<and> isl r \<longrightarrow> video_row i (pg w) = None"
    using none other unfolding r by (auto split: sum.splits pgerr.splits)
  show "pgnet w = [] \<longrightarrow> pgnet w' = [] \<and> r =
      (case video_row i (pg w) of None \<Rightarrow> Inl ErrVideoNotFound | Some v \<Rightarrow> Inr v)"
    using pg_exec_net [OF call] unfolding w' r by (auto split: option.splits sum.splits pgerr.splits)
qed

text \<open>Which errors a read of a video can give.\<close>

lemma pg_find_video_errors:
  assumes "pg_find_video i w = (Inl e, w')"
  shows "e = ErrVideoNotFound \<or> (\<exists>s. e = Wrapped ''select video'' (Plain s))"
proof -
  let ?f = "reading (\<lambda>d. case video_row i d of None \<Rightarrow> Inl NoRows | Some v \<Rightarrow> Inr v)"
  obtain q w1 where call: "pg_exec ?f w = (q, w1)" by (metis surj_pair)
  then obtain x where q: "q = Inl x" and e: "x = NoRows \<and> e = ErrVideoNotFound
      \<or> e = Wrapped ''select video'' (pg_goerr x)"
    using assms by (auto simp: pg_find_video_def split: sum.splits pgerr.splits)
  have "x = NoRows \<or> (\<exists>s. x = ConnErr (Plain s))"
    using pg_exec_error [of ?f w x w1] call q by (auto split: option.splits)
  with e show ?thesis by auto
qed

text \<open>The video service of the composition root: the JSON cache under \<open>video:{id}\<close>.\<close>

definition resource_cache_ttl :: int where
  "resource_cache_ttl = 60 * second"

definition app_video_service ::
  "('s, 'z) redis_scheme \<Rightarrow> video codec \<Rightarrow> (video list \<Rightarrow> video list) \<Rightarrow> int \<Rightarrow> (video \<Rightarrow> 's world \<Rightarrow> 's world) option
     \<Rightarrow> 's world video_service"
where
  "app_video_service R C arrange dur_ttl hook =
     \<lparr>vd_repo = pg_video_repo arrange,
      vd_cache = Some (json_cache_ops R C video_cache_key resource_cache_ttl),
      vd_durations = Some (redis_duration_store R dur_ttl), vd_on_create = hook\<rparr>"

text \<open>Every entry of the cache that still decodes is the row of its id.\<close>

definition video_cache_true ::
  "('s, 'z) redis_scheme \<Rightarrow> ('s \<Rightarrow> keyspace) \<Rightarrow> video codec \<Rightarrow> 's world \<Rightarrow> bool"
where
  "video_cache_true R ks C w \<longleftrightarrow>
     (\<forall>i. is_str (ks (srv w) (video_cache_key (uuid_str R i))))
     \<and> (\<forall>i v. cache_held C video_cache_key (ks (srv w)) (uuid_str R i) = Some v \<longrightarrow> video_row i (pg w) = Some v)"

locale video_reads = redis_server R ks + json_codec C fits
  for R :: "('s, 'z) redis_scheme" and ks and C :: "video codec" and fits +
  fixes arrange :: "video list \<Rightarrow> video list" and dur_ttl :: int
    and hook :: "(video \<Rightarrow> 's world \<Rightarrow> 's world) option"

sublocale video_reads \<subseteq> vcache: json_cache R ks C fits video_cache_key resource_cache_ttl "range (uuid_str R)"
  by unfold_locales (auto simp: video_cache_key_def inj_on_def)

context video_reads
begin

abbreviation svc where
  "svc \<equiv> app_video_service R C arrange dur_ttl hook"

lemma cache_true_iff:
  "video_cache_true R ks C w \<longleftrightarrow> vcache.cache_ready w \<and> vcache.held.truthful (video_row_of R (pg w)) w"
  by (auto simp: video_cache_true_def vcache.cache_ready_def vcache.held.truthful_def video_row_of_def parse_str)

lemma video_get_answers:
  assumes "video_cache_true R ks C w" and "\<forall>v \<in> set (videos (pg w)). fits v"
    and "video_get R svc i w = (r, w')"
  shows "video_cache_true R ks C w' \<and> key_frame ks (video_cache_key (uuid_str R i)) w w'
    \<and> (\<forall>v. r = Inr v \<longrightarrow> video_row i (pg w) = Some v)
    \<and> (\<forall>e. r = Inl e \<and> errors_is e ErrVideoNotFound \<longrightarrow> video_row i (pg w) = None)
    \<and> (pgnet w = [] \<longrightarrow> r = (case video_row i (pg w) of None \<Rightarrow> Inl ErrVideoNotFound | Some v \<Rightarrow> Inr v))"
proof -
  let ?rows = "video_row_of R (pg w)" and ?s = "uuid_str R i"
  let ?bad = "\<lambda>e. errors_is e ErrVideoNotFound \<longrightarrow> video_row i (pg w) = None"
  have rows: "?rows ?s = video_row i (pg w)" by (simp add: video_row_of_def parse_str)
  have pre: "vcache.cache_ready w" "vcache.held.truthful ?rows w" and mem: "?s \<in> range (uuid_str R)"
    using assms(1) by (simp_all add: cache_true_iff)
  have rt: "read_through (Some (json_cache_ops R C video_cache_key resource_cache_ttl)) ?s (pg_find_video i)
      (\<lambda>v. uuid_str R (v_id v)) w = (r, w')"
    using assms(3) by (simp add: video_get_def app_video_service_def pg_video_repo_def)
  have load: "pg w2 = pg w1 \<and> srv w2 = srv w1 \<and> net w2 = net w1 \<and> ch w2 = ch w1 \<and> chnet w2 = chnet w1
       \<and> (pgnet w1 = [] \<longrightarrow> pgnet w2 = [] \<and> q = (case ?rows ?s of None \<Rightarrow> Inl ErrVideoNotFound | Some v \<Rightarrow> Inr v))
       \<and> (\<forall>v. q = Inr v \<longrightarrow> ?rows ?s = Some v \<and> fits v \<and> uuid_str R (v_id v) = ?s) \<and> (\<forall>e. q = Inl e \<longrightarrow> ?bad e)"
    if pg1: "pg w1 = pg w" and call: "pg_find_video i w1 = (q, w2)" for w1 :: "'s world" and q w2
  proof -
    note c = pg_find_video_cases [OF call]
    have inr: "?rows ?s = Some v \<and> fits v \<and> uuid_str R (v_id v) = ?s" if "q = Inr v" for v
    proof -
      have row: "video_row i (pg w) = Some v" using c(3) that pg1 by simp
      from video_row_id [OF row] have "v_id v = i" and "fits v" using assms(2) by simp_all
      then show ?thesis using row rows by simp
    qed
    have inl: "?bad e" if "q = Inl e" for e using c(4) that pg1 by simp
    have up: "pgnet w1 = [] \<longrightarrow> pgnet w2 = [] \<and> q = (case ?rows ?s of None \<Rightarrow> Inl ErrVideoNotFound | Some v \<Rightarrow> Inr v)"
      using c(5) unfolding rows pg1 .
    show ?thesis using c(1,2) up inr inl by (intro conjI allI impI) iprover+
  qed
  from vcache.read_row_exact [OF pre mem load rt] have main: "vcache.cache_ready w'
      \<and> key_frame ks (video_cache_key ?s) w w' \<and> vcache.held.truthful ?rows w'
      \<and> (\<forall>v. r = Inr v \<longrightarrow> ?rows ?s = Some v) \<and> (\<forall>e. r = Inl e \<longrightarrow> ?bad e)
      \<and> (pgnet w = [] \<longrightarrow> r = (case ?rows ?s of None \<Rightarrow> Inl ErrVideoNotFound | Some v \<Rightarrow> Inr v))" .
  then have "pg w' = pg w" by (simp add: key_frame_def)
  with main have "video_cache_true R ks C w'" by (simp add: cache_true_iff)
  moreover have "video_row i (pg w) = Some v" if "r = Inr v" for v using main that rows by simp
  moreover have "video_row i (pg w) = None" if "r = Inl e \<and> errors_is e ErrVideoNotFound" for e using main that by blast
  moreover have "pgnet w = [] \<longrightarrow> r = (case video_row i (pg w) of None \<Rightarrow> Inl ErrVideoNotFound | Some v \<Rightarrow> Inr v)"
    using main unfolding rows by blast
  ultimately show ?thesis using main by blast
qed

end

interpretation ref_video_reads: video_reads ref_redis "\<lambda>m. m" ref_video_codec "\<lambda>_. True" "\<lambda>vs. vs" dur_ttl None
  for dur_ttl
  by unfold_locales

section \<open>Creating a video\<close>

lemma add_video_keeps:
  assumes "\<not> video_exists (v_id v) d" and "stats_count (v_id v) d = None"
  shows "likes_keyed d \<Longrightarrow> likes_keyed (add_video v d)"
    and "likes_keyed d \<Longrightarrow> counts_exact d \<Longrightarrow> counts_exact (add_video v d)"
    and "videos_keyed d \<Longrightarrow> videos_keyed (add_video v d)"
    and "video_row i (add_video v d) = (if i = v_id v then Some v else video_row i d)"
proof -
  have new: "v_id v \<notin> set (map s_video_id (video_stats d))"
    using assms(2) by (auto simp: stats_count_def find_None_iff)
  have row: "s_video_id r \<noteq> v_id v" if "r \<in> set (video_stats d)" for r using new that by force
  have none: "find (\<lambda>x. v_id x = v_id v) (videos d) = None"
    using assms(1) unfolding find_None_iff video_exists_def by (metis image_eqI set_map)
  show "likes_keyed d \<Longrightarrow> likes_keyed (add_video v d)"
    using new by (auto simp: likes_keyed_def add_video_def video_exists_def user_exists_def)
  show "likes_keyed d \<Longrightarrow> counts_exact d \<Longrightarrow> counts_exact (add_video v d)"
  proof -
    assume k: "likes_keyed d" and c: "counts_exact d"
    have "filter (\<lambda>e. snd e = v_id v) (likes d) = []"
      using k assms(1) by (auto simp: likes_keyed_def filter_empty_conv)
    then show ?thesis using c by (auto simp: counts_exact_def add_video_def edge_count_def)
  qed
  show "videos_keyed d \<Longrightarrow> videos_keyed (add_video v d)"
    using assms(1) by (auto simp: videos_keyed_def add_video_def video_exists_def)
  have "find P (xs @ [v]) = (case find P xs of Some x \<Rightarrow> Some x | None \<Rightarrow> if P v then Some v else None)"
    for P xs by (induction xs) auto
  then show "video_row i (add_video v d) = (if i = v_id v then Some v else video_row i d)"
    using none by (auto simp: video_row_def add_video_def split: option.splits)
qed

lemma insert_video_sql_Inr:
  "insert_video_sql uid i fresh now d = (Inr v, d') \<Longrightarrow>
     v = new_video uid i fresh now \<and> d' = add_video v d \<and> user_exists uid d
     \<and> \<not> video_exists fresh d \<and> stats_count fresh d = None"
  by (auto simp: insert_video_sql_def split: if_splits)

lemma insert_video_sql_state:
  "snd (insert_video_sql uid i fresh now d) = d
   \<or> (\<exists>v. insert_video_sql uid i fresh now d = (Inr v, snd (insert_video_sql uid i fresh now d)))"
  by (simp add: insert_video_sql_def)

lemma pg_create_video_cases:
  assumes "pg_create_video uid i fresh now w = (r, w')"
  shows "srv w' = srv w \<and> net w' = net w"
    and "r = Inr v \<Longrightarrow> insert_video_sql uid i fresh now (pg w) = (Inr v, pg w')"
    and "r = Inl e \<Longrightarrow> pg w' = pg w \<or> (\<exists>v. insert_video_sql uid i fresh now (pg w) = (Inr v, pg w'))"
    and "r = Inl e \<Longrightarrow> as_video_validation e = None"
    and "pgnet w = [] \<Longrightarrow> pgnet w' = []"
proof -
  let ?f = "insert_video_sql uid i fresh now"
  obtain q w1 where call: "pg_exec ?f w = (q, w1)" by (metis surj_pair)
  have w': "w' = w1" and inr: "r = Inr v \<longleftrightarrow> q = Inr v" for v
    using assms call by (auto simp: pg_create_video_def split: sum.splits)
  have inl: "\<exists>x. q = Inl x \<and> e = Wrapped ''insert video'' (pg_goerr x)" if "r = Inl e" for e
    using assms call that by (auto simp: pg_create_video_def split: sum.splits)
  show "srv w' = srv w \<and> net w' = net w"
    using call pg_exec_frame [of ?f w] unfolding w' by simp
  show "pgnet w = [] \<Longrightarrow> pgnet w' = []" using pg_exec_net [OF call] unfolding w' by simp
  show "?f (pg w) = (Inr v, pg w')" if "r = Inr v"
    using call inr that unfolding w' by (cases rule: pg_exec_cases) auto
  show "pg w' = pg w \<or> (\<exists>v. ?f (pg w) = (Inr v, pg w'))" if l: "r = Inl e"
    using call
  proof (cases rule: pg_exec_cases)
    case 1
    have "snd (?f (pg w)) = pg w1" using 1 by simp
    then show ?thesis using insert_video_sql_state [of uid i fresh now "pg w"] unfolding w' by metis
  next
    case (3 e)
    then show ?thesis using insert_video_sql_state [of uid i fresh now "pg w"] unfolding w' by metis
  qed (simp add: w')
  show "as_video_validation e = None" if l: "r = Inl e"
  proof -
    obtain x where q: "q = Inl x" and e: "e = Wrapped ''insert video'' (pg_goerr x)" using inl [OF l] by blast
    have "\<forall>y. x = ConnErr y \<longrightarrow> (\<exists>s. y = Plain s)"
      using pg_exec_error [of ?f w x w1] call q by (auto simp: insert_video_sql_def split: if_splits)
    then obtain s where "pg_goerr x = Plain s" using pg_goerr_plain by blast
    then show ?thesis unfolding e by simp
  qed
qed

context uuid_lib
begin

lemma duration_key_not_cached [simp]: "duration_key L v \<noteq> video_cache_key (uuid_str L i)"
  using str_append_inj [of v "'':dur''" i "[]"] by (simp add: duration_key_def video_cache_key_def del: str_append_inj)

end

lemma redis_duration_set_cases:
  assumes "redis_duration_set R ttl v sec w = (q, w')"
  shows "stores_same w w'"
    and "srv w' = srv w \<or> srv w' = rSET R (duration_key R v) (format_int sec) (if 0 < ttl then redis_ttl ttl else None) (srv w)"
    and "net w = [] \<Longrightarrow> 0 < sec \<Longrightarrow>
      srv w' = rSET R (duration_key R v) (format_int sec) (if 0 < ttl then redis_ttl ttl else None) (srv w)"
proof -
  let ?ttl = "if 0 < ttl then redis_ttl ttl else None"
  have run: "redis_duration_set R ttl v sec w =
      (if sec \<le> 0 then (Inl (Plain ''duration_sec must be positive''), w)
       else redis_call (writing (rSET R (duration_key R v) (format_int sec) ?ttl)) w)"
    by (simp add: redis_duration_set_def)
  show "stores_same w w'"
    using assms redis_call_same [of "writing (rSET R (duration_key R v) (format_int sec) ?ttl)" w q w']
    unfolding run by (auto split: if_splits)
  show "srv w' = srv w \<or> srv w' = rSET R (duration_key R v) (format_int sec) ?ttl (srv w)"
    using assms unfolding run by (cases "sec \<le> 0") (auto elim!: redis_call_cases)
  show "net w = [] \<Longrightarrow> 0 < sec \<Longrightarrow> srv w' = rSET R (duration_key R v) (format_int sec) ?ttl (srv w)"
    using assms unfolding run by (simp add: redis_call_up) auto
qed

text \<open>A hook that leaves the tables and the cache of videos alone, such as the push feed's.\<close>

definition hook_ok ::
  "('s, 'z) redis_scheme \<Rightarrow> ('s \<Rightarrow> keyspace) \<Rightarrow> video codec \<Rightarrow> (video \<Rightarrow> 's world \<Rightarrow> 's world) option \<Rightarrow> bool"
where
  "hook_ok R ks C hook \<longleftrightarrow> (\<forall>h v w. hook = Some h \<longrightarrow> video_cache_true R ks C w \<longrightarrow>
     video_cache_true R ks C (h v w) \<and> pg (h v w) = pg w)"

context video_reads
begin

lemma cache_true_add:
  assumes "video_cache_true R ks C w" and "\<not> video_exists (v_id v) (pg w)" and "stats_count (v_id v) (pg w) = None"
    and "srv w' = srv w" and "pg w' = add_video v (pg w)"
  shows "video_cache_true R ks C w'"
  unfolding video_cache_true_def
proof (intro conjI allI impI)
  fix i
  show "is_str (ks (srv w') (video_cache_key (uuid_str R i)))" using assms(1,4) by (simp add: video_cache_true_def)
next
  fix i u
  assume "cache_held C video_cache_key (ks (srv w')) (uuid_str R i) = Some u"
  then have row: "video_row i (pg w) = Some u" using assms(1,4) by (simp add: video_cache_true_def)
  then have "i \<noteq> v_id v" using assms(2) video_row_id [OF row] unfolding video_exists_def by (metis image_eqI set_map)
  then show "video_row i (pg w') = Some u" using row add_video_keeps(4) [OF assms(2,3)] assms(5) by simp
qed

lemma cache_true_duration:
  assumes "video_cache_true R ks C w" and "redis_duration_set R dur_ttl v sec w = (q, w')"
  shows "video_cache_true R ks C w' \<and> pg w' = pg w"
proof -
  have "ks (srv w') k = ks (srv w) k" if "k \<noteq> duration_key R v" for k
    using redis_duration_set_cases(2) [OF assms(2)] that by (auto simp: set)
  then have "ks (srv w') (video_cache_key (uuid_str R i)) = ks (srv w) (video_cache_key (uuid_str R i))" for i
    by (metis duration_key_not_cached)
  then show ?thesis
    using assms(1) redis_duration_set_cases(1) [OF assms(2)]
    by (simp add: video_cache_true_def cache_held_def stores_same_def)
qed

text \<open>What the service does after the row is in the table.\<close>

definition after_insert :: "video \<Rightarrow> 's world \<Rightarrow> 's world" where
  "after_insert v w =
     (let w = snd (json_set R C video_cache_key resource_cache_ttl (uuid_str R (v_id v)) v w);
          w = snd (redis_duration_set R dur_ttl (v_id v) (v_duration_sec v) w)
      in case hook of None \<Rightarrow> w | Some h \<Rightarrow> h v w)"

lemma after_insert_cache_true:
  assumes "video_cache_true R ks C w" and "fits v" and "video_row (v_id v) (pg w) = Some v"
    and "hook_ok R ks C hook"
  shows "video_cache_true R ks C (after_insert v w) \<and> pg (after_insert v w) = pg w"
proof -
  let ?s = "uuid_str R (v_id v)"
  obtain q1 w1 where c1: "json_set R C video_cache_key resource_cache_ttl ?s v w = (q1, w1)" by (metis surj_pair)
  obtain q2 w2 where c2: "redis_duration_set R dur_ttl (v_id v) (v_duration_sec v) w1 = (q2, w2)" by (metis surj_pair)
  have pre: "vcache.cache_ready w" "vcache.held.truthful (video_row_of R (pg w)) w" "?s \<in> range (uuid_str R)"
    using assms(1) by (simp_all add: cache_true_iff)
  have row: "video_row_of R (pg w) ?s = Some v" using assms(3) by (simp add: video_row_of_def parse_str)
  have set_call: "cache_set (json_cache_ops R C video_cache_key resource_cache_ttl) ?s v w = (q1, w1)"
    using c1 by (simp add: json_cache_ops_def)
  have k1: "vcache.cache_ready w1 \<and> key_frame ks (video_cache_key ?s) w w1
      \<and> vcache.held.truthful (video_row_of R (pg w)) w1"
    by (rule vcache.held.truthful_set [OF pre(1,3,2) assms(2) row set_call])
  then have p1: "pg w1 = pg w" by (simp add: key_frame_def)
  with k1 have t1: "video_cache_true R ks C w1" by (simp add: cache_true_iff)
  note t2 = cache_true_duration [OF t1 c2]
  have "after_insert v w = (case hook of None \<Rightarrow> w2 | Some h \<Rightarrow> h v w2)" by (simp add: after_insert_def c1 c2)
  then show ?thesis using t2 p1 assms(4) by (auto simp: hook_ok_def split: option.splits)
qed

lemma video_create_steps:
  assumes "video_create url_parse R svc uid i fresh now w = (r, w')" and "hook_ok R ks C hook"
    and "video_cache_true R ks C w" and "fits (new_video uid i fresh now)"
  shows "(\<exists>e. validate_video url_parse i = Some e \<and> r = Inl e \<and> w' = w)
    \<or> (\<exists>e. validate_video url_parse i = None \<and> r = Inl e \<and> as_video_validation e = None \<and> srv w' = srv w
        \<and> (pg w' = pg w \<or> (\<exists>v. insert_video_sql uid i fresh now (pg w) = (Inr v, pg w'))))
    \<or> (\<exists>v w1. validate_video url_parse i = None \<and> r = Inr v \<and> pg_create_video uid i fresh now w = (Inr v, w1)
        \<and> insert_video_sql uid i fresh now (pg w) = (Inr v, pg w1) \<and> w' = after_insert v w1 \<and> pg w' = pg w1)"
    and "video_cache_true R ks C w'"
proof -
  obtain q w1 where call: "pg_create_video uid i fresh now w = (q, w1)" by (metis surj_pair)
  note c = pg_create_video_cases [OF call]
  have run: "(r, w') = (case validate_video url_parse i of Some e \<Rightarrow> (Inl e, w)
      | None \<Rightarrow> (case q of Inl e \<Rightarrow> (Inl e, w1) | Inr v \<Rightarrow> (Inr v, after_insert v w1)))"
    unfolding assms(1) [symmetric] using call
    by (cases "validate_video url_parse i"; cases q)
       (simp_all add: video_create_def app_video_service_def pg_video_repo_def after_insert_def
        json_cache_ops_def redis_duration_store_def Let_def)
  have added: "video_cache_true R ks C w1" if "insert_video_sql uid i fresh now (pg w) = (Inr v, pg w1)" for v
    using insert_video_sql_Inr [OF that] c(1)
    by (intro cache_true_add [OF assms(3)]) (auto simp: new_video_def)
  have res: "((\<exists>e. validate_video url_parse i = Some e \<and> r = Inl e \<and> w' = w)
    \<or> (\<exists>e. validate_video url_parse i = None \<and> r = Inl e \<and> as_video_validation e = None \<and> srv w' = srv w
        \<and> (pg w' = pg w \<or> (\<exists>v. insert_video_sql uid i fresh now (pg w) = (Inr v, pg w'))))
    \<or> (\<exists>v w1. validate_video url_parse i = None \<and> r = Inr v \<and> pg_create_video uid i fresh now w = (Inr v, w1)
        \<and> insert_video_sql uid i fresh now (pg w) = (Inr v, pg w1) \<and> w' = after_insert v w1 \<and> pg w' = pg w1))
    \<and> video_cache_true R ks C w'"
  proof (cases "validate_video url_parse i")
    case (Some e)
    then show ?thesis using run assms(3) by simp
  next
    case None
    show ?thesis
    proof (cases q)
      case (Inl e)
      have rw: "r = Inl e" "w' = w1" using run None Inl by simp_all
      have st: "pg w1 = pg w \<or> (\<exists>v. insert_video_sql uid i fresh now (pg w) = (Inr v, pg w1))"
        using c(3) Inl by blast
      then have "video_cache_true R ks C w1"
        using added assms(3) c(1) by (auto simp: video_cache_true_def)
      then show ?thesis using None rw st c(1) c(4) [OF Inl] by blast
    next
      case (Inr v)
      have rw: "r = Inr v" "w' = after_insert v w1" using run None Inr by simp_all
      note ins = c(2) [OF Inr]
      have v: "v = new_video uid i fresh now" "pg w1 = add_video v (pg w)" using insert_video_sql_Inr [OF ins] by simp_all
      have row: "video_row (v_id v) (pg w1) = Some v"
        using add_video_keeps(4) [of v "pg w" "v_id v"] insert_video_sql_Inr [OF ins] by (simp add: new_video_def)
      have "video_cache_true R ks C (after_insert v w1) \<and> pg (after_insert v w1) = pg w1"
        using assms(4) v(1) by (intro after_insert_cache_true [OF added [OF ins] _ row assms(2)]) simp
      then show ?thesis using None rw call Inr ins by blast
    qed
  qed
  then show "(\<exists>e. validate_video url_parse i = Some e \<and> r = Inl e \<and> w' = w)
    \<or> (\<exists>e. validate_video url_parse i = None \<and> r = Inl e \<and> as_video_validation e = None \<and> srv w' = srv w
        \<and> (pg w' = pg w \<or> (\<exists>v. insert_video_sql uid i fresh now (pg w) = (Inr v, pg w'))))
    \<or> (\<exists>v w1. validate_video url_parse i = None \<and> r = Inr v \<and> pg_create_video uid i fresh now w = (Inr v, w1)
        \<and> insert_video_sql uid i fresh now (pg w) = (Inr v, pg w1) \<and> w' = after_insert v w1 \<and> pg w' = pg w1)"
    and "video_cache_true R ks C w'" by blast+
qed

end

section \<open>Properties\<close>


definition example_video :: video where
  "example_video = \<lparr>v_id = 7, v_user_id = 1, v_title = ''t'', v_description = [], v_video_url = ''http://h/v'',
     v_duration_sec = 30, v_created_at = 5000\<rparr>"

definition example_video_world :: "link list \<Rightarrow> keyspace world" where
  "example_video_world ls =
     (new_world [video_cache_key (ref_uuid_str 7) \<mapsto> (RStr ''{'', None)])
       \<lparr>net := ls, pg := empty_postgres\<lparr>users := [\<lparr>u_id = 1, u_email = ''a@b'', u_password_hash = [], u_created_at = 0\<rparr>],
         videos := [example_video]\<rparr>\<rparr>"

lemma example_video_world_simps [simp]:
  "pgnet (example_video_world ls) = []" "videos (pg (example_video_world ls)) = [example_video]"
  "net (example_video_world ls) = ls"
  "srv (example_video_world ls) = [video_cache_key (ref_uuid_str 7) \<mapsto> (RStr ''{'', None)]"
  by (simp_all add: example_video_world_def new_world_def)

lemma example_video_cache_true:
  "video_cache_true ref_redis (\<lambda>m. m) ref_video_codec (example_video_world ls)"
  by (simp add: video_cache_true_def cache_held_def ref_video_codec_def unpack_def)


text \<open>
  C26. Creating a video, whatever the links do: an input that fails validation is reported and
  nothing happens; success means the row, with its trimmed fields, is in the table together with
  its zero statistics row, and the owner exists; on any other error the tables are as before
  or hold that row (the reply was lost). The like counters stay exact and the cache true.
\<close>

theorem video_create_outcomes:
  assumes "redis_server R ks" and "json_codec C fits" and "fits (new_video uid i fresh now)"
    and "video_cache_true R ks C w" and "hook_ok R ks C hook"
    and "video_create url_parse R (app_video_service R C arrange dur_ttl hook) uid i fresh now w = (r, w')"
  shows "(case validate_video url_parse i of
       Some e \<Rightarrow> r = Inl e \<and> w' = w
     | None \<Rightarrow>
         (case r of
            Inr v \<Rightarrow> v = new_video uid i fresh now \<and> user_exists uid (pg w) \<and> pg w' = add_video v (pg w)
              \<and> video_row fresh (pg w) = None \<and> video_row fresh (pg w') = Some v
          | Inl e \<Rightarrow> as_video_validation e = None
              \<and> (pg w' = pg w \<or> pg w' = add_video (new_video uid i fresh now) (pg w))))
    \<and> (likes_keyed (pg w) \<longrightarrow> counts_exact (pg w) \<longrightarrow> likes_keyed (pg w') \<and> counts_exact (pg w'))
    \<and> video_cache_true R ks C w'"
proof -
  have loc: "video_reads R ks C fits" using assms(1,2) by (simp add: video_reads_def)
  note steps = video_reads.video_create_steps [OF loc assms(6,5,4,3)]
  have ins: "v = new_video uid i fresh now \<and> pg w1 = add_video v (pg w) \<and> user_exists uid (pg w)
      \<and> video_row fresh (pg w) = None \<and> video_row fresh (pg w1) = Some v
      \<and> (likes_keyed (pg w) \<longrightarrow> counts_exact (pg w) \<longrightarrow> likes_keyed (pg w1) \<and> counts_exact (pg w1))"
    if "insert_video_sql uid i fresh now (pg w) = (Inr v, pg w1)" for v and w1 :: "'a world"
  proof -
    note k = insert_video_sql_Inr [OF that]
    have id: "v_id v = fresh" using k by (simp add: new_video_def)
    have "video_row fresh (pg w) = None"
      using k video_row_id [of fresh "pg w"] by (cases "video_row fresh (pg w)") (force simp: video_exists_def)+
    then show ?thesis using k id add_video_keeps [of v "pg w"] by simp
  qed
  from steps(1) show ?thesis
  proof (elim disjE exE conjE, goal_cases)
    case (1 e)
    then show ?thesis using steps(2) by simp
  next
    case (2 e)
    then show ?thesis using steps(2) by simp
  next
    case (3 e v)
    then show ?thesis using steps(2) ins [OF 3(5)] by auto
  next
    case (4 v w1)
    then show ?thesis using steps(2) ins [OF 4(4)] by auto
  qed
qed

definition example_video_input :: video_input where
  "example_video_input = \<lparr>vc_title = '' t '', vc_description = [], vc_video_url = ''http://h/v'', vc_duration_sec = 30\<rparr>"

definition example_url_parse :: url_lib where
  "example_url_parse s = (if s = ''http://h/v'' then Some (''http'', ''h'') else None)"

lemma example_video_valid: "validate_video example_url_parse example_video_input = None"
  by (simp add: validate_video_def example_video_input_def example_url_parse_def http_url_def trim_space_def is_space_def)

lemma example_insert:
  "insert_video_sql 1 example_video_input 8 9000 (pg (example_video_world ls)) =
     (Inr (new_video 1 example_video_input 8 9000),
      add_video (new_video 1 example_video_input 8 9000) (pg (example_video_world ls)))"
  by (simp add: insert_video_sql_def example_video_world_def new_world_def video_exists_def user_exists_def
      stats_count_def empty_postgres_def example_video_def example_video_input_def)

theorem video_create_outcomes_witness:
  "videos (pg (snd (video_create example_url_parse ref_redis
       (app_video_service ref_redis ref_video_codec (\<lambda>vs. vs) 0 None) 1 example_video_input 8 9000 (example_video_world [Refused]))))
     = [example_video, new_video 1 example_video_input 8 9000]"
proof -
  obtain r w' where h: "video_create example_url_parse ref_redis
       (app_video_service ref_redis ref_video_codec (\<lambda>vs. vs) 0 None) 1 example_video_input 8 9000 (example_video_world [Refused]) = (r, w')"
    by (metis surj_pair)
  have "pg_create_video 1 example_video_input 8 9000 (example_video_world [Refused]) =
      (Inr (new_video 1 example_video_input 8 9000),
       (example_video_world [Refused])\<lparr>pg := add_video (new_video 1 example_video_input 8 9000)
          (pg (example_video_world [Refused]))\<rparr>)"
    using example_insert by (simp add: pg_create_video_def pg_exec_up)
  then have "isl r = False"
    using arg_cong [OF h, of fst]
    by (auto simp: video_create_def example_video_valid app_video_service_def pg_video_repo_def Let_def)
  with video_create_outcomes [OF ref_redis.redis_server_axioms ref_videos.json_codec_axioms _
      example_video_cache_true _ h]
  show ?thesis by (cases r) (simp_all add: h example_video_valid hook_ok_def add_video_def)
qed

end
