(* ===== verification/Base64.thy ===== *)
theory Base64
  imports GoLib
begin

text \<open>
  \<open>base64.RawURLEncoding\<close>: the URL-safe alphabet without padding. Three bytes become four
  characters of six bits; one or two bytes left over become two or three characters. The
  decoder skips carriage returns and line feeds, as Go's does, rejects any other character
  outside the alphabet (padding included) and a final quantum of a single character, and
  ignores the unused low bits of the last character (Go's default, non-strict mode).
\<close>

definition b64_char :: "nat \<Rightarrow> char" where
  "b64_char n =
     (if n < 26 then char_of (65 + n)
      else if n < 52 then char_of (71 + n)
      else if n < 62 then char_of (n - 4)
      else if n = 62 then CHR ''-'' else CHR ''_'')"

definition b64_val :: "char \<Rightarrow> nat option" where
  "b64_val c =
     (let n = of_char c :: nat
      in if 65 \<le> n \<and> n \<le> 90 then Some (n - 65)
         else if 97 \<le> n \<and> n \<le> 122 then Some (n - 71)
         else if 48 \<le> n \<and> n \<le> 57 then Some (n + 4)
         else if n = 45 then Some 62
         else if n = 95 then Some 63 else None)"

lemma b64_val_char: "n < 64 \<Longrightarrow> b64_val (b64_char n) = Some n"
  by (auto simp: b64_val_def b64_char_def Let_def)

lemma b64_char_not_newline: "b64_char n \<noteq> CHR 0x0A \<and> b64_char n \<noteq> CHR 0x0D"
proof -
  have "of_char (b64_char n) \<noteq> (10 :: nat) \<and> of_char (b64_char n) \<noteq> (13 :: nat)"
    by (auto simp: b64_char_def)
  then show ?thesis by auto
qed

text \<open>The packing of bytes into six-bit values.\<close>

fun b64_pack :: "nat list \<Rightarrow> nat list" where
  "b64_pack (a # b # c # bs) =
     (a div 4) # (a mod 4 * 16 + b div 16) # (b mod 16 * 4 + c div 64) # (c mod 64) # b64_pack bs"
| "b64_pack [a, b] = [a div 4, a mod 4 * 16 + b div 16, b mod 16 * 4]"
| "b64_pack [a] = [a div 4, a mod 4 * 16]"
| "b64_pack [] = []"

fun b64_unpack :: "nat list \<Rightarrow> nat list option" where
  "b64_unpack (w # x # y # z # vs) =
     map_option (\<lambda>bs. (w * 4 + x div 16) # (x mod 16 * 16 + y div 4) # (y mod 4 * 64 + z) # bs)
       (b64_unpack vs)"
| "b64_unpack [w, x, y] = Some [w * 4 + x div 16, x mod 16 * 16 + y div 4]"
| "b64_unpack [w, x] = Some [w * 4 + x div 16]"
| "b64_unpack [w] = None"
| "b64_unpack [] = Some []"

definition b64_encode :: "string \<Rightarrow> string" where
  "b64_encode s = map b64_char (b64_pack (map of_char s))"

fun b64_vals :: "string \<Rightarrow> nat list option" where
  "b64_vals [] = Some []"
| "b64_vals (c # cs) =
     (case b64_val c of None \<Rightarrow> None | Some v \<Rightarrow> map_option ((#) v) (b64_vals cs))"

definition b64_decode :: "string \<Rightarrow> string option" where
  "b64_decode s =
     (case b64_vals (filter (\<lambda>c. c \<noteq> CHR 0x0A \<and> c \<noteq> CHR 0x0D) s) of
        None \<Rightarrow> None
      | Some vs \<Rightarrow> map_option (map char_of) (b64_unpack vs))"

text \<open>Two digits in base \<open>m\<close> put together and taken apart again.\<close>

lemma join_div_mod:
  assumes "(y :: nat) < m"
  shows "(x * m + y) div m = x" and "(x * m + y) mod m = y"
  using assms by simp_all

lemma join_less: "(x :: nat) < n \<Longrightarrow> y < m \<Longrightarrow> x * m + y < n * m"
proof -
  assume "x < n" and "y < m"
  then have "x * m + y < Suc x * m" by simp
  also have "\<dots> \<le> n * m" using \<open>x < n\<close> by (intro mult_le_mono1) simp
  finally show ?thesis .
qed

lemma byte_div_bounds: "(b :: nat) < 256 \<Longrightarrow> b div 4 < 64 \<and> b div 16 < 16 \<and> b div 64 < 4"
  by (simp add: div_less_iff_less_mult)

lemma b64_unpack_pack: "\<forall>b \<in> set bs. b < 256 \<Longrightarrow> b64_unpack (b64_pack bs) = Some bs"
proof (induction bs rule: b64_pack.induct)
  case (1 a b c bs)
  then have "b64_unpack (b64_pack bs) = Some bs" and "b div 16 < 16" "c div 64 < 4"
    using byte_div_bounds by auto
  then show ?case by (simp add: join_div_mod del: div_mult2_eq)
next
  case (2 a b)
  then have "b div 16 < 16" using byte_div_bounds by auto
  then show ?case by (simp add: join_div_mod)
qed simp_all

lemma b64_pack_bound: "\<forall>b \<in> set bs. b < 256 \<Longrightarrow> \<forall>v \<in> set (b64_pack bs). v < 64"
proof (induction bs rule: b64_pack.induct)
  case (1 a b c bs)
  then have "a div 4 < 64" and "b div 16 < 16" and "c div 64 < 4"
    using byte_div_bounds by auto
  with 1 show ?case
    using join_less [of "a mod 4" 4 "b div 16" 16] join_less [of "b mod 16" 16 "c div 64" 4] by simp
next
  case (2 a b)
  then have "a div 4 < 64" and "b div 16 < 16" using byte_div_bounds by auto
  then show ?case
    using join_less [of "a mod 4" 4 "b div 16" 16] join_less [of "b mod 16" 16 0 4] by simp
next
  case (3 a)
  then have "a div 4 < 64" using byte_div_bounds by auto
  then show ?case using join_less [of "a mod 4" 4 0 16] by simp
qed simp

lemma b64_vals_map: "\<forall>v \<in> set vs. v < 64 \<Longrightarrow> b64_vals (map b64_char vs) = Some vs"
  by (induction vs) (simp_all add: b64_val_char)

lemma b64_encode_no_newline:
  "filter (\<lambda>c. c \<noteq> CHR 0x0A \<and> c \<noteq> CHR 0x0D) (b64_encode s) = b64_encode s"
  using b64_char_not_newline by (auto simp: b64_encode_def filter_id_conv)

lemma b64_decode_encode: "b64_decode (b64_encode s) = Some s"
proof -
  let ?bs = "map of_char s :: nat list"
  have b: "\<forall>b \<in> set ?bs. b < 256" by auto
  have "b64_vals (b64_encode s) = Some (b64_pack ?bs)"
    unfolding b64_encode_def by (rule b64_vals_map [OF b64_pack_bound [OF b]])
  then show ?thesis
    by (simp add: b64_decode_def b64_encode_no_newline b64_unpack_pack [OF b] comp_def)
qed

lemma b64_encode_Nil_iff [simp]: "b64_encode s = [] \<longleftrightarrow> s = []"
proof
  assume "b64_encode s = []"
  then have "b64_decode [] = Some s" using b64_decode_encode [of s] by simp
  then show "s = []" by (simp add: b64_decode_def)
qed (simp add: b64_encode_def)

text \<open>No character of an encoded string is a dot: a token's secret cannot contain one.\<close>

lemma b64_char_not_dot: "b64_char n \<noteq> CHR ''.''"
proof -
  have "of_char (b64_char n) \<noteq> (46 :: nat)" by (auto simp: b64_char_def)
  then show ?thesis by auto
qed

lemma b64_encode_no_dot: "CHR ''.'' \<notin> set (b64_encode s)"
proof
  assume "CHR ''.'' \<in> set (b64_encode s)"
  then obtain n where "b64_char n = CHR ''.''" by (auto simp: b64_encode_def)
  then show False using b64_char_not_dot by blast
qed

end
