(* ===== verification/Feed.thy ===== *)
theory Feed
  imports Video Base64
begin

text \<open>
  \<open>internal/feed\<close>: the cursor and its wire format, the pull fetcher (keyset pages of the
  \<open>videos\<close> table), the push fetcher (a sorted set in Redis, hydrated from Postgres), and the
  handler. The JSON form of a cursor is a parameter with a round-trip law (\<open>cursor_codec\<close>);
  base64 is the definition of theory Base64. The scores are the float64 of a count of
  microseconds, which is exact below \<open>2 ^ 53\<close>; they are integers here.
\<close>

section \<open>Cursors\<close>

record cursor =
  cur_created :: gotime
  cur_id :: uuid

definition zero_cursor :: cursor where
  "zero_cursor = \<lparr>cur_created = 0, cur_id = uuid_nil\<rparr>"

text \<open>The error of \<open>json.Marshal\<close> is dropped, with an empty payload.\<close>

definition cursor_encode :: "cursor codec \<Rightarrow> cursor \<Rightarrow> string" where
  "cursor_encode C c = b64_encode (case marshal C c of Some b \<Rightarrow> b | None \<Rightarrow> [])"

definition cursor_decode :: "cursor codec \<Rightarrow> string \<Rightarrow> cursor result" where
  "cursor_decode C s =
     (if s = [] then Inr zero_cursor
      else case b64_decode s of
             None \<Rightarrow> Inl ErrInvalidCursor
           | Some raw \<Rightarrow>
               (case unmarshal C raw of
                  None \<Rightarrow> Inl ErrInvalidCursor
                | Some c \<Rightarrow> if cur_id c = uuid_nil \<or> cur_created c = 0 then Inl ErrInvalidCursor else Inr c))"

definition cursor_is_zero :: "cursor \<Rightarrow> bool" where
  "cursor_is_zero c \<longleftrightarrow> cur_id c = uuid_nil \<and> cur_created c = 0"

definition cursor_at :: "video \<Rightarrow> cursor" where
  "cursor_at v = \<lparr>cur_created = v_created_at v, cur_id = v_id v\<rparr>"

record page =
  page_items :: "video list"
  page_next :: string

text \<open>The interface \<open>Fetcher\<close>.\<close>

type_synonym 'w fetcher = "cursor \<Rightarrow> int \<Rightarrow> 'w \<Rightarrow> page result \<times> 'w"

section \<open>Pull\<close>

definition pull_fetch ::
  "cursor codec \<Rightarrow> (gotime \<Rightarrow> uuid \<Rightarrow> int \<Rightarrow> 'w \<Rightarrow> video list result \<times> 'w) \<Rightarrow> 'w fetcher"
where
  "pull_fetch C feed_page cur limit w =
     (if limit \<le> 0 then (Inl (Plain ''limit must be positive''), w)
      else case feed_page (cur_created cur) (cur_id cur) (wrap64 (limit + 1)) w of
             (Inl e, w') \<Rightarrow> (Inl (Wrapped ''pull feed query'' e), w')
           | (Inr rows, w') \<Rightarrow>
               (if int (length rows) > limit
                then (Inr \<lparr>page_items = take (nat limit) rows,
                           page_next = cursor_encode C (cursor_at (rows ! (nat limit - 1)))\<rparr>, w')
                else (Inr \<lparr>page_items = rows, page_next = []\<rparr>, w')))"

section \<open>Push\<close>

definition feed_global_key :: string where
  "feed_global_key = ''feed:global''"

definition push_cap :: "int \<Rightarrow> int" where
  "push_cap cap = (if cap \<le> 0 then 1000 else cap)"

definition score_for :: "gotime \<Rightarrow> int" where
  "score_for t = unix_micro t"

definition feed_entry :: "'z libs_scheme \<Rightarrow> video \<Rightarrow> int \<times> string" where
  "feed_entry L v = (score_for (v_created_at v), uuid_str L (v_id v))"

text \<open>The two commands travel in one pipeline. A failure is logged and forgotten.\<close>

definition push_publish :: "('s, 'z) redis_scheme \<Rightarrow> int \<Rightarrow> video \<Rightarrow> 's world \<Rightarrow> 's world" where
  "push_publish R cap v w =
     snd (redis_call (writing (\<lambda>s.
       rZREMRANGEBYRANK R feed_global_key 0 (- cap - 1) (rZADD R feed_global_key [feed_entry R v] s))) w)"

definition push_warmup ::
  "('s, 'z) redis_scheme \<Rightarrow> (gotime \<Rightarrow> uuid \<Rightarrow> int \<Rightarrow> 's world \<Rightarrow> video list result \<times> 's world) \<Rightarrow> int
     \<Rightarrow> 's world \<Rightarrow> unit result \<times> 's world"
where
  "push_warmup R feed_page cap w =
     (case feed_page 0 uuid_nil cap w of
        (Inl e, w') \<Rightarrow> (Inl (Wrapped ''warmup query'' e), w')
      | (Inr rows, w') \<Rightarrow>
          (if rows = [] then (Inr (), w')
           else case redis_call (writing (rZADD R feed_global_key (map (feed_entry R) rows))) w' of
                  (Inl e, w'') \<Rightarrow> (Inl (Wrapped ''warmup zadd'' e), w'')
                | (Inr _, w'') \<Rightarrow> (Inr (), w'')))"

text \<open>The map from ids to their positions; a later occurrence overwrites an earlier one, and an
  id that is not there has Go's zero value.\<close>

definition order_of :: "uuid list \<Rightarrow> uuid \<Rightarrow> nat" where
  "order_of us u = (case map_of (rev (zip us [0..<length us])) u of Some i \<Rightarrow> i | None \<Rightarrow> 0)"

text \<open>The inner loop of \<open>sortByOrder\<close> swaps the element at \<open>j\<close> towards the front.\<close>

fun sift_down :: "('a \<Rightarrow> nat) \<Rightarrow> nat \<Rightarrow> 'a list \<Rightarrow> 'a list" where
  "sift_down key 0 vs = vs"
| "sift_down key (Suc j) vs =
     (if key (vs ! Suc j) < key (vs ! j)
      then sift_down key j (vs[Suc j := vs ! j, j := vs ! Suc j]) else vs)"

definition sort_by_order :: "('a \<Rightarrow> nat) \<Rightarrow> 'a list \<Rightarrow> 'a list" where
  "sort_by_order key vs = fold (sift_down key) [1..<length vs] vs"

definition push_fetch ::
  "('s, 'z) redis_scheme \<Rightarrow> cursor codec \<Rightarrow> (uuid list \<Rightarrow> 's world \<Rightarrow> video list result \<times> 's world)
     \<Rightarrow> 's world fetcher"
where
  "push_fetch R C find_by_ids cur limit w =
     (if limit \<le> 0 then (Inl (Plain ''limit must be positive''), w)
      else
        (let mx = (if cursor_is_zero cur then None else Some (score_for (cur_created cur)))
         in case redis_call (reading (rZREVRANGEBYSCORE R feed_global_key mx (nat (wrap64 (limit + 1))))) w of
              (Inl e, w') \<Rightarrow> (Inl (Wrapped ''push feed zrange'' e), w')
            | (Inr ids, w') \<Rightarrow>
                (if ids = [] then (Inr \<lparr>page_items = [], page_next = []\<rparr>, w')
                 else
                   (let uuids = List.map_filter (uuid_parse R) ids
                    in case find_by_ids uuids w' of
                         (Inl e, w'') \<Rightarrow> (Inl (Wrapped ''push feed hydrate'' e), w'')
                       | (Inr vs, w'') \<Rightarrow>
                           (let sorted = sort_by_order (\<lambda>v. order_of uuids (v_id v)) vs
                            in if int (length sorted) > limit
                               then (Inr \<lparr>page_items = take (nat limit) sorted,
                                          page_next = cursor_encode C (cursor_at (sorted ! (nat limit - 1)))\<rparr>, w'')
                               else (Inr \<lparr>page_items = sorted, page_next = []\<rparr>, w''))))))"

section \<open>The handler\<close>

record feed_handler =
  fh_default :: int
  fh_max :: int

definition new_feed_handler :: "int \<Rightarrow> int \<Rightarrow> feed_handler" where
  "new_feed_handler page_default page_max =
     (let d = (if page_default \<le> 0 then 20 else page_default);
          m = (if page_max \<le> 0 \<or> page_max < d then 50 else page_max)
      in \<lparr>fh_default = d, fh_max = m\<rparr>)"

text \<open>The limit of the query string: the default when it is missing, capped by the maximum.\<close>

definition feed_limit :: "feed_handler \<Rightarrow> string \<Rightarrow> int option" where
  "feed_limit h raw =
     (if raw = [] then Some (fh_default h)
      else case parse_int raw of
             None \<Rightarrow> None
           | Some n \<Rightarrow> if n \<le> 0 then None else Some (if n > fh_max h then fh_max h else n))"

definition handle_feed ::
  "cursor codec \<Rightarrow> 'w fetcher \<Rightarrow> feed_handler \<Rightarrow> string \<Rightarrow> string \<Rightarrow> 'w \<Rightarrow> video list response \<times> 'w"
where
  "handle_feed C fetch h cursor_str limit_str w =
     (case cursor_decode C cursor_str of
        Inl e \<Rightarrow> (httpx_error 400 ''validation_failed'' ''invalid cursor'', w)
      | Inr cur \<Rightarrow>
          (case feed_limit h limit_str of
             None \<Rightarrow> (httpx_error 400 ''validation_failed'' ''limit must be a positive integer'', w)
           | Some limit \<Rightarrow>
               (case fetch cur limit w of
                  (Inl e, w') \<Rightarrow>
                    (if errors_is e ErrInvalidCursor
                     then httpx_error 400 ''validation_failed'' ''invalid cursor''
                     else httpx_error 500 ''internal_error'' ''feed query failed'', w')
                | (Inr p, w') \<Rightarrow>
                    (httpx_ok_meta (page_items p)
                       (PageMeta (page_next p) limit (int (length (page_items p)))), w'))))"

section \<open>Reading the whole feed\<close>

text \<open>A client that follows the cursors of the responses until there is none, with at most the
  given number of requests: all the items in order, or nothing when a request fails or the
  requests run out.\<close>

fun feed_walk ::
  "cursor codec \<Rightarrow> 'w fetcher \<Rightarrow> feed_handler \<Rightarrow> string \<Rightarrow> nat \<Rightarrow> string \<Rightarrow> 'w \<Rightarrow> video list option"
where
  "feed_walk C fetch h limit_str 0 cursor_str w = None"
| "feed_walk C fetch h limit_str (Suc n) cursor_str w =
     (case handle_feed C fetch h cursor_str limit_str w of
        (resp, w') \<Rightarrow>
          (case (resp_data resp, resp_meta resp) of
             (Some items, PageMeta next _ _) \<Rightarrow>
               (if next = [] then Some items
                else map_option ((@) items) (feed_walk C fetch h limit_str n next w'))
           | _ \<Rightarrow> None))"

section \<open>Pages of a descending list\<close>

lemma newest_first_filter: "newest_first (filter P vs) = filter P (newest_first vs)"
  by (simp add: newest_first_def filter_sort flip: rev_filter)

lemma set_newest_first [simp]: "set (newest_first vs) = set vs"
  by (simp add: newest_first_def)

lemma length_newest_first [simp]: "length (newest_first vs) = length vs"
  by (simp add: newest_first_def)

text \<open>The newest first, strictly: no two videos share a creation time and an id.\<close>

definition descending :: "video list \<Rightarrow> bool" where
  "descending vs \<longleftrightarrow> sorted_wrt (\<lambda>a b. feed_key b < feed_key a) vs"

lemma newest_first_descending:
  assumes "distinct (map v_id vs)"
  shows "descending (newest_first vs)"
proof -
  have "inj_on feed_key (set vs)"
    using assms by (auto simp: inj_on_def feed_key_def distinct_map)
  then have "distinct (map feed_key (sort_key feed_key vs))"
    using assms by (simp add: distinct_map)
  moreover have "sorted (map feed_key (sort_key feed_key vs))" by simp
  ultimately have "sorted_wrt (<) (map feed_key (sort_key feed_key vs))"
    by (simp add: strict_sorted_iff)
  then show ?thesis by (simp add: descending_def newest_first_def sorted_wrt_rev sorted_wrt_map)
qed

lemma descending_tail:
  assumes "descending vs" and "k < length vs"
  shows "filter (\<lambda>v. feed_key v < feed_key (vs ! k)) vs = drop (Suc k) vs"
proof -
  have front: "\<not> feed_key v < feed_key (vs ! k)" if "v \<in> set (take (Suc k) vs)" for v
  proof -
    from that obtain j where j: "j \<le> k" "v = vs ! j"
      using assms(2) by (auto simp: in_set_conv_nth less_Suc_eq_le)
    show ?thesis
    proof (cases "j = k")
      case False
      then have "j < k" using j(1) by simp
      then have "feed_key (vs ! k) < feed_key (vs ! j)"
        using assms sorted_wrt_nth_less [of "\<lambda>a b. feed_key b < feed_key a" vs j k] by (simp add: descending_def)
      with j(2) show ?thesis by auto
    qed (simp add: j)
  qed
  have later: "feed_key v < feed_key (vs ! k)" if "v \<in> set (drop (Suc k) vs)" for v
  proof -
    from that obtain j where "j < length (drop (Suc k) vs)" "v = drop (Suc k) vs ! j"
      by (metis in_set_conv_nth)
    then have "Suc k + j < length vs" and v: "v = vs ! (Suc k + j)" by simp_all
    then show ?thesis unfolding v
      using assms sorted_wrt_nth_less [of "\<lambda>a b. feed_key b < feed_key a" vs k "Suc k + j"] by (simp add: descending_def)
  qed
  have "filter (\<lambda>v. feed_key v < feed_key (vs ! k)) (take (Suc k) vs @ drop (Suc k) vs) = drop (Suc k) vs"
    unfolding filter_append using front later by (simp add: filter_empty_conv filter_True)
  then show ?thesis by simp
qed

section \<open>The cursor on the wire\<close>

locale cursor_codec = json_codec C fits for C :: "cursor codec" and fits +
  assumes nonempty: "marshal C c = Some b \<Longrightarrow> b \<noteq> []"
begin

lemma cursor_round_trip:
  assumes "fits c" and "cur_id c \<noteq> uuid_nil" and "cur_created c \<noteq> 0"
  shows "cursor_decode C (cursor_encode C c) = Inr c" and "cursor_encode C c \<noteq> []"
proof -
  obtain b where b: "marshal C c = Some b" and u: "unmarshal C b = Some c" using round_trip [OF assms(1)] by blast
  then have ne: "cursor_encode C c \<noteq> []" using nonempty by (simp add: cursor_encode_def)
  then show "cursor_encode C c \<noteq> []" .
  show "cursor_decode C (cursor_encode C c) = Inr c"
    using ne b u assms(2,3) by (simp add: cursor_decode_def cursor_encode_def b64_decode_encode)
qed

end

definition ref_cursor_codec :: "cursor codec" where
  "ref_cursor_codec =
     \<lparr>marshal = (\<lambda>c. Some (pack [format_int (cur_created c), ref_uuid_str (cur_id c)])),
      unmarshal = (\<lambda>s. case unpack s of
          Some [t, i] \<Rightarrow>
            (case (ref_int_parse t, ref_uuid_parse i) of
               (Some t, Some i) \<Rightarrow> Some \<lparr>cur_created = t, cur_id = i\<rparr> | _ \<Rightarrow> None)
        | _ \<Rightarrow> None)\<rparr>"

lemma pack_field_nonempty [simp]: "pack_field f \<noteq> []"
  by (cases f) simp_all

interpretation ref_cursors: cursor_codec ref_cursor_codec "\<lambda>_. True"
proof
  show "\<exists>b. marshal ref_cursor_codec c = Some b \<and> unmarshal ref_cursor_codec b = Some c" for c
    by (simp add: ref_cursor_codec_def)
  show "marshal ref_cursor_codec c = Some b \<Longrightarrow> b \<noteq> []" for c b
    by (auto simp: ref_cursor_codec_def pack_def)
qed

section \<open>The pull feed\<close>

text \<open>A source of pages, as the fetchers use it: from the start, or strictly after a key.\<close>

definition page_after :: "cursor \<Rightarrow> video list \<Rightarrow> video list" where
  "page_after c vs =
     (if cursor_is_zero c then newest_first vs
      else filter (\<lambda>v. feed_key v < (cur_created c, cur_id c)) (newest_first vs))"

lemma pg_feed_page_after:
  assumes "pgnet w = []" and "pg_time (cur_created c) = cur_created c" and "0 < n"
  shows "pg_feed_page (cur_created c) (cur_id c) n w = (Inr (take (nat n) (page_after c (videos (pg w)))), w)"
  using assms by (auto simp: pg_feed_page_def pg_call_up page_after_def cursor_is_zero_def newest_first_filter)

locale pull_source =
  fixes feed_page :: "gotime \<Rightarrow> uuid \<Rightarrow> int \<Rightarrow> 'w \<Rightarrow> video list result \<times> 'w"
    and rows :: "'w \<Rightarrow> video list" and up :: "'w \<Rightarrow> bool"
  assumes feed_page: "up w \<Longrightarrow> pg_time (cur_created c) = cur_created c \<Longrightarrow> 0 < n \<Longrightarrow>
      feed_page (cur_created c) (cur_id c) n w = (Inr (take (nat n) (page_after c (rows w))), w)"
begin

text \<open>One page: the next \<open>limit\<close> videos after the cursor, and a cursor exactly when there are more.\<close>

lemma pull_fetch_page:
  assumes "up w" and "pg_time (cur_created c) = cur_created c" and "0 < limit" and "limit < 2 ^ 63 - 1"
  shows "pull_fetch C feed_page c limit w =
    (let rest = page_after c (rows w)
     in (Inr \<lparr>page_items = take (nat limit) rest,
              page_next = (if nat limit < length rest then cursor_encode C (cursor_at (rest ! (nat limit - 1))) else [])\<rparr>, w))"
proof -
  have n: "wrap64 (limit + 1) = limit + 1" using assms(3,4) by (intro wrap64_id) (simp add: in_int64_def)
  have nat: "nat (limit + 1) = Suc (nat limit)" using assms(3) by simp
  have call: "feed_page (cur_created c) (cur_id c) (limit + 1) w =
      (Inr (take (Suc (nat limit)) (page_after c (rows w))), w)"
    using feed_page [OF assms(1,2), of "limit + 1"] assms(3) nat by simp
  show ?thesis
  proof (cases "nat limit < length (page_after c (rows w))")
    case True
    then have "limit < int (min (length (page_after c (rows w))) (Suc (nat limit)))" using assms(3) by linarith
    moreover have "take (nat limit) (take (Suc (nat limit)) (page_after c (rows w))) = take (nat limit) (page_after c (rows w))"
      by simp
    moreover have "take (Suc (nat limit)) (page_after c (rows w)) ! (nat limit - 1) = page_after c (rows w) ! (nat limit - 1)"
      by simp
    ultimately show ?thesis using True assms(3) unfolding pull_fetch_def n call by (simp add: Let_def)
  next
    case False
    then have "\<not> limit < int (min (length (page_after c (rows w))) (Suc (nat limit)))" using assms(3) by linarith
    moreover have "take (Suc (nat limit)) (page_after c (rows w)) = page_after c (rows w)"
      "take (nat limit) (page_after c (rows w)) = page_after c (rows w)" using False by simp_all
    ultimately show ?thesis using False assms(3) unfolding pull_fetch_def n call by (simp add: Let_def)
  qed
qed

end

interpretation pg_source: pull_source pg_feed_page "\<lambda>w. videos (pg w)" "\<lambda>w. pgnet w = []"
  by unfold_locales (rule pg_feed_page_after)

text \<open>What a video needs for its place in the feed to survive the wire: a creation time of whole
  microseconds (the resolution of the column), not the zero time, and an id that is not nil.\<close>

definition feedable :: "(cursor \<Rightarrow> bool) \<Rightarrow> video \<Rightarrow> bool" where
  "feedable fits v \<longleftrightarrow> fits (cursor_at v) \<and> v_id v \<noteq> uuid_nil \<and> v_created_at v \<noteq> 0
     \<and> pg_time (v_created_at v) = v_created_at v"

lemma page_after_video:
  assumes "v_id v \<noteq> uuid_nil"
  shows "page_after (cursor_at v) vs = filter (\<lambda>u. feed_key u < feed_key v) (newest_first vs)"
  using assms by (simp add: page_after_def cursor_at_def cursor_is_zero_def feed_key_def)

lemma page_after_start: "page_after zero_cursor vs = newest_first vs"
  by (simp add: page_after_def zero_cursor_def cursor_is_zero_def)

context pull_source
begin

lemma feed_walk_from:
  assumes codec: "cursor_codec C fits" and "up w" and lim: "feed_limit h raw = Some limit" "0 < limit" "limit < 2 ^ 63 - 1"
    and keyed: "distinct (map v_id (rows w))" and ok: "\<forall>v \<in> set (rows w). feedable fits v"
    and dec: "cursor_decode C s = Inr c" "pg_time (cur_created c) = cur_created c"
    and rest: "page_after c (rows w) = drop k (newest_first (rows w))"
    and fuel: "length (rows w) - k < n" and k: "k \<le> length (rows w)"
  shows "feed_walk C (pull_fetch C feed_page) h raw n s w = Some (drop k (newest_first (rows w)))"
  using dec rest fuel k
proof (induction n arbitrary: s c k)
  case 0
  then show ?case by simp
next
  case (Suc n)
  let ?L = "newest_first (rows w)"
  define m where "m = nat limit"
  have m: "0 < m" using lim(2) by (simp add: m_def)
  let ?next = "if m < length (drop k ?L) then cursor_encode C (cursor_at (drop k ?L ! (m - 1))) else []"
  have h: "handle_feed C (pull_fetch C feed_page) h s raw w =
      (httpx_ok_meta (take m (drop k ?L)) (PageMeta ?next limit (int (length (take m (drop k ?L))))), w)"
    using pull_fetch_page [OF assms(2) Suc.prems(2) lim(2,3), of C] Suc.prems(1,3) lim(1)
    by (simp add: handle_feed_def Let_def m_def)
  show ?case
  proof (cases "m < length (drop k ?L)")
    case False
    then show ?thesis by (simp add: h httpx_ok_meta_def)
  next
    case True
    let ?j = "k + (m - 1)"
    have j: "?j < length ?L" "drop k ?L ! (m - 1) = ?L ! ?j" using True m by simp_all
    have v: "feedable fits (?L ! ?j)" using ok nth_mem [OF j(1)] by simp
    then have f: "fits (cursor_at (?L ! ?j))" "cur_id (cursor_at (?L ! ?j)) \<noteq> uuid_nil"
      "cur_created (cursor_at (?L ! ?j)) \<noteq> 0" "v_id (?L ! ?j) \<noteq> uuid_nil"
      and t: "pg_time (cur_created (cursor_at (?L ! ?j))) = cur_created (cursor_at (?L ! ?j))"
      by (simp_all add: feedable_def cursor_at_def)
    note rt = cursor_codec.cursor_round_trip [OF codec f(1-3)]
    have "Suc ?j = k + m" using m by simp
    then have r: "page_after (cursor_at (?L ! ?j)) (rows w) = drop (k + m) ?L"
      using descending_tail [OF newest_first_descending [OF keyed] j(1)] page_after_video [OF f(4)] by simp
    have fu: "length (rows w) - (k + m) < n" and km: "k + m \<le> length (rows w)" using Suc.prems(4) True m by simp_all
    have "feed_walk C (pull_fetch C feed_page) h raw n (cursor_encode C (cursor_at (?L ! ?j))) w = Some (drop (k + m) ?L)"
      by (rule Suc.IH [OF rt(1) t r fu km])
    moreover have "take m (drop k ?L) @ drop (k + m) ?L = drop k ?L"
      using append_take_drop_id [of m "drop k ?L"] by (simp add: add.commute)
    ultimately show ?thesis using True rt(2) by (simp add: h httpx_ok_meta_def j(2))
  qed
qed

end

text \<open>
  C14. Reading the feed to the end (pull mode): a client that sends back the cursor of each
  response, with any valid limit, is done after at most one request more than there are videos,
  and has received every video exactly once, newest first - through the handler, the JSON and
  base64 of the cursor, and the keyset query. Creation times may coincide.
\<close>

theorem pull_feed_is_complete:
  assumes "cursor_codec C fits" and "pgnet w = []" and "videos_keyed (pg w)"
    and "\<forall>v \<in> set (videos (pg w)). feedable fits v"
    and "feed_limit (new_feed_handler page_default page_max) raw = Some limit" and "limit < 2 ^ 63 - 1"
    and "length (videos (pg w)) < n"
  shows "feed_walk C (pull_fetch C pg_feed_page) (new_feed_handler page_default page_max) raw n [] w =
    Some (newest_first (videos (pg w)))"
proof -
  have lim: "0 < limit"
    using assms(5) by (auto simp: feed_limit_def new_feed_handler_def Let_def split: if_splits option.splits)
  have "cursor_decode C [] = Inr zero_cursor" by (simp add: cursor_decode_def)
  moreover have "pg_time (cur_created zero_cursor) = cur_created zero_cursor"
    by (simp add: zero_cursor_def pg_time_def)
  ultimately show ?thesis
    using pg_source.feed_walk_from [OF assms(1,2,5) lim assms(6), where s = "[]" and c = zero_cursor and k = 0 and n = n]
      assms(3,4,7)
    by (simp add: videos_keyed_def page_after_start)
qed

definition feed_video :: "uuid \<Rightarrow> gotime \<Rightarrow> video" where
  "feed_video i t = example_video\<lparr>v_id := i, v_created_at := t\<rparr>"

definition feed_world :: "keyspace world" where
  "feed_world = (new_world Map.empty)\<lparr>pg := empty_postgres\<lparr>videos :=
     [feed_video 1 5000, feed_video 3 5000, feed_video 2 9000, feed_video 4 1000, feed_video 5 7000]\<rparr>\<rparr>"

lemma feed_world_simps [simp]:
  "pgnet feed_world = []" "net feed_world = []" "videos (pg feed_world) =
     [feed_video 1 5000, feed_video 3 5000, feed_video 2 9000, feed_video 4 1000, feed_video 5 7000]"
  by (simp_all add: feed_world_def new_world_def)

lemma feed_world_ok: "videos_keyed (pg feed_world)" "\<forall>v \<in> set (videos (pg feed_world)). feedable (\<lambda>_. True) v"
  by (simp_all add: videos_keyed_def feedable_def feed_video_def example_video_def pg_time_def)

theorem pull_feed_is_complete_witness:
  "feed_walk ref_cursor_codec (pull_fetch ref_cursor_codec pg_feed_page) (new_feed_handler 0 0) ''2'' 6 [] feed_world =
     Some [feed_video 2 9000, feed_video 5 7000, feed_video 3 5000, feed_video 1 5000, feed_video 4 1000]"
proof -
  have "feed_limit (new_feed_handler 0 0) ''2'' = Some 2"
    by (simp add: feed_limit_def new_feed_handler_def parse_int_def char_digit_def in_int64_def)
  moreover have "newest_first (videos (pg feed_world)) =
      [feed_video 2 9000, feed_video 5 7000, feed_video 3 5000, feed_video 1 5000, feed_video 4 1000]"
    by (simp add: newest_first_def feed_key_def feed_video_def example_video_def)
  ultimately show ?thesis
    using pull_feed_is_complete [OF ref_cursors.cursor_codec_axioms _ feed_world_ok, of 0 0 "''2''" 2 6] by simp
qed

end
