(* ===== verification/FeedPush.thy ===== *)
theory FeedPush
  imports Feed "HOL-Library.Multiset"
begin

text \<open>
  The push feed against the pull feed: \<open>sortByOrder\<close> sorts, publishing keeps the sorted set
  equal to the newest videos, the warm-up establishes that, and while it holds a page of the push
  feed is the page of the pull feed.
\<close>

section \<open>The insertion sort\<close>

text \<open>The inner loop moves the element after a sorted prefix to its place in it.\<close>

lemma sift_down_sorts:
  assumes "sorted (map key xs)"
  shows "\<exists>zs. sift_down key (length xs) (xs @ x # ys) = zs @ ys \<and> mset zs = mset (x # xs) \<and> sorted (map key zs)"
  using assms
proof (induction xs arbitrary: ys rule: rev_induct)
  case Nil
  show ?case by (intro exI [of _ "[x]"]) simp
next
  case (snoc y xs)
  show ?case
  proof (cases "key x < key y")
    case True
    obtain zs where zs: "sift_down key (length xs) (xs @ x # y # ys) = zs @ y # ys" "mset zs = mset (x # xs)"
      "sorted (map key zs)"
      using snoc.IH [of "y # ys"] snoc.prems by (auto simp: sorted_append)
    have "\<forall>z \<in> set zs. key z \<le> key y"
      using snoc.prems True mset_eq_setD [OF zs(2)] by (auto simp: sorted_append)
    then show ?thesis
      using zs True by (intro exI [of _ "zs @ [y]"]) (auto simp: nth_append list_update_append sorted_append)
  next
    case False
    then show ?thesis using snoc.prems
      by (intro exI [of _ "xs @ [y, x]"]) (auto simp: nth_append sorted_append)
  qed
qed

lemma fold_sift_down:
  "Suc n \<le> length vs \<Longrightarrow> \<exists>zs. fold (sift_down key) [1..<Suc n] vs = zs @ drop (Suc n) vs
    \<and> mset zs = mset (take (Suc n) vs) \<and> sorted (map key zs)"
proof (induction n)
  case 0
  then show ?case by (cases vs) (auto intro: exI [of _ "take 1 vs"])
next
  case (Suc n)
  then obtain zs where zs: "fold (sift_down key) [1..<Suc n] vs = zs @ drop (Suc n) vs"
    "mset zs = mset (take (Suc n) vs)" "sorted (map key zs)" by auto
  have len: "length zs = Suc n" using mset_eq_length [OF zs(2)] Suc.prems by simp
  have d: "drop (Suc n) vs = vs ! Suc n # drop (Suc (Suc n)) vs" using Suc.prems by (simp add: Cons_nth_drop_Suc)
  obtain ys where ys: "sift_down key (length zs) (zs @ vs ! Suc n # drop (Suc (Suc n)) vs) = ys @ drop (Suc (Suc n)) vs"
    "mset ys = mset (vs ! Suc n # zs)" "sorted (map key ys)" using sift_down_sorts [OF zs(3)] by blast
  have "fold (sift_down key) [1..<Suc (Suc n)] vs = ys @ drop (Suc (Suc n)) vs"
    using zs(1) ys(1) unfolding len d by simp
  moreover have "mset ys = mset (take (Suc (Suc n)) vs)"
    using ys(2) zs(2) Suc.prems by (simp add: take_Suc_conv_app_nth)
  ultimately show ?case using ys(3) by blast
qed

lemma sort_by_order_sorts:
  "mset (sort_by_order key vs) = mset vs" "sorted (map key (sort_by_order key vs))"
proof -
  have "mset (sort_by_order key vs) = mset vs \<and> sorted (map key (sort_by_order key vs))"
  proof (cases "length vs")
    case 0
    then show ?thesis by (simp add: sort_by_order_def)
  next
    case (Suc n)
    then show ?thesis using fold_sift_down [of n vs key] by (auto simp: sort_by_order_def simp del: upt_Suc)
  qed
  then show "mset (sort_by_order key vs) = mset vs" "sorted (map key (sort_by_order key vs))" by simp_all
qed

text \<open>With no two keys equal, the result is the one arrangement in order.\<close>

lemma sort_by_order_unique:
  assumes "mset vs = mset us" and "sorted (map key us)" and "inj_on key (set us)"
  shows "sort_by_order key vs = us"
proof -
  have "sort_key key us = sort_by_order key vs"
    using sort_by_order_sorts [of key vs] assms by (intro sort_key_inj_key_eq) simp_all
  moreover have "sort_key key us = us" using assms(2,3) by (intro sort_key_inj_key_eq) simp_all
  ultimately show ?thesis by simp
qed

section \<open>The newest entries\<close>

text \<open>What the sorted set should hold: the entries of the videos, at most \<open>cap\<close> of them, the ones
  with the highest scores.\<close>

definition newest_entries :: "'z libs_scheme \<Rightarrow> int \<Rightarrow> video list \<Rightarrow> (int \<times> string) list" where
  "newest_entries L cap vs = (let es = sort (map (feed_entry L) vs) in drop (length es - nat cap) es)"

definition feed_mirror ::
  "('s, 'z) redis_scheme \<Rightarrow> ('s \<Rightarrow> keyspace) \<Rightarrow> int \<Rightarrow> video list \<Rightarrow> 's \<Rightarrow> bool"
where
  "feed_mirror R ks cap vs s \<longleftrightarrow> is_zset (ks s feed_global_key)
     \<and> zset_val (ks s feed_global_key) = newest_entries R cap vs"

text \<open>Keeping the last of a sorted list before or after an insertion makes no difference.\<close>

lemma insort_drop:
  "sorted (ys @ zs) \<Longrightarrow> drop (Suc (length ys)) (insort a (ys @ zs)) = drop 1 (insort a zs)"
proof (induction ys)
  case Nil
  then show ?case by simp
next
  case (Cons y ys)
  show ?case
  proof (cases "a \<le> y")
    case True
    then have "\<forall>z \<in> set zs. a \<le> z" using Cons.prems by force
    then have "insort a zs = a # zs" by (cases zs) simp_all
    then show ?thesis using True by simp
  next
    case False
    then show ?thesis using Cons by simp
  qed
qed

lemma insort_last:
  fixes xs :: "'a :: linorder list"
  assumes "sorted xs"
  shows "drop (length xs + 1 - n) (insort a xs) =
    drop (length (drop (length xs - n) xs) + 1 - n) (insort a (drop (length xs - n) xs))"
proof (cases "n < length xs")
  case True
  let ?d = "length xs - n"
  have "length xs + 1 - n = Suc (length (take ?d xs))" using True by simp
  then show ?thesis using insort_drop [of "take ?d xs" "drop ?d xs" a] assms True by simp
next
  case False
  then show ?thesis by simp
qed

lemma sort_snoc: "sort (xs @ [x]) = insort x (sort (xs :: 'a :: linorder list))"
  by (rule properties_for_sort) (simp_all add: sorted_insort)

lemma zset_remrange_oldest:
  assumes "0 < cap"
  shows "zset_remrange 0 (- cap - 1) z = drop (length z - nat cap) z"
  using assms by (auto simp: zset_remrange_def rank_index_def Let_def nat_diff_distrib min_def intro!: arg_cong2 [of _ _ _ _ drop])

lemma is_zset_ok: "is_zset e \<Longrightarrow> sorted (zset_val e) \<and> distinct (map snd (zset_val e))"
  by (cases e rule: is_zset.cases) simp_all

lemma distinct_map_insort: "distinct (map f (insort x xs)) \<longleftrightarrow> f x \<notin> f ` set xs \<and> distinct (map f xs)"
  by (induction xs) (auto simp: set_insort_key)

lemma zset_add_ok:
  assumes "sorted z \<and> distinct (map snd z)"
  shows "sorted (zset_add z e) \<and> distinct (map snd (zset_add z e))"
  using assms sorted_filter [of "\<lambda>x. x" z]
  by (auto simp: zset_add_def sorted_insort distinct_map_insort map_fst_filter_distinct)

context redis_server
begin

lemma newest_entries_snoc:
  assumes "v_id v \<notin> v_id ` set vs"
  shows "newest_entries R cap (vs @ [v]) =
    (let z = zset_add (newest_entries R cap vs) (feed_entry R v) in drop (length z - nat cap) z)"
proof -
  let ?es = "sort (map (feed_entry R) vs)" and ?e = "feed_entry R v"
  have "snd x \<noteq> snd ?e" if "x \<in> set (newest_entries R cap vs)" for x
  proof -
    have "x \<in> feed_entry R ` set vs" using that by (auto simp: newest_entries_def Let_def dest: in_set_dropD)
    then obtain u where "u \<in> set vs" and x: "x = feed_entry R u" by blast
    then have "v_id u \<noteq> v_id v" using assms by (metis image_eqI)
    then show ?thesis by (simp add: x feed_entry_def)
  qed
  then have "zset_add (newest_entries R cap vs) ?e = insort ?e (newest_entries R cap vs)"
    by (simp add: zset_add_def filter_True)
  then show ?thesis
    using insort_last [of ?es "nat cap" ?e] by (simp add: newest_entries_def sort_snoc Let_def)
qed

lemma publish_mirror:
  assumes "net w = []" and "0 < cap" and "feed_mirror R ks cap vs (srv w)" and "v_id v \<notin> v_id ` set vs"
    and "w' = push_publish R cap v w"
  shows "feed_mirror R ks cap (vs @ [v]) (srv w')" and "net w' = []" and "stores_same w w'"
    and "\<forall>k. k \<noteq> feed_global_key \<longrightarrow> ks (srv w') k = ks (srv w) k"
proof -
  let ?s1 = "rZADD R feed_global_key [feed_entry R v] (srv w)"
  have w': "w' = w\<lparr>srv := rZREMRANGEBYRANK R feed_global_key 0 (- cap - 1) ?s1\<rparr>"
    using assms(1,5) by (simp add: push_publish_def redis_call_up)
  have z: "is_zset (ks (srv w) feed_global_key)" "zset_val (ks (srv w) feed_global_key) = newest_entries R cap vs"
    using assms(3) by (simp_all add: feed_mirror_def)
  let ?z = "zset_add (newest_entries R cap vs) (feed_entry R v)"
  have s1: "ks ?s1 = (ks (srv w))(feed_global_key \<mapsto> (RZset ?z, ttl_of (ks (srv w) feed_global_key)))"
    using zadd [OF z(1), of "[feed_entry R v]"] z(2) by (simp add: doc_zadd_def)
  have ok: "sorted ?z" "distinct (map snd ?z)"
    using zset_add_ok [OF is_zset_ok [OF z(1)]] unfolding z(2) by simp_all
  have z1: "is_zset (ks ?s1 feed_global_key)" using ok by (simp add: s1)
  have s2: "ks (srv w') = doc_zremrangebyrank feed_global_key 0 (- cap - 1) (ks ?s1)"
    using zremrangebyrank [OF z1] by (simp add: w')
  have r: "zset_remrange 0 (- cap - 1) ?z = newest_entries R cap (vs @ [v])"
    using newest_entries_snoc [OF assms(4)] zset_remrange_oldest [OF assms(2)] by (simp add: Let_def)
  have sd: "sorted (newest_entries R cap (vs @ [v]))" "distinct (map snd (newest_entries R cap (vs @ [v])))"
    using ok unfolding newest_entries_snoc [OF assms(4)] by (simp_all add: Let_def sorted_wrt_drop drop_map [symmetric])
  show "feed_mirror R ks cap (vs @ [v]) (srv w')"
    using sd r by (simp add: feed_mirror_def s2 doc_zremrangebyrank_def Let_def s1)
  show "net w' = []" "stores_same w w'" using assms(1) by (simp_all add: w' stores_same_def)
  show "\<forall>k. k \<noteq> feed_global_key \<longrightarrow> ks (srv w') k = ks (srv w) k"
    by (simp add: s2 s1 doc_zremrangebyrank_def Let_def)
qed

end

section \<open>The warm-up\<close>

text \<open>Creation times of whole microseconds, no two alike.\<close>

definition timed :: "video list \<Rightarrow> bool" where
  "timed vs \<longleftrightarrow> distinct (map v_id vs) \<and> distinct (map v_created_at vs)
     \<and> (\<forall>v \<in> set vs. pg_time (v_created_at v) = v_created_at v)"

lemma score_mono:
  assumes "pg_time t = t" and "pg_time u = u" and "t < u"
  shows "score_for t < score_for u"
proof -
  obtain a b where "t = 1000 * a" "u = 1000 * b"
    using assms(1,2) by (metis pg_time_def diff_eq_eq add_right_imp_eq add_0 minus_mod_eq_mult_div)
  moreover have "unix_epoch = 1000 * 62135596800000000" by (simp add: unix_epoch_def)
  ultimately have "score_for t = a - 62135596800000000" "score_for u = b - 62135596800000000"
    by (simp_all add: score_for_def unix_micro_def flip: right_diff_distrib)
  then show ?thesis using assms(3) \<open>t = 1000 * a\<close> \<open>u = 1000 * b\<close> by simp
qed

lemma timed_key:
  assumes "timed vs" and "u \<in> set vs" and "v \<in> set vs"
  shows "feed_key u < feed_key v \<longleftrightarrow> score_for (v_created_at u) < score_for (v_created_at v)"
    and "feed_key u \<le> feed_key v \<Longrightarrow> feed_entry L u \<le> feed_entry L v"
proof -
  have t: "pg_time (v_created_at u) = v_created_at u" "pg_time (v_created_at v) = v_created_at v"
    using assms by (simp_all add: timed_def)
  have inj: "v_created_at u = v_created_at v \<Longrightarrow> u = v"
    using assms by (auto simp: timed_def distinct_map inj_on_def)
  show "feed_key u < feed_key v \<longleftrightarrow> score_for (v_created_at u) < score_for (v_created_at v)"
    using score_mono [OF t] score_mono [OF t(2,1)] inj
    by (cases "v_created_at u" "v_created_at v" rule: linorder_cases) (auto simp: feed_key_def)
  then show "feed_key u \<le> feed_key v \<Longrightarrow> feed_entry L u \<le> feed_entry L v"
    using inj by (auto simp: feed_entry_def feed_key_def less_eq_prod_def)
qed

lemma entries_sorted:
  assumes "timed vs"
  shows "sort (map (feed_entry L) vs) = rev (map (feed_entry L) (newest_first vs))"
proof (rule properties_for_sort)
  have "sorted_wrt (\<lambda>u v. feed_key u \<le> feed_key v) (sort_key feed_key vs)"
    using sorted_sort_key [of feed_key vs] by (simp add: sorted_map)
  then have "sorted_wrt (\<lambda>u v. feed_entry L u \<le> feed_entry L v) (sort_key feed_key vs)"
    by (rule sorted_wrt_mono_rel [rotated]) (use timed_key(2) [OF assms] in simp)
  then show "sorted (rev (map (feed_entry L) (newest_first vs)))"
    by (simp add: newest_first_def rev_map sorted_map)
qed (simp add: newest_first_def)

lemma newest_entries_eq:
  assumes "timed vs"
  shows "newest_entries L cap vs = rev (map (feed_entry L) (take (nat cap) (newest_first vs)))"
  unfolding newest_entries_def entries_sorted [OF assms] Let_def
  by (cases "nat cap \<le> length vs") (simp_all add: rev_map [symmetric] drop_rev take_map)

lemma zset_of_entries: "distinct (map snd es) \<Longrightarrow> foldl zset_add [] es = sort es"
proof (induction es rule: rev_induct)
  case (snoc e es)
  have "filter (\<lambda>x. snd x \<noteq> snd e) (sort es) = sort es"
    using snoc.prems by (intro filter_True) (auto simp: image_iff)
  then show ?case using snoc by (simp add: zset_add_def sort_snoc)
qed simp

context redis_server
begin

lemma distinct_entry_ids: "distinct (map v_id vs) \<Longrightarrow> distinct (map (snd \<circ> feed_entry R) vs)"
  by (auto simp: distinct_map inj_on_def feed_entry_def)

text \<open>From an empty key, the warm-up fills the sorted set with the newest videos.\<close>

lemma warmup_mirror:
  assumes "net w = []" and "pgnet w = []" and "0 < cap" and "timed (videos (pg w))"
    and "ks (srv w) feed_global_key = None" and "push_warmup R pg_feed_page cap w = (r, w')"
  shows "r = Inr () \<and> feed_mirror R ks cap (videos (pg w')) (srv w') \<and> pg w' = pg w"
proof -
  let ?rows = "take (nat cap) (newest_first (videos (pg w)))"
  have page: "pg_feed_page 0 uuid_nil cap w = (Inr ?rows, w)"
    using assms(2,3) by (simp add: pg_feed_page_def pg_call_up)
  have ne: "newest_entries R cap (videos (pg w)) = rev (map (feed_entry R) ?rows)"
    by (rule newest_entries_eq [OF assms(4)])
  show ?thesis
  proof (cases "?rows = []")
    case True
    then have "newest_entries R cap (videos (pg w)) = []" unfolding ne by simp
    then show ?thesis using assms(5,6) page True by (simp add: push_warmup_def feed_mirror_def)
  next
    case False
    let ?es = "map (feed_entry R) ?rows"
    have es: "?es \<noteq> []" using False by simp
    have rw: "r = Inr ()" "w' = w\<lparr>srv := rZADD R feed_global_key ?es (srv w)\<rparr>"
      using assms(1,6) page False by (simp_all add: push_warmup_def redis_call_up)
    have "distinct (map v_id (newest_first (videos (pg w))))"
      using assms(4) by (simp add: timed_def distinct_map newest_first_def)
    then have "distinct (map v_id ?rows)" by (metis distinct_take take_map)
    then have d: "distinct (map snd ?es)" using distinct_entry_ids by simp
    have sorted: "sort ?es = rev ?es"
    proof (rule properties_for_sort)
      have "sorted (newest_entries R cap (videos (pg w)))" by (simp add: newest_entries_def Let_def sorted_wrt_drop)
      then show "sorted (rev ?es)" unfolding ne .
    qed simp
    have "ks (srv w') feed_global_key = Some (RZset (rev ?es), None)"
      using zadd [of "srv w" feed_global_key ?es] es assms(5) zset_of_entries [OF d] sorted
      by (simp add: rw doc_zadd_def)
    moreover have "sorted (rev ?es)" using sorted by (metis sorted_sort)
    moreover have "distinct (map snd (rev ?es))" using d by (metis distinct_rev rev_map)
    ultimately show ?thesis using ne by (simp add: feed_mirror_def rw)
  qed
qed

end

section \<open>A page of the push feed\<close>

lemma order_of_nth:
  assumes "distinct us" and "i < length us"
  shows "order_of us (us ! i) = i"
proof -
  have "distinct (map fst (rev (zip us [0..<length us])))" using assms(1) by (simp add: rev_map [symmetric])
  then have "map_of (rev (zip us [0..<length us])) (us ! i) = Some i"
    using assms(2) by (intro map_of_is_SomeI) (auto simp: set_zip)
  then show ?thesis by (simp add: order_of_def)
qed

lemma sort_by_order_restores:
  assumes "distinct (map v_id T)" and "mset vs = mset T"
  shows "sort_by_order (\<lambda>v. order_of (map v_id T) (v_id v)) vs = T"
proof (rule sort_by_order_unique [OF assms(2)])
  let ?k = "\<lambda>v. order_of (map v_id T) (v_id v)"
  have k: "?k (T ! i) = i" if "i < length T" for i
    using order_of_nth [OF assms(1), of i] that by simp
  have m: "map ?k T = [0..<length T]" by (rule nth_equalityI) (simp_all add: k)
  show "sorted (map ?k T)" unfolding m by simp
  have "distinct (map ?k T)" unfolding m by simp
  then show "inj_on ?k (set T)" by (simp add: distinct_map)
qed

lemma hydrated:
  assumes "distinct (map v_id vs)" and "set T \<subseteq> set vs" and "distinct T"
  shows "mset (filter (\<lambda>v. v_id v \<in> v_id ` set T) vs) = mset T"
proof -
  have "distinct vs" using assms(1) by (simp add: distinct_map)
  moreover have "v \<in> set T" if "v \<in> set vs" "v_id v \<in> v_id ` set T" for v
    using that assms(1,2) by (auto simp: distinct_map inj_on_def)
  then have "set (filter (\<lambda>v. v_id v \<in> v_id ` set T) vs) = set T" using assms(2) by auto
  ultimately show ?thesis using assms(3) by (metis distinct_filter set_eq_iff_mset_eq_distinct)
qed

definition feed_cursor :: "cursor \<Rightarrow> video list \<Rightarrow> bool" where
  "feed_cursor c vs \<longleftrightarrow> c = zero_cursor \<or> (\<exists>v \<in> set vs. v_id v \<noteq> uuid_nil \<and> c = cursor_at v)"

lemma page_after_scores:
  assumes "timed vs" and "feed_cursor c vs"
  shows "page_after c vs = filter (\<lambda>u. case (if cursor_is_zero c then None else Some (score_for (cur_created c))) of
      None \<Rightarrow> True | Some b \<Rightarrow> score_for (v_created_at u) < b) (newest_first vs)"
proof (cases "cursor_is_zero c")
  case True
  then show ?thesis by (simp add: page_after_def)
next
  case False
  then obtain v where v: "v \<in> set vs" "c = cursor_at v" "v_id v \<noteq> uuid_nil"
    using assms(2) by (auto simp: feed_cursor_def zero_cursor_def cursor_is_zero_def)
  have "filter (\<lambda>u. feed_key u < feed_key v) (newest_first vs)
      = filter (\<lambda>u. score_for (v_created_at u) < score_for (v_created_at v)) (newest_first vs)"
    by (intro filter_cong) (use timed_key(1) [OF assms(1) _ v(1)] in auto)
  then show ?thesis using False page_after_video [OF v(3)] by (simp add: v(2)) (simp add: cursor_at_def)
qed

context redis_server
begin

lemma zset_page:
  assumes "timed vs" and "length vs \<le> nat cap" and "feed_mirror R ks cap vs s" and "feed_cursor c vs"
  shows "rZREVRANGEBYSCORE R feed_global_key (if cursor_is_zero c then None else Some (score_for (cur_created c))) n s
    = map (\<lambda>v. uuid_str R (v_id v)) (take n (page_after c vs))"
proof -
  have "zset_val (ks s feed_global_key) = rev (map (feed_entry R) (newest_first vs))"
    using assms(2,3) newest_entries_eq [OF assms(1), of R cap] by (simp add: feed_mirror_def)
  moreover have "is_zset (ks s feed_global_key)" using assms(3) by (simp add: feed_mirror_def)
  ultimately show ?thesis
    unfolding page_after_scores [OF assms(1,4)]
    by (simp add: zrevrangebyscore zset_revrange_def rev_filter [symmetric] filter_map comp_def feed_entry_def take_map)
qed

lemma parse_ids: "List.map_filter (uuid_parse R) (map (\<lambda>v. uuid_str R (v_id v)) vs) = map v_id vs"
  by (induction vs) (simp_all add: List.map_filter_def parse_str)

lemma push_fetch_page:
  assumes "net w = []" and "pgnet w = []" and "timed (videos (pg w))" and "length (videos (pg w)) \<le> nat cap"
    and "feed_mirror R ks cap (videos (pg w)) (srv w)" and "feed_cursor c (videos (pg w))"
    and "0 < limit" and "limit < 2 ^ 63 - 1" and arr: "\<And>vs. mset (arrange vs) = mset vs"
  shows "push_fetch R C (pg_find_videos arrange) c limit w = pull_fetch C pg_feed_page c limit w"
proof -
  let ?vs = "videos (pg w)" and ?m = "nat limit"
  let ?P = "page_after c ?vs"
  define T where "T = take (Suc ?m) ?P"
  let ?next = "if ?m < length ?P then cursor_encode C (cursor_at (?P ! (?m - 1))) else []"
  have n: "nat (wrap64 (limit + 1)) = Suc ?m"
    using assms(7,8) by (subst wrap64_id) (auto simp: in_int64_def)
  have ids: "distinct (map v_id ?vs)" using assms(3) by (simp add: timed_def)
  have sub: "set T \<subseteq> set ?vs" by (auto simp: T_def page_after_def dest!: in_set_takeD split: if_splits)
  have dn: "distinct (map v_id (newest_first ?vs))" using ids by (simp add: distinct_map newest_first_def)
  then have "distinct (map v_id ?P)" by (simp add: page_after_def map_fst_filter_distinct)
  then have d: "distinct (map v_id T)" unfolding T_def by (metis distinct_take take_map)
  have pt: "pg_time (cur_created c) = cur_created c"
    using assms(3,6) by (auto simp: feed_cursor_def timed_def cursor_at_def zero_cursor_def pg_time_def)
  have pull: "pull_fetch C pg_feed_page c limit w = (Inr \<lparr>page_items = take ?m ?P, page_next = ?next\<rparr>, w)"
    using pg_source.pull_fetch_page [OF assms(2) pt assms(7,8)] by (simp add: Let_def)
  have call: "redis_call (reading (rZREVRANGEBYSCORE R feed_global_key
      (if cursor_is_zero c then None else Some (score_for (cur_created c))) (Suc ?m))) w
      = (Inr (map (\<lambda>v. uuid_str R (v_id v)) T), w)"
    using zset_page [OF assms(3-6)] assms(1) unfolding T_def by (simp add: redis_call_up)
  show ?thesis
  proof (cases "T = []")
    case True
    then have P: "?P = []" by (simp add: T_def)
    show ?thesis using assms(7) call True unfolding pull push_fetch_def n P by (simp add: Let_def)
  next
    case False
    let ?h = "arrange (filter (\<lambda>v. v_id v \<in> v_id ` set T) ?vs)"
    have find: "pg_find_videos arrange (map v_id T) w = (Inr ?h, w)"
      using False assms(2) by (simp add: pg_find_videos_def pg_call_up)
    have "mset ?h = mset T" using hydrated [OF ids sub] d by (simp add: arr distinct_map)
    then have sorted: "sort_by_order (\<lambda>v. order_of (map v_id T) (v_id v)) ?h = T"
      by (rule sort_by_order_restores [OF d])
    have "push_fetch R C (pg_find_videos arrange) c limit w =
        (if int (length T) > limit
         then (Inr \<lparr>page_items = take ?m T, page_next = cursor_encode C (cursor_at (T ! (?m - 1)))\<rparr>, w)
         else (Inr \<lparr>page_items = T, page_next = []\<rparr>, w))"
      using assms(7) call False unfolding push_fetch_def n
      by (simp add: Let_def parse_ids find sorted)
    also have "\<dots> = (Inr \<lparr>page_items = take ?m ?P, page_next = ?next\<rparr>, w)"
    proof (cases "?m < length ?P")
      case True
      then have "int (length T) > limit" using assms(7) by (simp add: T_def)
      moreover have "take ?m T = take ?m ?P" "T ! (?m - 1) = ?P ! (?m - 1)" by (simp_all add: T_def)
      ultimately show ?thesis using True by simp
    next
      case False
      then have "\<not> int (length T) > limit" "T = ?P" "take ?m ?P = ?P" using assms(7) by (auto simp: T_def)
      then show ?thesis using False by simp
    qed
    finally show ?thesis unfolding pull .
  qed
qed

end

section \<open>Publishing as the hook of the video service\<close>

context redis_server
begin

lemma push_publish_frame:
  "k \<noteq> feed_global_key \<Longrightarrow> ks (srv (push_publish R cap v w)) k = ks (srv w) k"
  "pg (push_publish R cap v w) = pg w"
proof -
  let ?f = "writing (\<lambda>s. rZREMRANGEBYRANK R feed_global_key 0 (- cap - 1) (rZADD R feed_global_key [feed_entry R v] s))"
  obtain q w' where call: "redis_call ?f w = (q, w')" by (metis surj_pair)
  have w': "push_publish R cap v w = w'" by (simp add: push_publish_def call)
  show "pg (push_publish R cap v w) = pg w" using redis_call_stores [OF call] by (simp add: w')
  show "k \<noteq> feed_global_key \<Longrightarrow> ks (srv (push_publish R cap v w)) k = ks (srv w) k"
    using redis_call_keeps [OF call, of "\<lambda>s. ks s k = ks (srv w) k"] by (simp add: w' zset_frame)
qed

end

lemma feed_key_apart: "feed_global_key \<noteq> video_cache_key i" "feed_global_key \<noteq> duration_key L u"
  by (simp_all add: feed_global_key_def video_cache_key_def duration_key_def)

context redis_server
begin

lemma publish_hook_ok: "hook_ok R ks C (Some (push_publish R cap))"
  using push_publish_frame feed_key_apart
  by (auto simp: hook_ok_def video_cache_true_def cache_held_def not_sym)

end

context video_reads
begin

lemma after_insert_before_hook:
  assumes "video_cache_true R ks C w" and "fits v" and "net w = []" and "hook = Some h"
  obtains w2 :: "'s world" where "after_insert v w = h v w2" and "net w2 = []" and "pg w2 = pg w"
    and "ks (srv w2) feed_global_key = ks (srv w) feed_global_key"
proof -
  let ?s = "uuid_str R (v_id v)"
  obtain q1 w1 where c1: "json_set R C video_cache_key resource_cache_ttl ?s v w = (q1, w1)" by (metis surj_pair)
  obtain q2 w2 where c2: "redis_duration_set R dur_ttl (v_id v) (v_duration_sec v) w1 = (q2, w2)" by (metis surj_pair)
  have "vcache.cache_ready w" "?s \<in> range (uuid_str R)" using assms(1) by (simp_all add: cache_true_iff)
  then have k1: "key_frame ks (video_cache_key ?s) w w1" using vcache.json_set_held [OF _ _ assms(2) c1] by blast
  have n1: "net w1 = []" "pg w1 = pg w" "ks (srv w1) feed_global_key = ks (srv w) feed_global_key"
    using k1 assms(3) feed_key_apart(1) by (simp_all add: key_frame_def)
  have "net w2 = []"
    using c2 n1(1) by (auto simp: redis_duration_set_def redis_call_up split: if_splits)
  moreover have "pg w2 = pg w" using redis_duration_set_cases(1) [OF c2] n1(2) by (simp add: stores_same_def)
  moreover have "ks (srv w2) feed_global_key = ks (srv w) feed_global_key"
    using redis_duration_set_cases(2) [OF c2] n1(3) by (auto simp: set doc_set_def feed_key_apart(2))
  moreover have "after_insert v w = h v w2" unfolding after_insert_def c1 snd_conv Let_def c2 by (simp add: assms(4))
  ultimately show ?thesis using that by blast
qed

lemma create_keeps_mirror:
  assumes "hook = Some (push_publish R cap)" and "0 < cap" and "net w = []" and "video_cache_true R ks C w"
    and "feed_mirror R ks cap (videos (pg w)) (srv w)" and "fits (new_video uid i fresh now)"
    and "video_create url_parse R svc uid i fresh now w = (r, w')"
  shows "case r of Inr v \<Rightarrow> videos (pg w') = videos (pg w) @ [v] \<and> feed_mirror R ks cap (videos (pg w')) (srv w')
     | Inl e \<Rightarrow> srv w' = srv w"
proof -
  have hook: "hook_ok R ks C hook" unfolding assms(1) by (rule publish_hook_ok)
  from video_create_steps(1) [OF assms(7) hook assms(4,6)] show ?thesis
  proof (elim disjE exE conjE, goal_cases)
    case (4 v w1)
    note ins = insert_video_sql_Inr [OF 4(4)] and c = pg_create_video_cases(1) [OF 4(3)]
    have fresh: "v_id v \<notin> v_id ` set (videos (pg w))"
      using ins by (simp add: new_video_def video_exists_def)
    have true: "video_cache_true R ks C w1"
      using ins c by (intro cache_true_add [OF assms(4)]) (auto simp: new_video_def)
    have fv: "fits v" and n1: "net w1 = []" using ins c assms(3,6) by simp_all
    obtain w2 :: "'s world" where w2: "after_insert v w1 = push_publish R cap v w2" "net w2 = []" "pg w2 = pg w1"
      "ks (srv w2) feed_global_key = ks (srv w1) feed_global_key"
      using after_insert_before_hook [OF true fv n1 assms(1)] .
    have m2: "feed_mirror R ks cap (videos (pg w)) (srv w2)"
      using assms(5) c unfolding feed_mirror_def w2(4) by simp
    have "w' = push_publish R cap v w2" using 4(5) w2(1) by simp
    from publish_mirror(1) [OF w2(2) assms(2) m2 fresh this]
    have "feed_mirror R ks cap (videos (pg w) @ [v]) (srv w')" .
    moreover have "videos (pg w') = videos (pg w) @ [v]" using 4(6) ins by (simp add: add_video_def)
    ultimately show ?case using 4(2) by simp
  qed simp_all
qed

end

section \<open>Properties\<close>


definition timed_feed :: "video list" where
  "timed_feed = [feed_video 1 (unix_epoch + 5000), feed_video 3 (unix_epoch + 2000), feed_video 2 (unix_epoch + 9000)]"

definition pushed_world :: "keyspace world" where
  "pushed_world = (new_world [feed_global_key \<mapsto> (RZset (newest_entries ref_redis 1000 timed_feed), None)])
     \<lparr>pg := empty_postgres\<lparr>videos := timed_feed\<rparr>\<rparr>"

lemma pushed_world_simps [simp]:
  "net pushed_world = []" "pgnet pushed_world = []" "videos (pg pushed_world) = timed_feed"
  "srv pushed_world = [feed_global_key \<mapsto> (RZset (newest_entries ref_redis 1000 timed_feed), None)]"
  by (simp_all add: pushed_world_def new_world_def)

lemma timed_feed_ok: "timed timed_feed"
  by (simp add: timed_def timed_feed_def feed_video_def example_video_def pg_time_def unix_epoch_def)

lemma timed_feed_mirror: "feed_mirror ref_redis (\<lambda>m. m) 1000 timed_feed (srv pushed_world)"
proof -
  have "newest_entries ref_redis 1000 timed_feed = sort (map (feed_entry ref_redis) timed_feed)"
    by (simp add: newest_entries_def timed_feed_def)
  moreover have "distinct (map v_id timed_feed)" using timed_feed_ok by (simp add: timed_def)
  then have "distinct (map (snd \<circ> feed_entry ref_redis) timed_feed)" by (rule ref_redis.distinct_entry_ids)
  then have "distinct (map snd (map (feed_entry ref_redis) timed_feed))" by simp
  then have "distinct (map snd (sort (map (feed_entry ref_redis) timed_feed)))"
    unfolding distinct_map set_sort distinct_sort .
  ultimately show ?thesis by (simp add: feed_mirror_def)
qed


text \<open>
  C29. Creating videos keeps the push feed complete: with the publishing hook in place and Redis
  up, if the sorted set holds the newest \<open>cap\<close> videos before \<open>POST /videos\<close>, it does so
  after it, the new video included, and the cache of videos stays true; when the request fails,
  Redis is as it was. (A row whose insertion was committed but not acknowledged is therefore in
  the table and not in the feed.)
\<close>

theorem publish_keeps_the_newest:
  assumes "redis_server R ks" and "json_codec C fits" and "0 < cap" and "net w = []"
    and "video_cache_true R ks C w" and "feed_mirror R ks cap (videos (pg w)) (srv w)"
    and "fits (new_video uid i fresh now)"
    and "video_create url_parse R (app_video_service R C arrange dur_ttl (Some (push_publish R cap))) uid i fresh now w
      = (r, w')"
  shows "video_cache_true R ks C w' \<and>
    (case r of Inr v \<Rightarrow> videos (pg w') = videos (pg w) @ [v] \<and> feed_mirror R ks cap (videos (pg w')) (srv w')
     | Inl e \<Rightarrow> srv w' = srv w)"
proof -
  have loc: "video_reads R ks C fits" using assms(1,2) by (simp add: video_reads_def)
  note hook = redis_server.publish_hook_ok [OF assms(1)]
  show ?thesis
    using video_reads.create_keeps_mirror [OF loc refl assms(3-8)]
      video_reads.video_create_steps(2) [OF loc assms(8) hook assms(5,7)] by simp
qed

definition hooked_world :: "keyspace world" where
  "hooked_world = (new_world [feed_global_key \<mapsto> (RZset (newest_entries ref_redis 2 [example_video]), None)])
     \<lparr>pg := pg (example_video_world [])\<rparr>"

lemma hooked_world_simps [simp]:
  "net hooked_world = []" "pgnet hooked_world = []" "pg hooked_world = pg (example_video_world [])"
  "srv hooked_world = [feed_global_key \<mapsto> (RZset (newest_entries ref_redis 2 [example_video]), None)]"
  by (simp_all add: hooked_world_def new_world_def)

lemma hooked_world_ok:
  "video_cache_true ref_redis (\<lambda>m. m) ref_video_codec hooked_world"
  "feed_mirror ref_redis (\<lambda>m. m) 2 (videos (pg hooked_world)) (srv hooked_world)"
  by (simp_all add: video_cache_true_def cache_held_def feed_key_apart(1) [symmetric] feed_mirror_def newest_entries_def)

theorem publish_keeps_the_newest_witness:
  "feed_mirror ref_redis (\<lambda>m. m) 2 [example_video, new_video 1 example_video_input 8 9000]
     (srv (snd (video_create example_url_parse ref_redis (app_video_service ref_redis ref_video_codec (\<lambda>vs. vs) 0
       (Some (push_publish ref_redis 2))) 1 example_video_input 8 9000 hooked_world)))"
proof -
  let ?svc = "app_video_service ref_redis ref_video_codec (\<lambda>vs. vs) 0 (Some (push_publish ref_redis 2))"
  obtain r w' where h: "video_create example_url_parse ref_redis ?svc 1 example_video_input 8 9000 hooked_world = (r, w')"
    by (metis surj_pair)
  have "pg_create_video 1 example_video_input 8 9000 hooked_world =
      (Inr (new_video 1 example_video_input 8 9000),
       hooked_world\<lparr>pg := add_video (new_video 1 example_video_input 8 9000) (pg hooked_world)\<rparr>)"
    using example_insert by (simp add: pg_create_video_def pg_exec_up)
  then have "r = Inr (new_video 1 example_video_input 8 9000)"
    using arg_cong [OF h, of fst]
    by (auto simp: video_create_def example_video_valid app_video_service_def pg_video_repo_def Let_def)
  with publish_keeps_the_newest [OF ref_redis.redis_server_axioms ref_videos.json_codec_axioms _ _ hooked_world_ok _ h]
  show ?thesis by (auto simp: h)
qed

end
