(* ===== verification/ViewWorker.thy ===== *)
theory ViewWorker
  imports View
begin

text \<open>
  \<open>internal/view/worker.go\<close> and the ClickHouse schema of \<open>migrations/clickhouse\<close>: the consumer
  of the view stream, its in-memory batch and the sink. The locale \<open>view_sink\<close> is the contract
  of the \<open>Sink\<close> interface (an insert lands as a whole, or not at all, or as a whole with its
  reply lost); it is interpreted on the ClickHouse sink. The materialized view is part of the
  insert; a \<open>SummingMergeTree\<close> keeps the rows of each insert until it merges them, and every
  query sums, so merging is not modelled.
\<close>

section \<open>Events\<close>

record view_event =
  ve_stream_id :: nat
  ve_video_id :: uuid
  ve_viewer_id :: "uuid option"
  ve_ip_hash :: string
  ve_ua_hash :: string
  ve_country :: string
  ve_is_unique :: bool
  ve_event_time :: int

definition view_parse_event :: "'z libs_scheme \<Rightarrow> message \<Rightarrow> view_event option" where
  "view_parse_event L m =
     (case uuid_parse L (field ''vid'' m) of
        None \<Rightarrow> None
      | Some vid \<Rightarrow>
          (let viewer = (if field ''uid'' m \<noteq> [] then uuid_parse L (field ''uid'' m) else None);
               ip = field ''ip'' m; ua = field ''ua'' m
           in if length ip \<noteq> 32 \<or> length ua \<noteq> 16 then None
              else (case parse_int (field ''t'' m) of
                      None \<Rightarrow> None
                    | Some t \<Rightarrow> Some \<lparr>ve_stream_id = fst m, ve_video_id = vid, ve_viewer_id = viewer,
                        ve_ip_hash = ip, ve_ua_hash = ua, ve_country = field ''c'' m,
                        ve_is_unique = (field ''u'' m = ''1''), ve_event_time = t\<rparr>)))"

lemma view_parsed_lengths:
  "view_parse_event L m = Some ev \<Longrightarrow>
     length (ve_ip_hash ev) = 32 \<and> length (ve_ua_hash ev) = 16 \<and> ve_stream_id ev = fst m"
  by (auto simp: view_parse_event_def Let_def split: option.splits if_splits)

section \<open>The ClickHouse sink\<close>

definition day_of :: "int \<Rightarrow> int" where
  "day_of ms = ms div 86400000"

definition view_row_of :: "view_event \<Rightarrow> view_row" where
  "view_row_of e = \<lparr>vr_event_time = ve_event_time e, vr_video_id = ve_video_id e,
     vr_viewer_id = ve_viewer_id e, vr_ip_hash = ve_ip_hash e,
     vr_country = (if ve_country e = [] then ''ZZ'' else ve_country e), vr_ua_hash = ve_ua_hash e,
     vr_is_unique = (if ve_is_unique e then 1 else 0)\<rparr>"

text \<open>The materialized view over the rows of one insert: \<open>GROUP BY day, video_id\<close>.\<close>

definition row_key :: "view_row \<Rightarrow> int \<times> uuid" where
  "row_key r = (day_of (vr_event_time r), vr_video_id r)"

definition daily_mv :: "view_row list \<Rightarrow> daily_row list" where
  "daily_mv rows = map (\<lambda>k.
     \<lparr>d_day = fst k, d_video_id = snd k,
      d_views = length (filter (\<lambda>r. row_key r = k) rows),
      d_unique_views = length (filter (\<lambda>r. row_key r = k \<and> vr_is_unique r = 1) rows)\<rparr>)
     (remdups (map row_key rows))"

definition insert_views :: "view_row list \<Rightarrow> clickhouse \<Rightarrow> clickhouse" where
  "insert_views rows d = d\<lparr>video_views := video_views d @ rows,
     video_views_daily := video_views_daily d @ daily_mv rows\<rparr>"

text \<open>The driver refuses a value that does not fit its \<open>FixedString\<close> column.\<close>

definition append_ok :: "view_row \<Rightarrow> bool" where
  "append_ok r \<longleftrightarrow> length (vr_ip_hash r) = 32 \<and> length (vr_ua_hash r) = 16"

record 'w sink =
  sink_insert :: "view_event list \<Rightarrow> 'w \<Rightarrow> unit result \<times> 'w"

definition ch_insert :: "view_event list \<Rightarrow> 's world \<Rightarrow> unit result \<times> 's world" where
  "ch_insert evs w =
     (if evs = [] then (Inr (), w)
      else
        (case ch_call (reading (\<lambda>_. ())) w of
           (Inl e, w1) \<Rightarrow> (Inl (Wrapped ''prepare batch'' e), w1)
         | (Inr _, w1) \<Rightarrow>
             (let rows = map view_row_of evs
              in if \<not> list_all append_ok rows then (Inl (Wrapped ''append row'' (Plain ''FixedString'')), w1)
                 else (case ch_call (writing (insert_views rows)) w1 of
                         (Inl e, w2) \<Rightarrow> (Inl (Wrapped ''send batch'' e), w2)
                       | (Inr _, w2) \<Rightarrow> (Inr (), w2)))))"

definition clickhouse_sink :: "'s world sink" where
  "clickhouse_sink = \<lparr>sink_insert = ch_insert\<rparr>"

section \<open>The worker\<close>

record view_worker_config =
  vc_group :: string
  vc_consumer :: string
  vc_flush_size :: int
  vc_flush_interval :: int
  vc_read_batch :: int

definition new_view_worker :: "view_worker_config \<Rightarrow> view_worker_config" where
  "new_view_worker c =
     \<lparr>vc_group = (if vc_group c = [] then ''vidmerce-workers'' else vc_group c),
      vc_consumer = (if vc_consumer c = [] then ''worker-1'' else vc_consumer c),
      vc_flush_size = (if vc_flush_size c \<le> 0 then 500 else vc_flush_size c),
      vc_flush_interval = (if vc_flush_interval c \<le> 0 then second else vc_flush_interval c),
      vc_read_batch = (if vc_read_batch c \<le> 0 then 200 else vc_read_batch c)\<rparr>"

text \<open>The variables of \<open>Run\<close>.\<close>

record view_loop =
  vl_batch :: "view_event list"
  vl_ids :: "nat list"
  vl_last_flush :: gotime

definition view_ensure_group ::
  "('s, 'z) redis_scheme \<Rightarrow> view_worker_config \<Rightarrow> 's world \<Rightarrow> unit result \<times> 's world"
where
  "view_ensure_group R c w =
     (case redis_call (rXGROUP R view_stream_key (vc_group c)) w of
        (Inl e, w') \<Rightarrow> (Inl (Wrapped ''ensure group'' e), w')
      | (Inr _, w') \<Rightarrow> (Inr (), w'))"

definition view_ack ::
  "('s, 'z) redis_scheme \<Rightarrow> view_worker_config \<Rightarrow> nat list \<Rightarrow> 's world \<Rightarrow> 's world"
where
  "view_ack R c ids w = snd (redis_call (writing (rXACK R view_stream_key (vc_group c) ids)) w)"

definition view_flush ::
  "('s, 'z) redis_scheme \<Rightarrow> 's world sink \<Rightarrow> view_worker_config \<Rightarrow> view_loop \<times> 's world
     \<Rightarrow> view_loop \<times> 's world"
where
  "view_flush R sink c st =
     (let (l, w) = st
      in if vl_batch l = [] then (l, w)
         else (case sink_insert sink (vl_batch l) w of
                 (Inl e, w') \<Rightarrow> (l, w')
               | (Inr _, w') \<Rightarrow> (l\<lparr>vl_batch := [], vl_ids := []\<rparr>, view_ack R c (vl_ids l) w')))"

text \<open>One message of the batch read: collected, or acknowledged at once when malformed.\<close>

definition view_collect ::
  "('s, 'z) redis_scheme \<Rightarrow> view_worker_config \<Rightarrow> message \<Rightarrow> view_loop \<times> 's world \<Rightarrow> view_loop \<times> 's world"
where
  "view_collect R c m st =
     (let (l, w) = st
      in case view_parse_event R m of
           None \<Rightarrow> (l, view_ack R c [fst m] w)
         | Some ev \<Rightarrow> (l\<lparr>vl_batch := vl_batch l @ [ev], vl_ids := vl_ids l @ [fst m]\<rparr>, w))"

text \<open>One turn of the loop, with the two clock readings of its flush check.\<close>

definition view_pass ::
  "('s, 'z) redis_scheme \<Rightarrow> 's world sink \<Rightarrow> view_worker_config \<Rightarrow> gotime \<times> gotime
     \<Rightarrow> view_loop \<times> 's world \<Rightarrow> view_loop \<times> 's world"
where
  "view_pass R sink c t st =
     (let (l, w) = st
      in case redis_call (rXREADGROUP R view_stream_key (vc_group c) (nat (vc_read_batch c))) w of
           (Inl e, w1) \<Rightarrow> (l, w1)
         | (Inr es, w1) \<Rightarrow>
             (let (l, w) = fold (view_collect R c) es (l, w1)
              in if int (length (vl_batch l)) \<ge> vc_flush_size c
                    \<or> (0 < length (vl_batch l) \<and> fst t - vl_last_flush l \<ge> vc_flush_interval c)
                 then (let (l, w) = view_flush R sink c (l, w) in (l\<lparr>vl_last_flush := snd t\<rparr>, w))
                 else (l, w)))"

text \<open>\<open>Run\<close> from time \<open>t0\<close>, cancelled after the given turns: a last flush, and no error.\<close>

definition view_worker_run ::
  "('s, 'z) redis_scheme \<Rightarrow> 's world sink \<Rightarrow> view_worker_config \<Rightarrow> gotime \<Rightarrow> (gotime \<times> gotime) list
     \<Rightarrow> 's world \<Rightarrow> unit result \<times> view_loop \<times> 's world"
where
  "view_worker_run R sink c t0 ts w =
     (let l0 = \<lparr>vl_batch = [], vl_ids = [], vl_last_flush = t0\<rparr>
      in case view_ensure_group R c w of
           (Inl e, w') \<Rightarrow> (Inl e, l0, w')
         | (Inr _, w') \<Rightarrow>
             (let (l, w') = view_flush R sink c (fold (view_pass R sink c) ts (l0, w')) in (Inr (), l, w')))"

section \<open>The contract of a sink\<close>

text \<open>\<open>stored\<close> is the list of rows in the store, \<open>fits\<close> what the store takes.\<close>

locale view_sink =
  fixes sink :: "'s world sink"
    and stored :: "clickhouse \<Rightarrow> view_row list"
    and fits :: "view_event \<Rightarrow> bool"
  assumes insert_done: "sink_insert sink evs w = (Inr (), w') \<Longrightarrow> stored (ch w') = stored (ch w) @ map view_row_of evs"
    and insert_failed: "sink_insert sink evs w = (Inl e, w') \<Longrightarrow>
        stored (ch w') = stored (ch w) \<or> stored (ch w') = stored (ch w) @ map view_row_of evs"
    and insert_up: "chnet w = [] \<Longrightarrow> \<forall>e \<in> set evs. fits e \<Longrightarrow> fst (sink_insert sink evs w) = Inr ()"
    and insert_frame: "srv (snd (sink_insert sink evs w)) = srv w" "net (snd (sink_insert sink evs w)) = net w"
      "chnet w = [] \<Longrightarrow> chnet (snd (sink_insert sink evs w)) = []"
    and hashes_fit: "length (ve_ip_hash ev) = 32 \<Longrightarrow> length (ve_ua_hash ev) = 16 \<Longrightarrow> fits ev"

lemma ch_insert_cases:
  assumes "ch_insert evs w = (r, w')"
  obtains (unsent) e where "r = Inl e" and "ch w' = ch w" and "evs \<noteq> []"
    | (lost) e where "r = Inl e" and "ch w' = insert_views (map view_row_of evs) (ch w)"
    | (sent) "r = Inr ()" and "ch w' = (if evs = [] then ch w else insert_views (map view_row_of evs) (ch w))"
proof (cases "evs = []")
  case True
  then show ?thesis using assms by (auto simp: ch_insert_def intro: that)
next
  case False
  let ?rows = "map view_row_of evs"
  obtain x w1 where prep: "ch_call (reading (\<lambda>_. ())) w = (x, w1)" by (metis surj_pair)
  have w1: "ch w1 = ch w" using ch_call_read [OF prep] by simp
  show ?thesis
  proof (cases "x = Inr () \<and> list_all append_ok ?rows")
    case True
    obtain y w2 where send: "ch_call (writing (insert_views ?rows)) w1 = (y, w2)" by (metis surj_pair)
    have eq: "w' = w2" "r = (case y of Inl e \<Rightarrow> Inl (Wrapped ''send batch'' e) | Inr _ \<Rightarrow> Inr ())"
      using assms True False prep send by (auto simp: ch_insert_def split: sum.splits)
    from send show ?thesis
    proof (cases rule: ch_call_cases)
      case (1 a)
      then show ?thesis using eq w1 False by (auto intro: that(3))
    next
      case (2 e)
      then show ?thesis using eq w1 False by (auto intro: that(1))
    next
      case (3 e)
      then show ?thesis using eq w1 False by (auto intro: that(2))
    qed
  next
    case bad: False
    then have "\<exists>e. r = Inl e" and "w' = w1"
      using assms False prep by (auto simp: ch_insert_def split: sum.splits if_splits)
    then show ?thesis using w1 False by (auto intro: that(1))
  qed
qed

lemma insert_views_rows [simp]: "video_views (insert_views rows d) = video_views d @ rows"
  by (simp add: insert_views_def)

interpretation ch_sink: view_sink clickhouse_sink video_views "\<lambda>e. append_ok (view_row_of e)"
proof
  fix evs :: "view_event list" and w w' :: "'s world" and e
  show "sink_insert clickhouse_sink evs w = (Inr (), w') \<Longrightarrow> video_views (ch w') = video_views (ch w) @ map view_row_of evs"
    by (auto simp: clickhouse_sink_def elim!: ch_insert_cases split: if_splits)
  show "sink_insert clickhouse_sink evs w = (Inl e, w') \<Longrightarrow>
      video_views (ch w') = video_views (ch w) \<or> video_views (ch w') = video_views (ch w) @ map view_row_of evs"
    by (auto simp: clickhouse_sink_def elim!: ch_insert_cases split: if_splits)
  show "chnet w = [] \<Longrightarrow> \<forall>e \<in> set evs. append_ok (view_row_of e) \<Longrightarrow> fst (sink_insert clickhouse_sink evs w) = Inr ()"
    by (simp add: clickhouse_sink_def ch_insert_def ch_call_up list_all_iff)
  have "srv (snd (ch_insert evs w)) = srv w \<and> net (snd (ch_insert evs w)) = net w
      \<and> (chnet w = [] \<longrightarrow> chnet (snd (ch_insert evs w)) = [])"
  proof -
    obtain x w1 where prep: "ch_call (reading (\<lambda>_. ())) w = (x, w1)" by (metis surj_pair)
    obtain y w2 where send: "ch_call (writing (insert_views (map view_row_of evs))) w1 = (y, w2)" by (metis surj_pair)
    have "snd (ch_insert evs w) = w \<or> snd (ch_insert evs w) = w1 \<or> snd (ch_insert evs w) = w2"
      by (simp add: ch_insert_def prep send Let_def split: sum.split)
    moreover have "srv w1 = srv w" "net w1 = net w" "chnet w = [] \<longrightarrow> chnet w1 = []"
      using prep ch_call_frame [of "reading (\<lambda>_. ())" w] ch_call_up [of w "reading (\<lambda>_. ())"] by auto
    moreover have "srv w2 = srv w1" "net w2 = net w1" "chnet w1 = [] \<longrightarrow> chnet w2 = []"
      using send ch_call_frame [of "writing (insert_views (map view_row_of evs))" w1]
        ch_call_up [of w1 "writing (insert_views (map view_row_of evs))"] by auto
    ultimately show ?thesis by auto
  qed
  then show "srv (snd (sink_insert clickhouse_sink evs w)) = srv w" "net (snd (sink_insert clickhouse_sink evs w)) = net w"
    "chnet w = [] \<Longrightarrow> chnet (snd (sink_insert clickhouse_sink evs w)) = []"
    by (simp_all add: clickhouse_sink_def)
  show "length (ve_ip_hash ev) = 32 \<Longrightarrow> length (ve_ua_hash ev) = 16 \<Longrightarrow> append_ok (view_row_of ev)" for ev
    by (simp add: append_ok_def view_row_of_def)
qed

section \<open>The worker's invariant\<close>

definition view_ready :: "view_worker_config \<Rightarrow> keyspace \<Rightarrow> bool" where
  "view_ready c m \<longleftrightarrow> is_stream (m view_stream_key) \<and> xgroups (view_stream m) (vc_group c) \<noteq> None
     \<and> stream_ok (view_stream m)"

text \<open>The batch holds parsed entries of the stream, and the ids are theirs.\<close>

definition collected :: "'z libs_scheme \<Rightarrow> xstream \<Rightarrow> view_loop \<Rightarrow> bool" where
  "collected L x l \<longleftrightarrow> vl_ids l = map ve_stream_id (vl_batch l)
     \<and> (\<forall>ev \<in> set (vl_batch l). \<exists>fs. (ve_stream_id ev, fs) \<in> set (xentries x)
          \<and> view_parse_event L (ve_stream_id ev, fs) = Some ev)"

text \<open>Every entry the group has passed and does not list as pending - the acknowledged ones - is
  malformed or has its row in the store.\<close>

definition acked_stored :: "'z libs_scheme \<Rightarrow> string \<Rightarrow> xstream \<Rightarrow> view_row list \<Rightarrow> bool" where
  "acked_stored L g x rows \<longleftrightarrow>
     (\<forall>e \<in> set (xentries x). fst e \<le> group_last g x \<and> fst e \<notin> set (stream_pending g x) \<longrightarrow>
        (case view_parse_event L e of None \<Rightarrow> True | Some ev \<Rightarrow> view_row_of ev \<in> set rows))"

lemma acked_stored_more: "acked_stored L g x rows \<Longrightarrow> acked_stored L g x (rows @ new)"
  by (fastforce simp: acked_stored_def split: option.splits)

lemma acked_stored_ack:
  assumes "acked_stored L g x rows"
    and "\<forall>e \<in> set (xentries x). fst e \<in> set ids \<longrightarrow>
      (case view_parse_event L e of None \<Rightarrow> True | Some ev \<Rightarrow> view_row_of ev \<in> set rows)"
  shows "acked_stored L g (stream_ack g ids x) rows"
  using assms by (auto simp: acked_stored_def ack_entries ack_pending)

lemma acked_stored_read:
  assumes "acked_stored L g x rows" and "stream_ok x" and "xgroups x g \<noteq> None"
  shows "acked_stored L g (stream_readgroup g n x) rows"
  unfolding acked_stored_def
proof (intro ballI impI)
  fix e
  assume "e \<in> set (xentries (stream_readgroup g n x))"
    and e: "fst e \<le> group_last g (stream_readgroup g n x) \<and> fst e \<notin> set (stream_pending g (stream_readgroup g n x))"
  then have x: "e \<in> set (xentries x)" by (simp add: readgroup_entries)
  have "fst e \<le> group_last g x" using e by (intro readgroup_delivered [OF assms(2,3) x, of n]) simp_all
  moreover have "fst e \<notin> set (stream_pending g x)" using e by (simp add: readgroup_pending)
  ultimately show "case view_parse_event L e of None \<Rightarrow> True | Some ev \<Rightarrow> view_row_of ev \<in> set rows"
    using assms(1) x by (simp add: acked_stored_def)
qed

definition view_inv ::
  "'z libs_scheme \<Rightarrow> view_worker_config \<Rightarrow> keyspace \<Rightarrow> view_row list \<Rightarrow> view_loop \<Rightarrow> bool"
where
  "view_inv L c m rows l \<longleftrightarrow> view_ready c m \<and> collected L (view_stream m) l
     \<and> acked_stored L (vc_group c) (view_stream m) rows"

locale view_worker = redis_server R ks + view_sink sink stored fits
  for R :: "('s, 'z) redis_scheme" and ks and sink :: "'s world sink" and stored fits
begin

abbreviation inv :: "view_worker_config \<Rightarrow> view_loop \<times> 's world \<Rightarrow> bool" where
  "inv c st \<equiv> view_inv R c (ks (srv (snd st))) (stored (ch (snd st))) (fst st)"

lemma view_ack_cases:
  assumes "view_ready c (ks (srv w))"
  shows "ch (view_ack R c ids w) = ch w \<and> chnet (view_ack R c ids w) = chnet w
    \<and> (ks (srv (view_ack R c ids w)) = ks (srv w)
      \<or> ks (srv (view_ack R c ids w)) = doc_stream (stream_ack (vc_group c) ids) view_stream_key (ks (srv w)))
    \<and> (net w = [] \<longrightarrow> net (view_ack R c ids w) = []
      \<and> ks (srv (view_ack R c ids w)) = doc_stream (stream_ack (vc_group c) ids) view_stream_key (ks (srv w)))"
proof -
  let ?f = "writing (rXACK R view_stream_key (vc_group c) ids)"
  obtain r w' where call: "redis_call ?f w = (r, w')" by (metis surj_pair)
  have k: "ks (snd (?f (srv w))) = doc_stream (stream_ack (vc_group c) ids) view_stream_key (ks (srv w))"
    using assms by (simp add: view_ready_def view_stream_def xack)
  have "ks (srv w') = ks (srv w) \<or> ks (srv w') = doc_stream (stream_ack (vc_group c) ids) view_stream_key (ks (srv w))"
    using call k by (cases rule: redis_call_cases) auto
  moreover have "net w = [] \<Longrightarrow> net w' = [] \<and> srv w' = snd (?f (srv w))" using call by (simp add: redis_call_up) auto
  ultimately show ?thesis using redis_call_stores [OF call] k by (simp add: view_ack_def call)
qed

lemma view_stream_doc [simp]: "view_stream (doc_stream f view_stream_key m) = f (view_stream m)"
  by (simp add: view_stream_def)

lemma view_ready_ack:
  "view_ready c m \<Longrightarrow> view_ready c (doc_stream (stream_ack (vc_group c) ids) view_stream_key m)"
  by (simp add: view_ready_def ack_ok)

lemma inv_ack:
  assumes "view_inv R c (ks (srv w)) rows l" and "stored (ch w) = rows"
    and "\<forall>e \<in> set (xentries (view_stream (ks (srv w)))). fst e \<in> set ids \<longrightarrow>
      (case view_parse_event R e of None \<Rightarrow> True | Some ev \<Rightarrow> view_row_of ev \<in> set rows)"
  shows "inv c (l, view_ack R c ids w)"
proof -
  have ready: "view_ready c (ks (srv w))" using assms(1) by (simp add: view_inv_def)
  note ack = view_ack_cases [OF ready, of ids]
  show ?thesis
  proof (cases "ks (srv (view_ack R c ids w)) = ks (srv w)")
    case True
    then show ?thesis using ack assms(1,2) by simp
  next
    case False
    then have k: "ks (srv (view_ack R c ids w)) = doc_stream (stream_ack (vc_group c) ids) view_stream_key (ks (srv w))"
      using ack by blast
    have "view_inv R c (doc_stream (stream_ack (vc_group c) ids) view_stream_key (ks (srv w))) rows l"
      using assms(1,3) view_ready_ack [OF ready, of ids]
      by (simp add: view_inv_def acked_stored_ack) (simp add: collected_def ack_entries)
    then show ?thesis using ack assms(2) by (simp add: k)
  qed
qed

lemma inv_flush:
  assumes "inv c st"
  shows "inv c (view_flush R sink c st)"
proof -
  obtain l w where st: "st = (l, w)" by (cases st)
  show ?thesis
  proof (cases "vl_batch l = []")
    case True
    then show ?thesis using assms by (simp add: st view_flush_def)
  next
    case False
    obtain r w1 where call: "sink_insert sink (vl_batch l) w = (r, w1)" by (metis surj_pair)
    have s1: "srv w1 = srv w" using insert_frame(1) [of "vl_batch l" w] by (simp add: call)
    have i0: "view_inv R c (ks (srv w)) (stored (ch w)) l" using assms by (simp add: st)
    have more: "view_inv R c (ks (srv w1)) (stored (ch w) @ map view_row_of (vl_batch l)) l"
      using i0 by (simp add: view_inv_def s1 acked_stored_more)
    show ?thesis
    proof (cases r)
      case (Inl e)
      have "stored (ch w1) = stored (ch w) \<or> stored (ch w1) = stored (ch w) @ map view_row_of (vl_batch l)"
        using insert_failed call Inl by blast
      then have "inv c (l, w1)"
      proof
        assume "stored (ch w1) = stored (ch w)"
        then show ?thesis using i0 s1 by simp
      next
        assume "stored (ch w1) = stored (ch w) @ map view_row_of (vl_batch l)"
        then show ?thesis using more by simp
      qed
      then show ?thesis using False Inl call by (simp add: st view_flush_def)
    next
      case (Inr a)
      have rows: "stored (ch w1) = stored (ch w) @ map view_row_of (vl_batch l)"
        using insert_done call Inr by auto
      let ?l' = "l\<lparr>vl_batch := [], vl_ids := []\<rparr>"
      have i1: "view_inv R c (ks (srv w1)) (stored (ch w1)) ?l'"
        using more by (simp add: view_inv_def collected_def rows)
      have col: "collected R (view_stream (ks (srv w1))) l" and ok: "stream_ok (view_stream (ks (srv w1)))"
        using more by (simp_all add: view_inv_def view_ready_def)
      have "case view_parse_event R e of None \<Rightarrow> True | Some ev \<Rightarrow> view_row_of ev \<in> set (stored (ch w1))"
        if e: "e \<in> set (xentries (view_stream (ks (srv w1))))" and id: "fst e \<in> set (vl_ids l)" for e
      proof -
        obtain ev where ev: "ev \<in> set (vl_batch l)" "ve_stream_id ev = fst e"
          using id col by (auto simp: collected_def)
        then obtain fs where fs: "(fst e, fs) \<in> set (xentries (view_stream (ks (srv w1))))"
          "view_parse_event R (fst e, fs) = Some ev"
          using col by (fastforce simp: collected_def)
        have "snd e = fs" using stream_ok_unique [OF ok, of "fst e" "snd e" fs] e fs(1) by simp
        then have "view_parse_event R e = Some ev" using fs(2) by (metis prod.collapse)
        then show ?thesis using ev(1) by (simp add: rows)
      qed
      then have "inv c (?l', view_ack R c (vl_ids l) w1)" by (intro inv_ack [OF i1 refl]) blast
      then show ?thesis using False Inr call by (simp add: st view_flush_def)
    qed
  qed
qed

lemma inv_collect:
  assumes "inv c st" and "m \<in> set (xentries (view_stream (ks (srv (snd st)))))"
  shows "inv c (view_collect R c m st)
    \<and> set (xentries (view_stream (ks (srv (snd (view_collect R c m st)))))) = set (xentries (view_stream (ks (srv (snd st)))))"
proof -
  obtain l w where st: "st = (l, w)" by (cases st)
  have i0: "view_inv R c (ks (srv w)) (stored (ch w)) l" using assms by (simp add: st)
  show ?thesis
  proof (cases "view_parse_event R m")
    case None
    have ok: "stream_ok (view_stream (ks (srv w)))" and ready: "view_ready c (ks (srv w))"
      using i0 by (simp_all add: view_inv_def view_ready_def)
    have "case view_parse_event R e of None \<Rightarrow> True | Some ev \<Rightarrow> view_row_of ev \<in> set (stored (ch w))"
      if "e \<in> set (xentries (view_stream (ks (srv w))))" and "fst e = fst m" for e
    proof -
      have "(fst m, snd e) \<in> set (xentries (view_stream (ks (srv w))))" using that by (metis prod.collapse)
      moreover have "(fst m, snd m) \<in> set (xentries (view_stream (ks (srv w))))" using assms(2) by (simp add: st)
      ultimately have "e = m" using stream_ok_unique [OF ok] that(2) by (metis prod.collapse)
      then show ?thesis using None by simp
    qed
    then have "inv c (l, view_ack R c [fst m] w)" by (intro inv_ack [OF i0 refl]) simp
    moreover have "set (xentries (view_stream (ks (srv (view_ack R c [fst m] w))))) = set (xentries (view_stream (ks (srv w))))"
      using view_ack_cases [OF ready, of "[fst m]"] by (auto simp: ack_entries)
    ultimately show ?thesis using None by (simp add: st view_collect_def)
  next
    case (Some ev)
    have "ve_stream_id ev = fst m" using view_parsed_lengths [OF Some] by simp
    then show ?thesis
      using i0 Some assms(2) by (auto simp: st view_collect_def view_inv_def collected_def intro!: exI [of _ "snd m"])
  qed
qed

lemma inv_fold_collect:
  "inv c st \<Longrightarrow> set es \<subseteq> set (xentries (view_stream (ks (srv (snd st))))) \<Longrightarrow>
     inv c (fold (view_collect R c) es st)"
  by (induction es arbitrary: st) (simp_all add: inv_collect)

lemma inv_pass:
  assumes "inv c st"
  shows "inv c (view_pass R sink c t st)"
proof -
  obtain l w where st: "st = (l, w)" by (cases st)
  let ?g = "vc_group c" and ?f = "rXREADGROUP R view_stream_key (vc_group c) (nat (vc_read_batch c))"
  have i0: "view_inv R c (ks (srv w)) (stored (ch w)) l" using assms by (simp add: st)
  have s: "is_stream (ks (srv w) view_stream_key)" and g: "xgroups (stream_val (ks (srv w) view_stream_key)) ?g \<noteq> None"
    and ok: "stream_ok (view_stream (ks (srv w)))"
    using i0 by (simp_all add: view_inv_def view_ready_def view_stream_def)
  have k: "ks (snd (?f (srv w))) = doc_stream (stream_readgroup ?g (nat (vc_read_batch c))) view_stream_key (ks (srv w))"
    by (rule xreadgroup(2) [OF s g])
  have i1: "view_inv R c (ks (snd (?f (srv w)))) (stored (ch w)) l"
  proof -
    have g': "xgroups (view_stream (ks (srv w))) ?g \<noteq> None" using g by (simp add: view_stream_def)
    have "acked_stored R ?g (stream_readgroup ?g (nat (vc_read_batch c)) (view_stream (ks (srv w)))) (stored (ch w))"
      using i0 by (intro acked_stored_read [OF _ ok g']) (simp add: view_inv_def)
    moreover have "view_ready c (ks (snd (?f (srv w))))"
      using readgroup_ok [OF ok] group_kept(2) [OF g'] by (simp add: k view_ready_def)
    ultimately show ?thesis using i0 by (simp add: k view_inv_def collected_def readgroup_entries)
  qed
  obtain r w1 where call: "redis_call ?f w = (r, w1)" by (metis surj_pair)
  have i2: "view_inv R c (ks (srv w1)) (stored (ch w)) l"
    using redis_call_keeps [OF call, where P = "\<lambda>s. view_inv R c (ks s) (stored (ch w)) l", OF i0 i1] .
  have ch1: "ch w1 = ch w" using redis_call_stores [OF call] by simp
  show ?thesis
  proof (cases r)
    case (Inl e)
    then show ?thesis using i2 ch1 call by (simp add: st view_pass_def)
  next
    case (Inr es)
    from call have es: "es = fst (?f (srv w))" and s1: "srv w1 = snd (?f (srv w))"
      using Inr by (cases rule: redis_call_cases; auto)+
    have "set es \<subseteq> set (xentries (view_stream (ks (srv w))))"
      using xreadgroup(1) [OF s g] by (auto simp: es view_stream_def stream_undelivered_def
          dest!: in_set_takeD split: option.splits)
    then have sub: "set es \<subseteq> set (xentries (view_stream (ks (srv w1))))"
      by (simp add: s1 k readgroup_entries)
    define st2 where "st2 = fold (view_collect R c) es (l, w1)"
    have i3: "inv c st2" unfolding st2_def using i2 ch1 sub by (intro inv_fold_collect) simp_all
    have i4: "inv c (view_flush R sink c st2)" by (rule inv_flush [OF i3])
    obtain l2 w2 where st2: "st2 = (l2, w2)" by (cases st2)
    obtain l3 w3 where st3: "view_flush R sink c (l2, w2) = (l3, w3)" by (metis surj_pair)
    have "view_inv R c (ks (srv w3)) (stored (ch w3)) (l3\<lparr>vl_last_flush := snd t\<rparr>)"
      using i4 by (simp add: st2 st3 view_inv_def collected_def)
    moreover have "view_pass R sink c t st =
        (if int (length (vl_batch l2)) \<ge> vc_flush_size c
            \<or> (0 < length (vl_batch l2) \<and> fst t - vl_last_flush l2 \<ge> vc_flush_interval c)
         then (l3\<lparr>vl_last_flush := snd t\<rparr>, w3) else (l2, w2))"
      using call Inr st2 st3 by (simp add: st view_pass_def st2_def [symmetric] Let_def)
    ultimately show ?thesis using i3 by (simp add: st2)
  qed
qed

lemma inv_passes: "inv c st \<Longrightarrow> inv c (fold (view_pass R sink c) ts st)"
  by (induction ts arbitrary: st) (simp_all add: inv_pass)

text \<open>With the links up nothing is lost or repeated: rows stored, rows in the batch and rows still
  to be delivered add up, in this order.\<close>

definition view_up :: "view_loop \<times> 's world \<Rightarrow> bool" where
  "view_up st \<longleftrightarrow> net (snd st) = [] \<and> chnet (snd st) = [] \<and> (\<forall>ev \<in> set (vl_batch (fst st)). fits ev)"

definition undelivered :: "view_worker_config \<Rightarrow> view_loop \<times> 's world \<Rightarrow> message list" where
  "undelivered c st = stream_undelivered (vc_group c) (view_stream (ks (srv (snd st))))"

definition all_rows :: "view_worker_config \<Rightarrow> view_loop \<times> 's world \<Rightarrow> view_row list" where
  "all_rows c st = stored (ch (snd st)) @ map view_row_of (vl_batch (fst st))
     @ map view_row_of (List.map_filter (view_parse_event R) (undelivered c st))"

lemma last_flush_irrelevant [simp]:
  "view_up (l\<lparr>vl_last_flush := u\<rparr>, w) = view_up (l, w)"
  "all_rows c (l\<lparr>vl_last_flush := u\<rparr>, w) = all_rows c (l, w)"
  "undelivered c (l\<lparr>vl_last_flush := u\<rparr>, w) = undelivered c (l, w)"
  by (simp_all add: view_up_def all_rows_def undelivered_def)

lemma up_flush:
  assumes "view_up st" and "view_ready c (ks (srv (snd st)))"
  shows "view_up (view_flush R sink c st) \<and> all_rows c (view_flush R sink c st) = all_rows c st
    \<and> undelivered c (view_flush R sink c st) = undelivered c st \<and> vl_batch (fst (view_flush R sink c st)) = []
    \<and> view_ready c (ks (srv (snd (view_flush R sink c st))))"
proof -
  obtain l w where st: "st = (l, w)" by (cases st)
  show ?thesis
  proof (cases "vl_batch l = []")
    case True
    then show ?thesis using assms by (simp add: st view_flush_def)
  next
    case False
    obtain r w1 where call: "sink_insert sink (vl_batch l) w = (r, w1)" by (metis surj_pair)
    have up: "chnet w = []" "net w = []" "\<forall>ev \<in> set (vl_batch l). fits ev" using assms(1) by (simp_all add: st view_up_def)
    have r: "r = Inr ()" using insert_up [OF up(1,3)] by (simp add: call)
    have rows: "stored (ch w1) = stored (ch w) @ map view_row_of (vl_batch l)" using insert_done call r by blast
    have w1: "srv w1 = srv w" "net w1 = []" "chnet w1 = []"
      using insert_frame(1,2) [of "vl_batch l" w] insert_frame(3) [of w "vl_batch l"] up by (simp_all add: call)
    have ready: "view_ready c (ks (srv w1))" using assms(2) by (simp add: st w1)
    note ack = view_ack_cases [OF ready, of "vl_ids l"]
    have "view_flush R sink c st = (l\<lparr>vl_batch := [], vl_ids := []\<rparr>, view_ack R c (vl_ids l) w1)"
      using False by (simp add: st view_flush_def call r)
    moreover have "view_ready c (ks (srv (view_ack R c (vl_ids l) w1)))"
      using ack ready view_ready_ack w1(2) by simp
    ultimately show ?thesis
      using ack w1 rows by (simp add: view_up_def all_rows_def undelivered_def st)
  qed
qed

lemma up_collect:
  fixes es :: "message list"
  assumes "view_up st" and "view_ready c (ks (srv (snd st)))"
  defines "st' \<equiv> fold (view_collect R c) es st"
  shows "view_up st' \<and> view_ready c (ks (srv (snd st'))) \<and> undelivered c st' = undelivered c st
    \<and> stored (ch (snd st')) = stored (ch (snd st))
    \<and> vl_batch (fst st') = vl_batch (fst st) @ List.map_filter (view_parse_event R) es"
  using assms(1,2) unfolding st'_def
proof (induction es arbitrary: st)
  case Nil
  then show ?case by (simp add: map_filter_simps)
next
  case (Cons m es)
  obtain l w where st: "st = (l, w)" by (cases st)
  let ?st1 = "view_collect R c m st"
  have ready: "view_ready c (ks (srv w))" and up: "net w = []" "chnet w = []"
    using Cons.prems by (simp_all add: st view_up_def)
  note ack = view_ack_cases [OF ready, of "[fst m]"]
  have one: "view_up ?st1 \<and> view_ready c (ks (srv (snd ?st1))) \<and> undelivered c ?st1 = undelivered c st
    \<and> stored (ch (snd ?st1)) = stored (ch w)
    \<and> vl_batch (fst ?st1) = vl_batch l @ (case view_parse_event R m of None \<Rightarrow> [] | Some ev \<Rightarrow> [ev])"
  proof (cases "view_parse_event R m")
    case None
    then show ?thesis using ack up Cons.prems view_ready_ack [OF ready, of "[fst m]"]
      by (simp add: st view_collect_def view_up_def undelivered_def)
  next
    case (Some ev)
    then have "fits ev" using hashes_fit view_parsed_lengths by blast
    then show ?thesis using Some Cons.prems by (auto simp: st view_collect_def view_up_def undelivered_def)
  qed
  then show ?case using Cons.IH [of ?st1] by (simp add: st map_filter_simps split: option.split)
qed

lemma up_pass:
  fixes t :: "gotime \<times> gotime"
  assumes "view_up st" and "view_ready c (ks (srv (snd st)))"
  defines "st' \<equiv> view_pass R sink c t st"
  shows "view_up st' \<and> view_ready c (ks (srv (snd st'))) \<and> all_rows c st' = all_rows c st
    \<and> undelivered c st' = drop (nat (vc_read_batch c)) (undelivered c st)"
proof -
  obtain l w where st: "st = (l, w)" by (cases st)
  let ?g = "vc_group c" and ?n = "nat (vc_read_batch c)"
  let ?f = "rXREADGROUP R view_stream_key ?g ?n"
  have ready: "view_ready c (ks (srv w))" and up: "net w = []" "chnet w = []"
    using assms(1,2) by (simp_all add: st view_up_def)
  then have s: "is_stream (ks (srv w) view_stream_key)" and g: "xgroups (stream_val (ks (srv w) view_stream_key)) ?g \<noteq> None"
    and ok: "stream_ok (view_stream (ks (srv w)))"
    by (simp_all add: view_ready_def view_stream_def)
  have g': "xgroups (view_stream (ks (srv w))) ?g \<noteq> None" using g by (simp add: view_stream_def)
  define es where "es = take ?n (undelivered c st)"
  define s1 where "s1 = snd (?f (srv w))"
  have k: "ks s1 = doc_stream (stream_readgroup ?g ?n) view_stream_key (ks (srv w))"
    unfolding s1_def by (rule xreadgroup(2) [OF s g])
  have call: "redis_call ?f w = (Inr es, w\<lparr>srv := s1\<rparr>)"
    using up xreadgroup(1) [OF s g, of ?n] by (simp add: redis_call_up es_def s1_def undelivered_def st view_stream_def)
  have ready1: "view_ready c (ks s1)"
    using readgroup_ok [OF ok] group_kept(2) [OF g'] by (simp add: k view_ready_def)
  have und1: "undelivered c (l, w\<lparr>srv := s1\<rparr>) = drop ?n (undelivered c st)"
    by (simp add: undelivered_def k readgroup_undelivered [OF ok] st)
  define st2 where "st2 = fold (view_collect R c) es (l, w\<lparr>srv := s1\<rparr>)"
  have "view_up (l, w\<lparr>srv := s1\<rparr>)" using assms(1) by (simp add: view_up_def st)
  from up_collect [OF this, of c es] ready1
  have two: "view_up st2 \<and> view_ready c (ks (srv (snd st2))) \<and> undelivered c st2 = drop ?n (undelivered c st)
    \<and> stored (ch (snd st2)) = stored (ch w) \<and> vl_batch (fst st2) = vl_batch l @ List.map_filter (view_parse_event R) es"
    by (simp add: st2_def und1)
  have split: "undelivered c st = es @ drop ?n (undelivered c st)" by (simp add: es_def)
  have "List.map_filter (view_parse_event R) (undelivered c st) =
      List.map_filter (view_parse_event R) es @ List.map_filter (view_parse_event R) (drop ?n (undelivered c st))"
    by (subst split) (simp only: map_filter_def filter_append map_append)
  then have rows2: "all_rows c st2 = all_rows c st"
    using two by (simp add: all_rows_def st)
  obtain l2 w2 where eq2: "st2 = (l2, w2)" by (cases st2)
  have up2: "view_up st2" and ready2: "view_ready c (ks (srv (snd st2)))" using two by simp_all
  note three = up_flush [OF up2 ready2]
  obtain l3 w3 where eq3: "view_flush R sink c (l2, w2) = (l3, w3)" by (metis surj_pair)
  have "st' = (l3\<lparr>vl_last_flush := snd t\<rparr>, w3) \<or> st' = (l2, w2)"
    using eq2 eq3 by (simp add: st'_def st view_pass_def call st2_def [symmetric] Let_def)
  then show ?thesis
  proof
    assume "st' = (l3\<lparr>vl_last_flush := snd t\<rparr>, w3)"
    moreover have "view_up (l3, w3)" "all_rows c (l3, w3) = all_rows c st" "undelivered c (l3, w3) = undelivered c st2"
      "view_ready c (ks (srv w3))" "undelivered c st2 = drop ?n (undelivered c st)"
      using two three rows2 by (simp_all add: eq2 eq3)
    ultimately show ?thesis by simp
  next
    assume "st' = (l2, w2)"
    then show ?thesis using two rows2 by (simp add: eq2)
  qed
qed

lemma up_passes:
  fixes ts :: "(gotime \<times> gotime) list"
  assumes "view_up st" and "view_ready c (ks (srv (snd st)))"
  defines "st' \<equiv> fold (view_pass R sink c) ts st"
  shows "view_up st' \<and> view_ready c (ks (srv (snd st'))) \<and> all_rows c st' = all_rows c st
    \<and> undelivered c st' = drop (length ts * nat (vc_read_batch c)) (undelivered c st)"
  using assms(1,2) unfolding st'_def
proof (induction ts arbitrary: st)
  case Nil
  then show ?case by simp
next
  case (Cons t ts)
  note one = up_pass [OF Cons.prems, of t]
  show ?case using Cons.IH [of "view_pass R sink c t st"] one by (simp add: add.commute)
qed

lemma run_exactly_once:
  assumes "net w = []" and "chnet w = []" and "view_ready c (ks (srv w))"
    and "length (stream_undelivered (vc_group c) (view_stream (ks (srv w)))) \<le> length ts * nat (vc_read_batch c)"
  shows "\<exists>l w'. view_worker_run R sink c t0 ts w = (Inr (), l, w') \<and> vl_batch l = []
    \<and> stored (ch w') = stored (ch w) @ map view_row_of (List.map_filter (view_parse_event R)
        (stream_undelivered (vc_group c) (view_stream (ks (srv w)))))"
proof -
  let ?l0 = "\<lparr>vl_batch = [], vl_ids = [], vl_last_flush = t0\<rparr>" and ?g = "vc_group c"
  let ?s1 = "snd (rXGROUP R view_stream_key ?g (srv w))"
  have s: "is_stream (ks (srv w) view_stream_key)" and g: "xgroups (view_stream (ks (srv w))) ?g \<noteq> None"
    using assms(3) by (simp_all add: view_ready_def)
  have k: "ks ?s1 = doc_stream (stream_group ?g) view_stream_key (ks (srv w))" by (rule xgroup(2) [OF s])
  have "stream_group ?g (view_stream (ks (srv w))) = view_stream (ks (srv w))"
    using g by (auto simp: stream_group_def)
  then have x1: "view_stream (ks ?s1) = view_stream (ks (srv w))" by (simp add: k)
  have "is_stream (ks ?s1 view_stream_key)" by (simp add: k)
  then have ready: "view_ready c (ks ?s1)" using assms(3) by (simp add: view_ready_def x1)
  let ?st0 = "(?l0, w\<lparr>srv := ?s1\<rparr>)"
  have up: "view_up ?st0" using assms(1,2) by (simp add: view_up_def)
  note passes = up_passes [OF up, of c ts]
  have und: "undelivered c ?st0 = stream_undelivered ?g (view_stream (ks (srv w)))" by (simp add: undelivered_def x1)
  define st1 where "st1 = fold (view_pass R sink c) ts ?st0"
  have one: "view_up st1" "view_ready c (ks (srv (snd st1)))" "all_rows c st1 = all_rows c ?st0" "undelivered c st1 = []"
    using passes ready assms(4) by (simp_all add: st1_def und)
  obtain l w' where fl: "view_flush R sink c st1 = (l, w')" by (metis surj_pair)
  note two = up_flush [OF one(1,2)]
  have batch: "vl_batch l = []" and "undelivered c (l, w') = []" and "all_rows c (l, w') = all_rows c ?st0"
    using two one(3,4) by (simp_all add: fl)
  then have rows: "stored (ch w') = stored (ch w) @ map view_row_of (List.map_filter (view_parse_event R)
      (stream_undelivered ?g (view_stream (ks (srv w)))))"
    by (simp add: all_rows_def und map_filter_simps)
  have "view_worker_run R sink c t0 ts w = (Inr (), l, w')"
    using assms(1) by (simp add: view_worker_run_def view_ensure_group_def redis_call_up st1_def [symmetric] fl)
  with rows batch show ?thesis by blast
qed

end

lemma ch_view_worker: "redis_server R ks \<Longrightarrow>
  view_worker R ks clickhouse_sink video_views (\<lambda>e. append_ok (view_row_of e))"
  by (intro view_worker.intro ch_sink.view_sink_axioms)

interpretation ref_view_worker: view_worker ref_redis "\<lambda>m. m" clickhouse_sink video_views
  "\<lambda>e. append_ok (view_row_of e)"
  by (rule ch_view_worker [OF ref_redis.redis_server_axioms])

section \<open>Daily totals\<close>

definition daily_views :: "uuid \<Rightarrow> clickhouse \<Rightarrow> nat" where
  "daily_views v d = sum_list (map d_views (filter (\<lambda>r. d_video_id r = v) (video_views_daily d)))"

definition daily_unique_views :: "uuid \<Rightarrow> clickhouse \<Rightarrow> nat" where
  "daily_unique_views v d = sum_list (map d_unique_views (filter (\<lambda>r. d_video_id r = v) (video_views_daily d)))"

definition rolled_up :: "clickhouse \<Rightarrow> bool" where
  "rolled_up d \<longleftrightarrow> (\<forall>v. daily_views v d = length (filter (\<lambda>r. vr_video_id r = v) (video_views d))
     \<and> daily_unique_views v d = length (filter (\<lambda>r. vr_video_id r = v \<and> vr_is_unique r = 1) (video_views d)))"

text \<open>Counting rows group by group counts every row once.\<close>

lemma sum_list_groups:
  assumes "distinct keys" and "\<forall>r \<in> set rows. key r \<in> set keys"
  shows "sum_list (map (\<lambda>k. length (filter (\<lambda>r. key r = k \<and> P r) rows)) (filter Q keys)) =
    length (filter (\<lambda>r. Q (key r) \<and> P r) rows)"
  using assms(2)
proof (induction rows)
  case Nil
  have "sum_list (map (\<lambda>k. 0 :: nat) xs) = 0" for xs :: "'a list" by (induction xs) simp_all
  then show ?case by simp
next
  case (Cons r rows)
  have ind: "sum_list (map (\<lambda>k. (if key r = k \<and> P r then 1 else 0) + g k) ks) =
      (if key r \<in> set ks \<and> P r then 1 else 0) + sum_list (map g ks)" if "distinct ks" for ks and g :: "'a \<Rightarrow> nat"
    using that by (induction ks) auto
  have "length (filter (\<lambda>x. key x = k \<and> P x) (r # rows)) =
      (if key r = k \<and> P r then 1 else 0) + length (filter (\<lambda>x. key x = k \<and> P x) rows)" for k by simp
  then show ?case
    using Cons ind [OF distinct_filter [OF assms(1), of Q]] by (simp only:) auto
qed

lemma daily_mv_totals:
  "sum_list (map d_views (filter (\<lambda>r. d_video_id r = v) (daily_mv rows))) = length (filter (\<lambda>r. vr_video_id r = v) rows)"
  "sum_list (map d_unique_views (filter (\<lambda>r. d_video_id r = v) (daily_mv rows))) =
     length (filter (\<lambda>r. vr_video_id r = v \<and> vr_is_unique r = 1) rows)"
proof -
  let ?keys = "remdups (map row_key rows)"
  have ok: "distinct ?keys" "\<forall>r \<in> set rows. row_key r \<in> set ?keys" by simp_all
  have f: "filter (\<lambda>r. d_video_id r = v) (map g ks) = map g (filter (\<lambda>k. snd k = v) ks)"
    if "\<And>k. d_video_id (g k) = snd k" for g :: "int \<times> uuid \<Rightarrow> daily_row" and ks
    using that by (induction ks) auto
  show "sum_list (map d_views (filter (\<lambda>r. d_video_id r = v) (daily_mv rows))) = length (filter (\<lambda>r. vr_video_id r = v) rows)"
    using sum_list_groups [OF ok, of "\<lambda>_. True" "\<lambda>k. snd k = v"] by (simp add: daily_mv_def f o_def row_key_def)
  show "sum_list (map d_unique_views (filter (\<lambda>r. d_video_id r = v) (daily_mv rows))) =
     length (filter (\<lambda>r. vr_video_id r = v \<and> vr_is_unique r = 1) rows)"
    using sum_list_groups [OF ok, of "\<lambda>r. vr_is_unique r = 1" "\<lambda>k. snd k = v"]
    by (simp add: daily_mv_def f o_def row_key_def)
qed

lemma insert_views_rolled_up: "rolled_up d \<Longrightarrow> rolled_up (insert_views rows d)"
  by (simp add: rolled_up_def daily_views_def daily_unique_views_def insert_views_def daily_mv_totals)

section \<open>Properties\<close>

text \<open>
  What \<open>Track\<close> emits the worker reads back: the fields of an accepted view parse to its
  video, viewer, digests, country, unique flag and time, for every digest of the handler's
  lengths and every clock reading that fits an \<open>int64\<close>.
\<close>

theorem view_event_round_trip:
  assumes "uuid_lib L" and "length (vi_ip_hash i) = 32" and "length (vi_ua_hash i) = 16" and "in_int64 ts"
  shows "view_parse_event L (n, view_fields L i uniq ts) =
    Some \<lparr>ve_stream_id = n, ve_video_id = vi_video_id i, ve_viewer_id = vi_viewer_id i, ve_ip_hash = vi_ip_hash i,
      ve_ua_hash = vi_ua_hash i, ve_country = vi_country i, ve_is_unique = uniq, ve_event_time = ts\<rparr>"
  using assms
  by (cases "vi_viewer_id i")
     (simp_all add: view_parse_event_def field_def view_fields_def uuid_lib.parse_str uuid_lib.str_nonempty Let_def)

theorem view_event_round_trip_witness:
  "map_option ve_viewer_id (view_parse_event ref_redis (3, view_fields ref_redis example_view True 1700000000000)) = Some (Some 1)"
  using view_event_round_trip [OF ref_redis.uuid_lib_axioms, of example_view 1700000000000 3 True]
  by (simp add: example_view_def in_int64_def)

text \<open>
  C6. No acknowledgement before the insert: through any number of passes, whatever the links to
  Redis and ClickHouse do (refused calls, lost replies) and whatever is in the stream, every
  entry the group has passed and no longer lists as pending is malformed or has its row in
  \<open>video_views\<close>, and the batch holds only parsed entries of the stream with their own ids.
\<close>

theorem view_worker_acks_only_stored_rows:
  assumes "redis_server R ks" and "view_inv R c (ks (srv w)) (video_views (ch w)) l"
    and "fold (view_pass R clickhouse_sink c) ts (l, w) = (l', w')"
  shows "view_inv R c (ks (srv w')) (video_views (ch w')) l'"
  using view_worker.inv_passes [OF ch_view_worker [OF assms(1)], of c "(l, w)" ts] assms(2,3) by simp

text \<open>A stream with one good and one malformed entry, a group at its start, and a fresh loop.\<close>

definition view_backlog :: keyspace where
  "view_backlog = [view_stream_key \<mapsto> (RStream \<lparr>xentries = [(1, view_fields ref_redis example_view True 9), (2, [])],
     xlast = 2, xgroups = [''vidmerce-workers'' \<mapsto> (0, [])]\<rparr>, None)]"

definition example_view_worker :: view_worker_config where
  "example_view_worker = new_view_worker \<lparr>vc_group = [], vc_consumer = [], vc_flush_size = 0,
     vc_flush_interval = 0, vc_read_batch = 0\<rparr>"

definition fresh_loop :: view_loop where
  "fresh_loop = \<lparr>vl_batch = [], vl_ids = [], vl_last_flush = 0\<rparr>"

lemma view_backlog_inv:
  "view_ready example_view_worker view_backlog" "view_inv ref_redis example_view_worker view_backlog [] fresh_loop"
  "view_stream view_backlog = \<lparr>xentries = [(1, view_fields ref_redis example_view True 9), (2, [])],
     xlast = 2, xgroups = [''vidmerce-workers'' \<mapsto> (0, [])]\<rparr>"
  by (auto simp: view_inv_def view_ready_def view_backlog_def view_stream_def example_view_worker_def
      new_view_worker_def stream_ok_def collected_def fresh_loop_def acked_stored_def group_last_def split: if_splits)

lemma view_backlog_parsed:
  "view_parse_event ref_redis (Suc 0, view_fields ref_redis example_view True 9) =
     Some \<lparr>ve_stream_id = 1, ve_video_id = 7, ve_viewer_id = Some 1, ve_ip_hash = replicate 32 (CHR ''0''),
       ve_ua_hash = replicate 16 (CHR ''0''), ve_country = ''DE'', ve_is_unique = True, ve_event_time = 9\<rparr>"
  "view_parse_event ref_redis (2, []) = None"
proof -
  show "view_parse_event ref_redis (Suc 0, view_fields ref_redis example_view True 9) =
     Some \<lparr>ve_stream_id = 1, ve_video_id = 7, ve_viewer_id = Some 1, ve_ip_hash = replicate 32 (CHR ''0''),
       ve_ua_hash = replicate 16 (CHR ''0''), ve_country = ''DE'', ve_is_unique = True, ve_event_time = 9\<rparr>"
    by (simp add: view_parse_event_def field_def view_fields_def ref_redis.parse_str [simplified] example_view_def
        ref_redis.str_nonempty [simplified] in_int64_def Let_def)
  show "view_parse_event ref_redis (2, []) = None"
    by (simp add: view_parse_event_def field_def ref_uuid_parse_def undashed_def)
qed

theorem view_worker_acks_only_stored_rows_witness:
  "case fold (view_pass ref_redis clickhouse_sink example_view_worker) [(0, 0), (second, second)]
       (fresh_loop, (new_world view_backlog)\<lparr>net := [Up, ReplyLost], chnet := [Up, ReplyLost]\<rparr>) of
     (l', w') \<Rightarrow> view_inv ref_redis example_view_worker (srv w') (video_views (ch w')) l'"
proof -
  let ?w = "(new_world view_backlog)\<lparr>net := [Up, ReplyLost], chnet := [Up, ReplyLost]\<rparr>"
  obtain l' w' where run: "fold (view_pass ref_redis clickhouse_sink example_view_worker) [(0, 0), (second, second)]
       (fresh_loop, ?w) = (l', w')" by (metis surj_pair)
  have "view_inv ref_redis example_view_worker (srv ?w) (video_views (ch ?w)) fresh_loop"
    using view_backlog_inv(2) by (simp add: new_world_def empty_clickhouse_def)
  then show ?thesis
    using view_worker_acks_only_stored_rows [OF ref_redis.redis_server_axioms _ run] unfolding run by simp
qed

text \<open>
  C23. Exactly once while the links are up: a run of the worker with enough turns for the backlog,
  at any clock readings, ends without error and with an empty batch, and \<open>video_views\<close> has
  grown by exactly one row per well-formed entry that was waiting, in stream order.
\<close>

theorem view_worker_stores_each_view_once:
  assumes "redis_server R ks" and "net w = []" and "chnet w = []" and "view_ready c (ks (srv w))"
    and "length (stream_undelivered (vc_group c) (view_stream (ks (srv w)))) \<le> length ts * nat (vc_read_batch c)"
  shows "\<exists>l w'. view_worker_run R clickhouse_sink c t0 ts w = (Inr (), l, w') \<and> vl_batch l = []
    \<and> video_views (ch w') = video_views (ch w) @ map view_row_of (List.map_filter (view_parse_event R)
        (stream_undelivered (vc_group c) (view_stream (ks (srv w)))))"
  by (rule view_worker.run_exactly_once [OF ch_view_worker [OF assms(1)] assms(2-5)])

theorem view_worker_stores_each_view_once_witness:
  "\<exists>l w'. view_worker_run ref_redis clickhouse_sink example_view_worker 0 [(5, 5)] (new_world view_backlog) = (Inr (), l, w')
     \<and> map vr_video_id (video_views (ch w')) = [7]"
proof -
  have und: "stream_undelivered (vc_group example_view_worker) (view_stream (srv (new_world view_backlog))) =
      [(1, view_fields ref_redis example_view True 9), (2, [])]"
    by (simp add: new_world_def view_backlog_inv(3) stream_undelivered_def example_view_worker_def new_view_worker_def)
  show ?thesis
    using view_worker_stores_each_view_once [OF ref_redis.redis_server_axioms, of "new_world view_backlog" example_view_worker
        "[(5, 5)]" 0] view_backlog_inv(1) view_backlog_parsed
    unfolding und
    by (auto simp: new_world_def empty_clickhouse_def map_filter_simps view_row_of_def example_view_worker_def new_view_worker_def)
qed

text \<open>
  The daily aggregate is exact: whatever the link does and whatever the batches, an insert
  keeps the totals of \<open>video_views_daily\<close>, summed per video, equal to the number of rows and of
  unique rows of that video in \<open>video_views\<close>.
\<close>

theorem daily_totals_count_every_row:
  assumes "rolled_up (ch w)" and "ch_insert evs w = (r, w')"
  shows "rolled_up (ch w')"
  using assms(2,1) by (cases rule: ch_insert_cases) (auto simp: insert_views_rolled_up split: if_splits)

theorem daily_totals_count_every_row_witness:
  "rolled_up (ch (snd (ch_insert [\<lparr>ve_stream_id = 1, ve_video_id = 7, ve_viewer_id = None,
      ve_ip_hash = replicate 32 (CHR ''0''), ve_ua_hash = replicate 16 (CHR ''0''), ve_country = [],
      ve_is_unique = True, ve_event_time = 86400001\<rparr>] ((new_world ())\<lparr>chnet := [Up, ReplyLost]\<rparr>))))"
proof -
  let ?w = "(new_world ())\<lparr>chnet := [Up, ReplyLost]\<rparr>"
  have "rolled_up (ch ?w)" by (simp add: new_world_def empty_clickhouse_def rolled_up_def daily_views_def daily_unique_views_def)
  then show ?thesis by (rule daily_totals_count_every_row) (rule surjective_pairing)
qed

end
