(* ===== verification/Stats.thy ===== *)
theory Stats
  imports ViewWorker Video
begin

text \<open>
  \<open>internal/stats\<close>: the statistics of one video, read from the daily roll-up in ClickHouse and
  the like counter in Postgres, behind a Redis cache and a per-video lock. A request is modelled
  as its sequence of calls. What other replicas do while it waits for the lock is an argument
  (\<open>pause\<close>, nothing when the request is cancelled meanwhile), as are the random token of the
  lock, the clock, and which of two failing reads fails first. In-process coalescing
  (\<open>singleflight\<close>) hands the result of one fetch to several callers; it is modelled, with the
  interleaving of the requests, in StatsReplicas. The engagement rate is the exact quotient,
  before its rounding to a float64.
\<close>

section \<open>The payload\<close>

record stats =
  st_video_id :: uuid
  st_views :: int
  st_unique_views :: int
  st_likes :: int
  st_engagement_rate :: rat
  st_computed_at :: gotime

definition engagement_rate :: "int \<Rightarrow> int \<Rightarrow> rat" where
  "engagement_rate n_likes n_unique =
     (if n_unique \<le> 0 then 0 else rat_of_int n_likes / rat_of_int n_unique)"

section \<open>The counts of the roll-up\<close>

definition ch_counts :: "uuid \<Rightarrow> 's world \<Rightarrow> (int \<times> int) result \<times> 's world" where
  "ch_counts v w =
     (case ch_call (reading (\<lambda>d.
         let rows = filter (\<lambda>r. d_video_id r = v) (video_views_daily d)
         in (wrap64 (int (sum_list (map d_views rows))), wrap64 (int (sum_list (map d_unique_views rows)))))) w of
        (Inl e, w') \<Rightarrow> (Inl (Wrapped ''clickhouse views count'' e), w')
      | (Inr n, w') \<Rightarrow> (Inr n, w'))"

section \<open>The service\<close>

record 'w stats_service =
  ss_counts :: "uuid \<Rightarrow> 'w \<Rightarrow> (int \<times> int) result \<times> 'w"
  ss_likes :: "uuid \<Rightarrow> 'w \<Rightarrow> int result \<times> 'w"
  ss_exists :: "uuid \<Rightarrow> 'w \<Rightarrow> bool result \<times> 'w"
  ss_cache_ttl :: int
  ss_lock_ttl :: int
  ss_lock_retry :: int

definition new_stats_service ::
  "(uuid \<Rightarrow> 'w \<Rightarrow> (int \<times> int) result \<times> 'w) \<Rightarrow> (uuid \<Rightarrow> 'w \<Rightarrow> int result \<times> 'w) \<Rightarrow>
   (uuid \<Rightarrow> 'w \<Rightarrow> bool result \<times> 'w) \<Rightarrow> int \<Rightarrow> int \<Rightarrow> int \<Rightarrow> 'w stats_service"
where
  "new_stats_service counts n_likes present cache_ttl lock_ttl lock_retry =
     \<lparr>ss_counts = counts, ss_likes = n_likes, ss_exists = present,
      ss_cache_ttl = (if cache_ttl \<le> 0 then 30 * second else cache_ttl),
      ss_lock_ttl = (if lock_ttl \<le> 0 then 5 * second else lock_ttl),
      ss_lock_retry = (if lock_retry \<le> 0 then 75 * millisecond else lock_retry)\<rparr>"

definition stats_cache_key :: "'z libs_scheme \<Rightarrow> uuid \<Rightarrow> string" where
  "stats_cache_key L v = ''stats:'' @ uuid_str L v"

definition stats_lock_key :: "'z libs_scheme \<Rightarrow> uuid \<Rightarrow> string" where
  "stats_lock_key L v = ''lock:stats:'' @ uuid_str L v"

text \<open>What the two reads come to; of two that fail, the first to fail is reported.\<close>

definition stats_assemble ::
  "bool \<Rightarrow> uuid \<Rightarrow> gotime \<Rightarrow> (int \<times> int) result \<Rightarrow> int result \<Rightarrow> stats result"
where
  "stats_assemble likes_first v now a b =
     (case (a, b) of
        (Inr (n, u), Inr l) \<Rightarrow>
          Inr \<lparr>st_video_id = v, st_views = n, st_unique_views = u, st_likes = l,
               st_engagement_rate = engagement_rate l u, st_computed_at = now\<rparr>
      | (Inl e, Inr _) \<Rightarrow> Inl (Wrapped ''views'' e)
      | (Inr _, Inl f) \<Rightarrow> Inl (Wrapped ''likes'' f)
      | (Inl e, Inl f) \<Rightarrow> Inl (if likes_first then Wrapped ''likes'' f else Wrapped ''views'' e))"

definition stats_compute ::
  "'w stats_service \<Rightarrow> bool \<Rightarrow> uuid \<Rightarrow> gotime \<Rightarrow> 'w \<Rightarrow> stats result \<times> 'w"
where
  "stats_compute svc likes_first v now w =
     (let (a, w) = ss_counts svc v w; (b, w) = ss_likes svc v w
      in (stats_assemble likes_first v now a b, w))"

definition stats_read_cache ::
  "('s, 'z) redis_scheme \<Rightarrow> stats codec \<Rightarrow> uuid \<Rightarrow> 's world \<Rightarrow> stats option \<times> 's world"
where
  "stats_read_cache R C v w =
     (case redis_call (reading (rGET R (stats_cache_key R v))) w of
        (Inr (Some raw), w') \<Rightarrow> (unmarshal C raw, w')
      | (_, w') \<Rightarrow> (None, w'))"

definition stats_write_cache ::
  "('s, 'z) redis_scheme \<Rightarrow> stats codec \<Rightarrow> int \<Rightarrow> stats \<Rightarrow> 's world \<Rightarrow> 's world"
where
  "stats_write_cache R C ttl st w =
     (case marshal C st of
        None \<Rightarrow> w
      | Some b \<Rightarrow> snd (redis_call (writing (rSET R (stats_cache_key R (st_video_id st)) b (redis_ttl ttl))) w))"

definition acquire_lock ::
  "('s, 'z) redis_scheme \<Rightarrow> int \<Rightarrow> uuid \<Rightarrow> string \<Rightarrow> 's world \<Rightarrow> (bool \<times> string) result \<times> 's world"
where
  "acquire_lock R ttl v token w =
     (case redis_call (rSETNX R (stats_lock_key R v) token (redis_ttl ttl)) w of
        (Inl e, w') \<Rightarrow> (Inl e, w')
      | (Inr got, w') \<Rightarrow> (Inr (got, token), w'))"

definition release_lock_script :: "('s, 'z) redis_scheme \<Rightarrow> string \<Rightarrow> string \<Rightarrow> 's \<Rightarrow> 's" where
  "release_lock_script R key token s = (if rGET R key s = Some token then rDEL R key s else s)"

definition release_lock ::
  "('s, 'z) redis_scheme \<Rightarrow> uuid \<Rightarrow> string \<Rightarrow> 's world \<Rightarrow> 's world"
where
  "release_lock R v token w =
     (if token = [] then w
      else snd (redis_call (writing (release_lock_script R (stats_lock_key R v) token)) w))"

text \<open>The second half of \<open>fetch\<close>: compute, write the cache, and give back a lock it holds.\<close>

definition stats_recompute ::
  "('s, 'z) redis_scheme \<Rightarrow> stats codec \<Rightarrow> 's world stats_service \<Rightarrow> bool \<Rightarrow> uuid \<Rightarrow> string \<Rightarrow> bool \<Rightarrow> gotime
     \<Rightarrow> 's world \<Rightarrow> stats result \<times> 's world"
where
  "stats_recompute R C svc likes_first v token got now w =
     (case stats_compute svc likes_first v now w of
        (Inl e, w) \<Rightarrow> (Inl e, if got then release_lock R v token w else w)
      | (Inr st, w) \<Rightarrow>
          (let w = stats_write_cache R C (ss_cache_ttl svc) st w
           in (Inr st, if got then release_lock R v token w else w)))"

definition stats_fetch ::
  "('s, 'z) redis_scheme \<Rightarrow> stats codec \<Rightarrow> 's world stats_service \<Rightarrow> ('s world \<Rightarrow> 's world option) \<Rightarrow> bool
     \<Rightarrow> uuid \<Rightarrow> string \<Rightarrow> gotime \<Rightarrow> 's world \<Rightarrow> stats result \<times> 's world"
where
  "stats_fetch R C svc pause likes_first v token now w =
     (case ss_exists svc v w of
        (Inl e, w) \<Rightarrow> (Inl (Wrapped ''video exists check'' e), w)
      | (Inr False, w) \<Rightarrow> (Inl ErrStatsVideoNotFound, w)
      | (Inr True, w) \<Rightarrow>
          (let (lock, w) = acquire_lock R (ss_lock_ttl svc) v token w;
               got = (case lock of Inl e \<Rightarrow> False | Inr (g, t) \<Rightarrow> g)
           in if got then stats_recompute R C svc likes_first v token got now w
              else case pause w of
                     None \<Rightarrow> (Inl (Plain ''context canceled''), w)
                   | Some w \<Rightarrow>
                       (case stats_read_cache R C v w of
                          (Some st, w) \<Rightarrow> (Inr st, w)
                        | (None, w) \<Rightarrow> stats_recompute R C svc likes_first v token got now w)))"

definition stats_get ::
  "('s, 'z) redis_scheme \<Rightarrow> stats codec \<Rightarrow> 's world stats_service \<Rightarrow> ('s world \<Rightarrow> 's world option) \<Rightarrow> bool
     \<Rightarrow> uuid \<Rightarrow> string \<Rightarrow> gotime \<Rightarrow> 's world \<Rightarrow> stats result \<times> 's world"
where
  "stats_get R C svc pause likes_first v token now w =
     (case stats_read_cache R C v w of
        (Some st, w) \<Rightarrow> (Inr st, w)
      | (None, w) \<Rightarrow> stats_fetch R C svc pause likes_first v token now w)"

section \<open>The handler\<close>

definition handle_stats ::
  "('s, 'z) redis_scheme \<Rightarrow> stats codec \<Rightarrow> 's world stats_service \<Rightarrow> ('s world \<Rightarrow> 's world option) \<Rightarrow> bool
     \<Rightarrow> string \<Rightarrow> string \<Rightarrow> gotime \<Rightarrow> 's world \<Rightarrow> stats response \<times> 's world"
where
  "handle_stats R C svc pause likes_first param token now w =
     (case uuid_parse R param of
        None \<Rightarrow> (httpx_error 400 ''validation_failed'' ''invalid video id'', w)
      | Some v \<Rightarrow>
          (case stats_get R C svc pause likes_first v token now w of
             (Inr st, w') \<Rightarrow> (httpx_ok st, w')
           | (Inl e, w') \<Rightarrow>
               (if errors_is e ErrStatsVideoNotFound
                then httpx_error 404 ''not_found'' ''video not found''
                else httpx_error 500 ''internal_error'' ''stats unavailable'', w')))"

text \<open>The service of the composition root.\<close>

definition app_stats_service ::
  "('s, 'z) redis_scheme \<Rightarrow> 's world video_service \<Rightarrow> int \<Rightarrow> int \<Rightarrow> int \<Rightarrow> 's world stats_service"
where
  "app_stats_service R vsvc cache_ttl lock_ttl lock_retry =
     new_stats_service ch_counts pg_count (video_is_present R vsvc) cache_ttl lock_ttl lock_retry"

section \<open>What a request answers\<close>

definition stats_exact :: "uuid \<Rightarrow> postgres \<Rightarrow> clickhouse \<Rightarrow> gotime \<Rightarrow> stats \<Rightarrow> bool" where
  "stats_exact v d c now st \<longleftrightarrow> st_video_id st = v
     \<and> st_views st = int (length (filter (\<lambda>r. vr_video_id r = v) (video_views c)))
     \<and> st_unique_views st = int (length (filter (\<lambda>r. vr_video_id r = v \<and> vr_is_unique r = 1) (video_views c)))
     \<and> st_likes st = edge_count v d
     \<and> st_engagement_rate st = engagement_rate (st_likes st) (st_unique_views st) \<and> st_computed_at st = now"

definition stats_held ::
  "('s, 'z) redis_scheme \<Rightarrow> ('s \<Rightarrow> keyspace) \<Rightarrow> stats codec \<Rightarrow> uuid \<Rightarrow> 's world \<Rightarrow> stats option"
where
  "stats_held R ks C v w = cache_held C (\<lambda>i. ''stats:'' @ i) (ks (srv w)) (uuid_str R v)"

lemma ch_counts_cases:
  assumes "ch_counts v w = (r, w')"
  shows "pg w' = pg w \<and> pgnet w' = pgnet w \<and> srv w' = srv w \<and> net w' = net w \<and> ch w' = ch w"
    and "r = Inr (n, u) \<Longrightarrow> n = wrap64 (int (daily_views v (ch w))) \<and> u = wrap64 (int (daily_unique_views v (ch w)))"
    and "r = Inl e \<Longrightarrow> \<exists>s. e = Wrapped ''clickhouse views count'' (Plain s)"
proof -
  define f where "f d = (wrap64 (int (daily_views v d)), wrap64 (int (daily_unique_views v d)))" for d
  obtain q w1 where call: "ch_call (reading f) w = (q, w1)" by (metis surj_pair)
  have run: "ch_counts v w = (case ch_call (reading f) w of
      (Inl e, w') \<Rightarrow> (Inl (Wrapped ''clickhouse views count'' e), w') | (Inr n, w') \<Rightarrow> (Inr n, w'))"
    by (simp add: ch_counts_def f_def daily_views_def daily_unique_views_def Let_def)
  have w': "w' = w1" and r: "r = (case q of Inl e \<Rightarrow> Inl (Wrapped ''clickhouse views count'' e) | Inr n \<Rightarrow> Inr n)"
    using assms unfolding run call by (auto split: sum.splits)
  have rd: "ch w1 = ch w" "\<And>a. q = Inr a \<Longrightarrow> a = f (ch w)" using ch_call_read [OF call] by simp_all
  show "pg w' = pg w \<and> pgnet w' = pgnet w \<and> srv w' = srv w \<and> net w' = net w \<and> ch w' = ch w"
    using ch_call_frame [of "reading f" w] rd(1) unfolding w' call by simp
  show "r = Inr (n, u) \<Longrightarrow> n = wrap64 (int (daily_views v (ch w))) \<and> u = wrap64 (int (daily_unique_views v (ch w)))"
    using rd(2) unfolding r by (cases q) (simp_all add: f_def)
  show "r = Inl e \<Longrightarrow> \<exists>s. e = Wrapped ''clickhouse views count'' (Plain s)"
    using call unfolding r by (cases rule: ch_call_cases) auto
qed

lemma pg_count_cases:
  assumes "pg_count v w = (r, w')"
  shows "pg w' = pg w \<and> srv w' = srv w \<and> net w' = net w \<and> ch w' = ch w \<and> chnet w' = chnet w"
    and "r = Inr n \<Longrightarrow> stats_count v (pg w) = Some n"
    and "r = Inl e \<Longrightarrow> \<exists>s. e = Wrapped ''count'' (Plain s)"
proof -
  let ?f = "reading (\<lambda>d. case stats_count v d of None \<Rightarrow> Inl NoRows | Some n \<Rightarrow> Inr n)"
  obtain q w1 where call: "pg_exec ?f w = (q, w1)" by (metis surj_pair)
  have w': "w' = w1" and r: "r = (case q of Inl e \<Rightarrow> Inl (Wrapped ''count'' (pg_goerr e)) | Inr n \<Rightarrow> Inr n)"
    using assms unfolding pg_count_def call by (auto split: sum.splits)
  show "pg w' = pg w \<and> srv w' = srv w \<and> net w' = net w \<and> ch w' = ch w \<and> chnet w' = chnet w"
    using pg_exec_frame [of ?f w] pg_exec_read [OF call] unfolding w' call by simp
  show "r = Inr n \<Longrightarrow> stats_count v (pg w) = Some n"
    using pg_exec_read [OF call] unfolding r by (auto split: sum.splits option.splits)
  show "r = Inl e \<Longrightarrow> \<exists>s. e = Wrapped ''count'' (Plain s)"
    using pg_exec_error [of ?f w _ w1] call unfolding r
    by (auto split: sum.splits option.splits)
qed

lemma counts_up:
  "chnet w = [] \<Longrightarrow> ch_counts v w = (r, w') \<Longrightarrow> (\<exists>n. r = Inr n) \<and> chnet w' = []"
  by (auto simp: ch_counts_def ch_call_up)

lemma pg_count_up:
  "pgnet w = [] \<Longrightarrow> stats_count v (pg w) = Some n \<Longrightarrow> pg_count v w = (r, w') \<Longrightarrow> r = Inr n"
  by (auto simp: pg_count_def pg_exec_up)

lemma stats_row_exact:
  assumes "counts_exact d" and "stats_count v d = Some n"
  shows "n = edge_count v d"
  using assms find_Some_iff' [of "\<lambda>r. s_video_id r = v" "video_stats d"]
  by (auto simp: stats_count_def counts_exact_def)

lemma compute_cases:
  assumes "svc = app_stats_service R vsvc cache_ttl lock_ttl lock_retry" and "stats_compute svc first v now w = (r, w')"
    and "rolled_up (ch w)" and "counts_exact (pg w)" and "length (video_views (ch w)) < 2 ^ 63"
  shows "pg w' = pg w \<and> ch w' = ch w \<and> srv w' = srv w \<and> net w' = net w"
    and "r = Inr st \<Longrightarrow> stats_exact v (pg w) (ch w) now st"
    and "r = Inl e \<Longrightarrow> \<not> errors_is e ErrStatsVideoNotFound"
    and "r = Inl e \<Longrightarrow> pgnet w = [] \<Longrightarrow> chnet w = [] \<Longrightarrow> stats_count v (pg w) = None"
proof -
  obtain a w1 where a: "ch_counts v w = (a, w1)" by (metis surj_pair)
  obtain b w2 where b: "pg_count v w1 = (b, w2)" by (metis surj_pair)
  note ca = ch_counts_cases [OF a] and cb = pg_count_cases [OF b]
  have svc: "ss_counts svc = ch_counts" "ss_likes svc = pg_count"
    by (simp_all add: assms(1) app_stats_service_def new_stats_service_def)
  have run: "w' = w2" "r = stats_assemble first v now a b"
    using assms(2) unfolding stats_compute_def svc a Let_def by (simp_all add: b)
  show "pg w' = pg w \<and> ch w' = ch w \<and> srv w' = srv w \<and> net w' = net w" using ca(1) cb(1) run(1) by simp
  show "stats_exact v (pg w) (ch w) now st" if st: "r = Inr st"
  proof -
    obtain n u l where a': "a = Inr (n, u)" and b': "b = Inr l"
      using st unfolding run(2) stats_assemble_def by (cases a; cases b) auto
    have rows: "length (filter P (video_views (ch w))) < 2 ^ 63" for P
      using assms(5) length_filter_le [of P "video_views (ch w)"] by linarith
    have "n = int (length (filter (\<lambda>r. vr_video_id r = v) (video_views (ch w))))"
      "u = int (length (filter (\<lambda>r. vr_video_id r = v \<and> vr_is_unique r = 1) (video_views (ch w))))"
      using ca(2) [OF a'] rows assms(3) by (auto simp: rolled_up_def wrap64_id in_int64_def)
    moreover have "l = edge_count v (pg w)"
      using cb(2) [OF b'] ca(1) stats_row_exact [OF assms(4)] by simp
    ultimately show ?thesis using st unfolding run(2) a' b' by (auto simp: stats_assemble_def stats_exact_def)
  qed
  show "\<not> errors_is e ErrStatsVideoNotFound" if e: "r = Inl e"
    using e ca(3) cb(3) unfolding run(2) stats_assemble_def by (cases a; cases b; cases first) fastforce+
  show "stats_count v (pg w) = None" if e: "r = Inl e" and up: "pgnet w = []" "chnet w = []"
  proof (rule ccontr)
    assume "stats_count v (pg w) \<noteq> None"
    then obtain n where "stats_count v (pg w1) = Some n" using ca(1) by auto
    then have "b = Inr n" using pg_count_up [OF _ _ b] ca(1) up(1) by simp
    moreover obtain c where "a = Inr c" using counts_up [OF up(2) a] by blast
    ultimately show False using e unfolding run(2) by (cases c) (simp add: stats_assemble_def)
  qed
qed

section \<open>Whether the video exists\<close>

context video_reads
begin

lemma is_present_answers:
  assumes "video_cache_true R ks C w" and "\<forall>v \<in> set (videos (pg w)). fits v"
    and "video_is_present R svc i w = (r, w')"
  shows "key_frame ks (video_cache_key (uuid_str R i)) w w'" and "video_cache_true R ks C w'"
    and "r = Inr b \<Longrightarrow> b \<longleftrightarrow> video_row i (pg w) \<noteq> None"
    and "r = Inl e \<Longrightarrow> \<not> errors_is e ErrStatsVideoNotFound" and "r = Inl e \<Longrightarrow> pgnet w \<noteq> []"
proof -
  obtain q w1 where call1: "video_get R svc i w = (q, w1)" by (metis surj_pair)
  have w': "w' = w1"
    and r: "r = (case q of Inl e \<Rightarrow> if errors_is e ErrVideoNotFound then Inr False else Inl e | Inr v \<Rightarrow> Inr True)"
    using assms(3) unfolding video_is_present_def call1 by (cases q; auto)+
  note call = call1 [folded w']
  note a = video_get_answers [OF assms(1,2) call]
  show "key_frame ks (video_cache_key (uuid_str R i)) w w'" "video_cache_true R ks C w'" using a by blast+
  show "r = Inr b \<Longrightarrow> b \<longleftrightarrow> video_row i (pg w) \<noteq> None"
    using a unfolding r by (cases q) (auto split: if_splits)
  show "r = Inl e \<Longrightarrow> pgnet w \<noteq> []"
    using a unfolding r by (cases "video_row i (pg w)") (auto simp: split: if_splits)
  show "r = Inl e \<Longrightarrow> \<not> errors_is e ErrStatsVideoNotFound"
  proof -
    assume "r = Inl e"
    then have q: "q = Inl e" unfolding r by (cases q) (auto split: if_splits)
    then have "video_get R svc i w = (Inl e, w')" using call by simp
    from read_through_errors [OF this [unfolded video_get_def]]
    obtain u1 u2 where "repo_find_by_id (vd_repo svc) i u1 = (Inl e, u2)" by blast
    then have "pg_find_video i u1 = (Inl e, u2)" by (simp add: app_video_service_def pg_video_repo_def)
    then show ?thesis using pg_find_video_errors by fastforce
  qed
qed

end

section \<open>The cache and the lock\<close>

lemma stats_keys_apart [simp]:
  "stats_lock_key L v \<noteq> stats_cache_key L u" "stats_cache_key L u \<noteq> stats_lock_key L v"
  "stats_lock_key L v \<noteq> video_cache_key i" "stats_cache_key L v \<noteq> video_cache_key i"
  by (simp_all add: stats_lock_key_def stats_cache_key_def video_cache_key_def)

context redis_server
begin

lemma read_cache_cases:
  assumes "stats_read_cache R C v w = (res, w')"
  shows "stores_same w w' \<and> srv w' = srv w"
    and "is_str (ks (srv w) (stats_cache_key R v)) \<Longrightarrow> res = Some st \<Longrightarrow> stats_held R ks C v w = Some st"
proof -
  let ?k = "stats_cache_key R v"
  obtain q w1 where call: "redis_call (reading (rGET R ?k)) w = (q, w1)" by (metis surj_pair)
  have w': "w' = w1" and res: "res = (case q of Inr (Some raw) \<Rightarrow> unmarshal C raw | _ \<Rightarrow> None)"
    using assms unfolding stats_read_cache_def call by (auto split: sum.splits option.splits)
  have rd: "srv w1 = srv w" "\<And>a. q = Inr a \<Longrightarrow> a = rGET R ?k (srv w)" using redis_call_read [OF call] by simp_all
  show "stores_same w w' \<and> srv w' = srv w" using redis_call_same [OF call] rd(1) unfolding w' by simp
  assume "is_str (ks (srv w) ?k)" and "res = Some st"
  then show "stats_held R ks C v w = Some st"
    using rd(2) get [of "srv w" ?k] unfolding res
    by (auto simp: stats_held_def cache_held_def stats_cache_key_def split: sum.splits option.splits)
qed

lemma write_cache_cases: "only_key ks (stats_cache_key R (st_video_id st)) w (stats_write_cache R C ttl st w)"
proof (cases "marshal C st")
  case None
  then show ?thesis by (simp add: stats_write_cache_def only_key_def)
next
  case (Some b)
  let ?k = "stats_cache_key R (st_video_id st)"
  obtain q w1 where call: "redis_call (writing (rSET R ?k b (redis_ttl ttl))) w = (q, w1)" by (metis surj_pair)
  have "srv w1 = srv w \<or> srv w1 = rSET R ?k b (redis_ttl ttl) (srv w)" using call by (auto elim!: redis_call_cases)
  then show ?thesis
    using redis_call_same [OF call] by (auto simp: stats_write_cache_def Some call only_key_def set doc_set_def)
qed

lemma acquire_cases:
  assumes "acquire_lock R ttl v token w = (r, w')"
  shows "only_key ks (stats_lock_key R v) w w'"
    and "ks (srv w) (stats_lock_key R v) \<noteq> None \<Longrightarrow> ks (srv w') = ks (srv w) \<and> (\<forall>t. r \<noteq> Inr (True, t))"
    and "net w = [] \<Longrightarrow> ks (srv w) (stats_lock_key R v) = None \<Longrightarrow>
      r = Inr (True, token) \<and> ks (srv w') (stats_lock_key R v) = Some (RStr token, redis_ttl ttl)"
    and "is_str (ks (srv w) (stats_lock_key R v)) \<Longrightarrow> is_str (ks (srv w') (stats_lock_key R v))"
    and "r = Inr (True, t) \<Longrightarrow> ks (srv w') (stats_lock_key R v) = Some (RStr token, redis_ttl ttl)"
proof -
  let ?k = "stats_lock_key R v"
  let ?f = "rSETNX R ?k token (redis_ttl ttl)"
  obtain q w1 where call: "redis_call ?f w = (q, w1)" by (metis surj_pair)
  have w': "w' = w1" and r: "r = (case q of Inl e \<Rightarrow> Inl e | Inr got \<Rightarrow> Inr (got, token))"
    using assms unfolding acquire_lock_def call by (auto split: sum.splits)
  have st: "ks (srv w1) = ks (srv w) \<or> ks (srv w1) = (if ks (srv w) ?k = None then doc_set ?k token (redis_ttl ttl) (ks (srv w)) else ks (srv w))"
    using call setnx(2) by (cases rule: redis_call_cases) (metis sndI)+
  have got: "g \<longleftrightarrow> ks (srv w) ?k = None" if "q = Inr g" for g
    using call
  proof (cases rule: redis_call_cases)
    case (1 a)
    then have "fst (?f (srv w)) = g" using that by simp
    then show ?thesis by (simp only: setnx(1))
  qed (simp_all add: that)
  show "only_key ks ?k w w'"
    using st redis_call_same [OF call] unfolding w' by (auto simp: only_key_def doc_set_def split: if_splits)
  show "ks (srv w') = ks (srv w) \<and> (\<forall>t. r \<noteq> Inr (True, t))" if held: "ks (srv w) ?k \<noteq> None"
  proof
    show "ks (srv w') = ks (srv w)" using st held unfolding w' by simp
    show "\<forall>t. r \<noteq> Inr (True, t)" using got [of True] held unfolding r by (cases q) auto
  qed
  show "is_str (ks (srv w) ?k) \<Longrightarrow> is_str (ks (srv w') ?k)"
    using st unfolding w' by (auto simp: doc_set_def split: if_splits)
  show "ks (srv w') ?k = Some (RStr token, redis_ttl ttl)" if "r = Inr (True, t)"
  proof -
    have q: "q = Inr True" using that unfolding r by (auto split: sum.splits)
    then have "ks (srv w) ?k = None" using got by simp
    moreover have "srv w1 = snd (?f (srv w))" using call q by (cases rule: redis_call_cases) auto
    ultimately show ?thesis using setnx(2) unfolding w' by (simp add: doc_set_def)
  qed
  assume up: "net w = []" and free: "ks (srv w) ?k = None"
  then have "q = Inr (fst (?f (srv w)))" "srv w1 = snd (?f (srv w))" using call by (auto simp: redis_call_up)
  then show "r = Inr (True, token) \<and> ks (srv w') ?k = Some (RStr token, redis_ttl ttl)"
    using free setnx unfolding w' r by (simp add: doc_set_def)
qed

lemma release_cases:
  assumes "is_str (ks (srv w) (stats_lock_key R v))"
  shows "only_key ks (stats_lock_key R v) w (release_lock R v token w)"
    and "str_val (ks (srv w) (stats_lock_key R v)) \<noteq> Some token \<Longrightarrow> ks (srv (release_lock R v token w)) = ks (srv w)"
    and "net w = [] \<Longrightarrow> token \<noteq> [] \<Longrightarrow> str_val (ks (srv w) (stats_lock_key R v)) = Some token \<Longrightarrow>
      ks (srv (release_lock R v token w)) (stats_lock_key R v) = None"
proof -
  let ?k = "stats_lock_key R v"
  let ?f = "release_lock_script R ?k token"
  obtain q w1 where call: "redis_call (writing ?f) w = (q, w1)" by (metis surj_pair)
  have rel: "release_lock R v token w = (if token = [] then w else w1)" by (simp add: release_lock_def call)
  have f: "ks (?f (srv w)) = (if str_val (ks (srv w) ?k) = Some token then (ks (srv w))(?k := None) else ks (srv w))"
    using get [OF assms] by (simp add: release_lock_script_def del)
  have st: "ks (srv w1) = ks (srv w) \<or> ks (srv w1) = ks (?f (srv w))" using call by (auto elim!: redis_call_cases)
  show "only_key ks ?k w (release_lock R v token w)"
    using st f redis_call_same [OF call] unfolding rel by (auto simp: only_key_def split: if_splits)
  show "str_val (ks (srv w) ?k) \<noteq> Some token \<Longrightarrow> ks (srv (release_lock R v token w)) = ks (srv w)"
    using st f unfolding rel by auto
  show "net w = [] \<Longrightarrow> token \<noteq> [] \<Longrightarrow> str_val (ks (srv w) ?k) = Some token \<Longrightarrow>
      ks (srv (release_lock R v token w)) ?k = None"
    using call f unfolding rel by (auto simp: redis_call_up)
qed

end

section \<open>One request\<close>

text \<open>What the others do during the wait: they touch neither database, and leave text under the
  two keys of the video.\<close>

definition pause_ok ::
  "('s, 'z) redis_scheme \<Rightarrow> ('s \<Rightarrow> keyspace) \<Rightarrow> uuid \<Rightarrow> ('s world \<Rightarrow> 's world option) \<Rightarrow> bool"
where
  "pause_ok R ks v pause \<longleftrightarrow> (\<forall>w w'. pause w = Some w' \<longrightarrow> pg w' = pg w \<and> ch w' = ch w
     \<and> pgnet w' = pgnet w \<and> chnet w' = chnet w
     \<and> is_str (ks (srv w') (stats_cache_key R v)) \<and> is_str (ks (srv w') (stats_lock_key R v)))"

context video_reads
begin

lemma recompute_cases:
  assumes "ssvc = app_stats_service R svc cache_ttl lock_ttl lock_retry"
    and "stats_recompute R SC ssvc first v token got now w = (r, w')"
    and "rolled_up (ch w)" and "counts_exact (pg w)" and "length (video_views (ch w)) < 2 ^ 63"
    and "is_str (ks (srv w) (stats_lock_key R v))"
  shows "pg w' = pg w \<and> ch w' = ch w"
    and "r = Inr st \<Longrightarrow> stats_exact v (pg w) (ch w) now st"
    and "r = Inl e \<Longrightarrow> \<not> errors_is e ErrStatsVideoNotFound"
    and "r = Inl e \<Longrightarrow> pgnet w = [] \<Longrightarrow> chnet w = [] \<Longrightarrow> stats_count v (pg w) = None"
    and "\<not> got \<Longrightarrow> ks (srv w') (stats_lock_key R v) = ks (srv w) (stats_lock_key R v)"
    and "got \<Longrightarrow> net w = [] \<Longrightarrow> token \<noteq> [] \<Longrightarrow> str_val (ks (srv w) (stats_lock_key R v)) = Some token \<Longrightarrow>
      ks (srv w') (stats_lock_key R v) = None"
proof -
  let ?k = "stats_lock_key R v"
  obtain q w1 where call: "stats_compute ssvc first v now w = (q, w1)" by (metis surj_pair)
  note c = compute_cases [OF assms(1) call assms(3-5)]
  let ?w2 = "case q of Inl e \<Rightarrow> w1 | Inr st \<Rightarrow> stats_write_cache R SC (ss_cache_ttl ssvc) st w1"
  have "(r, w') = (q, if got then release_lock R v token ?w2 else ?w2)"
    unfolding assms(2) [symmetric] stats_recompute_def call by (cases q) (simp_all add: Let_def)
  then have r: "r = q" and w': "w' = (if got then release_lock R v token ?w2 else ?w2)" by simp_all
  have w2: "stores_same w1 ?w2 \<and> ks (srv ?w2) ?k = ks (srv w) ?k"
    using write_cache_cases [of "projr q" w1] c(1) by (cases q) (simp_all add: only_key_def)
  then have typed: "is_str (ks (srv ?w2) ?k)" using assms(6) by simp
  note rel = release_cases [OF typed]
  have "stores_same ?w2 w'" using rel(1) unfolding w' by (simp add: only_key_def)
  then have "stores_same w1 w'" by (rule stores_same_trans [OF conjunct1 [OF w2]])
  then show "pg w' = pg w \<and> ch w' = ch w" using c(1) by (simp add: stores_same_def)
  show "r = Inr st \<Longrightarrow> stats_exact v (pg w) (ch w) now st"
    "r = Inl e \<Longrightarrow> \<not> errors_is e ErrStatsVideoNotFound"
    "r = Inl e \<Longrightarrow> pgnet w = [] \<Longrightarrow> chnet w = [] \<Longrightarrow> stats_count v (pg w) = None"
    using c(2-4) unfolding r by blast+
  show "\<not> got \<Longrightarrow> ks (srv w') ?k = ks (srv w) ?k" using w2 unfolding w' by simp
  show "got \<Longrightarrow> net w = [] \<Longrightarrow> token \<noteq> [] \<Longrightarrow> str_val (ks (srv w) ?k) = Some token \<Longrightarrow> ks (srv w') ?k = None"
    using rel(3) w2 c(1) unfolding w' stores_same_def by simp
qed

text \<open>The part of the world a request relies on.\<close>

definition tables_kept :: "'s world \<Rightarrow> 's world \<Rightarrow> bool" where
  "tables_kept w x \<longleftrightarrow> pg x = pg w \<and> ch x = ch w \<and> (pgnet w = [] \<longrightarrow> pgnet x = []) \<and> (chnet w = [] \<longrightarrow> chnet x = [])"

definition keys_typed :: "uuid \<Rightarrow> 's world \<Rightarrow> bool" where
  "keys_typed v w \<longleftrightarrow> is_str (ks (srv w) (stats_cache_key R v)) \<and> is_str (ks (srv w) (stats_lock_key R v))"

lemma tables_kept_trans: "tables_kept w x \<Longrightarrow> tables_kept x y \<Longrightarrow> tables_kept w y"
  by (simp add: tables_kept_def)

lemma kept_same: "stores_same w x \<Longrightarrow> tables_kept w x"
  by (simp add: tables_kept_def stores_same_def)

text \<open>What holds of the answer \<open>r\<close> and the world left behind.\<close>

definition sound_answer ::
  "stats codec \<Rightarrow> ('s world \<Rightarrow> 's world option) \<Rightarrow> uuid \<Rightarrow> gotime \<Rightarrow> 's world \<Rightarrow> stats result \<Rightarrow> 's world \<Rightarrow> bool"
where
  "sound_answer SC pause v now w r w' \<longleftrightarrow> pg w' = pg w \<and> ch w' = ch w
     \<and> (\<forall>st. r = Inr st \<longrightarrow> stats_held R ks SC v w = Some st
          \<or> (\<exists>w1 w2. pause w1 = Some w2 \<and> stats_held R ks SC v w2 = Some st)
          \<or> video_row v (pg w) \<noteq> None \<and> stats_exact v (pg w) (ch w) now st)
     \<and> (\<forall>e. r = Inl e \<longrightarrow> errors_is e ErrStatsVideoNotFound \<longrightarrow> video_row v (pg w) = None)
     \<and> (\<forall>e. r = Inl e \<longrightarrow> pgnet w = [] \<longrightarrow> chnet w = [] \<longrightarrow> likes_keyed (pg w) \<longrightarrow> (\<forall>x. pause x \<noteq> None)
          \<longrightarrow> errors_is e ErrStatsVideoNotFound)"

definition lock_discipline ::
  "('s world \<Rightarrow> 's world option) \<Rightarrow> uuid \<Rightarrow> string \<Rightarrow> 's world \<Rightarrow> 's world \<Rightarrow> bool"
where
  "lock_discipline pause v token w w' \<longleftrightarrow>
     (let k = stats_lock_key R v
      in (ks (srv w) k \<noteq> None \<longrightarrow> (\<forall>x y. pause x = Some y \<longrightarrow> ks (srv y) k = ks (srv x) k) \<longrightarrow> ks (srv w') k = ks (srv w) k)
       \<and> (ks (srv w) k = None \<longrightarrow> net w = [] \<longrightarrow> token \<noteq> [] \<longrightarrow> ks (srv w') k = None))"

lemma recompute_sound:
  assumes "ssvc = app_stats_service R svc cache_ttl lock_ttl lock_retry"
    and "rolled_up (ch w)" and "counts_exact (pg w)" and "length (video_views (ch w)) < 2 ^ 63"
    and row: "video_row v (pg w) \<noteq> None" and kept: "tables_kept w w1" and "is_str (ks (srv w1) (stats_lock_key R v))"
    and "stats_recompute R SC ssvc first v token got now w1 = (r, w')"
  shows "sound_answer SC pause v now w r w'"
proof -
  have same: "pg w1 = pg w" "ch w1 = ch w" using kept by (simp_all add: tables_kept_def)
  have pre: "rolled_up (ch w1)" "counts_exact (pg w1)" "length (video_views (ch w1)) < 2 ^ 63" using assms(2-4) same by simp_all
  note c = recompute_cases [OF assms(1,8) pre assms(7)]
  have ok: "video_row v (pg w) \<noteq> None \<and> stats_exact v (pg w) (ch w) now st" if "r = Inr st" for st
    using c(2) [OF that] row same by simp
  have bad: "\<not> errors_is e ErrStatsVideoNotFound" if "r = Inl e" for e using c(3) [OF that] .
  have up: "\<not> (pgnet w = [] \<and> chnet w = [] \<and> likes_keyed (pg w))" if "r = Inl e" for e
  proof
    assume u: "pgnet w = [] \<and> chnet w = [] \<and> likes_keyed (pg w)"
    then have "stats_count v (pg w) = None" using c(4) [OF that] kept same by (simp add: tables_kept_def)
    moreover obtain x where "video_row v (pg w) = Some x" using row by blast
    then have "v_id x = v \<and> x \<in> set (videos (pg w))" by (rule video_row_id)
    then have "video_exists v (pg w)" by (auto simp: video_exists_def)
    then have "v \<in> set (map s_video_id (video_stats (pg w)))" using u by (simp add: likes_keyed_def)
    ultimately show False by (auto simp: stats_count_def find_None_iff)
  qed
  show ?thesis unfolding sound_answer_def
    by (cases r) (simp_all add: c(1) [THEN conjunct1] c(1) [THEN conjunct2] same ok bad, use bad up in blast)
qed

lemma fetch_from_lock:
  assumes "ssvc = app_stats_service R svc cache_ttl lock_ttl lock_retry" and "keys_typed v w"
    and "rolled_up (ch w)" and "counts_exact (pg w)" and "length (video_views (ch w)) < 2 ^ 63"
    and "pause_ok R ks v pause" and row: "video_row v (pg w) \<noteq> None"
    and lock: "acquire_lock R (ss_lock_ttl ssvc) v token w = (l, w1)"
    and run: "(r, w') = (if (case l of Inl e \<Rightarrow> False | Inr (g, t) \<Rightarrow> g)
      then stats_recompute R SC ssvc first v token True now w1
      else case pause w1 of
             None \<Rightarrow> (Inl (Plain ''context canceled''), w1)
           | Some w2 \<Rightarrow>
               (case stats_read_cache R SC v w2 of
                  (Some st, w3) \<Rightarrow> (Inr st, w3)
                | (None, w3) \<Rightarrow> stats_recompute R SC ssvc first v token False now w3))"
  shows "sound_answer SC pause v now w r w' \<and> lock_discipline pause v token w w'"
proof -
  let ?k = "stats_lock_key R v"
  note a = acquire_cases [OF lock]
  have kept1: "tables_kept w w1" using a(1) by (simp add: only_key_def kept_same)
  have t1: "is_str (ks (srv w1) ?k)" using assms(2) a(4) by (simp add: keys_typed_def)
  have same1: "ch w1 = ch w" "pg w1 = pg w" using kept1 by (simp_all add: tables_kept_def)
  note sound = recompute_sound [OF assms(1,3-5) row]
  have pre: "rolled_up (ch x)" "counts_exact (pg x)" "length (video_views (ch x)) < 2 ^ 63"
    if "tables_kept w x" for x using that assms(3-5) by (simp_all add: tables_kept_def)
  show ?thesis
  proof (cases "case l of Inl e \<Rightarrow> False | Inr (g, t) \<Rightarrow> g")
    case True
    then obtain t where l: "l = Inr (True, t)" by (cases l) auto
    then have free: "ks (srv w) ?k = None" using a(2) by blast
    have rc: "stats_recompute R SC ssvc first v token True now w1 = (r, w')" using run True by simp
    note c = recompute_cases [OF assms(1) rc pre [OF kept1] t1]
    have "ks (srv w') ?k = None" if "net w = []" "token \<noteq> []"
    proof -
      have "net w1 = []" using a(1) that(1) by (simp add: only_key_def stores_same_def)
      moreover have "str_val (ks (srv w1) ?k) = Some token" using a(3) [OF that(1) free] by simp
      ultimately show ?thesis using c(6) that(2) by simp
    qed
    then have "lock_discipline pause v token w w'" using free by (simp add: lock_discipline_def)
    then show ?thesis using sound [OF kept1 t1 rc] by simp
  next
    case False
    have held: "ks (srv w) ?k \<noteq> None \<or> net w \<noteq> []"
      using a(3) False by fastforce
    have same_lock: "ks (srv w) ?k \<noteq> None \<Longrightarrow> ks (srv w1) ?k = ks (srv w) ?k" using a(2) by simp
    show ?thesis
    proof (cases "pause w1")
      case None
      then have "r = Inl (Plain ''context canceled'')" "w' = w1" using run False by simp_all
      then show ?thesis using None held same_lock same1
        by (auto simp: sound_answer_def lock_discipline_def Let_def)
    next
      case (Some w2)
      have p: "pg w2 = pg w1 \<and> ch w2 = ch w1 \<and> pgnet w2 = pgnet w1 \<and> chnet w2 = chnet w1
          \<and> is_str (ks (srv w2) (stats_cache_key R v)) \<and> is_str (ks (srv w2) ?k)"
        using assms(6) Some by (simp add: pause_ok_def)
      obtain c w3 where read: "stats_read_cache R SC v w2 = (c, w3)" by (metis surj_pair)
      note rd = read_cache_cases [OF read]
      have kept2: "tables_kept w w2" using kept1 p by (simp add: tables_kept_def)
      have kept3: "tables_kept w w3" by (rule tables_kept_trans [OF kept2]) (use rd(1) kept_same in blast)
      have lock: "lock_discipline pause v token w x" if "ks (srv x) ?k = ks (srv w2) ?k" for x
        using that held same_lock Some by (auto simp: lock_discipline_def Let_def)
      show ?thesis
      proof (cases c)
        case (Some st)
        then have rw: "r = Inr st" "w' = w3" using run False \<open>pause w1 = Some w2\<close> read by simp_all
        have "stats_held R ks SC v w2 = Some st" using rd(2) p Some by blast
        then have "sound_answer SC pause v now w r w'"
          using \<open>pause w1 = Some w2\<close> kept3 unfolding rw sound_answer_def tables_kept_def by blast
        moreover have "lock_discipline pause v token w w'" unfolding rw by (rule lock) (simp add: rd(1))
        ultimately show ?thesis ..
      next
        case None
        then have rc: "stats_recompute R SC ssvc first v token False now w3 = (r, w')"
          using run False Some read by simp
        have t3: "is_str (ks (srv w3) ?k)" using rd(1) p by simp
        note c = recompute_cases [OF assms(1) rc pre [OF kept3] t3]
        have "lock_discipline pause v token w w'" by (rule lock) (use c(5) rd(1) in simp)
        then show ?thesis using sound [OF kept3 t3 rc] by simp
      qed
    qed
  qed
qed

lemma stats_get_sound:
  assumes "ssvc = app_stats_service R svc cache_ttl lock_ttl lock_retry" and "keys_typed v w"
    and "rolled_up (ch w)" and "counts_exact (pg w)" and "length (video_views (ch w)) < 2 ^ 63"
    and "pause_ok R ks v pause" and "video_cache_true R ks C w" and "\<forall>v \<in> set (videos (pg w)). fits v"
    and "stats_get R SC ssvc pause first v token now w = (r, w')"
  shows "sound_answer SC pause v now w r w' \<and> lock_discipline pause v token w w'"
proof -
  let ?k = "stats_lock_key R v"
  obtain c0 w0 where read: "stats_read_cache R SC v w = (c0, w0)" by (metis surj_pair)
  note rd = read_cache_cases [OF read]
  have kept0: "tables_kept w w0" using rd(1) kept_same by blast
  have same0: "pg w0 = pg w" "ch w0 = ch w" "srv w0 = srv w" and n0: "net w = [] \<Longrightarrow> net w0 = []"
    using rd(1) by (simp_all add: stores_same_def)
  show ?thesis
  proof (cases c0)
    case (Some st)
    then have rw: "r = Inr st" "w' = w0" using assms(9) read by (simp_all add: stats_get_def)
    have "stats_held R ks SC v w = Some st" using rd(2) assms(2) Some by (simp add: keys_typed_def)
    then show ?thesis using same0 unfolding rw by (simp add: sound_answer_def lock_discipline_def Let_def)
  next
    case None
    then have fetch: "stats_fetch R SC ssvc pause first v token now w0 = (r, w')"
      using assms(9) read by (simp add: stats_get_def)
    obtain q w1 where ex: "video_is_present R svc v w0 = (q, w1)" by (metis surj_pair)
    have true0: "video_cache_true R ks C w0" using assms(7) same0 by (simp add: video_cache_true_def)
    have fits0: "\<forall>v \<in> set (videos (pg w0)). fits v" using assms(8) same0 by simp
    note p = is_present_answers [OF true0 fits0 ex]
    have same1: "pg w1 = pg w" "ch w1 = ch w" "chnet w1 = chnet w0" "pgnet w0 = [] \<Longrightarrow> pgnet w1 = []"
      "net w0 = [] \<Longrightarrow> net w1 = []" "\<And>k. k \<noteq> video_cache_key (uuid_str R v) \<Longrightarrow> ks (srv w1) k = ks (srv w) k"
      using p(1) same0 by (simp_all add: key_frame_def)
    have kept1: "tables_kept w w1" using kept0 same1 by (simp add: tables_kept_def)
    have keys: "ks (srv w1) ?k = ks (srv w) ?k" "ks (srv w1) (stats_cache_key R v) = ks (srv w) (stats_cache_key R v)"
      by (simp_all add: same1(6))
    have ex': "ss_exists ssvc v w0 = (q, w1)"
      using ex by (simp add: assms(1) app_stats_service_def new_stats_service_def)
    obtain l w2 where lock: "acquire_lock R (ss_lock_ttl ssvc) v token w1 = (l, w2)" by (metis surj_pair)
    define go where "go = (if (case l of Inl e \<Rightarrow> False | Inr (g, t) \<Rightarrow> g)
              then stats_recompute R SC ssvc first v token True now w2
              else case pause w2 of
                     None \<Rightarrow> (Inl (Plain ''context canceled''), w2)
                   | Some w3 \<Rightarrow>
                       (case stats_read_cache R SC v w3 of
                          (Some st, w4) \<Rightarrow> (Inr st, w4)
                        | (None, w4) \<Rightarrow> stats_recompute R SC ssvc first v token False now w4))"
    have run: "(r, w') = (case q of Inl e \<Rightarrow> (Inl (Wrapped ''video exists check'' e), w1)
        | Inr False \<Rightarrow> (Inl ErrStatsVideoNotFound, w1) | Inr True \<Rightarrow> go)"
      unfolding fetch [symmetric] stats_fetch_def ex' prod.case lock Let_def go_def
      by (cases "case l of Inl e \<Rightarrow> False | Inr (g, t) \<Rightarrow> g") (auto split: sum.split bool.split option.split prod.split)
    have still: "lock_discipline pause v token w w1" using keys(1) by (simp add: lock_discipline_def Let_def)
    show ?thesis
    proof (cases q)
      case (Inl e)
      then have rw: "r = Inl (Wrapped ''video exists check'' e)" "w' = w1" using run by simp_all
      have e: "\<not> errors_is e ErrStatsVideoNotFound" "pgnet w0 \<noteq> []" using p(4,5) Inl by simp_all
      have "pgnet w \<noteq> []" using e(2) kept0 by (auto simp: tables_kept_def)
      then show ?thesis using same1(1,2) e(1) still unfolding rw by (simp add: sound_answer_def)
    next
      case (Inr b)
      have row: "b \<longleftrightarrow> video_row v (pg w) \<noteq> None" using p(3) [OF Inr] same0 by simp
      show ?thesis
      proof (cases b)
        case False
        then have rw: "r = Inl ErrStatsVideoNotFound" "w' = w1" using run Inr by simp_all
        show ?thesis using same1(1,2) row False still unfolding rw by (simp add: sound_answer_def)
      next
        case True
        then have "(r, w') = go" using run Inr by simp
        note go = this [unfolded go_def]
        have pre: "keys_typed v w1" "rolled_up (ch w1)" "counts_exact (pg w1)" "length (video_views (ch w1)) < 2 ^ 63"
          "video_row v (pg w1) \<noteq> None"
          using assms(2-5) keys same1 row True by (simp_all add: keys_typed_def)
        have res: "sound_answer SC pause v now w1 r w' \<and> lock_discipline pause v token w1 w'"
          by (rule fetch_from_lock [OF assms(1) pre(1-4) assms(6) pre(5) lock go])
        have held: "stats_held R ks SC v w1 = stats_held R ks SC v w"
          using keys(2) by (simp add: stats_held_def cache_held_def stats_cache_key_def)
        have "lock_discipline pause v token w w'"
          using res keys(1) same1(5) n0 by (auto simp: lock_discipline_def Let_def)
        moreover have "sound_answer SC pause v now w r w'"
          using res kept1 unfolding sound_answer_def held tables_kept_def by simp
        ultimately show ?thesis by simp
      qed
    qed
  qed
qed

end

text \<open>An answer of the handler.\<close>

lemma handle_stats_sound:
  assumes "redis_server R ks" and "json_codec VC fits" and "\<forall>v \<in> set (videos (pg w)). fits v"
    and "video_cache_true R ks VC w" and "rolled_up (ch w)" and "counts_exact (pg w)"
    and "length (video_views (ch w)) < 2 ^ 63" and "pause_ok R ks v pause"
    and "is_str (ks (srv w) (stats_cache_key R v))" and "is_str (ks (srv w) (stats_lock_key R v))"
    and "svc = app_stats_service R (app_video_service R VC arrange dur_ttl hook) cache_ttl lock_ttl lock_retry"
    and "uuid_parse R param = Some v"
    and "handle_stats R C svc pause likes_first param token now w = (resp, w')"
  shows "pg w' = pg w \<and> ch w' = ch w \<and>
    ((\<exists>st. resp = httpx_ok st \<and>
         (stats_held R ks C v w = Some st
          \<or> (\<exists>w1 w2. pause w1 = Some w2 \<and> stats_held R ks C v w2 = Some st)
          \<or> (video_row v (pg w) \<noteq> None \<and> stats_exact v (pg w) (ch w) now st)))
     \<or> (resp = httpx_error 404 ''not_found'' ''video not found'' \<and> video_row v (pg w) = None)
     \<or> (resp = httpx_error 500 ''internal_error'' ''stats unavailable''
        \<and> \<not> (pgnet w = [] \<and> chnet w = [] \<and> likes_keyed (pg w) \<and> (\<forall>x. pause x \<noteq> None))))"
proof -
  have loc: "video_reads R ks VC fits" using assms(1,2) by (simp add: video_reads_def)
  obtain r w1 where call: "stats_get R C svc pause likes_first v token now w = (r, w1)" by (metis surj_pair)
  have typed: "video_reads.keys_typed R ks v w"
    using assms(9,10) by (simp add: video_reads.keys_typed_def [OF loc])
  from video_reads.stats_get_sound [OF loc assms(11) typed assms(5-8,4,3) call]
  have s: "video_reads.sound_answer R ks C pause v now w r w1" by simp
  show ?thesis
  proof (cases r)
    case (Inl e)
    then show ?thesis
      using s assms(12,13) unfolding video_reads.sound_answer_def [OF loc] handle_stats_def call
      by (cases "errors_is e ErrStatsVideoNotFound") (auto simp: call)
  next
    case (Inr st)
    then show ?thesis
      using s assms(12,13) unfolding video_reads.sound_answer_def [OF loc] handle_stats_def
      by (auto simp: call)
  qed
qed

section \<open>Properties\<close>

text \<open>
  C16. The statistics are complete or there are none: whatever the links to the three stores do,
  \<open>GET /videos/:id/stats\<close> answers 200 with what the cache held (at once, or after the wait for
  the lock) or with the exact numbers - rows and unique rows in ClickHouse, like edges in
  Postgres, their quotient - of a video that exists; or 404 for a video that does not exist; or
  500. With Postgres and ClickHouse up it is never 500, whatever Redis does. No table changes.
\<close>

theorem stats_are_all_or_nothing:
  assumes "redis_server R ks" and "json_codec VC fits" and "\<forall>v \<in> set (videos (pg w)). fits v"
    and "video_cache_true R ks VC w" and "rolled_up (ch w)" and "counts_exact (pg w)"
    and "length (video_views (ch w)) < 2 ^ 63" and "pause_ok R ks v pause"
    and "is_str (ks (srv w) (stats_cache_key R v))" and "is_str (ks (srv w) (stats_lock_key R v))"
    and "svc = app_stats_service R (app_video_service R VC arrange dur_ttl hook) cache_ttl lock_ttl lock_retry"
    and "uuid_parse R param = Some v"
    and "handle_stats R C svc pause likes_first param token now w = (resp, w')"
  shows "pg w' = pg w \<and> ch w' = ch w \<and>
    (case resp_data resp of
       Some st \<Rightarrow> status resp = 200 \<and>
         (stats_held R ks C v w = Some st
          \<or> (\<exists>w1 w2. pause w1 = Some w2 \<and> stats_held R ks C v w2 = Some st)
          \<or> (video_row v (pg w) \<noteq> None \<and> stats_exact v (pg w) (ch w) now st))
     | None \<Rightarrow>
         (status resp = 404 \<and> video_row v (pg w) = None)
         \<or> (status resp = 500
            \<and> \<not> (pgnet w = [] \<and> chnet w = [] \<and> likes_keyed (pg w) \<and> (\<forall>x. pause x \<noteq> None))))"
  using handle_stats_sound [OF assms] by (auto simp: httpx_ok_def httpx_error_def)

text \<open>
  The lock is used as a lock: a lock another replica holds when the request arrives is still
  there, unchanged, when it is over (only the others and its own expiry change it); a lock that
  was free is free again, whatever Postgres and ClickHouse do; and giving back never removes a
  lock that holds another token, such as the one a second replica took after ours expired.
\<close>

theorem stats_lock_discipline:
  assumes "redis_server R ks" and "json_codec VC fits" and "\<forall>v \<in> set (videos (pg w)). fits v"
    and "video_cache_true R ks VC w" and "rolled_up (ch w)" and "counts_exact (pg w)"
    and "length (video_views (ch w)) < 2 ^ 63" and "pause_ok R ks v pause"
    and "is_str (ks (srv w) (stats_cache_key R v))" and "is_str (ks (srv w) (stats_lock_key R v))"
    and "svc = app_stats_service R (app_video_service R VC arrange dur_ttl hook) cache_ttl lock_ttl lock_retry"
    and "stats_get R C svc pause likes_first v token now w = (r, w')" and "token \<noteq> []"
  shows "(ks (srv w) (stats_lock_key R v) \<noteq> None
      \<longrightarrow> (\<forall>x y. pause x = Some y \<longrightarrow> ks (srv y) (stats_lock_key R v) = ks (srv x) (stats_lock_key R v))
      \<longrightarrow> ks (srv w') (stats_lock_key R v) = ks (srv w) (stats_lock_key R v))
    \<and> (ks (srv w) (stats_lock_key R v) = None \<longrightarrow> net w = [] \<longrightarrow> ks (srv w') (stats_lock_key R v) = None)
    \<and> (str_val (ks (srv w) (stats_lock_key R v)) \<noteq> Some token \<longrightarrow>
         ks (srv (release_lock R v token w)) = ks (srv w))"
proof -
  have loc: "video_reads R ks VC fits" using assms(1,2) by (simp add: video_reads_def)
  have typed: "video_reads.keys_typed R ks v w"
    using assms(9,10) by (simp add: video_reads.keys_typed_def [OF loc])
  from video_reads.stats_get_sound [OF loc assms(11) typed assms(5-8,4,3,12)]
  have "video_reads.lock_discipline R ks pause v token w w'" by simp
  then show ?thesis
    using redis_server.release_cases(2) [OF assms(1,10)] assms(13)
    by (simp add: video_reads.lock_discipline_def [OF loc] Let_def)
qed

text \<open>A video seen twice and liked once, with Redis out of reach.\<close>

definition seen :: "nat \<Rightarrow> view_row" where
  "seen n = \<lparr>vr_event_time = 0, vr_video_id = 7, vr_viewer_id = None, vr_ip_hash = [], vr_country = [], vr_ua_hash = [],
     vr_is_unique = n\<rparr>"

definition stats_world :: "link list \<Rightarrow> keyspace world" where
  "stats_world ls = (new_world Map.empty)\<lparr>net := ls, ch := insert_views [seen 1, seen 0] empty_clickhouse,
     pg := empty_postgres\<lparr>users := [\<lparr>u_id = 1, u_email = ''a@b'', u_password_hash = [], u_created_at = 0\<rparr>],
       videos := [example_video], likes := [(1, 7)],
       video_stats := [\<lparr>s_video_id = 7, s_likes_count = 1, s_views_count = 0, s_updated_at = 0\<rparr>]\<rparr>\<rparr>"

definition ref_stats_codec :: "stats codec" where
  "ref_stats_codec =
     \<lparr>marshal = (\<lambda>s. Some (pack [ref_uuid_str (st_video_id s), format_int (st_views s),
         format_int (st_unique_views s), format_int (st_likes s), format_int (st_computed_at s)])),
      unmarshal = (\<lambda>b. case unpack b of
          Some [i, n, u, l, t] \<Rightarrow>
            (case (ref_uuid_parse i, ref_int_parse n, ref_int_parse u, ref_int_parse l, ref_int_parse t) of
               (Some i, Some n, Some u, Some l, Some t) \<Rightarrow>
                 Some \<lparr>st_video_id = i, st_views = n, st_unique_views = u, st_likes = l,
                       st_engagement_rate = engagement_rate l u, st_computed_at = t\<rparr>
             | _ \<Rightarrow> None)
        | _ \<Rightarrow> None)\<rparr>"

definition stats_example_service :: "keyspace world stats_service" where
  "stats_example_service =
     app_stats_service ref_redis (app_video_service ref_redis ref_video_codec (\<lambda>vs. vs) 0 None) 0 0 0"

lemma stats_world_simps [simp]:
  "srv (stats_world ls) = Map.empty" "net (stats_world ls) = ls" "pgnet (stats_world ls) = []"
  "chnet (stats_world ls) = []" "videos (pg (stats_world ls)) = [example_video]"
  "video_views (ch (stats_world ls)) = [seen 1, seen 0]" "edge_count 7 (pg (stats_world ls)) = 1"
  by (simp_all add: stats_world_def new_world_def insert_views_def empty_clickhouse_def edge_count_def)

lemma stats_world_rolled_up: "rolled_up (ch (stats_world ls))"
proof -
  have "rolled_up empty_clickhouse"
    by (simp add: rolled_up_def daily_views_def daily_unique_views_def empty_clickhouse_def)
  then have "rolled_up (insert_views [seen 1, seen 0] empty_clickhouse)" by (rule insert_views_rolled_up)
  then show ?thesis by (simp add: stats_world_def)
qed

lemma stats_world_ok:
  "counts_exact (pg (stats_world ls))" "likes_keyed (pg (stats_world ls))"
  "video_cache_true ref_redis (\<lambda>m. m) ref_video_codec (stats_world ls)"
  by (simp_all add: stats_world_def new_world_def counts_exact_def edge_count_def likes_keyed_def video_exists_def
      user_exists_def example_video_def video_cache_true_def cache_held_def empty_postgres_def)

text \<open>The others leave nothing under the two keys.\<close>

definition quiet :: "keyspace world \<Rightarrow> keyspace world option" where
  "quiet w = Some (w\<lparr>srv := Map.empty\<rparr>)"

lemma quiet_ok: "pause_ok ref_redis (\<lambda>m. m) v quiet"
  by (simp add: pause_ok_def quiet_def)

theorem stats_are_all_or_nothing_witness:
  "\<exists>st. resp_data (fst (handle_stats ref_redis ref_stats_codec stats_example_service quiet False
       (ref_uuid_str 7) ''t'' 9 (stats_world [Refused, ReplyLost, Refused, ReplyLost]))) = Some st
     \<and> st_views st = 2 \<and> st_unique_views st = 1 \<and> st_likes st = 1"
proof -
  let ?w = "stats_world [Refused, ReplyLost, Refused, ReplyLost]"
  obtain resp w' where h: "handle_stats ref_redis ref_stats_codec stats_example_service quiet False
      (ref_uuid_str 7) ''t'' 9 ?w = (resp, w')" by (metis surj_pair)
  have row: "video_row 7 (pg ?w) \<noteq> None" by (simp add: video_row_def example_video_def)
  have none: "stats_held ref_redis (\<lambda>m. m) ref_stats_codec 7 ?w = None"
    "\<forall>w1 w2. quiet w1 = Some w2 \<longrightarrow> stats_held ref_redis (\<lambda>m. m) ref_stats_codec 7 w2 = None"
    by (auto simp: stats_held_def cache_held_def quiet_def)
  from stats_are_all_or_nothing [OF ref_redis.redis_server_axioms ref_videos.json_codec_axioms _
      stats_world_ok(3) stats_world_rolled_up stats_world_ok(1) _ quiet_ok _ _ stats_example_service_def _ h, of 7]
  have "(case resp_data resp of
       Some st \<Rightarrow> stats_exact 7 (pg ?w) (ch ?w) 9 st | None \<Rightarrow> False)"
    using row none stats_world_ok(2) by (auto simp: quiet_def split: option.splits)
  then show ?thesis by (auto simp: h stats_exact_def seen_def split: option.splits)
qed

theorem stats_lock_discipline_witness:
  "srv (snd (stats_get ref_redis ref_stats_codec stats_example_service quiet False 7 ''t'' 9 (stats_world [])))
     (stats_lock_key ref_redis 7) = None"
proof -
  obtain r w' where h: "stats_get ref_redis ref_stats_codec stats_example_service quiet False 7 ''t'' 9 (stats_world []) = (r, w')"
    by (metis surj_pair)
  from stats_lock_discipline [OF ref_redis.redis_server_axioms ref_videos.json_codec_axioms _
      stats_world_ok(3) stats_world_rolled_up stats_world_ok(1) _ quiet_ok _ _ stats_example_service_def h]
  show ?thesis by (simp add: h)
qed

end
