(* ===== verification/RefreshStore.thy ===== *)
theory RefreshStore
  imports RateLimit Bloom Base64
begin

text \<open>
  \<open>internal/auth/refresh.go\<close>: opaque refresh tokens \<open>id.secret\<close>, kept in Redis under
  \<open>refresh:{id}\<close> with their owner and secret, and a per-user index of ids. The ids and the
  random bytes are arguments; \<open>None\<close> for the bytes is a failing random source. The locale
  \<open>token_store\<close> is what the service relies on: every token has at most one owner, issuing gives
  the new token its owner, and revoking takes one id's tokens away and no others.
\<close>

section \<open>The store\<close>

definition refresh_key :: "string \<Rightarrow> string" where
  "refresh_key token_id = ''refresh:'' @ token_id"

definition refresh_user_index_key :: "'z libs_scheme \<Rightarrow> uuid \<Rightarrow> string" where
  "refresh_user_index_key L uid = ''refresh:user:'' @ uuid_str L uid"

text \<open>Up to the first dot, and after it; both parts must be there.\<close>

definition split_refresh :: "string \<Rightarrow> (string \<times> string) option" where
  "split_refresh s =
     (case dropWhile (\<lambda>c. c \<noteq> CHR ''.'') s of
        [] \<Rightarrow> None
      | dot # secret \<Rightarrow>
          (let i = takeWhile (\<lambda>c. c \<noteq> CHR ''.'') s
           in if i = [] \<or> secret = [] then None else Some (i, secret)))"

definition random_token :: "string option \<Rightarrow> string result" where
  "random_token bytes = (case bytes of None \<Rightarrow> Inl (Plain ''rand'') | Some b \<Rightarrow> Inr (b64_encode b))"

text \<open>The client sends \<open>EXPIRE\<close> in whole seconds, at least one for a positive duration.\<close>

definition expire_ms :: "int \<Rightarrow> nat" where
  "expire_ms d = 1000 * nat (if 0 < d \<and> d < second then 1 else go_div d second)"

definition refresh_issue ::
  "('s, 'z) redis_scheme \<Rightarrow> uuid \<Rightarrow> int \<Rightarrow> uuid \<Rightarrow> string option \<Rightarrow> 's world \<Rightarrow> string result \<times> 's world"
where
  "refresh_issue R uid ttl fresh bytes w =
     (let token_id = uuid_str R fresh
      in case random_token bytes of
           Inl e \<Rightarrow> (Inl (Wrapped ''generate refresh secret'' e), w)
         | Inr secret \<Rightarrow>
             (case redis_call (writing (rSET R (refresh_key token_id) (uuid_str R uid @ ''.'' @ secret) (redis_ttl ttl))) w of
                (Inl e, w') \<Rightarrow> (Inl (Wrapped ''persist refresh token'' e), w')
              | (Inr _, w') \<Rightarrow>
                  (let index = refresh_user_index_key R uid;
                       (_, w'') = redis_call (writing (\<lambda>s.
                         rEXPIRE R index (expire_ms ttl) (rSADD R index token_id s))) w'
                   in (Inr (token_id @ ''.'' @ secret), w''))))"

definition refresh_validate ::
  "('s, 'z) redis_scheme \<Rightarrow> string \<Rightarrow> 's world \<Rightarrow> uuid result \<times> 's world"
where
  "refresh_validate R token w =
     (case split_refresh token of
        None \<Rightarrow> (Inl ErrInvalidRefresh, w)
      | Some (token_id, secret) \<Rightarrow>
          (case redis_call (reading (rGET R (refresh_key token_id))) w of
             (Inl e, w') \<Rightarrow> (Inl (Wrapped ''read refresh token'' e), w')
           | (Inr None, w') \<Rightarrow> (Inl ErrInvalidRefresh, w')
           | (Inr (Some raw), w') \<Rightarrow>
               (case split_refresh raw of
                  None \<Rightarrow> (Inl ErrInvalidRefresh, w')
                | Some (uid_str, stored_secret) \<Rightarrow>
                    if stored_secret \<noteq> secret then (Inl ErrInvalidRefresh, w')
                    else (case uuid_parse R uid_str of
                            None \<Rightarrow> (Inl ErrInvalidRefresh, w') | Some uid \<Rightarrow> (Inr uid, w')))))"

definition refresh_revoke ::
  "('s, 'z) redis_scheme \<Rightarrow> string \<Rightarrow> 's world \<Rightarrow> unit result \<times> 's world"
where
  "refresh_revoke R token w =
     (case split_refresh token of
        None \<Rightarrow> (Inr (), w)
      | Some (token_id, _) \<Rightarrow> redis_call (writing (rDEL R (refresh_key token_id))) w)"

text \<open>The interface \<open>RefreshTokenStore\<close>.\<close>

record 'w refresh_store =
  rs_issue :: "uuid \<Rightarrow> int \<Rightarrow> uuid \<Rightarrow> string option \<Rightarrow> 'w \<Rightarrow> string result \<times> 'w"
  rs_validate :: "string \<Rightarrow> 'w \<Rightarrow> uuid result \<times> 'w"
  rs_revoke :: "string \<Rightarrow> 'w \<Rightarrow> unit result \<times> 'w"

definition redis_refresh_store :: "('s, 'z) redis_scheme \<Rightarrow> 's world refresh_store" where
  "redis_refresh_store R = \<lparr>rs_issue = refresh_issue R, rs_validate = refresh_validate R, rs_revoke = refresh_revoke R\<rparr>"

section \<open>Whose token it is\<close>

definition token_owner :: "'z libs_scheme \<Rightarrow> keyspace \<Rightarrow> string \<Rightarrow> uuid option" where
  "token_owner L m token =
     (case split_refresh token of
        None \<Rightarrow> None
      | Some (token_id, secret) \<Rightarrow>
          (case Option.bind (str_val (m (refresh_key token_id))) split_refresh of
             None \<Rightarrow> None
           | Some (uid_str, stored) \<Rightarrow> if stored = secret then uuid_parse L uid_str else None))"

definition token_id :: "string \<Rightarrow> string option" where
  "token_id token = map_option fst (split_refresh token)"

lemma split_join:
  assumes "CHR ''.'' \<notin> set i" and "i \<noteq> []" and "sec \<noteq> []"
  shows "split_refresh (i @ ''.'' @ sec) = Some (i, sec)"
proof -
  have "\<forall>c \<in> set i. c \<noteq> CHR ''.''" using assms(1) by blast
  then have "dropWhile (\<lambda>c. c \<noteq> CHR ''.'') (i @ ''.'' @ sec) = ''.'' @ sec"
    and "takeWhile (\<lambda>c. c \<noteq> CHR ''.'') (i @ ''.'' @ sec) = i"
    by (simp_all add: dropWhile_append2 takeWhile_append2)
  then show ?thesis using assms(2,3) by (simp add: split_refresh_def)
qed

text \<open>The keys hold what the code puts there: text under the tokens, sets under the indexes.\<close>

definition tokens_typed :: "('s, 'z) redis_scheme \<Rightarrow> ('s \<Rightarrow> keyspace) \<Rightarrow> 's world \<Rightarrow> bool" where
  "tokens_typed R ks w \<longleftrightarrow>
     (\<forall>i. (\<forall>u. i \<noteq> ''user:'' @ uuid_str R u) \<longrightarrow> is_str (ks (srv w) (refresh_key i)))
     \<and> (\<forall>u. is_set (ks (srv w) (refresh_user_index_key R u)))"

text \<open>A token whose id is not the name of an index.\<close>

definition plain_token :: "'z libs_scheme \<Rightarrow> string \<Rightarrow> bool" where
  "plain_token L token \<longleftrightarrow> (\<forall>u. token_id token \<noteq> Some (''user:'' @ uuid_str L u))"

section \<open>What the service relies on\<close>

locale token_store =
  fixes store :: "'s world refresh_store" and owner :: "'s world \<Rightarrow> string \<Rightarrow> uuid option"
    and ready :: "'s world \<Rightarrow> bool" and plain :: "string \<Rightarrow> bool" and id_text :: "uuid \<Rightarrow> string"
  assumes validate: "ready w \<Longrightarrow> plain t \<Longrightarrow> rs_validate store t w = (r, w') \<Longrightarrow>
        stores_same w w' \<and> srv w' = srv w \<and> (\<forall>u. r = Inr u \<longrightarrow> owner w t = Some u)
        \<and> (net w = [] \<longrightarrow> r = (case owner w t of None \<Rightarrow> Inl ErrInvalidRefresh | Some u \<Rightarrow> Inr u))"
    and revoke: "ready w \<Longrightarrow> plain t \<Longrightarrow> net w = [] \<Longrightarrow> rs_revoke store t w = (q, w') \<Longrightarrow>
        q = Inr () \<and> stores_same w w' \<and> ready w'
        \<and> (\<forall>x. plain x \<longrightarrow> owner w' x = (if token_id x = token_id t then None else owner w x))"
    and issue: "ready w \<Longrightarrow> net w = [] \<Longrightarrow> b \<noteq> [] \<Longrightarrow> rs_issue store uid ttl fresh (Some b) w = (i, w') \<Longrightarrow>
        \<exists>t. i = Inr t \<and> stores_same w w' \<and> ready w' \<and> plain t \<and> token_id t = Some (id_text fresh)
          \<and> owner w' t = Some uid \<and> (\<forall>x. plain x \<longrightarrow> token_id x \<noteq> token_id t \<longrightarrow> owner w' x = owner w x)"
    and state: "srv w = srv w' \<Longrightarrow> owner w = owner w' \<and> ready w = ready w'"
begin

text \<open>Rotation: after a valid token has been exchanged, it is dead, the new one has its owner,
  and every token with another id is as it was.\<close>

lemma rotation:
  assumes "ready w" and "plain t" and "net w = []" and "b \<noteq> []" and "owner w t = Some u"
    and "token_id t \<noteq> Some (id_text fresh)"
    and "rs_validate store t w = (r, w1)" and "rs_revoke store t w1 = (q, w2)"
    and "rs_issue store u ttl fresh (Some b) w2 = (i, w3)"
  shows "r = Inr u \<and> (\<exists>t'. i = Inr t' \<and> plain t' \<and> owner w3 t' = Some u \<and> owner w3 t = None
      \<and> (\<forall>x. plain x \<longrightarrow> token_id x \<noteq> token_id t \<longrightarrow> token_id x \<noteq> token_id t' \<longrightarrow> owner w3 x = owner w x))
    \<and> ready w3 \<and> stores_same w w3"
proof -
  have v: "stores_same w w1" "srv w1 = srv w" "r = Inr u"
    using validate [OF assms(1,2,7)] assms(3,5) by (metis, metis, metis option.case(2))
  have w1: "ready w1" "net w1 = []" "owner w1 = owner w"
    using v assms(1,3) state [of w1 w] by (simp_all add: stores_same_def)
  have rv: "stores_same w1 w2" "ready w2"
    "\<And>x. plain x \<Longrightarrow> owner w2 x = (if token_id x = token_id t then None else owner w x)"
    using revoke [OF w1(1) assms(2) w1(2) assms(8)] w1(3) by simp_all
  have n2: "net w2 = []" using rv(1) w1(2) by (simp add: stores_same_def)
  obtain t' where iss: "i = Inr t'" "stores_same w2 w3" "ready w3" "plain t'" "token_id t' = Some (id_text fresh)"
    "owner w3 t' = Some u" "\<And>x. plain x \<Longrightarrow> token_id x \<noteq> token_id t' \<Longrightarrow> owner w3 x = owner w2 x"
    using issue [OF rv(2) n2 assms(4,9)] by blast
  have st: "stores_same w w3" using v(1) rv(1) iss(2) stores_same_trans by blast
  have dead: "owner w3 t = None" using iss(5) iss(7) [of t] assms(2,6) rv(3) [of t] by simp
  show ?thesis
  proof (intro conjI exI [of _ t'] allI impI)
    fix x
    assume x: "plain x" "token_id x \<noteq> token_id t" "token_id x \<noteq> token_id t'"
    show "owner w3 x = owner w x" using iss(7) [OF x(1,3)] rv(3) [OF x(1)] x(2) by simp
  qed (fact v(3) iss(1) iss(4) iss(6) dead iss(3) st)+
qed

end

section \<open>The Redis store keeps the contract\<close>

lemma refresh_key_inj [simp]: "refresh_key i = refresh_key j \<longleftrightarrow> i = j"
  by (simp add: refresh_key_def)

lemma index_key_eq: "refresh_user_index_key L u = refresh_key (''user:'' @ uuid_str L u)"
  by (simp add: refresh_user_index_key_def refresh_key_def)

lemma token_owner_cong:
  assumes "\<And>i. token_id t = Some i \<Longrightarrow> m' (refresh_key i) = m (refresh_key i)"
  shows "token_owner L m' t = token_owner L m t"
  using assms by (auto simp: token_owner_def token_id_def split: option.splits)

lemma token_owner_anonymous: "token_id t = None \<Longrightarrow> token_owner L m t = None"
  by (simp add: token_owner_def token_id_def)

lemma is_set_expire: "is_set (m k) \<Longrightarrow> is_set (doc_expire k' n m k)"
  by (cases "m k" rule: is_set.cases) (auto simp: doc_expire_def split: option.splits)

context redis_server
begin

lemma id_not_index: "uuid_str R v \<noteq> ''user:'' @ uuid_str R u"
  using str_length [of v] str_length [of u] by (metis append_self_conv2 length_append length_0_conv list.distinct(1) add_right_imp_eq add_0)

lemma refresh_validate_cases:
  assumes "tokens_typed R ks w" and "plain_token R t" and "refresh_validate R t w = (r, w')"
  shows "stores_same w w' \<and> srv w' = srv w \<and> (\<forall>u. r = Inr u \<longrightarrow> token_owner R (ks (srv w)) t = Some u)
    \<and> (net w = [] \<longrightarrow> r = (case token_owner R (ks (srv w)) t of None \<Rightarrow> Inl ErrInvalidRefresh | Some u \<Rightarrow> Inr u))"
proof (cases "split_refresh t")
  case None
  then show ?thesis using assms(3) by (auto simp: refresh_validate_def token_owner_def)
next
  case (Some p)
  obtain i sec where p: "p = (i, sec)" by (cases p)
  let ?k = "refresh_key i"
  obtain q w1 where call: "redis_call (reading (rGET R ?k)) w = (q, w1)" by (metis surj_pair)
  have str: "rGET R ?k (srv w) = str_val (ks (srv w) ?k)"
    using assms(1,2) Some p by (intro get) (auto simp: tokens_typed_def plain_token_def token_id_def)
  let ?answer = "\<lambda>raw. case Option.bind raw split_refresh of None \<Rightarrow> Inl ErrInvalidRefresh
      | Some (us, stored) \<Rightarrow> if stored \<noteq> sec then Inl ErrInvalidRefresh
          else (case uuid_parse R us of None \<Rightarrow> Inl ErrInvalidRefresh | Some u \<Rightarrow> Inr u)"
  have "(r, w') = (case q of Inl e \<Rightarrow> Inl (Wrapped ''read refresh token'' e) | Inr v \<Rightarrow> ?answer v, w1)"
    unfolding assms(3) [symmetric] refresh_validate_def Some p using call
    by (cases q) (auto split: option.splits)
  then have w': "w' = w1" and r: "r = (case q of Inl e \<Rightarrow> Inl (Wrapped ''read refresh token'' e) | Inr v \<Rightarrow> ?answer v)"
    by simp_all
  have rd: "srv w1 = srv w" "\<And>a. q = Inr a \<Longrightarrow> a = str_val (ks (srv w) ?k)"
    using redis_call_read [OF call] str by simp_all
  have ans: "?answer (str_val (ks (srv w) ?k)) =
      (case token_owner R (ks (srv w)) t of None \<Rightarrow> Inl ErrInvalidRefresh | Some u \<Rightarrow> Inr u)"
    by (auto simp: token_owner_def Some p split: option.splits)
  have "r = (case token_owner R (ks (srv w)) t of None \<Rightarrow> Inl ErrInvalidRefresh | Some u \<Rightarrow> Inr u)" if "q = Inr a" for a
    using rd(2) [OF that] ans that unfolding r by simp
  moreover have "\<exists>a. q = Inr a" if "net w = []" using redis_call_net [OF call that] by blast
  moreover have "r \<noteq> Inr u" if "q = Inl e" for e u using that unfolding r by simp
  ultimately show ?thesis
    using redis_call_same [OF call] rd(1) unfolding w' by (cases q) (auto split: option.splits)
qed

lemma refresh_revoke_cases:
  assumes "tokens_typed R ks w" and "net w = []" and "refresh_revoke R t w = (q, w')"
  shows "q = Inr () \<and> stores_same w w' \<and> tokens_typed R ks w'
    \<and> (\<forall>x. token_owner R (ks (srv w')) x = (if token_id x = token_id t then None else token_owner R (ks (srv w)) x))"
proof (cases "split_refresh t")
  case None
  then show ?thesis
    using assms token_owner_anonymous by (auto simp: refresh_revoke_def token_id_def)
next
  case (Some p)
  obtain i sec where p: "p = (i, sec)" by (cases p)
  have st: "q = Inr ()" "w' = w\<lparr>srv := rDEL R (refresh_key i) (srv w)\<rparr>"
    using assms(2,3) Some p by (simp_all add: refresh_revoke_def redis_call_up)
  have ks': "ks (srv w') = (ks (srv w))(refresh_key i := None)" by (simp add: st(2) del)
  have "token_owner R (ks (srv w')) x = None" if "token_id x = Some i" for x
    using that by (auto simp: token_owner_def token_id_def ks' split: option.splits)
  moreover have "token_owner R (ks (srv w')) x = token_owner R (ks (srv w)) x" if "token_id x \<noteq> Some i" for x
    by (rule token_owner_cong) (use that in \<open>auto simp: ks'\<close>)
  moreover have "tokens_typed R ks w'" using assms(1) unfolding tokens_typed_def ks' by simp
  ultimately show ?thesis
    using assms(2) st(1) Some p by (simp add: st(2) stores_same_def token_id_def)
qed

lemma refresh_issue_cases:
  assumes "tokens_typed R ks w" and "net w = []" and "b \<noteq> []" and "refresh_issue R uid ttl fresh (Some b) w = (i, w')"
  shows "\<exists>t. i = Inr t \<and> stores_same w w' \<and> tokens_typed R ks w' \<and> plain_token R t \<and> token_id t = Some (uuid_str R fresh)
    \<and> token_owner R (ks (srv w')) t = Some uid
    \<and> (\<forall>x. plain_token R x \<longrightarrow> token_id x \<noteq> token_id t \<longrightarrow> token_owner R (ks (srv w')) x = token_owner R (ks (srv w)) x)"
proof -
  let ?id = "uuid_str R fresh" and ?sec = "b64_encode b" and ?ix = "refresh_user_index_key R uid"
  let ?k = "refresh_key ?id" and ?v = "uuid_str R uid @ ''.'' @ b64_encode b"
  let ?t = "?id @ ''.'' @ ?sec"
  let ?s1 = "rSET R ?k ?v (redis_ttl ttl) (srv w)"
  have st: "i = Inr ?t" "w' = w\<lparr>srv := rEXPIRE R ?ix (expire_ms ttl) (rSADD R ?ix ?id ?s1)\<rparr>"
    using assms(2,4) by (auto simp: refresh_issue_def random_token_def redis_call_up Let_def)
  have "?k \<noteq> ?ix" using id_not_index by (simp add: index_key_eq)
  note apart = this this [symmetric]
  have s1: "ks ?s1 = doc_set ?k ?v (redis_ttl ttl) (ks (srv w))" by (rule set)
  have "is_set (ks ?s1 ?ix)" using assms(1) apart unfolding s1 by (simp add: tokens_typed_def)
  then have ks': "ks (srv w') = doc_expire ?ix (expire_ms ttl) (doc_sadd ?ix ?id (ks ?s1))"
    by (simp add: st(2) expire sadd)
  have other: "ks (srv w') k = ks (srv w) k" if "k \<noteq> ?k" "k \<noteq> ?ix" for k
    using that unfolding ks' s1 by simp
  have key: "ks (srv w') ?k = Some (RStr ?v, redis_ttl ttl)" using apart unfolding ks' s1 by (simp add: doc_set_def)
  have split: "split_refresh ?t = Some (?id, ?sec)" "split_refresh ?v = Some (uuid_str R uid, ?sec)"
    using assms(3) by (simp_all add: split_join str_no_dot str_nonempty del: append_Cons)
  then have tid: "token_id ?t = Some ?id" by (simp add: token_id_def)
  have plain: "plain_token R ?t" using tid id_not_index by (simp add: plain_token_def)
  have own: "token_owner R (ks (srv w')) ?t = Some uid"
    using split key by (simp add: token_owner_def parse_str del: append_Cons)
  have rest: "token_owner R (ks (srv w')) x = token_owner R (ks (srv w)) x"
    if "plain_token R x" "token_id x \<noteq> token_id ?t" for x
    by (rule token_owner_cong) (use that tid in \<open>auto simp: index_key_eq plain_token_def intro!: other\<close>)
  have "tokens_typed R ks w'"
    unfolding tokens_typed_def
  proof (intro conjI allI impI)
    fix j
    assume j: "\<forall>u. j \<noteq> ''user:'' @ uuid_str R u"
    show "is_str (ks (srv w') (refresh_key j))"
    proof (cases "j = ?id")
      case True
      then show ?thesis using key by simp
    next
      case False
      then have "ks (srv w') (refresh_key j) = ks (srv w) (refresh_key j)"
        using j by (intro other) (simp_all add: index_key_eq)
      then show ?thesis using assms(1) j by (simp add: tokens_typed_def)
    qed
  next
    fix u
    have "is_set (doc_sadd ?ix ?id (ks ?s1) (refresh_user_index_key R u))"
      using assms(1) id_not_index [of fresh u, symmetric] unfolding s1
      by (cases "u = uid") (auto simp: tokens_typed_def index_key_eq doc_set_def)
    then show "is_set (ks (srv w') (refresh_user_index_key R u))" unfolding ks' by (rule is_set_expire)
  qed
  then show ?thesis using st own tid plain rest assms(2) by (auto simp: stores_same_def)
qed

end

sublocale redis_server \<subseteq> tokens: token_store "redis_refresh_store R" "\<lambda>w. token_owner R (ks (srv w))"
  "tokens_typed R ks" "plain_token R" "uuid_str R"
proof (unfold_locales, goal_cases)
  case (1 w t r w')
  then show ?case using refresh_validate_cases [of w t r w'] by (simp add: redis_refresh_store_def)
next
  case (2 w t q w')
  then show ?case using refresh_revoke_cases [of w t q w'] by (simp add: redis_refresh_store_def)
next
  case (3 w b uid ttl fresh i w')
  then show ?case using refresh_issue_cases [of w b uid ttl fresh i w'] by (simp add: redis_refresh_store_def)
next
  case (4 w w')
  then show ?case by (simp add: tokens_typed_def)
qed

context redis_server
begin

lemmas token_rotation = tokens.rotation

end

end
