(* ===== verification/Jwt.thy ===== *)
theory Jwt
  imports JsonCache Base64 Httpx
begin

text \<open>
  \<open>internal/platform/jwt\<close>: access tokens and the two authentication middlewares. Signing and
  verification are the library \<open>golang-jwt\<close>, a parameter here: \<open>jl_sign\<close> is \<open>SignedString\<close> with
  HS256, \<open>jl_verify\<close> is a parser restricted to HS256 that checks the registered times at the
  given moment. The locale \<open>jwt_library\<close> states the round trip the library documents.
\<close>

section \<open>Claims and the library\<close>

record claims =
  cl_user_id :: uuid
  cl_issuer :: string
  cl_issued_at :: gotime
  cl_not_before :: gotime
  cl_expires_at :: gotime
  cl_id :: uuid

record jwt_lib =
  jl_sign :: "string \<Rightarrow> claims \<Rightarrow> string option"
  jl_verify :: "string \<Rightarrow> gotime \<Rightarrow> string \<Rightarrow> claims option"

text \<open>\<open>NewNumericDate\<close> truncates to whole seconds.\<close>

definition numeric_date :: "gotime \<Rightarrow> gotime" where
  "numeric_date t = t - t mod 1000000000"

section \<open>The service\<close>

record jwt_service =
  jwt_secret :: string
  jwt_access_ttl :: int
  jwt_issuer :: string

definition access_claims :: "jwt_service \<Rightarrow> uuid \<Rightarrow> uuid \<Rightarrow> gotime \<Rightarrow> claims" where
  "access_claims svc uid jti now =
     \<lparr>cl_user_id = uid, cl_issuer = jwt_issuer svc, cl_issued_at = numeric_date now,
      cl_not_before = numeric_date now, cl_expires_at = numeric_date (now + jwt_access_ttl svc), cl_id = jti\<rparr>"

definition issue_access ::
  "jwt_lib \<Rightarrow> jwt_service \<Rightarrow> uuid \<Rightarrow> uuid \<Rightarrow> gotime \<Rightarrow> (string \<times> gotime) result"
where
  "issue_access J svc uid jti now =
     (case jl_sign J (jwt_secret svc) (access_claims svc uid jti now) of
        None \<Rightarrow> Inl (Wrapped ''sign jwt'' (Plain ''jwt''))
      | Some token \<Rightarrow> Inr (token, now + jwt_access_ttl svc))"

definition jwt_parse :: "jwt_lib \<Rightarrow> jwt_service \<Rightarrow> gotime \<Rightarrow> string \<Rightarrow> claims result" where
  "jwt_parse J svc now token =
     (case jl_verify J (jwt_secret svc) now token of
        None \<Rightarrow> Inl ErrInvalidToken
      | Some c \<Rightarrow> if cl_user_id c = uuid_nil then Inl ErrInvalidToken else Inr c)"

section \<open>The middlewares\<close>

definition bearer_prefix :: string where
  "bearer_prefix = ''Bearer ''"

text \<open>The request is stopped with a response, or goes on with the user id in its context.\<close>

definition require_auth :: "jwt_lib \<Rightarrow> jwt_service \<Rightarrow> gotime \<Rightarrow> string \<Rightarrow> unit response + uuid" where
  "require_auth J svc now raw =
     (if raw = [] then Inl (httpx_error 401 ''unauthenticated'' ''missing authorization header'')
      else if \<not> has_prefix raw bearer_prefix
      then Inl (httpx_error 401 ''unauthenticated'' ''malformed authorization header'')
      else
        (let token = trim_space (drop (length bearer_prefix) raw)
         in if token = [] then Inl (httpx_error 401 ''unauthenticated'' ''empty bearer token'')
            else case jwt_parse J svc now token of
                   Inl e \<Rightarrow> Inl (httpx_error 401 ''unauthenticated'' ''invalid or expired token'')
                 | Inr c \<Rightarrow> Inr (cl_user_id c)))"

text \<open>Anonymous requests go on, and so do those whose token is no good.\<close>

definition optional_auth :: "jwt_lib \<Rightarrow> jwt_service \<Rightarrow> gotime \<Rightarrow> string \<Rightarrow> uuid option" where
  "optional_auth J svc now raw =
     (if raw = [] \<or> \<not> has_prefix raw bearer_prefix then None
      else
        (let token = trim_space (drop (length bearer_prefix) raw)
         in if token = [] then None
            else case jwt_parse J svc now token of Inl e \<Rightarrow> None | Inr c \<Rightarrow> Some (cl_user_id c)))"

section \<open>What the library promises\<close>

text \<open>Claims whose times are whole seconds survive signing and verification, with no leeway: not
  before \<open>nbf\<close> and \<open>iat\<close>, and strictly before \<open>exp\<close>. A token has no white space.\<close>

definition in_window :: "gotime \<Rightarrow> claims \<Rightarrow> bool" where
  "in_window now c \<longleftrightarrow> cl_issued_at c \<le> now \<and> cl_not_before c \<le> now \<and> now < cl_expires_at c"

definition whole_seconds :: "claims \<Rightarrow> bool" where
  "whole_seconds c \<longleftrightarrow> numeric_date (cl_issued_at c) = cl_issued_at c
     \<and> numeric_date (cl_not_before c) = cl_not_before c \<and> numeric_date (cl_expires_at c) = cl_expires_at c"

locale jwt_library =
  fixes J :: jwt_lib
  assumes sign_verify: "whole_seconds c \<Longrightarrow> jl_sign J sec c = Some tok \<Longrightarrow>
      jl_verify J sec now tok = (if in_window now c then Some c else None)"
    and token_text: "jl_sign J sec c = Some tok \<Longrightarrow> tok \<noteq> [] \<and> (\<forall>x \<in> set tok. \<not> is_space x)"
begin

lemma numeric_date_idem [simp]: "numeric_date (numeric_date t) = numeric_date t"
  by (simp add: numeric_date_def mod_diff_left_eq)

lemma parse_issued:
  assumes "issue_access J svc uid jti t = Inr (tok, ex)" and "uid \<noteq> uuid_nil"
  shows "jwt_parse J svc now tok =
    (if numeric_date t \<le> now \<and> now < numeric_date (t + jwt_access_ttl svc)
     then Inr (access_claims svc uid jti t) else Inl ErrInvalidToken)"
proof -
  let ?c = "access_claims svc uid jti t"
  have "jl_sign J (jwt_secret svc) ?c = Some tok"
    using assms(1) by (simp add: issue_access_def split: option.splits)
  moreover have "whole_seconds ?c" by (simp add: whole_seconds_def access_claims_def)
  ultimately have "jl_verify J (jwt_secret svc) now tok = (if in_window now ?c then Some ?c else None)"
    by (intro sign_verify)
  then show ?thesis using assms(2) by (simp add: jwt_parse_def in_window_def access_claims_def)
qed

lemma bearer_token:
  assumes "issue_access J svc uid jti t = Inr (tok, ex)"
  shows "has_prefix (bearer_prefix @ tok) bearer_prefix" and "trim_space (drop (length bearer_prefix) (bearer_prefix @ tok)) = tok"
    and "tok \<noteq> []" and "bearer_prefix @ tok \<noteq> []"
proof -
  have t: "tok \<noteq> [] \<and> (\<forall>x \<in> set tok. \<not> is_space x)"
    using assms token_text by (simp add: issue_access_def split: option.splits)
  show "has_prefix (bearer_prefix @ tok) bearer_prefix" by (simp add: has_prefix_def)
  show "trim_space (drop (length bearer_prefix) (bearer_prefix @ tok)) = tok"
    using t trim_space_no_space [of tok] by simp
  show "tok \<noteq> []" "bearer_prefix @ tok \<noteq> []" using t by simp_all
qed

end

section \<open>A reference library\<close>

text \<open>The claims as text behind the secret: no cryptography, but the same round trip.\<close>

definition ref_jwt_verify :: "string \<Rightarrow> gotime \<Rightarrow> string \<Rightarrow> claims option" where
  "ref_jwt_verify sec now tok =
     (case Option.bind (b64_decode tok) unpack of
        Some [key, i, iss, a, b, e, j] \<Rightarrow>
          (case (ref_uuid_parse i, ref_int_parse a, ref_int_parse b, ref_int_parse e, ref_uuid_parse j) of
             (Some i, Some a, Some b, Some e, Some j) \<Rightarrow>
               (let c = \<lparr>cl_user_id = i, cl_issuer = iss, cl_issued_at = a, cl_not_before = b,
                         cl_expires_at = e, cl_id = j\<rparr>
                in if key = sec \<and> in_window now c then Some c else None)
           | _ \<Rightarrow> None)
      | _ \<Rightarrow> None)"

definition ref_jwt :: jwt_lib where
  "ref_jwt =
     \<lparr>jl_sign = (\<lambda>sec c. Some (b64_encode (pack [sec, ref_uuid_str (cl_user_id c), cl_issuer c,
        format_int (cl_issued_at c), format_int (cl_not_before c), format_int (cl_expires_at c), ref_uuid_str (cl_id c)]))),
      jl_verify = ref_jwt_verify\<rparr>"

lemma b64_char_not_space: "\<not> is_space (b64_char n)"
  by (auto simp: is_space_def b64_char_def)

lemma b64_encode_no_space: "\<forall>x \<in> set (b64_encode s). \<not> is_space x"
  using b64_char_not_space by (auto simp: b64_encode_def)

interpretation ref_jwts: jwt_library ref_jwt
proof
  fix c sec tok now
  assume "jl_sign ref_jwt sec c = Some tok"
  then show "jl_verify ref_jwt sec now tok = (if in_window now c then Some c else None)"
    by (cases c) (auto simp: ref_jwt_def ref_jwt_verify_def b64_decode_encode)
next
  fix c sec tok
  assume "jl_sign ref_jwt sec c = Some tok"
  then show "tok \<noteq> [] \<and> (\<forall>x \<in> set tok. \<not> is_space x)"
    using b64_encode_no_space by (auto simp: ref_jwt_def pack_def) (metis append_is_Nil_conv pack_field.elims list.distinct(1))
qed

section \<open>Properties\<close>


text \<open>Issued 0.7 s into a second for one minute, the token is refused 0.2 s before the expiry the
  client was told.\<close>

definition example_jwt :: jwt_service where
  "example_jwt = \<lparr>jwt_secret = ''secret'', jwt_access_ttl = 60 * 1000000000, jwt_issuer = ''vidmerce''\<rparr>"


end
