(* ===== verification/Auth.thy ===== *)
theory Auth
  imports RefreshStore Bloom Jwt
begin

text \<open>
  \<open>internal/auth\<close> but for the refresh tokens (theory RefreshStore): the users in Postgres, the
  service and the handlers. bcrypt is a parameter (\<open>bcrypt_lib\<close>), as are the clock, the
  generated ids and the random bytes; \<open>None\<close> for the bytes is a failing random source. The dummy
  comparison of a login with an unknown email only costs time and is not modelled.
\<close>

section \<open>Domain\<close>

definition normalize_email :: "string \<Rightarrow> string" where
  "normalize_email email = to_lower (trim_space email)"

record public_user =
  pu_id :: uuid
  pu_email :: string
  pu_created_at :: gotime

definition public :: "user \<Rightarrow> public_user" where
  "public u = \<lparr>pu_id = u_id u, pu_email = u_email u, pu_created_at = u_created_at u\<rparr>"

record token_pair =
  tp_access_token :: string
  tp_refresh_token :: string
  tp_access_expires_at :: gotime
  tp_token_type :: string

definition validate_email :: "string \<Rightarrow> goerr option" where
  "validate_email raw =
     (let email = trim_space raw
      in if email = [] then Some (AuthValidationError ''email is required'')
         else if CHR ''@'' \<notin> set email \<or> CHR '' '' \<in> set email then Some (AuthValidationError ''invalid email'')
         else if 254 < length email then Some (AuthValidationError ''email too long'') else None)"

definition validate_password :: "string \<Rightarrow> goerr option" where
  "validate_password pw =
     (if length pw < 8 then Some (AuthValidationError ''password must be at least 8 characters'')
      else if 72 < length pw then Some (AuthValidationError ''password must be at most 72 characters'') else None)"

section \<open>The repository of users\<close>

text \<open>The column \<open>email\<close> is \<open>CITEXT UNIQUE\<close>: it compares without regard to case.\<close>

definition user_by_email :: "string \<Rightarrow> postgres \<Rightarrow> user option" where
  "user_by_email email d = find (\<lambda>u. to_lower (u_email u) = to_lower email) (users d)"

definition user_row :: "uuid \<Rightarrow> postgres \<Rightarrow> user option" where
  "user_row i d = find (\<lambda>u. u_id u = i) (users d)"

definition new_user :: "string \<Rightarrow> string \<Rightarrow> uuid \<Rightarrow> gotime \<Rightarrow> user" where
  "new_user email hash fresh now =
     \<lparr>u_id = fresh, u_email = to_lower (trim_space email), u_password_hash = hash, u_created_at = now - now mod 1000\<rparr>"

definition insert_user_sql ::
  "string \<Rightarrow> string \<Rightarrow> uuid \<Rightarrow> gotime \<Rightarrow> postgres \<Rightarrow> (pgerr + user) \<times> postgres"
where
  "insert_user_sql email hash fresh now d =
     (let u = new_user email hash fresh now
      in if user_by_email (u_email u) d \<noteq> None \<or> user_row fresh d \<noteq> None then (Inl (SqlState UniqueViolation), d)
         else (Inr u, d\<lparr>users := users d @ [u]\<rparr>))"

record 'w user_repo =
  urepo_create :: "string \<Rightarrow> string \<Rightarrow> uuid \<Rightarrow> gotime \<Rightarrow> 'w \<Rightarrow> user result \<times> 'w"
  urepo_find_by_email :: "string \<Rightarrow> 'w \<Rightarrow> user result \<times> 'w"
  urepo_find_by_id :: "uuid \<Rightarrow> 'w \<Rightarrow> user result \<times> 'w"

definition pg_create_user ::
  "string \<Rightarrow> string \<Rightarrow> uuid \<Rightarrow> gotime \<Rightarrow> 's world \<Rightarrow> user result \<times> 's world"
where
  "pg_create_user email hash fresh now w =
     (case pg_exec (insert_user_sql email hash fresh now) w of
        (Inl (SqlState UniqueViolation), w') \<Rightarrow> (Inl ErrEmailTaken, w')
      | (Inl e, w') \<Rightarrow> (Inl (Wrapped ''create user'' (pg_goerr e)), w')
      | (Inr u, w') \<Rightarrow> (Inr u, w'))"

text \<open>The two reads differ in their WHERE clause and in the prefix of the error.\<close>

definition select_user :: "(postgres \<Rightarrow> user option) \<Rightarrow> string \<Rightarrow> 's world \<Rightarrow> user result \<times> 's world" where
  "select_user row prefix w =
     (case pg_exec (reading (\<lambda>d. case row d of None \<Rightarrow> Inl NoRows | Some u \<Rightarrow> Inr u)) w of
        (Inl NoRows, w') \<Rightarrow> (Inl ErrUserNotFound, w')
      | (Inl e, w') \<Rightarrow> (Inl (Wrapped prefix (pg_goerr e)), w')
      | (Inr u, w') \<Rightarrow> (Inr u, w'))"

definition pg_find_user_by_email :: "string \<Rightarrow> 's world \<Rightarrow> user result \<times> 's world" where
  "pg_find_user_by_email email = select_user (user_by_email (to_lower (trim_space email))) ''find user by email''"

definition pg_find_user :: "uuid \<Rightarrow> 's world \<Rightarrow> user result \<times> 's world" where
  "pg_find_user i = select_user (user_row i) ''find user by id''"

definition pg_user_repo :: "'s world user_repo" where
  "pg_user_repo = \<lparr>urepo_create = pg_create_user, urepo_find_by_email = pg_find_user_by_email,
     urepo_find_by_id = pg_find_user\<rparr>"

section \<open>The service\<close>

record bcrypt_lib =
  bc_generate :: "string \<Rightarrow> int \<Rightarrow> string \<Rightarrow> string option"
  bc_compare :: "string \<Rightarrow> string \<Rightarrow> bool"

record 'w auth_service =
  as_users :: "'w user_repo"
  as_refresh :: "'w refresh_store"
  as_jwt :: jwt_service
  as_bcrypt_cost :: int
  as_refresh_ttl :: int
  as_emails :: "'w bloom_ops option"

definition new_auth_service ::
  "'w user_repo \<Rightarrow> 'w refresh_store \<Rightarrow> jwt_service \<Rightarrow> int \<Rightarrow> int \<Rightarrow> 'w bloom_ops option \<Rightarrow> 'w auth_service"
where
  "new_auth_service us rs jwt cost ttl emails =
     \<lparr>as_users = us, as_refresh = rs, as_jwt = jwt, as_bcrypt_cost = (if cost \<le> 0 then 10 else cost),
      as_refresh_ttl = (if ttl \<le> 0 then 7 * 24 * 3600 * second else ttl), as_emails = emails\<rparr>"

definition email_maybe_taken :: "'w auth_service \<Rightarrow> string \<Rightarrow> 'w \<Rightarrow> bool \<times> 'w" where
  "email_maybe_taken svc normed w =
     (case as_emails svc of
        None \<Rightarrow> (False, w)
      | Some f \<Rightarrow> (case may_contain f normed w of (Inl e, w') \<Rightarrow> (False, w') | (Inr b, w') \<Rightarrow> (b, w')))"

definition record_email :: "'w auth_service \<Rightarrow> string \<Rightarrow> 'w \<Rightarrow> 'w" where
  "record_email svc normed w = (case as_emails svc of None \<Rightarrow> w | Some f \<Rightarrow> snd (bloom_add f normed w))"

definition auth_register ::
  "bcrypt_lib \<Rightarrow> 'w auth_service \<Rightarrow> string \<Rightarrow> string \<Rightarrow> string \<Rightarrow> uuid \<Rightarrow> gotime \<Rightarrow> 'w \<Rightarrow> public_user result \<times> 'w"
where
  "auth_register B svc email password salt fresh now w =
     (case validate_email email of
        Some e \<Rightarrow> (Inl e, w)
      | None \<Rightarrow>
     (case validate_password password of
        Some e \<Rightarrow> (Inl e, w)
      | None \<Rightarrow>
          (let normed = normalize_email email;
               (dup, w) = email_maybe_taken svc normed w
           in if dup then (Inl ErrEmailTaken, w)
              else case bc_generate B password (as_bcrypt_cost svc) salt of
                     None \<Rightarrow> (Inl (Wrapped ''hash password'' (Plain ''bcrypt'')), w)
                   | Some hash \<Rightarrow>
                       (case urepo_create (as_users svc) email hash fresh now w of
                          (Inl e, w) \<Rightarrow> (Inl e, if errors_is e ErrEmailTaken then record_email svc normed w else w)
                        | (Inr u, w) \<Rightarrow> (Inr (public u), record_email svc normed w)))))"

text \<open>What a call that issues tokens draws: the id of the access token, the id and the bytes of
  the refresh token, and the clock.\<close>

record draws =
  dr_jti :: uuid
  dr_token_id :: uuid
  dr_bytes :: "string option"
  dr_now :: gotime

definition issue_tokens ::
  "jwt_lib \<Rightarrow> 'w auth_service \<Rightarrow> uuid \<Rightarrow> draws \<Rightarrow> 'w \<Rightarrow> token_pair result \<times> 'w"
where
  "issue_tokens J svc uid dr w =
     (case issue_access J (as_jwt svc) uid (dr_jti dr) (dr_now dr) of
        Inl e \<Rightarrow> (Inl (Wrapped ''issue access'' e), w)
      | Inr (access, expires) \<Rightarrow>
          (case rs_issue (as_refresh svc) uid (as_refresh_ttl svc) (dr_token_id dr) (dr_bytes dr) w of
             (Inl e, w') \<Rightarrow> (Inl (Wrapped ''issue refresh'' e), w')
           | (Inr refresh, w') \<Rightarrow>
               (Inr \<lparr>tp_access_token = access, tp_refresh_token = refresh, tp_access_expires_at = expires,
                     tp_token_type = ''Bearer''\<rparr>, w')))"

definition auth_login ::
  "jwt_lib \<Rightarrow> bcrypt_lib \<Rightarrow> 'w auth_service \<Rightarrow> string \<Rightarrow> string \<Rightarrow> draws \<Rightarrow> 'w \<Rightarrow> token_pair result \<times> 'w"
where
  "auth_login J B svc email password dr w =
     (case urepo_find_by_email (as_users svc) email w of
        (Inl e, w') \<Rightarrow> (Inl (if errors_is e ErrUserNotFound then ErrInvalidCredentials else e), w')
      | (Inr u, w') \<Rightarrow>
          (if \<not> bc_compare B (u_password_hash u) password then (Inl ErrInvalidCredentials, w')
           else issue_tokens J svc (u_id u) dr w'))"

text \<open>A failing revocation is logged and ignored.\<close>

definition auth_refresh ::
  "jwt_lib \<Rightarrow> 'w auth_service \<Rightarrow> string \<Rightarrow> draws \<Rightarrow> 'w \<Rightarrow> token_pair result \<times> 'w"
where
  "auth_refresh J svc token dr w =
     (case rs_validate (as_refresh svc) token w of
        (Inl e, w') \<Rightarrow> (Inl ErrInvalidRefresh, w')
      | (Inr uid, w') \<Rightarrow> issue_tokens J svc uid dr (snd (rs_revoke (as_refresh svc) token w')))"

definition auth_logout :: "'w auth_service \<Rightarrow> string \<Rightarrow> 'w \<Rightarrow> unit result \<times> 'w" where
  "auth_logout svc token w =
     (case rs_revoke (as_refresh svc) token w of
        (Inl e, w') \<Rightarrow> (Inl (Wrapped ''revoke refresh'' e), w') | (Inr _, w') \<Rightarrow> (Inr (), w'))"

section \<open>The handlers\<close>

text \<open>A body is the outcome of \<open>ShouldBindJSON\<close>: its error message, or the request.\<close>

abbreviation bad_body :: "string \<Rightarrow> 'd response" where
  "bad_body msg \<equiv> httpx_error_detail 400 ''validation_failed'' ''invalid request body'' (DetailMeta msg)"

definition handle_register ::
  "bcrypt_lib \<Rightarrow> 'w auth_service \<Rightarrow> string + string \<times> string \<Rightarrow> string \<Rightarrow> uuid \<Rightarrow> gotime \<Rightarrow> 'w
     \<Rightarrow> public_user response \<times> 'w"
where
  "handle_register B svc body salt fresh now w =
     (case body of
        Inl msg \<Rightarrow> (bad_body msg, w)
      | Inr (email, password) \<Rightarrow>
          (case auth_register B svc email password salt fresh now w of
             (Inr u, w') \<Rightarrow> (httpx_created u, w')
           | (Inl e, w') \<Rightarrow>
               (if errors_is e ErrEmailTaken then httpx_error 409 ''conflict'' ''email already registered''
                else case as_auth_validation e of
                       Some msg \<Rightarrow> httpx_error 400 ''validation_failed'' msg
                     | None \<Rightarrow> httpx_error 500 ''internal_error'' ''registration failed'', w')))"

definition handle_login ::
  "jwt_lib \<Rightarrow> bcrypt_lib \<Rightarrow> 'w auth_service \<Rightarrow> string + string \<times> string \<Rightarrow> draws \<Rightarrow> 'w \<Rightarrow> token_pair response \<times> 'w"
where
  "handle_login J B svc body dr w =
     (case body of
        Inl msg \<Rightarrow> (bad_body msg, w)
      | Inr (email, password) \<Rightarrow>
          (case auth_login J B svc email password dr w of
             (Inr tp, w') \<Rightarrow> (httpx_ok tp, w')
           | (Inl e, w') \<Rightarrow>
               (if errors_is e ErrInvalidCredentials
                then httpx_error 401 ''unauthenticated'' ''invalid email or password''
                else httpx_error 500 ''internal_error'' ''login failed'', w')))"

definition handle_refresh ::
  "jwt_lib \<Rightarrow> 'w auth_service \<Rightarrow> string + string \<Rightarrow> draws \<Rightarrow> 'w \<Rightarrow> token_pair response \<times> 'w"
where
  "handle_refresh J svc body dr w =
     (case body of
        Inl msg \<Rightarrow> (bad_body msg, w)
      | Inr token \<Rightarrow>
          (case auth_refresh J svc token dr w of
             (Inr tp, w') \<Rightarrow> (httpx_ok tp, w')
           | (Inl e, w') \<Rightarrow>
               (if errors_is e ErrInvalidRefresh
                then httpx_error 401 ''unauthenticated'' ''invalid or expired refresh token''
                else httpx_error 500 ''internal_error'' ''refresh failed'', w')))"

definition handle_logout :: "'w auth_service \<Rightarrow> string + string \<Rightarrow> 'w \<Rightarrow> bool response \<times> 'w" where
  "handle_logout svc body w =
     (case body of
        Inl msg \<Rightarrow> (bad_body msg, w)
      | Inr token \<Rightarrow>
          (case auth_logout svc token w of
             (Inl e, w') \<Rightarrow> (httpx_error 500 ''internal_error'' ''logout failed'', w')
           | (Inr _, w') \<Rightarrow> (httpx_ok True, w')))"

text \<open>The service of the composition root.\<close>

definition app_auth_service ::
  "('s, 'z) redis_scheme \<Rightarrow> jwt_service \<Rightarrow> int \<Rightarrow> int \<Rightarrow> bool \<Rightarrow> 's world auth_service"
where
  "app_auth_service R jwt cost ttl with_bloom =
     new_auth_service pg_user_repo (redis_refresh_store R) jwt cost ttl
       (if with_bloom then Some (redis_bloom R bloom_key_emails) else None)"

text \<open>What the service relies on: a hash verifies the password it was made from.\<close>

locale bcrypt =
  fixes B :: bcrypt_lib
  assumes verifies: "bc_generate B pw cost salt = Some h \<Longrightarrow> bc_compare B h pw"

definition ref_bcrypt :: bcrypt_lib where
  "ref_bcrypt = \<lparr>bc_generate = (\<lambda>pw cost salt. if 72 < length pw then None else Some (salt @ ''$'' @ pw)),
     bc_compare = (\<lambda>h pw. drop (length h - length pw - 1) h = ''$'' @ pw)\<rparr>"

interpretation ref_bcrypt: bcrypt ref_bcrypt
  by unfold_locales (auto simp: ref_bcrypt_def split: if_splits)

section \<open>Accounts\<close>

text \<open>The keys of the table: ids, and emails without regard to case.\<close>

definition users_keyed :: "postgres \<Rightarrow> bool" where
  "users_keyed d \<longleftrightarrow> distinct (map u_id (users d)) \<and> distinct (map (to_lower \<circ> u_email) (users d))"

definition add_user :: "user \<Rightarrow> postgres \<Rightarrow> postgres" where
  "add_user u d = d\<lparr>users := users d @ [u]\<rparr>"

lemma normalize_email_idem [simp]: "normalize_email (normalize_email e) = normalize_email e"
  by (simp add: normalize_email_def trim_space_to_lower)

lemma new_user_email: "u_email (new_user email hash fresh now) = normalize_email email"
  by (simp add: new_user_def normalize_email_def)

lemma find_new_key: "find (\<lambda>x. f x = f y) xs = None \<longleftrightarrow> f y \<notin> f ` set xs"
  by (auto simp: find_None_iff image_iff)

lemma insert_user_cases:
  assumes "insert_user_sql email hash fresh now d = (r, d')"
  shows "r = Inl (SqlState UniqueViolation) \<and> d' = d \<and> (user_by_email (normalize_email email) d \<noteq> None \<or> user_row fresh d \<noteq> None)
    \<or> r = Inr (new_user email hash fresh now) \<and> d' = add_user (new_user email hash fresh now) d
      \<and> user_by_email (normalize_email email) d = None \<and> user_row fresh d = None"
  using assms by (auto simp: insert_user_sql_def add_user_def new_user_email Let_def split: if_splits)

lemma add_user_keyed:
  assumes "users_keyed d" and "user_by_email (u_email u) d = None" and "user_row (u_id u) d = None"
  shows "users_keyed (add_user u d)"
  using assms find_new_key [of "to_lower \<circ> u_email" u "users d"] find_new_key [of u_id u "users d"]
  by (auto simp: users_keyed_def add_user_def user_by_email_def user_row_def)

lemma pg_create_user_cases:
  assumes "pg_create_user email hash fresh now w = (r, w')"
  shows "srv w' = srv w \<and> net w' = net w"
    and "r = Inr u \<Longrightarrow> insert_user_sql email hash fresh now (pg w) = (Inr u, pg w')"
    and "r = Inl e \<Longrightarrow> as_auth_validation e = None \<and> (pg w' = pg w \<or> pg w' = snd (insert_user_sql email hash fresh now (pg w)))"
    and "r = Inl e \<Longrightarrow> errors_is e ErrEmailTaken \<Longrightarrow>
      fst (insert_user_sql email hash fresh now (pg w)) = Inl (SqlState UniqueViolation)"
    and "pgnet w = [] \<Longrightarrow> fst (insert_user_sql email hash fresh now (pg w)) = Inl (SqlState UniqueViolation) \<Longrightarrow> r = Inl ErrEmailTaken"
proof -
  let ?f = "insert_user_sql email hash fresh now"
  obtain q w1 where call: "pg_exec ?f w = (q, w1)" by (metis surj_pair)
  have "(r, w') = (case q of Inr u \<Rightarrow> Inr u
      | Inl x \<Rightarrow> Inl (if x = SqlState UniqueViolation then ErrEmailTaken else Wrapped ''create user'' (pg_goerr x)), w1)"
    unfolding assms [symmetric] pg_create_user_def call by (auto split: sum.splits pgerr.splits sqlstate.splits)
  then have w': "w' = w1" and r: "r = (case q of Inr u \<Rightarrow> Inr u
      | Inl x \<Rightarrow> Inl (if x = SqlState UniqueViolation then ErrEmailTaken else Wrapped ''create user'' (pg_goerr x)))" by simp_all
  show "srv w' = srv w \<and> net w' = net w" using pg_exec_frame [of ?f w] unfolding w' call by simp
  show "r = Inr u \<Longrightarrow> ?f (pg w) = (Inr u, pg w')"
    using call unfolding r w' by (cases rule: pg_exec_cases) (auto split: sum.splits)
  have plain: "x = SqlState UniqueViolation \<and> fst (?f (pg w)) = Inl x \<or> (\<exists>s. x = ConnErr (Plain s))" if "q = Inl x" for x
    using pg_exec_error [of ?f w x w1] call insert_user_cases [of email hash fresh now "pg w" "Inl x" "pg w1"] that by auto
  show "r = Inl e \<Longrightarrow> as_auth_validation e = None \<and> (pg w' = pg w \<or> pg w' = snd (?f (pg w)))"
    using call plain unfolding r w' by (cases rule: pg_exec_cases) (auto split: sum.splits if_splits dest: arg_cong [of _ _ snd])
  show "r = Inl e \<Longrightarrow> errors_is e ErrEmailTaken \<Longrightarrow> fst (?f (pg w)) = Inl (SqlState UniqueViolation)"
    using plain unfolding r by (auto split: sum.splits if_splits)
  show "pgnet w = [] \<Longrightarrow> fst (?f (pg w)) = Inl (SqlState UniqueViolation) \<Longrightarrow> r = Inl ErrEmailTaken"
    using pg_exec_net [OF call] fst_conv [of q "pg w1"] unfolding r by (cases q) fastforce+
qed

context bloom_key
begin

lemma maybe_taken_cases:
  assumes "as_emails svc = (if with_bloom then Some (redis_bloom R key) else None)" and "bloom_ready w"
    and "email_maybe_taken svc n w = (b, w')"
  shows "bloom_ready w' \<and> stores_same w w'" and "b \<Longrightarrow> with_bloom \<and> rBFEXISTS R key n (srv w)"
    and "with_bloom \<Longrightarrow> net w = [] \<Longrightarrow> b = rBFEXISTS R key n (srv w)"
proof -
  have "(bloom_ready w' \<and> stores_same w w') \<and> (b \<longrightarrow> with_bloom \<and> rBFEXISTS R key n (srv w))
    \<and> (with_bloom \<longrightarrow> net w = [] \<longrightarrow> b = rBFEXISTS R key n (srv w))"
  proof (cases with_bloom)
    case False
    then show ?thesis using assms by (simp add: email_maybe_taken_def)
  next
    case True
    obtain q w1 where call: "redis_call (reading (rBFEXISTS R key n)) w = (q, w1)" by (metis surj_pair)
    have "(b, w') = (case q of Inl e \<Rightarrow> False | Inr b \<Rightarrow> b, w1)"
      unfolding assms(3) [symmetric] email_maybe_taken_def
      using True call by (cases q) (simp_all add: assms(1) redis_bloom_def bf_may_contain_def)
    then have b: "b = (case q of Inl e \<Rightarrow> False | Inr b \<Rightarrow> b)" and w': "w' = w1" by simp_all
    have rd: "srv w1 = srv w" "\<And>a. q = Inr a \<Longrightarrow> a = rBFEXISTS R key n (srv w)" using redis_call_read [OF call] by simp_all
    have "bloom_ready w'" using assms(2) rd(1) by (simp add: bloom_ready_def w')
    then show ?thesis
      using True redis_call_same [OF call] rd(2) redis_call_net [OF call] unfolding b w' by (cases q) auto
  qed
  then show "bloom_ready w' \<and> stores_same w w'" "b \<Longrightarrow> with_bloom \<and> rBFEXISTS R key n (srv w)"
    "with_bloom \<Longrightarrow> net w = [] \<Longrightarrow> b = rBFEXISTS R key n (srv w)" by blast+
qed

lemma record_email_cases:
  assumes "as_emails svc = (if with_bloom then Some (redis_bloom R key) else None)" and "bloom_ready w"
  shows "bloom_ready (record_email svc n w) \<and> stores_same w (record_email svc n w)"
proof (cases with_bloom)
  case False
  then show ?thesis using assms by (simp add: record_email_def)
next
  case True
  obtain q w1 where add: "bf_add R key n w = (q, w1)" by (metis surj_pair)
  have "record_email svc n w = w1" using True by (simp add: record_email_def assms(1) redis_bloom_def add)
  then show ?thesis using bf_add_sound [OF assms(2) add] by (simp add: only_key_def)
qed

end

context bloom_key
begin

text \<open>What registering a valid email and password leaves behind, in terms of the row \<open>u\<close> it tries
  to add.\<close>

lemma register_steps:
  assumes svc: "svc = new_auth_service pg_user_repo rs jwt cost ttl (if with_bloom then Some (redis_bloom R key) else None)"
    and "bloom_ready w" and "validate_email email = None" and "validate_password password = None"
    and "auth_register B svc email password salt fresh now w = (r, w')"
  shows "(r = Inl ErrEmailTaken \<and> pg w' = pg w \<and> with_bloom \<and> rBFEXISTS R key (normalize_email email) (srv w))
    \<or> (r = Inl (Wrapped ''hash password'' (Plain ''bcrypt'')) \<and> pg w' = pg w
        \<and> bc_generate B password (as_bcrypt_cost svc) salt = None)
    \<or> (\<exists>h q w1 w2. bc_generate B password (as_bcrypt_cost svc) salt = Some h \<and> stores_same w w1
        \<and> pg_create_user email h fresh now w1 = (q, w2) \<and> pg w' = pg w2
        \<and> r = (case q of Inl e \<Rightarrow> Inl e | Inr u \<Rightarrow> Inr (public u)))"
    and "with_bloom \<Longrightarrow> net w = [] \<Longrightarrow> rBFEXISTS R key (normalize_email email) (srv w) \<Longrightarrow> r = Inl ErrEmailTaken"
    and "bloom_ready w'"
proof -
  let ?n = "normalize_email email"
  have em: "as_emails svc = (if with_bloom then Some (redis_bloom R key) else None)"
    and us: "as_users svc = pg_user_repo" by (simp_all add: svc new_auth_service_def)
  obtain b w1 where taken: "email_maybe_taken svc ?n w = (b, w1)" by (metis surj_pair)
  note t = maybe_taken_cases [OF em assms(2) taken]
  have run: "(r, w') = (if b then (Inl ErrEmailTaken, w1)
      else case bc_generate B password (as_bcrypt_cost svc) salt of
             None \<Rightarrow> (Inl (Wrapped ''hash password'' (Plain ''bcrypt'')), w1)
           | Some h \<Rightarrow>
               (case pg_create_user email h fresh now w1 of
                  (Inl e, w) \<Rightarrow> (Inl e, if errors_is e ErrEmailTaken then record_email svc ?n w else w)
                | (Inr u, w) \<Rightarrow> (Inr (public u), record_email svc ?n w)))"
    unfolding assms(5) [symmetric] auth_register_def assms(3,4) Let_def taken us pg_user_repo_def
      user_repo.select_convs by simp
  have pg1: "pg w1 = pg w" using t(1) by (simp add: stores_same_def)
  show "with_bloom \<Longrightarrow> net w = [] \<Longrightarrow> rBFEXISTS R key ?n (srv w) \<Longrightarrow> r = Inl ErrEmailTaken"
    using t(3) run by simp
  have "((r = Inl ErrEmailTaken \<and> pg w' = pg w \<and> with_bloom \<and> rBFEXISTS R key ?n (srv w))
    \<or> (r = Inl (Wrapped ''hash password'' (Plain ''bcrypt'')) \<and> pg w' = pg w
        \<and> bc_generate B password (as_bcrypt_cost svc) salt = None)
    \<or> (\<exists>h q w1 w2. bc_generate B password (as_bcrypt_cost svc) salt = Some h \<and> stores_same w w1
        \<and> pg_create_user email h fresh now w1 = (q, w2) \<and> pg w' = pg w2
        \<and> r = (case q of Inl e \<Rightarrow> Inl e | Inr u \<Rightarrow> Inr (public u)))) \<and> bloom_ready w'"
  proof (cases "b \<or> bc_generate B password (as_bcrypt_cost svc) salt = None")
    case True
    then show ?thesis using run t(1,2) pg1 by (cases b) simp_all
  next
    case False
    then obtain h where h: "bc_generate B password (as_bcrypt_cost svc) salt = Some h" by auto
    obtain q w2 where cr: "pg_create_user email h fresh now w1 = (q, w2)" by (metis surj_pair)
    have r2: "bloom_ready w2" using t(1) pg_create_user_cases(1) [OF cr] by (simp add: bloom_ready_def)
    note rec = record_email_cases [OF em r2, of ?n]
    have "w' = w2 \<or> w' = record_email svc ?n w2" and r: "r = (case q of Inl e \<Rightarrow> Inl e | Inr u \<Rightarrow> Inr (public u))"
      using run False h cr by (cases q; simp)+
    then have "pg w' = pg w2 \<and> bloom_ready w'" using rec r2 by (auto simp: stores_same_def)
    then show ?thesis using h t(1) cr r by blast
  qed
  then show "(r = Inl ErrEmailTaken \<and> pg w' = pg w \<and> with_bloom \<and> rBFEXISTS R key ?n (srv w))
    \<or> (r = Inl (Wrapped ''hash password'' (Plain ''bcrypt'')) \<and> pg w' = pg w
        \<and> bc_generate B password (as_bcrypt_cost svc) salt = None)
    \<or> (\<exists>h q w1 w2. bc_generate B password (as_bcrypt_cost svc) salt = Some h \<and> stores_same w w1
        \<and> pg_create_user email h fresh now w1 = (q, w2) \<and> pg w' = pg w2
        \<and> r = (case q of Inl e \<Rightarrow> Inl e | Inr u \<Rightarrow> Inr (public u)))"
    and "bloom_ready w'" by blast+
qed

end

section \<open>Properties\<close>

text \<open>The insertion behind a registration.\<close>

lemma created_account:
  assumes "users_keyed (pg w)" and "stores_same w w1" and "pg_create_user email h fresh now w1 = (q, w2)"
  defines "u \<equiv> new_user email h fresh now" and "owner \<equiv> user_by_email (normalize_email email) (pg w)"
  shows "users_keyed (pg w2)"
    and "q = Inr x \<Longrightarrow> x = u \<and> pg w2 = add_user u (pg w) \<and> owner = None"
    and "q = Inl e \<Longrightarrow> as_auth_validation e = None \<and> (pg w2 = pg w \<or> pg w2 = add_user u (pg w))"
    and "q = Inl e \<Longrightarrow> errors_is e ErrEmailTaken \<Longrightarrow> pg w2 = pg w \<and> (owner \<noteq> None \<or> user_row fresh (pg w) \<noteq> None)"
    and "owner \<noteq> None \<Longrightarrow> pgnet w = [] \<Longrightarrow> q = Inl ErrEmailTaken"
proof -
  have same: "pg w1 = pg w" "pgnet w1 = pgnet w" using assms(2) by (simp_all add: stores_same_def)
  obtain r0 d where ins: "insert_user_sql email h fresh now (pg w) = (r0, d)" by (metis surj_pair)
  note c = pg_create_user_cases [OF assms(3), unfolded same ins] and i = insert_user_cases [OF ins]
  have key: "users_keyed (add_user u (pg w))" if "owner = None" "user_row fresh (pg w) = None"
    using add_user_keyed [OF assms(1), of u] that by (simp add: u_def owner_def new_user_email) (simp add: new_user_def)
  show good: "x = u \<and> pg w2 = add_user u (pg w) \<and> owner = None" if "q = Inr x" for x
    using c(2) [OF that] i by (auto simp: u_def owner_def)
  show bad: "as_auth_validation e = None \<and> (pg w2 = pg w \<or> pg w2 = add_user u (pg w))" if "q = Inl e" for e
    using c(3) [OF that] i by (auto simp: u_def)
  show "pg w2 = pg w \<and> (owner \<noteq> None \<or> user_row fresh (pg w) \<noteq> None)"
    if "q = Inl e" "errors_is e ErrEmailTaken" for e
    using c(4) [OF that] c(3) [OF that(1)] i by (auto simp: owner_def)
  show "q = Inl ErrEmailTaken" if "owner \<noteq> None" "pgnet w = []"
    using c(5) that same i by (auto simp: owner_def)
  have "pg w2 = pg w \<or> pg w2 = d" using c(2,3) by (cases q) auto
  then show "users_keyed (pg w2)" using i key assms(1) by (auto simp: u_def owner_def)
qed

lemma register_succeeded:
  assumes "redis_server R ks" and "is_bloom (ks (srv w) bloom_key_emails)" and "users_keyed (pg w)"
    and "svc = app_auth_service R jwt cost ttl with_bloom"
    and "auth_register B svc email password salt fresh now w = (Inr p, w')"
  shows "validate_email email = None \<and> validate_password password = None
    \<and> (\<exists>h. bc_generate B password (as_bcrypt_cost svc) salt = Some h \<and> p = public (new_user email h fresh now)
      \<and> pg w' = add_user (new_user email h fresh now) (pg w) \<and> user_by_email (normalize_email email) (pg w) = None)"
proof -
  have v: "validate_email email = None" "validate_password password = None"
    using assms(5) by (auto simp: auth_register_def split: option.splits)
  have loc: "bloom_key R ks" using assms(1) by (simp add: bloom_key_def)
  have ready: "bloom_key.bloom_ready ks bloom_key_emails w"
    using assms(2) by (simp add: bloom_key.bloom_ready_def [OF loc])
  from bloom_key.register_steps(1) [OF loc assms(4) [unfolded app_auth_service_def] ready v assms(5)]
  obtain h q w1 w2 where h: "bc_generate B password (as_bcrypt_cost svc) salt = Some h" "stores_same w w1"
    and q: "pg_create_user email h fresh now w1 = (q, w2)" "pg w' = pg w2"
      "Inr p = (case q of Inl e \<Rightarrow> Inl e | Inr u \<Rightarrow> Inr (public u))"
    by auto
  obtain x where c: "pg_create_user email h fresh now w1 = (Inr x, w2)" "pg w' = pg w2" "p = public x"
    using q by (cases q) auto
  from created_account(2) [OF assms(3) h(2) c(1) refl] show ?thesis using v h(1) c(2,3) by simp
qed

text \<open>
  C28. Registering, whatever the links do: an invalid email or password is reported and nothing
  happens; success means that no account had that email, in any case, and that the new row is in
  the table with the normalised email and the hash of the password; on an error the table is as
  before or holds that row (the reply was lost); no two accounts ever share an email. An email
  that is taken is reported as such when Postgres is up - and so is one nobody ever registered,
  when the Bloom filter has a false positive for it: the database is then not asked.
\<close>

theorem registration_outcomes:
  assumes "redis_server R ks" and "is_bloom (ks (srv w) bloom_key_emails)" and "users_keyed (pg w)"
    and "svc = app_auth_service R jwt cost ttl with_bloom"
    and "auth_register B svc email password salt fresh now w = (r, w')"
  shows "users_keyed (pg w') \<and>
    (case validate_email email of
       Some e \<Rightarrow> r = Inl e \<and> w' = w
     | None \<Rightarrow>
    (case validate_password password of
       Some e \<Rightarrow> r = Inl e \<and> w' = w
     | None \<Rightarrow>
         (case r of
            Inr p \<Rightarrow> (\<exists>h. bc_generate B password (as_bcrypt_cost svc) salt = Some h
              \<and> p = public (new_user email h fresh now) \<and> pg w' = add_user (new_user email h fresh now) (pg w)
              \<and> user_by_email (normalize_email email) (pg w) = None)
          | Inl e \<Rightarrow> as_auth_validation e = None
              \<and> (pg w' = pg w \<or> (\<exists>h. pg w' = add_user (new_user email h fresh now) (pg w)))
              \<and> (errors_is e ErrEmailTaken \<longrightarrow> pg w' = pg w \<and>
                   (user_by_email (normalize_email email) (pg w) \<noteq> None \<or> user_row fresh (pg w) \<noteq> None
                    \<or> with_bloom \<and> rBFEXISTS R bloom_key_emails (normalize_email email) (srv w))))
         \<and> (user_by_email (normalize_email email) (pg w) \<noteq> None \<longrightarrow> pgnet w = []
              \<longrightarrow> bc_generate B password (as_bcrypt_cost svc) salt \<noteq> None \<longrightarrow> r = Inl ErrEmailTaken)
         \<and> (with_bloom \<longrightarrow> net w = [] \<longrightarrow> rBFEXISTS R bloom_key_emails (normalize_email email) (srv w)
              \<longrightarrow> r = Inl ErrEmailTaken)))"
proof (cases "validate_email email = None \<and> validate_password password = None")
  case False
  then show ?thesis using assms(3,5) by (auto simp: auth_register_def split: option.splits)
next
  case True
  then have v: "validate_email email = None" "validate_password password = None" by simp_all
  have loc: "bloom_key R ks" using assms(1) by (simp add: bloom_key_def)
  have ready: "bloom_key.bloom_ready ks bloom_key_emails w"
    using assms(2) by (simp add: bloom_key.bloom_ready_def [OF loc])
  note st = bloom_key.register_steps [OF loc assms(4) [unfolded app_auth_service_def] ready v assms(5)]
  from st(1) show ?thesis
  proof (elim disjE exE conjE, goal_cases)
    case 1
    then show ?thesis using v assms(3) by simp
  next
    case 2
    then show ?thesis using v st(2) assms(3) by auto
  next
    case (3 h q w1 w2)
    note made = created_account [OF assms(3) 3(2,3)]
    show ?thesis
    proof (cases q)
      case (Inr u)
      then show ?thesis using v 3 made(1) made(2) [OF Inr] st(2) by auto
    next
      case (Inl e)
      then show ?thesis using v 3 made(1,5) made(3,4) [OF Inl] st(2) by auto
    qed
  qed
qed

text \<open>A Redis whose Bloom filters answer yes to everything keeps the documented laws.\<close>

definition eager_redis :: "keyspace redis" where
  "eager_redis = ref_redis\<lparr>rBFEXISTS := (\<lambda>_ _ _. True)\<rparr>"

lemma eager_redis_ok: "redis_server eager_redis (\<lambda>m. m)"
  using ref_redis.redis_server_axioms
  by (simp add: redis_server_def redis_server_axioms_def uuid_lib_def eager_redis_def)

theorem registration_outcomes_witness:
  "fst (auth_register ref_bcrypt (app_auth_service eager_redis example_jwt 0 0 True) ''a@b'' ''password'' ''s'' 1 0
     (new_world Map.empty)) = Inl ErrEmailTaken"
proof -
  let ?w = "new_world Map.empty :: keyspace world"
  obtain r w' where h: "auth_register ref_bcrypt (app_auth_service eager_redis example_jwt 0 0 True)
      ''a@b'' ''password'' ''s'' 1 0 ?w = (r, w')" by (metis surj_pair)
  have "users_keyed (pg ?w)" by (simp add: users_keyed_def new_world_def empty_postgres_def)
  from registration_outcomes [OF eager_redis_ok _ this refl h]
  have "r = Inl ErrEmailTaken"
    by (simp add: validate_email_def validate_password_def trim_space_def is_space_def new_world_def eager_redis_def)
  then show ?thesis by (simp add: h)
qed

text \<open>
  C27. An account can be used: after a successful registration, logging in with the same password
  and the same email - in any case, with any white space around it - gives an access token for the
  new account and a refresh token Redis knows as its. A login with an email nobody has gets the
  same answer as one with a wrong password, and issues nothing.
\<close>

theorem register_then_login:
  assumes "redis_server R ks" and "bcrypt B" and "is_bloom (ks (srv w) bloom_key_emails)"
    and "svc = app_auth_service R jwt cost ttl with_bloom" and "users_keyed (pg w)"
    and "auth_register B svc email password salt fresh now w = (Inr p, w1)"
    and "net w1 = []" and "pgnet w1 = []" and "tokens_typed R ks w1"
    and "normalize_email email' = normalize_email email"
    and "issue_access J jwt (pu_id p) (dr_jti dr) (dr_now dr) = Inr (acc, ex)" and "dr_bytes dr = Some b" and "b \<noteq> []"
  shows "(\<exists>tp w2. auth_login J B svc email' password dr w1 = (Inr tp, w2)
      \<and> tp_access_token tp = acc \<and> token_owner R (ks (srv w2)) (tp_refresh_token tp) = Some (pu_id p))
    \<and> (\<forall>other pw. user_by_email (normalize_email other) (pg w1) = None
        \<or> (\<exists>u. user_by_email (normalize_email other) (pg w1) = Some u \<and> \<not> bc_compare B (u_password_hash u) pw)
        \<longrightarrow> auth_login J B svc other pw dr w1 = (Inl ErrInvalidCredentials, w1))"
proof -
  obtain h where h: "bc_generate B password (as_bcrypt_cost svc) salt = Some h"
    and p: "p = public (new_user email h fresh now)" and pg1: "pg w1 = add_user (new_user email h fresh now) (pg w)"
    and free: "user_by_email (normalize_email email) (pg w) = None"
    using register_succeeded [OF assms(1,3,5,4,6)] by blast
  let ?u = "new_user email h fresh now"
  have svc: "as_users svc = pg_user_repo" "as_refresh svc = redis_refresh_store R" "as_jwt svc = jwt"
    by (simp_all add: assms(4) app_auth_service_def new_auth_service_def)
  have find: "urepo_find_by_email pg_user_repo e w1 =
      (case user_by_email (normalize_email e) (pg w1) of None \<Rightarrow> Inl ErrUserNotFound | Some u \<Rightarrow> Inr u, w1)" for e
    using assms(8)
    by (simp add: pg_user_repo_def pg_find_user_by_email_def select_user_def pg_exec_up normalize_email_def split: option.split)
  have append: "find P (xs @ [x]) = (case find P xs of Some y \<Rightarrow> Some y | None \<Rightarrow> if P x then Some x else None)"
    for P and xs :: "user list" and x by (induction xs) auto
  have row: "user_by_email (normalize_email email') (pg w1) = Some ?u"
    using free assms(10) by (simp add: pg1 add_user_def user_by_email_def append new_user_email)
  have cmp: "bc_compare B h password" using bcrypt.verifies [OF assms(2) h] .
  obtain i w2 where iss: "refresh_issue R (pu_id p) (as_refresh_ttl svc) (dr_token_id dr) (Some b) w1 = (i, w2)"
    by (metis surj_pair)
  obtain t where t: "i = Inr t" "token_owner R (ks (srv w2)) t = Some (pu_id p)"
    using redis_server.refresh_issue_cases [OF assms(1,9,7,13) iss] by blast
  have id: "u_id ?u = pu_id p" "u_password_hash ?u = h" by (simp_all add: p public_def new_user_def)
  have "auth_login J B svc email' password dr w1 =
      (Inr \<lparr>tp_access_token = acc, tp_refresh_token = t, tp_access_expires_at = ex, tp_token_type = ''Bearer''\<rparr>, w2)"
    using cmp iss t(1) assms(11,12)
    by (simp add: auth_login_def svc find row id issue_tokens_def redis_refresh_store_def)
  moreover have "auth_login J B svc other pw dr w1 = (Inl ErrInvalidCredentials, w1)"
    if "user_by_email (normalize_email other) (pg w1) = None
        \<or> (\<exists>u. user_by_email (normalize_email other) (pg w1) = Some u \<and> \<not> bc_compare B (u_password_hash u) pw)" for other pw
    using that by (auto simp: auth_login_def svc find)
  ultimately show ?thesis using t(2) by auto
qed

definition example_auth :: "keyspace world auth_service" where
  "example_auth = app_auth_service ref_redis example_jwt 0 0 False"

definition example_draws :: draws where
  "example_draws = \<lparr>dr_jti = 2, dr_token_id = 3, dr_bytes = Some ''0123456789'', dr_now = 0\<rparr>"

definition registered_world :: "keyspace world" where
  "registered_world = (new_world Map.empty)\<lparr>pg := add_user (new_user ''Ann@B'' ''s$password'' 1 0) empty_postgres\<rparr>"

lemma example_registration:
  "auth_register ref_bcrypt example_auth ''Ann@B'' ''password'' ''s'' 1 0 (new_world Map.empty) =
     (Inr (public (new_user ''Ann@B'' ''s$password'' 1 0)), registered_world)"
  by (simp add: auth_register_def validate_email_def validate_password_def trim_space_def is_space_def
      email_maybe_taken_def record_email_def example_auth_def app_auth_service_def new_auth_service_def ref_bcrypt_def
      pg_user_repo_def pg_create_user_def pg_exec_up insert_user_sql_def user_by_email_def user_row_def
      new_world_def registered_world_def empty_postgres_def add_user_def Let_def)

lemma registered_world_simps [simp]:
  "net registered_world = []" "pgnet registered_world = []" "srv registered_world = Map.empty"
  by (simp_all add: registered_world_def new_world_def)

theorem register_then_login_witness:
  "\<exists>tp w2. auth_login ref_jwt ref_bcrypt example_auth '' ann@b'' ''password'' example_draws registered_world = (Inr tp, w2)
     \<and> token_owner ref_redis (srv w2) (tp_refresh_token tp) = Some 1"
proof -
  have typed: "tokens_typed ref_redis (\<lambda>m. m) registered_world" by (simp add: tokens_typed_def)
  have keyed: "users_keyed (pg (new_world Map.empty :: keyspace world))"
    by (simp add: users_keyed_def new_world_def empty_postgres_def)
  have mail: "normalize_email '' ann@b'' = normalize_email ''Ann@B''"
    by code_simp
  obtain acc ex where acc: "issue_access ref_jwt example_jwt 1 2 0 = Inr (acc, ex)"
    by (simp add: issue_access_def ref_jwt_def)
  have id: "pu_id (public (new_user ''Ann@B'' ''s$password'' 1 0)) = 1" by (simp add: public_def new_user_def)
  from register_then_login [OF ref_redis.redis_server_axioms ref_bcrypt.bcrypt_axioms _ example_auth_def keyed
      example_registration _ _ typed mail, of ref_jwt example_draws acc ex "''0123456789''"]
  show ?thesis using acc id by (auto simp: new_world_def example_draws_def)
qed

text \<open>
  C12. Rotation of refresh tokens, with Redis up: \<open>POST /auth/refresh\<close> with a token Redis knows
  as a user's answers 200 with an access token and a new refresh token for that user; the old
  token is then nobody's, so that a replay is refused, and no token with another id is affected.
  Any other token - unknown, expired, revoked, malformed or with the wrong secret - gets a 401 and
  changes nothing.
\<close>

theorem refresh_rotates_the_token:
  assumes "redis_server R ks" and "tokens_typed R ks w" and "plain_token R t" and "net w = []"
    and "svc = app_auth_service R jwt cost ttl with_bloom" and "dr_bytes dr = Some b" and "b \<noteq> []"
    and "token_id t \<noteq> Some (uuid_str R (dr_token_id dr))"
    and "\<forall>u. issue_access J jwt u (dr_jti dr) (dr_now dr) = Inr (acc u, ex)"
    and "handle_refresh J svc (Inr t) dr w = (resp, w')"
  shows "pg w' = pg w \<and>
    (case token_owner R (ks (srv w)) t of
       None \<Rightarrow> resp = httpx_error 401 ''unauthenticated'' ''invalid or expired refresh token'' \<and> srv w' = srv w
     | Some u \<Rightarrow> (\<exists>tp. resp = httpx_ok tp \<and> tp_access_token tp = acc u \<and> tp_access_expires_at tp = ex
         \<and> token_owner R (ks (srv w')) (tp_refresh_token tp) = Some u \<and> token_owner R (ks (srv w')) t = None
         \<and> (\<forall>x. plain_token R x \<longrightarrow> token_id x \<noteq> token_id t \<longrightarrow> token_id x \<noteq> token_id (tp_refresh_token tp) \<longrightarrow>
              token_owner R (ks (srv w')) x = token_owner R (ks (srv w)) x)))"
proof -
  have svc: "as_refresh svc = redis_refresh_store R" "as_jwt svc = jwt"
    by (simp_all add: assms(5) app_auth_service_def new_auth_service_def)
  obtain r w1 where val: "rs_validate (redis_refresh_store R) t w = (r, w1)" by (metis surj_pair)
  obtain q w2 where rev: "rs_revoke (redis_refresh_store R) t w1 = (q, w2)" by (metis surj_pair)
  have v: "stores_same w w1" "srv w1 = srv w"
    "r = (case token_owner R (ks (srv w)) t of None \<Rightarrow> Inl ErrInvalidRefresh | Some u \<Rightarrow> Inr u)"
    using redis_server.refresh_validate_cases [OF assms(1,2,3), of r w1] val assms(4)
    by (simp_all add: redis_refresh_store_def)
  show ?thesis
  proof (cases "token_owner R (ks (srv w)) t")
    case None
    then show ?thesis
      using assms(10) v val by (auto simp: handle_refresh_def auth_refresh_def svc stores_same_def)
  next
    case (Some u)
    obtain i w3 where iss: "rs_issue (redis_refresh_store R) u (as_refresh_ttl svc) (dr_token_id dr) (Some b) w2 = (i, w3)"
      by (metis surj_pair)
    from redis_server.token_rotation [OF assms(1,2,3,4,7) Some assms(8) val rev iss]
    obtain t' where t': "i = Inr t'" "plain_token R t'" "token_owner R (ks (srv w3)) t' = Some u"
      "token_owner R (ks (srv w3)) t = None" "stores_same w w3"
      "\<forall>x. plain_token R x \<longrightarrow> token_id x \<noteq> token_id t \<longrightarrow> token_id x \<noteq> token_id t' \<longrightarrow>
        token_owner R (ks (srv w3)) x = token_owner R (ks (srv w)) x" by blast
    have "handle_refresh J svc (Inr t) dr w =
        (httpx_ok \<lparr>tp_access_token = acc u, tp_refresh_token = t', tp_access_expires_at = ex, tp_token_type = ''Bearer''\<rparr>, w3)"
      using v(3) Some val rev iss t'(1) assms(6,9)
      by (simp add: handle_refresh_def auth_refresh_def svc issue_tokens_def)
    then have resp: "resp = httpx_ok \<lparr>tp_access_token = acc u, tp_refresh_token = t', tp_access_expires_at = ex,
        tp_token_type = ''Bearer''\<rparr>" and w': "w' = w3" using assms(10) by simp_all
    have "pg w' = pg w" using t'(5) by (simp add: w' stores_same_def)
    then show ?thesis using Some t'(3,4,6) unfolding resp w'
      by (auto intro!: exI [of _ "\<lparr>tp_access_token = acc u, tp_refresh_token = t', tp_access_expires_at = ex,
        tp_token_type = ''Bearer''\<rparr>"])
  qed
qed

text \<open>A token of user 1, as issued under the id 9.\<close>

definition session_world :: "keyspace world" where
  "session_world = (new_world [refresh_key (ref_uuid_str 9) \<mapsto> (RStr (ref_uuid_str 1 @ ''.s3cret''), None)])"

lemma session_token:
  "split_refresh (ref_uuid_str u @ ''.s3cret'') = Some (ref_uuid_str u, ''s3cret'')"
  using split_join [of "ref_uuid_str u" "''s3cret''"] ref_redis.str_no_dot [of u] ref_redis.str_nonempty [of u] by simp

lemma session_owner: "token_owner ref_redis (srv session_world) (ref_uuid_str 9 @ ''.s3cret'') = Some 1"
  by (simp add: token_owner_def session_token session_world_def new_world_def del: append_Cons)

lemma session_world_ok:
  "tokens_typed ref_redis (\<lambda>m. m) session_world" "plain_token ref_redis (ref_uuid_str u @ ''.s3cret'')"
  using ref_redis.id_not_index not_sym [OF ref_redis.id_not_index]
  by (auto simp: tokens_typed_def session_world_def new_world_def index_key_eq plain_token_def token_id_def session_token
      simp del: append_Cons)

theorem refresh_rotates_the_token_witness:
  "status (fst (handle_refresh ref_jwt example_auth (Inr (ref_uuid_str 9 @ ''.s3cret'')) example_draws session_world)) = 200
   \<and> token_owner ref_redis (srv (snd (handle_refresh ref_jwt example_auth (Inr (ref_uuid_str 9 @ ''.s3cret''))
       example_draws session_world))) (ref_uuid_str 9 @ ''.s3cret'') = None"
proof -
  obtain resp w' where h: "handle_refresh ref_jwt example_auth (Inr (ref_uuid_str 9 @ ''.s3cret'')) example_draws session_world
      = (resp, w')" by (metis surj_pair)
  have acc: "\<forall>u. issue_access ref_jwt example_jwt u (dr_jti example_draws) (dr_now example_draws) =
      Inr ((\<lambda>u. the (jl_sign ref_jwt ''secret'' (access_claims example_jwt u 2 0))) u, 60000000000)"
    by (simp add: issue_access_def ref_jwt_def example_jwt_def example_draws_def)
  have id: "token_id (ref_uuid_str 9 @ ''.s3cret'') \<noteq> Some (uuid_str ref_redis (dr_token_id example_draws))"
    using ref_redis.str_inj [of 9 3] by (simp add: token_id_def session_token example_draws_def)
  have up: "net session_world = []" by (simp add: session_world_def new_world_def)
  from refresh_rotates_the_token [OF ref_redis.redis_server_axioms session_world_ok up example_auth_def _ _ id acc h,
      of "''0123456789''"]
  show ?thesis using session_owner unfolding h by (auto simp: example_draws_def httpx_ok_def)
qed

text \<open>
  What logging out revokes, with Redis up: it answers 200, whatever the token. A malformed
  token changes nothing; any other deletes the one key its part before the dot names. The part
  after the dot is not compared with anything: knowing the id of a session is enough to end it,
  and \<open>user:{uid}.x\<close> deletes the index of all sessions of that user.
\<close>

theorem logout_needs_no_secret:
  assumes "redis_server R ks" and "net w = []" and "svc = app_auth_service R jwt cost ttl with_bloom"
    and "handle_logout svc (Inr t) w = (resp, w')"
  shows "resp = httpx_ok True \<and> pg w' = pg w \<and>
    (case token_id t of
       None \<Rightarrow> ks (srv w') = ks (srv w)
     | Some i \<Rightarrow> (\<forall>x. token_id x = Some i \<longrightarrow> token_owner R (ks (srv w')) x = None)
         \<and> (\<forall>u. i = ''user:'' @ uuid_str R u \<longrightarrow> ks (srv w') (refresh_user_index_key R u) = None)
         \<and> (\<forall>k. k \<noteq> refresh_key i \<longrightarrow> ks (srv w') k = ks (srv w) k))"
proof -
  have svc: "as_refresh svc = redis_refresh_store R"
    by (simp add: assms(3) app_auth_service_def new_auth_service_def)
  show ?thesis
  proof (cases "split_refresh t")
    case None
    then show ?thesis using assms(4)
      by (simp add: handle_logout_def auth_logout_def svc redis_refresh_store_def refresh_revoke_def token_id_def)
  next
    case (Some p)
    obtain i sec where p: "p = (i, sec)" by (cases p)
    have r: "resp = httpx_ok True" "w' = w\<lparr>srv := rDEL R (refresh_key i) (srv w)\<rparr>"
      using assms(2,4) Some p
      by (simp_all add: handle_logout_def auth_logout_def svc redis_refresh_store_def refresh_revoke_def redis_call_up)
    have ks': "ks (srv w') = (ks (srv w))(refresh_key i := None)" using redis_server.del [OF assms(1)] by (simp add: r(2))
    have "token_owner R (ks (srv w')) x = None" if "token_id x = Some i" for x
      using that by (auto simp: token_owner_def token_id_def ks' split: option.splits)
    moreover have "pg w' = pg w" by (simp add: r(2))
    ultimately show ?thesis unfolding ks' using Some p r(1) by (simp add: token_id_def index_key_eq)
  qed
qed

theorem logout_needs_no_secret_witness:
  "token_owner ref_redis (srv (snd (handle_logout example_auth (Inr (ref_uuid_str 9 @ ''.guess'')) session_world)))
     (ref_uuid_str 9 @ ''.s3cret'') = None"
proof -
  obtain resp w' where h: "handle_logout example_auth (Inr (ref_uuid_str 9 @ ''.guess'')) session_world = (resp, w')"
    by (metis surj_pair)
  have id: "token_id (ref_uuid_str 9 @ ''.guess'') = Some (ref_uuid_str 9)"
    using split_join [of "ref_uuid_str 9" "''guess''"] ref_redis.str_no_dot [of 9] ref_redis.str_nonempty [of 9]
    by (simp add: token_id_def)
  have up: "net session_world = []" by (simp add: session_world_def new_world_def)
  have "token_id (ref_uuid_str 9 @ ''.s3cret'') = Some (ref_uuid_str 9)" by (simp add: token_id_def session_token del: append_Cons)
  moreover from logout_needs_no_secret [OF ref_redis.redis_server_axioms up example_auth_def h, unfolded id]
  have "\<forall>x. token_id x = Some (ref_uuid_str 9) \<longrightarrow> token_owner ref_redis (srv w') x = None" by simp
  ultimately show ?thesis unfolding h by simp
qed

end
