(* ===== verification/Product.thy ===== *)
theory Product
  imports Video
begin

text \<open>
  \<open>internal/product\<close>: at most one product per video, created by the video's owner. The
  repository over the \<open>products\<close> table, the service with its two caches, the ownership check it
  borrows from the video service (the locale \<open>owner_check\<close>) and the Bloom filter in front of
  the UNIQUE constraint, and the three handlers.
\<close>

section \<open>Validation\<close>

record product_input =
  pc_video_id :: uuid
  pc_name :: string
  pc_price_cents :: int
  pc_currency :: string
  pc_image_url :: string

definition validate_product :: "url_lib \<Rightarrow> product_input \<Rightarrow> goerr option" where
  "validate_product url_parse i =
     (if pc_video_id i = uuid_nil then Some (ProductValidationError ''video_id is required'')
      else if trim_space (pc_name i) = [] then Some (ProductValidationError ''name is required'')
      else if 200 < length (trim_space (pc_name i))
      then Some (ProductValidationError ''name must be at most 200 characters'')
      else if pc_price_cents i < 0 then Some (ProductValidationError ''price_cents must be non-negative'')
      else if 1000000000 < pc_price_cents i
      then Some (ProductValidationError ''price_cents exceeds maximum'')
      else if length (to_upper (trim_space (pc_currency i))) \<noteq> 3
      then Some (ProductValidationError ''currency must be a 3-letter ISO 4217 code'')
      else if trim_space (pc_image_url i) = [] then Some (ProductValidationError ''image_url is required'')
      else if \<not> http_url url_parse (pc_image_url i)
      then Some (ProductValidationError ''image_url must be a valid http(s) URL'')
      else if 2048 < length (pc_image_url i)
      then Some (ProductValidationError ''image_url must be at most 2048 characters'')
      else None)"

section \<open>The repository\<close>

definition new_product :: "product_input \<Rightarrow> uuid \<Rightarrow> gotime \<Rightarrow> product" where
  "new_product i fresh now =
     \<lparr>p_id = fresh, p_video_id = pc_video_id i, p_name = trim_space (pc_name i),
      p_price_cents = pc_price_cents i, p_currency = to_upper (trim_space (pc_currency i)),
      p_image_url = trim_space (pc_image_url i), p_created_at = pg_time now\<rparr>"

definition product_row :: "uuid \<Rightarrow> postgres \<Rightarrow> product option" where
  "product_row i d = find (\<lambda>p. p_id p = i) (products d)"

definition product_of_video :: "uuid \<Rightarrow> postgres \<Rightarrow> product option" where
  "product_of_video v d = find (\<lambda>p. p_video_id p = v) (products d)"

definition add_product :: "product \<Rightarrow> postgres \<Rightarrow> postgres" where
  "add_product p d = d\<lparr>products := products d @ [p]\<rparr>"

definition insert_product_sql ::
  "product_input \<Rightarrow> uuid \<Rightarrow> gotime \<Rightarrow> postgres \<Rightarrow> (pgerr + product) \<times> postgres"
where
  "insert_product_sql i fresh now d =
     (if pc_price_cents i < 0 then (Inl (SqlState CheckViolation), d)
      else if product_row fresh d \<noteq> None \<or> product_of_video (pc_video_id i) d \<noteq> None
      then (Inl (SqlState UniqueViolation), d)
      else if \<not> video_exists (pc_video_id i) d then (Inl (SqlState ForeignKeyViolation), d)
      else (Inr (new_product i fresh now), add_product (new_product i fresh now) d))"

record 'w product_repo =
  prepo_create :: "product_input \<Rightarrow> uuid \<Rightarrow> gotime \<Rightarrow> 'w \<Rightarrow> product result \<times> 'w"
  prepo_find_by_id :: "uuid \<Rightarrow> 'w \<Rightarrow> product result \<times> 'w"
  prepo_find_by_video :: "uuid \<Rightarrow> 'w \<Rightarrow> product result \<times> 'w"

definition pg_create_product ::
  "product_input \<Rightarrow> uuid \<Rightarrow> gotime \<Rightarrow> 's world \<Rightarrow> product result \<times> 's world"
where
  "pg_create_product i fresh now w =
     (case pg_exec (insert_product_sql i fresh now) w of
        (Inl (SqlState UniqueViolation), w') \<Rightarrow> (Inl ErrVideoAlreadyTaken, w')
      | (Inl e, w') \<Rightarrow> (Inl (Wrapped ''insert product'' (pg_goerr e)), w')
      | (Inr p, w') \<Rightarrow> (Inr p, w'))"

text \<open>The two reads differ in their WHERE clause and in the prefix of the error.\<close>

definition select_product ::
  "(postgres \<Rightarrow> product option) \<Rightarrow> string \<Rightarrow> 's world \<Rightarrow> product result \<times> 's world"
where
  "select_product row prefix w =
     (case pg_exec (reading (\<lambda>d. case row d of None \<Rightarrow> Inl NoRows | Some p \<Rightarrow> Inr p)) w of
        (Inl NoRows, w') \<Rightarrow> (Inl ErrProductNotFound, w')
      | (Inl e, w') \<Rightarrow> (Inl (Wrapped prefix (pg_goerr e)), w')
      | (Inr p, w') \<Rightarrow> (Inr p, w'))"

definition pg_find_product :: "uuid \<Rightarrow> 's world \<Rightarrow> product result \<times> 's world" where
  "pg_find_product i = select_product (product_row i) ''select product''"

definition pg_find_product_by_video :: "uuid \<Rightarrow> 's world \<Rightarrow> product result \<times> 's world" where
  "pg_find_product_by_video v = select_product (product_of_video v) ''select product by video''"

definition pg_product_repo :: "'s world product_repo" where
  "pg_product_repo = \<lparr>prepo_create = pg_create_product, prepo_find_by_id = pg_find_product,
     prepo_find_by_video = pg_find_product_by_video\<rparr>"

section \<open>The service\<close>

record 'w product_service =
  pd_repo :: "'w product_repo"
  pd_cache :: "(product, 'w) cache option"
  pd_by_video_cache :: "(product, 'w) cache option"
  pd_assert_owner :: "uuid \<Rightarrow> uuid \<Rightarrow> 'w \<Rightarrow> unit result \<times> 'w"
  pd_bloom :: "'w bloom_ops option"

text \<open>A failing filter never blocks: the database decides.\<close>

definition video_maybe_taken :: "'w product_service \<Rightarrow> string \<Rightarrow> 'w \<Rightarrow> bool \<times> 'w" where
  "video_maybe_taken svc vid w =
     (case pd_bloom svc of
        None \<Rightarrow> (False, w)
      | Some f \<Rightarrow> (case may_contain f vid w of (Inl e, w') \<Rightarrow> (False, w') | (Inr b, w') \<Rightarrow> (b, w')))"

definition record_video :: "'w product_service \<Rightarrow> string \<Rightarrow> 'w \<Rightarrow> 'w" where
  "record_video svc vid w = (case pd_bloom svc of None \<Rightarrow> w | Some f \<Rightarrow> snd (bloom_add f vid w))"

definition product_create ::
  "url_lib \<Rightarrow> 'z libs_scheme \<Rightarrow> 'w product_service \<Rightarrow> uuid \<Rightarrow> product_input \<Rightarrow> uuid \<Rightarrow> gotime \<Rightarrow> 'w
     \<Rightarrow> product result \<times> 'w"
where
  "product_create url_parse L svc uid i fresh now w =
     (case validate_product url_parse i of
        Some e \<Rightarrow> (Inl e, w)
      | None \<Rightarrow>
          (case pd_assert_owner svc (pc_video_id i) uid w of
             (Inl e, w) \<Rightarrow> (Inl e, w)
           | (Inr _, w) \<Rightarrow>
               (let vid_key = uuid_str L (pc_video_id i);
                    (dup, w) = video_maybe_taken svc vid_key w
                in if dup then (Inl ErrVideoAlreadyTaken, w)
                   else
                     (case prepo_create (pd_repo svc) i fresh now w of
                        (Inl e, w) \<Rightarrow>
                          (Inl e, if errors_is e ErrVideoAlreadyTaken then record_video svc vid_key w else w)
                      | (Inr p, w) \<Rightarrow>
                          (let w = record_video svc vid_key w;
                               w = (case pd_cache svc of None \<Rightarrow> w
                                    | Some c \<Rightarrow> snd (cache_set c (uuid_str L (p_id p)) p w));
                               w = (case pd_by_video_cache svc of None \<Rightarrow> w
                                    | Some c \<Rightarrow> snd (cache_set c (uuid_str L (p_video_id p)) p w))
                           in (Inr p, w))))))"

definition product_get_by_id ::
  "'z libs_scheme \<Rightarrow> 'w product_service \<Rightarrow> uuid \<Rightarrow> 'w \<Rightarrow> product result \<times> 'w"
where
  "product_get_by_id L svc i w =
     read_through (pd_cache svc) (uuid_str L i) (prepo_find_by_id (pd_repo svc) i)
       (\<lambda>p. uuid_str L (p_id p)) w"

definition product_get_by_video ::
  "'z libs_scheme \<Rightarrow> 'w product_service \<Rightarrow> uuid \<Rightarrow> 'w \<Rightarrow> product result \<times> 'w"
where
  "product_get_by_video L svc v w =
     read_through (pd_by_video_cache svc) (uuid_str L v) (prepo_find_by_video (pd_repo svc) v)
       (\<lambda>_. uuid_str L v) w"

definition product_is_not_found :: "goerr \<Rightarrow> bool" where
  "product_is_not_found e \<longleftrightarrow> errors_is e ErrProductNotFound \<or> errors_is e ErrVideoNotFound"

section \<open>The handlers\<close>

definition handle_create_product ::
  "url_lib \<Rightarrow> 'z libs_scheme \<Rightarrow> 'w product_service \<Rightarrow> uuid \<Rightarrow> string + product_input \<Rightarrow> uuid \<Rightarrow> gotime \<Rightarrow> 'w
     \<Rightarrow> product response \<times> 'w"
where
  "handle_create_product url_parse L svc uid body fresh now w =
     (case body of
        Inl msg \<Rightarrow> (httpx_error_detail 400 ''validation_failed'' ''invalid request body'' (DetailMeta msg), w)
      | Inr i \<Rightarrow>
          (case product_create url_parse L svc uid i fresh now w of
             (Inr p, w') \<Rightarrow> (httpx_created p, w')
           | (Inl e, w') \<Rightarrow>
               (case as_product_validation e of
                  Some msg \<Rightarrow> httpx_error 400 ''validation_failed'' msg
                | None \<Rightarrow>
                    if errors_is e ErrVideoNotFound then httpx_error 404 ''not_found'' ''video not found''
                    else if errors_is e ErrForbidden
                    then httpx_error 403 ''forbidden'' ''you do not own the linked video''
                    else if errors_is e ErrVideoAlreadyTaken
                    then httpx_error 409 ''conflict'' ''a product already exists for this video''
                    else httpx_error 500 ''internal_error'' ''create product failed'', w')))"

definition handle_get_product ::
  "'z libs_scheme \<Rightarrow> 'w product_service \<Rightarrow> string \<Rightarrow> 'w \<Rightarrow> product response \<times> 'w"
where
  "handle_get_product L svc param w =
     (case uuid_parse L param of
        None \<Rightarrow> (httpx_error 400 ''validation_failed'' ''invalid product id'', w)
      | Some i \<Rightarrow>
          (case product_get_by_id L svc i w of
             (Inr p, w') \<Rightarrow> (httpx_ok p, w')
           | (Inl e, w') \<Rightarrow>
               (if errors_is e ErrProductNotFound then httpx_error 404 ''not_found'' ''product not found''
                else httpx_error 500 ''internal_error'' ''get product failed'', w')))"

definition handle_get_product_by_video ::
  "'z libs_scheme \<Rightarrow> 'w product_service \<Rightarrow> string \<Rightarrow> 'w \<Rightarrow> product response \<times> 'w"
where
  "handle_get_product_by_video L svc param w =
     (case uuid_parse L param of
        None \<Rightarrow> (httpx_error 400 ''validation_failed'' ''invalid video id'', w)
      | Some v \<Rightarrow>
          (case product_get_by_video L svc v w of
             (Inr p, w') \<Rightarrow> (httpx_ok p, w')
           | (Inl e, w') \<Rightarrow>
               (if errors_is e ErrProductNotFound
                then httpx_error 404 ''not_found'' ''no product attached to this video''
                else httpx_error 500 ''internal_error'' ''get product failed'', w')))"

section \<open>The ownership check\<close>

text \<open>What the service relies on: an answer of \<open>nil\<close> means the video exists and is the caller's;
  with Postgres reachable the three answers are exact. The tables are not touched.\<close>

definition owner_answer :: "uuid \<Rightarrow> uuid \<Rightarrow> postgres \<Rightarrow> unit result" where
  "owner_answer vid uid d =
     (case video_row vid d of None \<Rightarrow> Inl ErrVideoNotFound
      | Some v \<Rightarrow> if v_user_id v \<noteq> uid then Inl ErrForbidden else Inr ())"

locale owner_check =
  fixes assert :: "uuid \<Rightarrow> uuid \<Rightarrow> 's world \<Rightarrow> unit result \<times> 's world"
    and ready :: "'s world \<Rightarrow> bool" and same :: "uuid \<Rightarrow> 's world \<Rightarrow> 's world \<Rightarrow> bool"
  assumes assert: "ready w \<Longrightarrow> assert vid uid w = (r, w') \<Longrightarrow>
      ready w' \<and> same vid w w' \<and> pg w' = pg w \<and> (r = Inr () \<longrightarrow> owner_answer vid uid (pg w) = Inr ())
      \<and> (pgnet w = [] \<longrightarrow> r = owner_answer vid uid (pg w))
      \<and> (\<forall>e. r = Inl e \<longrightarrow> \<not> errors_is e ErrVideoAlreadyTaken \<and> as_product_validation e = None)"

context video_reads
begin

definition owner_ready :: "'s world \<Rightarrow> bool" where
  "owner_ready w \<longleftrightarrow> video_cache_true R ks C w \<and> (\<forall>v \<in> set (videos (pg w)). fits v)"

lemma assert_owner_sound:
  assumes "owner_ready w" and "assert_owner R svc vid uid w = (r, w')"
  shows "owner_ready w' \<and> key_frame ks (video_cache_key (uuid_str R vid)) w w' \<and> pg w' = pg w
    \<and> (r = Inr () \<longrightarrow> owner_answer vid uid (pg w) = Inr ())
    \<and> (pgnet w = [] \<longrightarrow> r = owner_answer vid uid (pg w))
    \<and> (\<forall>e. r = Inl e \<longrightarrow> \<not> errors_is e ErrVideoAlreadyTaken \<and> as_product_validation e = None)"
proof -
  obtain q w1 where g: "video_get R svc vid w = (q, w1)" by (metis surj_pair)
  have pre: "video_cache_true R ks C w" "\<forall>v \<in> set (videos (pg w)). fits v"
    using assms(1) by (simp_all add: owner_ready_def)
  note a = video_get_answers [OF pre g]
  have "(r, w') = (case q of Inl e \<Rightarrow> Inl e | Inr v \<Rightarrow> if v_user_id v \<noteq> uid then Inl ErrForbidden else Inr (), w1)"
    unfolding assms(2) [symmetric] by (cases q) (simp_all add: assert_owner_def g)
  then have rw: "w' = w1" "r = (case q of Inl e \<Rightarrow> Inl e | Inr v \<Rightarrow> if v_user_id v \<noteq> uid then Inl ErrForbidden else Inr ())"
    by simp_all
  have pg: "pg w1 = pg w" using a by (simp add: key_frame_def)
  have err: "e = ErrVideoNotFound \<or> (\<exists>s. e = Wrapped ''select video'' (Plain s))" if "q = Inl e" for e
  proof -
    have "video_get R svc vid w = (Inl e, w1)" using g that by simp
    from read_through_errors [OF this [unfolded video_get_def]]
    obtain u1 u2 where "repo_find_by_id (vd_repo svc) vid u1 = (Inl e, u2)" by blast
    then have "pg_find_video vid u1 = (Inl e, u2)" by (simp add: app_video_service_def pg_video_repo_def)
    then show ?thesis using pg_find_video_errors by blast
  qed
  have row: "video_row vid (pg w) = Some v" if "q = Inr v" for v using a that by blast
  have up: "pgnet w = [] \<longrightarrow> q = (case video_row vid (pg w) of None \<Rightarrow> Inl ErrVideoNotFound | Some v \<Rightarrow> Inr v)"
    using a by blast
  have ready: "owner_ready w1" and frame: "key_frame ks (video_cache_key (uuid_str R vid)) w w1"
    using a pre pg by (simp_all add: owner_ready_def)
  show ?thesis
  proof (cases q)
    case (Inl e)
    then have "r = Inl e" using rw(2) by simp
    moreover have "pgnet w = [] \<longrightarrow> Inl e = owner_answer vid uid (pg w)"
      using up Inl by (cases "video_row vid (pg w)") (simp_all add: owner_answer_def)
    ultimately show ?thesis using ready frame pg err [OF Inl] unfolding rw(1) by auto
  next
    case (Inr v)
    then have "r = owner_answer vid uid (pg w)" using rw(2) row [OF Inr] by (simp add: owner_answer_def)
    moreover have "owner_answer vid uid (pg w) = Inl ErrForbidden \<or> owner_answer vid uid (pg w) = Inr ()"
      using row [OF Inr] by (simp add: owner_answer_def)
    ultimately show ?thesis using ready frame pg unfolding rw(1) by auto
  qed
qed

end

sublocale video_reads \<subseteq> owners: owner_check "assert_owner R svc" owner_ready
  "\<lambda>vid. key_frame ks (video_cache_key (uuid_str R vid))"
  by unfold_locales (rule assert_owner_sound)

section \<open>The service of the composition root\<close>

definition product_cache_key :: "string \<Rightarrow> string" where
  "product_cache_key i = ''product:'' @ i"

definition product_by_video_cache_key :: "string \<Rightarrow> string" where
  "product_by_video_cache_key i = ''video:'' @ i @ '':product''"

definition app_product_service ::
  "('s, 'z) redis_scheme \<Rightarrow> product codec \<Rightarrow> 's world video_service \<Rightarrow> bool \<Rightarrow> 's world product_service"
where
  "app_product_service R C vsvc with_bloom =
     \<lparr>pd_repo = pg_product_repo,
      pd_cache = Some (json_cache_ops R C product_cache_key resource_cache_ttl),
      pd_by_video_cache = Some (json_cache_ops R C product_by_video_cache_key resource_cache_ttl),
      pd_assert_owner = assert_owner R vsvc,
      pd_bloom = (if with_bloom then Some (redis_bloom R bloom_key_product_videos) else None)\<rparr>"

text \<open>The one-to-one relation of the schema: keys, and a video behind every product.\<close>

definition products_keyed :: "postgres \<Rightarrow> bool" where
  "products_keyed d \<longleftrightarrow> distinct (map p_id (products d)) \<and> distinct (map p_video_id (products d))
     \<and> (\<forall>p \<in> set (products d). video_exists (p_video_id p) d)"

lemma find_row: "find (\<lambda>x. f x = k) xs = Some x \<Longrightarrow> f x = k \<and> x \<in> set xs"
  by (drule find_Some_iff') blast

lemma find_row_None: "find (\<lambda>x. f x = k) xs = None \<longleftrightarrow> k \<notin> f ` set xs"
  unfolding find_None_iff by blast

lemma find_snoc:
  "find P (xs @ [x]) = (case find P xs of Some y \<Rightarrow> Some y | None \<Rightarrow> if P x then Some x else None)"
  by (induction xs) auto

lemma insert_product_sql_Inr:
  assumes "insert_product_sql i fresh now d = (Inr p, d')"
  shows "p = new_product i fresh now" and "d' = add_product p d"
    and "product_row fresh d = None" and "product_of_video (pc_video_id i) d = None"
    and "video_exists (pc_video_id i) d"
  using assms by (auto simp: insert_product_sql_def split: if_splits)

lemma insert_product_sql_state:
  "snd (insert_product_sql i fresh now d) = d
   \<or> (\<exists>p. insert_product_sql i fresh now d = (Inr p, snd (insert_product_sql i fresh now d)))"
  by (simp add: insert_product_sql_def)

lemma add_product_keeps:
  assumes "insert_product_sql i fresh now d = (Inr p, d')"
  shows "products_keyed d \<Longrightarrow> products_keyed d'"
    and "product_row j d' = (if j = fresh then Some p else product_row j d)"
    and "product_of_video v d' = (if v = pc_video_id i then Some p else product_of_video v d)"
proof -
  note k = insert_product_sql_Inr [OF assms]
  have p: "p_id p = fresh" "p_video_id p = pc_video_id i" using k(1) by (simp_all add: new_product_def)
  have new: "fresh \<notin> p_id ` set (products d)" "pc_video_id i \<notin> p_video_id ` set (products d)"
    using k(3,4) by (simp_all add: product_row_def product_of_video_def find_row_None)
  show "products_keyed d \<Longrightarrow> products_keyed d'"
    using new p k(5) unfolding k(2) by (auto simp: products_keyed_def add_product_def video_exists_def)
  show "product_row j d' = (if j = fresh then Some p else product_row j d)"
    using k(3) p unfolding k(2) by (auto simp: product_row_def add_product_def find_snoc split: option.splits)
  show "product_of_video v d' = (if v = pc_video_id i then Some p else product_of_video v d)"
    using k(4) p unfolding k(2) by (auto simp: product_of_video_def add_product_def find_snoc split: option.splits)
qed

lemma pg_create_product_cases:
  assumes "pg_create_product i fresh now w = (r, w')"
  shows "srv w' = srv w \<and> net w' = net w"
    and "r = Inr p \<Longrightarrow> insert_product_sql i fresh now (pg w) = (Inr p, pg w')"
    and "r = Inl e \<Longrightarrow> pg w' = pg w \<or> (\<exists>p. insert_product_sql i fresh now (pg w) = (Inr p, pg w'))"
    and "r = Inl e \<Longrightarrow> e = ErrVideoAlreadyTaken
        \<and> (product_row fresh (pg w) \<noteq> None \<or> product_of_video (pc_video_id i) (pg w) \<noteq> None)
      \<or> (\<exists>s. e = Wrapped ''insert product'' (Plain s))"
    and "pgnet w = [] \<Longrightarrow> 0 \<le> pc_price_cents i \<Longrightarrow> video_exists (pc_video_id i) (pg w) \<Longrightarrow>
      product_row fresh (pg w) = None \<Longrightarrow>
      (case product_of_video (pc_video_id i) (pg w) of
         None \<Rightarrow> r = Inr (new_product i fresh now) | Some _ \<Rightarrow> r = Inl ErrVideoAlreadyTaken)"
proof -
  let ?f = "insert_product_sql i fresh now"
  obtain q w1 where call: "pg_exec ?f w = (q, w1)" by (metis surj_pair)
  have w': "w' = w1" and inr: "r = Inr p \<longleftrightarrow> q = Inr p" for p
    using assms call by (auto simp: pg_create_product_def split: sum.splits pgerr.splits sqlstate.splits)
  have inl: "\<exists>x. q = Inl x \<and> (x = SqlState UniqueViolation \<and> e = ErrVideoAlreadyTaken
      \<or> x \<noteq> SqlState UniqueViolation \<and> e = Wrapped ''insert product'' (pg_goerr x))" if "r = Inl e" for e
    using assms call that by (auto simp: pg_create_product_def split: sum.splits pgerr.splits sqlstate.splits)
  show "srv w' = srv w \<and> net w' = net w"
    using call pg_exec_frame [of ?f w] unfolding w' by simp
  show "?f (pg w) = (Inr p, pg w')" if "r = Inr p"
    using call inr that unfolding w' by (cases rule: pg_exec_cases) auto
  show "pg w' = pg w \<or> (\<exists>p. ?f (pg w) = (Inr p, pg w'))" if l: "r = Inl e"
  proof -
    have "pg w1 = pg w \<or> pg w1 = snd (?f (pg w))" using call by (cases rule: pg_exec_cases) auto
    then show ?thesis using insert_product_sql_state [of i fresh now "pg w"] unfolding w' by metis
  qed
  show "e = ErrVideoAlreadyTaken
        \<and> (product_row fresh (pg w) \<noteq> None \<or> product_of_video (pc_video_id i) (pg w) \<noteq> None)
      \<or> (\<exists>s. e = Wrapped ''insert product'' (Plain s))" if l: "r = Inl e"
  proof -
    obtain x where q: "q = Inl x" and e: "x = SqlState UniqueViolation \<and> e = ErrVideoAlreadyTaken
      \<or> x \<noteq> SqlState UniqueViolation \<and> e = Wrapped ''insert product'' (pg_goerr x)" using inl [OF l] by blast
    have "?f (pg w) = (Inl x, pg w1) \<or> (\<exists>s. x = ConnErr (Plain s))"
      using pg_exec_error [of ?f w x w1] call q by simp
    then show ?thesis using e by (auto simp: insert_product_sql_def split: if_splits)
  qed
  show "case product_of_video (pc_video_id i) (pg w) of
         None \<Rightarrow> r = Inr (new_product i fresh now) | Some _ \<Rightarrow> r = Inl ErrVideoAlreadyTaken"
    if "pgnet w = []" and "0 \<le> pc_price_cents i" and "video_exists (pc_video_id i) (pg w)"
      and "product_row fresh (pg w) = None"
    using assms that
    by (auto simp: pg_create_product_def pg_exec_up insert_product_sql_def split: option.splits)
qed

section \<open>The caches of products\<close>

definition product_caches_true ::
  "('s, 'z) redis_scheme \<Rightarrow> ('s \<Rightarrow> keyspace) \<Rightarrow> product codec \<Rightarrow> 's world \<Rightarrow> bool"
where
  "product_caches_true R ks C w \<longleftrightarrow>
     (\<forall>i. is_str (ks (srv w) (product_cache_key (uuid_str R i)))
        \<and> is_str (ks (srv w) (product_by_video_cache_key (uuid_str R i))))
     \<and> (\<forall>i p. cache_held C product_cache_key (ks (srv w)) (uuid_str R i) = Some p \<longrightarrow>
          product_row i (pg w) = Some p)
     \<and> (\<forall>v p. cache_held C product_by_video_cache_key (ks (srv w)) (uuid_str R v) = Some p \<longrightarrow>
          product_of_video v (pg w) = Some p)"

context uuid_lib
begin

lemma resource_keys_differ [simp]:
  "product_cache_key (uuid_str L i) \<noteq> video_cache_key (uuid_str L j)"
  "video_cache_key (uuid_str L j) \<noteq> product_cache_key (uuid_str L i)"
  "product_by_video_cache_key (uuid_str L i) \<noteq> video_cache_key (uuid_str L j)"
  "video_cache_key (uuid_str L j) \<noteq> product_by_video_cache_key (uuid_str L i)"
  "product_cache_key s \<noteq> product_by_video_cache_key s'"
  "product_by_video_cache_key s' \<noteq> product_cache_key s"
  "bloom_key_product_videos \<noteq> product_cache_key s"
  "bloom_key_product_videos \<noteq> product_by_video_cache_key s"
  "bloom_key_product_videos \<noteq> video_cache_key s"
  "product_cache_key s \<noteq> bloom_key_product_videos"
  "product_by_video_cache_key s \<noteq> bloom_key_product_videos"
  "video_cache_key s \<noteq> bloom_key_product_videos"
  "product_by_video_cache_key s = product_by_video_cache_key s' \<longleftrightarrow> s = s'"
  "product_cache_key s = product_cache_key s' \<longleftrightarrow> s = s'"
  using str_append_inj [of i "'':product''" j "[]"] str_append_inj [of j "[]" i "'':product''"]
  by (simp_all add: product_cache_key_def product_by_video_cache_key_def video_cache_key_def
      bloom_key_product_videos_def del: str_append_inj)

end

lemma product_caches_frame:
  assumes "product_caches_true R ks C w" and "products (pg w') = products (pg w)"
    and "\<And>i. ks (srv w') (product_cache_key (uuid_str R i)) = ks (srv w) (product_cache_key (uuid_str R i))"
    and "\<And>i. ks (srv w') (product_by_video_cache_key (uuid_str R i)) = ks (srv w) (product_by_video_cache_key (uuid_str R i))"
  shows "product_caches_true R ks C w'"
  using assms
  by (simp add: product_caches_true_def cache_held_def product_row_def product_of_video_def)

lemma video_cache_frame:
  assumes "video_cache_true R ks C w" and "videos (pg w') = videos (pg w)"
    and "\<And>i. ks (srv w') (video_cache_key (uuid_str R i)) = ks (srv w) (video_cache_key (uuid_str R i))"
  shows "video_cache_true R ks C w'"
  using assms by (simp add: video_cache_true_def cache_held_def video_row_def)

locale product_writes = video_reads R ks C fits arrange dur_ttl hook + pcodec: json_codec Cp pfits
  for R :: "('s, 'z) redis_scheme" and ks and C :: "video codec" and fits and arrange and dur_ttl and hook
    and Cp :: "product codec" and pfits

sublocale product_writes \<subseteq> by_id: json_cache R ks Cp pfits product_cache_key resource_cache_ttl "range (uuid_str R)"
  by unfold_locales (auto simp: inj_on_def)

sublocale product_writes \<subseteq> by_video: json_cache R ks Cp pfits product_by_video_cache_key resource_cache_ttl "range (uuid_str R)"
  by unfold_locales (auto simp: inj_on_def)

sublocale product_writes \<subseteq> taken: bloom_key R ks bloom_key_product_videos
  by unfold_locales

context product_writes
begin

definition product_inv :: "'s world \<Rightarrow> bool" where
  "product_inv w \<longleftrightarrow> owner_ready w \<and> product_caches_true R ks Cp w \<and> taken.bloom_ready w"

lemma product_inv_frame:
  assumes "product_inv w" and "pg w' = pg w"
    and "\<And>i. ks (srv w') (product_cache_key (uuid_str R i)) = ks (srv w) (product_cache_key (uuid_str R i))"
    and "\<And>i. ks (srv w') (product_by_video_cache_key (uuid_str R i)) = ks (srv w) (product_by_video_cache_key (uuid_str R i))"
    and "\<And>i. ks (srv w') (video_cache_key (uuid_str R i)) = ks (srv w) (video_cache_key (uuid_str R i))"
    and "taken.bloom_ready w'"
  shows "product_inv w'"
  using assms product_caches_frame [of R ks Cp w w'] video_cache_frame [of R ks C w w']
  by (simp add: product_inv_def owner_ready_def)

abbreviation psvc where
  "psvc b \<equiv> app_product_service R Cp (app_video_service R C arrange dur_ttl hook) b"

lemma owner_step:
  assumes "product_inv w" and "pd_assert_owner (psvc b) vid uid w = (r, w')"
  shows "product_inv w' \<and> pg w' = pg w \<and> (pgnet w = [] \<longrightarrow> pgnet w' = [])
    \<and> (r = Inr () \<longrightarrow> owner_answer vid uid (pg w) = Inr ())
    \<and> (pgnet w = [] \<longrightarrow> r = owner_answer vid uid (pg w))
    \<and> (\<forall>e. r = Inl e \<longrightarrow> \<not> errors_is e ErrVideoAlreadyTaken \<and> as_product_validation e = None)"
proof -
  have rdy: "owner_ready w" using assms(1) by (simp add: product_inv_def)
  have call: "assert_owner R svc vid uid w = (r, w')" using assms(2) by (simp add: app_product_service_def)
  note s = assert_owner_sound [OF rdy call]
  then have fr: "key_frame ks (video_cache_key (uuid_str R vid)) w w'" and rdy': "owner_ready w'" by blast+
  have other: "k \<noteq> video_cache_key (uuid_str R vid) \<Longrightarrow> ks (srv w') k = ks (srv w) k" for k
    using fr by (simp add: key_frame_def)
  have "product_caches_true R ks Cp w'"
    using assms(1) fr by (intro product_caches_frame [of R ks Cp w w'])
      (simp_all add: product_inv_def key_frame_def other)
  moreover have "taken.bloom_ready w'"
    using assms(1) by (simp add: product_inv_def taken.bloom_ready_def other)
  moreover have "pgnet w = [] \<longrightarrow> pgnet w' = []" using fr by (simp add: key_frame_def)
  ultimately show ?thesis using s rdy' by (simp add: product_inv_def)
qed

lemma taken_step:
  assumes "product_inv w" and "video_maybe_taken (psvc b) x w = (dup, w')"
  shows "product_inv w' \<and> pg w' = pg w \<and> (pgnet w = [] \<longrightarrow> pgnet w' = [])"
proof (cases b)
  case False
  with assms show ?thesis by (simp add: video_maybe_taken_def app_product_service_def)
next
  case True
  obtain q w1 where call: "bf_may_contain R bloom_key_product_videos x w = (q, w1)" by (metis surj_pair)
  have w': "w' = w1"
    using assms(2) True call
    by (cases q) (simp_all add: video_maybe_taken_def app_product_service_def redis_bloom_def)
  have s: "taken.bloom_ready w1" "only_key ks bloom_key_product_videos w w1"
    using taken.bf_exists_sound [OF _ call] assms(1) by (simp_all add: product_inv_def)
  have "product_inv w1"
    using s by (intro product_inv_frame [OF assms(1)]) (simp_all add: only_key_def stores_same_def)
  then show ?thesis using s(2) unfolding w' by (simp add: only_key_def stores_same_def)
qed

lemma record_step:
  assumes "product_inv w"
  shows "product_inv (record_video (psvc b) x w) \<and> pg (record_video (psvc b) x w) = pg w"
proof (cases b)
  case False
  with assms show ?thesis by (simp add: record_video_def app_product_service_def)
next
  case True
  obtain q w1 where call: "bf_add R bloom_key_product_videos x w = (q, w1)" by (metis surj_pair)
  have w': "record_video (psvc b) x w = w1"
    using True call by (simp add: record_video_def app_product_service_def redis_bloom_def)
  have s: "taken.bloom_ready w1" "only_key ks bloom_key_product_videos w w1"
    using taken.bf_add_sound [OF _ call] assms by (simp_all add: product_inv_def)
  have "product_inv w1"
    using s by (intro product_inv_frame [OF assms]) (simp_all add: only_key_def stores_same_def)
  then show ?thesis using s(2) unfolding w' by (simp add: only_key_def stores_same_def)
qed

lemma insert_step:
  assumes "product_inv w" and "insert_product_sql i fresh now (pg w) = (Inr p, pg w')" and "srv w' = srv w"
  shows "product_inv w'"
proof -
  note k = insert_product_sql_Inr [OF assms(2)] and a = add_product_keeps(2,3) [OF assms(2)]
  have "video_cache_true R ks C w'"
    using assms(1,3) k(2) by (intro video_cache_frame [of R ks C w w'])
      (simp_all add: product_inv_def owner_ready_def add_product_def)
  moreover have "videos (pg w') = videos (pg w)" using k(2) by (simp add: add_product_def)
  moreover have "product_row j (pg w') = Some u" if "product_row j (pg w) = Some u" for j u
    using that a(1) k(3) by auto
  moreover have "product_of_video v (pg w') = Some u" if "product_of_video v (pg w) = Some u" for v u
    using that a(2) k(4) by auto
  ultimately show ?thesis
    using assms(1,3) by (simp add: product_inv_def owner_ready_def product_caches_true_def taken.bloom_ready_def)
qed

end

context product_writes
begin

lemma set_by_id_step:
  assumes "product_inv w" and "pfits p" and "product_row j (pg w) = Some p"
    and "json_set R Cp product_cache_key resource_cache_ttl (uuid_str R j) p w = (q, w')"
  shows "product_inv w' \<and> pg w' = pg w"
proof -
  let ?k = "product_cache_key (uuid_str R j)"
  have rdy: "by_id.cache_ready w" using assms(1) by (auto simp: by_id.cache_ready_def product_inv_def product_caches_true_def)
  note s = by_id.json_set_held [OF rdy rangeI assms(2,4)]
  have fr: "key_frame ks ?k w w'" using s by blast
  have pg: "pg w' = pg w" and other: "k \<noteq> ?k \<Longrightarrow> ks (srv w') k = ks (srv w) k" for k
    using fr by (simp_all add: key_frame_def)
  have "is_str (ks (srv w') (product_cache_key (uuid_str R i)))" for i
    using s by (auto simp: by_id.cache_ready_def)
  moreover have "product_row i (pg w') = Some u"
    if "cache_held Cp product_cache_key (ks (srv w')) (uuid_str R i) = Some u" for i u
  proof -
    from that s have "cache_held Cp product_cache_key (ks (srv w)) (uuid_str R i) = Some u \<or> (i = j \<and> u = p)" by auto
    then show ?thesis using assms(1,3) pg by (auto simp: product_inv_def product_caches_true_def)
  qed
  moreover have "cache_held Cp product_by_video_cache_key (ks (srv w')) (uuid_str R v) =
      cache_held Cp product_by_video_cache_key (ks (srv w)) (uuid_str R v)" for v
    by (simp add: cache_held_def other)
  ultimately have "product_caches_true R ks Cp w'"
    using assms(1) pg by (simp add: product_caches_true_def product_inv_def other)
  moreover have "video_cache_true R ks C w'"
    using assms(1) pg by (intro video_cache_frame [of R ks C w w']) (simp_all add: product_inv_def owner_ready_def other)
  ultimately show ?thesis
    using assms(1) pg by (simp add: product_inv_def owner_ready_def taken.bloom_ready_def other)
qed

lemma set_by_video_step:
  assumes "product_inv w" and "pfits p" and "product_of_video v (pg w) = Some p"
    and "json_set R Cp product_by_video_cache_key resource_cache_ttl (uuid_str R v) p w = (q, w')"
  shows "product_inv w' \<and> pg w' = pg w"
proof -
  let ?k = "product_by_video_cache_key (uuid_str R v)"
  have rdy: "by_video.cache_ready w"
    using assms(1) by (auto simp: by_video.cache_ready_def product_inv_def product_caches_true_def)
  note s = by_video.json_set_held [OF rdy rangeI assms(2,4)]
  have fr: "key_frame ks ?k w w'" using s by blast
  have pg: "pg w' = pg w" and other: "k \<noteq> ?k \<Longrightarrow> ks (srv w') k = ks (srv w) k" for k
    using fr by (simp_all add: key_frame_def)
  have "is_str (ks (srv w') (product_by_video_cache_key (uuid_str R i)))" for i
    using s by (auto simp: by_video.cache_ready_def)
  moreover have "product_of_video i (pg w') = Some u"
    if "cache_held Cp product_by_video_cache_key (ks (srv w')) (uuid_str R i) = Some u" for i u
  proof -
    from that s have "cache_held Cp product_by_video_cache_key (ks (srv w)) (uuid_str R i) = Some u \<or> (i = v \<and> u = p)" by auto
    then show ?thesis using assms(1,3) pg by (auto simp: product_inv_def product_caches_true_def)
  qed
  moreover have "cache_held Cp product_cache_key (ks (srv w')) (uuid_str R i) =
      cache_held Cp product_cache_key (ks (srv w)) (uuid_str R i)" for i
    by (simp add: cache_held_def other)
  ultimately have "product_caches_true R ks Cp w'"
    using assms(1) pg by (simp add: product_caches_true_def product_inv_def other)
  moreover have "video_cache_true R ks C w'"
    using assms(1) pg by (intro video_cache_frame [of R ks C w w']) (simp_all add: product_inv_def owner_ready_def other)
  ultimately show ?thesis
    using assms(1) pg by (simp add: product_inv_def owner_ready_def taken.bloom_ready_def other)
qed

text \<open>Every run of \<open>Create\<close>, by the step that decides it.\<close>

lemma product_create_runs:
  assumes "product_inv w" and "pfits (new_product i fresh now)"
    and "product_create url_parse R (psvc b) uid i fresh now w = (r, w')"
  defines "vid \<equiv> pc_video_id i"
  obtains (invalid) e where "validate_product url_parse i = Some e" and "r = Inl e" and "w' = w"
  | (refused) e where "validate_product url_parse i = None" and "r = Inl e" and "pg w' = pg w"
      and "product_inv w'" and "pgnet w = [] \<Longrightarrow> Inl e = owner_answer vid uid (pg w)"
      and "as_product_validation e = None" and "\<not> errors_is e ErrVideoAlreadyTaken"
  | (filtered) "validate_product url_parse i = None" and "r = Inl ErrVideoAlreadyTaken" and "pg w' = pg w"
      and "product_inv w'" and "owner_answer vid uid (pg w) = Inr ()"
  | (failed) e and w1 w2 :: "'s world" where "validate_product url_parse i = None" and "r = Inl e"
      and "owner_answer vid uid (pg w) = Inr ()" and "pg w1 = pg w" and "pg w' = pg w2"
      and "pgnet w = [] \<Longrightarrow> pgnet w1 = []"
      and "pg_create_product i fresh now w1 = (Inl e, w2)" and "product_inv w'"
  | (created) p and w1 w2 :: "'s world" where "validate_product url_parse i = None" and "r = Inr p"
      and "owner_answer vid uid (pg w) = Inr ()" and "pg w1 = pg w" and "pg w' = pg w2"
      and "pg_create_product i fresh now w1 = (Inr p, w2)" and "product_inv w'"
proof (cases "validate_product url_parse i")
  case (Some e)
  then show ?thesis using assms(3) [symmetric] by (intro invalid) (simp_all add: product_create_def)
next
  case None
  obtain a wa where a: "pd_assert_owner (psvc b) vid uid w = (a, wa)" by (metis surj_pair)
  note o = owner_step [OF assms(1) a]
  show ?thesis
  proof (cases a)
    case (Inl e)
    have "r = Inl e" "w' = wa" using assms(3) [symmetric] None a Inl by (simp_all add: product_create_def vid_def)
    then show ?thesis using None o Inl by (intro refused) auto
  next
    case (Inr u)
    obtain dup wb where m: "video_maybe_taken (psvc b) (uuid_str R vid) wa = (dup, wb)" by (metis surj_pair)
    have inva: "product_inv wa" and ans: "owner_answer vid uid (pg w) = Inr ()" using o Inr by simp_all
    note t = taken_step [OF inva m]
    show ?thesis
    proof (cases dup)
      case True
      have "r = Inl ErrVideoAlreadyTaken" "w' = wb"
        using assms(3) [symmetric] None a Inr m True by (simp_all add: product_create_def vid_def)
      then show ?thesis using None t o ans by (intro filtered) simp_all
    next
      case False
      obtain c wc where c: "pg_create_product i fresh now wb = (c, wc)" by (metis surj_pair)
      note cc = pg_create_product_cases [OF c]
      have pgb: "pg wb = pg w" and upb: "pgnet w = [] \<Longrightarrow> pgnet wb = []" using t o by simp_all
      have invc: "product_inv wc" if "pg wc = pg wb \<or> (\<exists>p. insert_product_sql i fresh now (pg wb) = (Inr p, pg wc))"
        using that
      proof
        assume "pg wc = pg wb"
        then show ?thesis using t cc(1)
          by (intro product_inv_frame [of wb wc]) (simp_all add: product_inv_def taken.bloom_ready_def)
      next
        assume "\<exists>p. insert_product_sql i fresh now (pg wb) = (Inr p, pg wc)"
        then show ?thesis using insert_step [of wb i fresh now _ wc] t cc(1) by blast
      qed
      show ?thesis
      proof (cases c)
        case (Inl e)
        let ?w' = "if errors_is e ErrVideoAlreadyTaken then record_video (psvc b) (uuid_str R vid) wc else wc"
        have rw: "r = Inl e" "w' = ?w'"
          using assms(3) [symmetric] None a Inr m False c Inl
          by (simp_all add: product_create_def vid_def app_product_service_def [of R Cp] pg_product_repo_def)
        have "product_inv wc" using invc cc(3) [OF Inl] by blast
        then have "product_inv w'" "pg w' = pg wc" using record_step [of wc b "uuid_str R vid"] unfolding rw(2) by auto
        then show ?thesis using None ans pgb upb c Inl rw(1) by (intro failed [of e wb wc]) simp_all
      next
        case (Inr p)
        note ins = cc(2) [OF Inr]
        note k = insert_product_sql_Inr [OF ins] and ak = add_product_keeps [OF ins]
        have ids: "p_id p = fresh" "p_video_id p = vid" using k(1) by (simp_all add: new_product_def vid_def)
        define wd where "wd = record_video (psvc b) (uuid_str R vid) wc"
        define we where "we = snd (json_set R Cp product_cache_key resource_cache_ttl (uuid_str R fresh) p wd)"
        define wf where "wf = snd (json_set R Cp product_by_video_cache_key resource_cache_ttl (uuid_str R vid) p we)"
        have rw: "r = Inr p" "w' = wf"
          using assms(3) [symmetric] None a \<open>a = Inr u\<close> m False c Inr
          by (simp_all add: product_create_def vid_def app_product_service_def [of R Cp] pg_product_repo_def
              json_cache_ops_def Let_def wd_def we_def wf_def ids [unfolded vid_def])
        have "product_inv wc" using invc ins by blast
        then have d: "product_inv wd" "pg wd = pg wc" using record_step [of wc b "uuid_str R vid"] by (simp_all add: wd_def)
        have pf: "pfits p" using assms(2) k(1) by simp
        have rowd: "product_row fresh (pg wd) = Some p" "product_of_video vid (pg wd) = Some p"
          using ak(2,3) d(2) by (simp_all add: vid_def)
        have e: "product_inv we \<and> pg we = pg wd"
          unfolding we_def by (rule set_by_id_step [OF d(1) pf rowd(1) prod.collapse [symmetric]])
        have f: "product_inv wf \<and> pg wf = pg we"
          unfolding wf_def using e rowd(2)
          by (intro set_by_video_step [OF _ pf _ prod.collapse [symmetric]]) simp_all
        show ?thesis using None ans pgb c Inr rw d e f by (intro created [of p wb wc]) simp_all
      qed
    qed
  qed
qed

end

section \<open>Reading a product\<close>

lemma select_product_cases:
  assumes "select_product row prefix w = (r, w')"
  shows "pg w' = pg w" and "srv w' = srv w \<and> net w' = net w \<and> ch w' = ch w \<and> chnet w' = chnet w"
    and "r = Inr p \<Longrightarrow> row (pg w) = Some p"
    and "r = Inl e \<Longrightarrow> errors_is e ErrProductNotFound \<Longrightarrow> row (pg w) = None"
    and "pgnet w = [] \<longrightarrow> pgnet w' = [] \<and>
      r = (case row (pg w) of None \<Rightarrow> Inl ErrProductNotFound | Some p \<Rightarrow> Inr p)"
proof -
  let ?f = "reading (\<lambda>d. case row d of None \<Rightarrow> Inl NoRows | Some p \<Rightarrow> Inr p)"
  obtain q w1 where call: "pg_exec ?f w = (q, w1)" by (metis surj_pair)
  have w': "w' = w1" and r: "r = (case q of Inl NoRows \<Rightarrow> Inl ErrProductNotFound
      | Inl e \<Rightarrow> Inl (Wrapped prefix (pg_goerr e)) | Inr p \<Rightarrow> Inr p)"
    using assms call by (auto simp: select_product_def split: sum.splits pgerr.splits)
  show "pg w' = pg w" using pg_exec_read [OF call] unfolding w' by simp
  show "srv w' = srv w \<and> net w' = net w \<and> ch w' = ch w \<and> chnet w' = chnet w"
    using call pg_exec_frame [of ?f w] unfolding w' by simp
  show "row (pg w) = Some p" if "r = Inr p"
    using pg_exec_read [OF call] that unfolding r by (auto split: sum.splits pgerr.splits option.splits)
  show "row (pg w) = None" if e: "r = Inl e" and nf: "errors_is e ErrProductNotFound"
  proof -
    obtain x where x: "q = Inl x" using e unfolding r by (cases q) auto
    have "?f (pg w) = (Inl x, pg w1) \<or> (\<exists>s. x = ConnErr (Plain s))" using pg_exec_error [of ?f w x w1] call x by simp
    then show ?thesis using e nf x unfolding r by (auto split: option.splits)
  qed
  show "pgnet w = [] \<longrightarrow> pgnet w' = [] \<and> r = (case row (pg w) of None \<Rightarrow> Inl ErrProductNotFound | Some p \<Rightarrow> Inr p)"
    using pg_exec_net [OF call] unfolding w' r by (auto split: option.splits sum.splits pgerr.splits)
qed

text \<open>The table behind each cache, keyed by the text of the id.\<close>

definition product_rows :: "'z libs_scheme \<Rightarrow> (uuid \<Rightarrow> product option) \<Rightarrow> string \<Rightarrow> product option" where
  "product_rows L row s = Option.bind (uuid_parse L s) row"

lemma select_product_load:
  assumes "\<And>p. row i (pg w) = Some p \<Longrightarrow> fits p \<and> key_of p = s" and "product_rows L (\<lambda>i. row i (pg w)) s = row i (pg w)"
    and "pg w1 = pg w" and "select_product (row i) prefix w1 = (q, w2)"
  shows "pg w2 = pg w1 \<and> srv w2 = srv w1 \<and> net w2 = net w1 \<and> ch w2 = ch w1 \<and> chnet w2 = chnet w1
       \<and> (pgnet w1 = [] \<longrightarrow> pgnet w2 = [] \<and> q = (case product_rows L (\<lambda>i. row i (pg w)) s of
            None \<Rightarrow> Inl ErrProductNotFound | Some v \<Rightarrow> Inr v))
       \<and> (\<forall>v. q = Inr v \<longrightarrow> product_rows L (\<lambda>i. row i (pg w)) s = Some v \<and> fits v \<and> key_of v = s)
       \<and> (\<forall>e. q = Inl e \<longrightarrow> errors_is e ErrProductNotFound \<longrightarrow> row i (pg w) = None)"
proof -
  note c = select_product_cases [OF assms(4)]
  have inr: "product_rows L (\<lambda>i. row i (pg w)) s = Some v \<and> fits v \<and> key_of v = s" if "q = Inr v" for v
    using c(3) [OF that] assms(1) [of v] unfolding assms(2,3) by simp
  have inl: "errors_is e ErrProductNotFound \<longrightarrow> row i (pg w) = None" if "q = Inl e" for e
    using c(4) [OF that] unfolding assms(3) by simp
  have up: "pgnet w1 = [] \<longrightarrow> pgnet w2 = [] \<and> q = (case product_rows L (\<lambda>i. row i (pg w)) s of
            None \<Rightarrow> Inl ErrProductNotFound | Some v \<Rightarrow> Inr v)"
    using c(5) unfolding assms(2) unfolding assms(3) .
  show ?thesis using c(1,2) up inr inl by (intro conjI allI impI) iprover+
qed

context product_writes
begin

lemma product_caches_true_iff:
  "product_caches_true R ks Cp w \<longleftrightarrow>
     by_id.cache_ready w \<and> by_id.held.truthful (product_rows R (\<lambda>i. product_row i (pg w))) w
     \<and> by_video.cache_ready w \<and> by_video.held.truthful (product_rows R (\<lambda>i. product_of_video i (pg w))) w"
  by (auto simp: product_caches_true_def by_id.cache_ready_def by_video.cache_ready_def by_id.held.truthful_def
      by_video.held.truthful_def product_rows_def parse_str)

lemma product_get_by_id_answers:
  assumes "product_caches_true R ks Cp w" and "\<forall>p \<in> set (products (pg w)). pfits p"
    and "product_get_by_id R (psvc b) i w = (r, w')" and up: "pgnet w = []"
  shows "r = (case product_row i (pg w) of None \<Rightarrow> Inl ErrProductNotFound | Some p \<Rightarrow> Inr p)
    \<and> key_frame ks (product_cache_key (uuid_str R i)) w w' \<and> product_caches_true R ks Cp w'"
proof -
  let ?s = "uuid_str R i" and ?rows = "product_rows R (\<lambda>i. product_row i (pg w))"
  have rows: "?rows ?s = product_row i (pg w)" by (simp add: product_rows_def parse_str)
  have pre: "by_id.cache_ready w" "by_id.held.truthful ?rows w" and mem: "?s \<in> range (uuid_str R)"
    using assms(1) by (simp_all add: product_caches_true_iff)
  have fit: "pfits p \<and> uuid_str R (p_id p) = ?s" if "product_row i (pg w) = Some p" for p
    using find_row [OF that [unfolded product_row_def]] assms(2) by simp
  have call: "read_through (Some (json_cache_ops R Cp product_cache_key resource_cache_ttl)) ?s
      (select_product (product_row i) ''select product'') (\<lambda>p. uuid_str R (p_id p)) w = (r, w')"
    using assms(3) by (simp add: product_get_by_id_def app_product_service_def pg_product_repo_def pg_find_product_def)
  note ld = select_product_load [where row = product_row and i = i and w = w and L = R and fits = pfits
      and key_of = "\<lambda>p. uuid_str R (p_id p)" and s = ?s, OF fit rows]
  have m: "by_id.cache_ready w' \<and> key_frame ks (product_cache_key ?s) w w' \<and> by_id.held.truthful ?rows w'
      \<and> (\<forall>p. r = Inr p \<longrightarrow> ?rows ?s = Some p)
      \<and> (\<forall>e. r = Inl e \<longrightarrow> errors_is e ErrProductNotFound \<longrightarrow> product_row i (pg w) = None)
      \<and> (pgnet w = [] \<longrightarrow> r = (case ?rows ?s of None \<Rightarrow> Inl ErrProductNotFound | Some p \<Rightarrow> Inr p))"
    by (rule by_id.read_row_exact [OF pre mem ld call])
  have fr: "key_frame ks (product_cache_key ?s) w w'" and tr: "by_id.cache_ready w'" "by_id.held.truthful ?rows w'"
    using m by blast+
  have pg: "pg w' = pg w" and other: "k \<noteq> product_cache_key ?s \<Longrightarrow> ks (srv w') k = ks (srv w) k" for k
    using fr by (simp_all add: key_frame_def)
  have "by_video.cache_ready w' \<and> by_video.held.truthful (product_rows R (\<lambda>i. product_of_video i (pg w))) w'"
    using assms(1) unfolding product_caches_true_iff
    by (auto simp: by_video.cache_ready_def by_video.held.truthful_def cache_held_def other)
  then have "product_caches_true R ks Cp w'" using tr pg by (simp add: product_caches_true_iff)
  moreover have "r = (case product_row i (pg w) of None \<Rightarrow> Inl ErrProductNotFound | Some p \<Rightarrow> Inr p)"
    using m up unfolding rows by blast
  ultimately show ?thesis using fr by blast
qed

lemma product_get_by_video_answers:
  assumes "product_caches_true R ks Cp w" and "\<forall>p \<in> set (products (pg w)). pfits p"
    and "product_get_by_video R (psvc b) v w = (r, w')" and up: "pgnet w = []"
  shows "r = (case product_of_video v (pg w) of None \<Rightarrow> Inl ErrProductNotFound | Some p \<Rightarrow> Inr p)
    \<and> key_frame ks (product_by_video_cache_key (uuid_str R v)) w w' \<and> product_caches_true R ks Cp w'"
proof -
  let ?s = "uuid_str R v" and ?rows = "product_rows R (\<lambda>i. product_of_video i (pg w))"
  have rows: "?rows ?s = product_of_video v (pg w)" by (simp add: product_rows_def parse_str)
  have pre: "by_video.cache_ready w" "by_video.held.truthful ?rows w" and mem: "?s \<in> range (uuid_str R)"
    using assms(1) by (simp_all add: product_caches_true_iff)
  have fit: "pfits p \<and> ?s = ?s" if "product_of_video v (pg w) = Some p" for p
    using find_row [OF that [unfolded product_of_video_def]] assms(2) by simp
  have call: "read_through (Some (json_cache_ops R Cp product_by_video_cache_key resource_cache_ttl)) ?s
      (select_product (product_of_video v) ''select product by video'') (\<lambda>_. ?s) w = (r, w')"
    using assms(3)
    by (simp add: product_get_by_video_def app_product_service_def pg_product_repo_def pg_find_product_by_video_def)
  note ld = select_product_load [where row = product_of_video and i = v and w = w and L = R and fits = pfits
      and key_of = "\<lambda>_. ?s" and s = ?s, OF fit rows]
  have m: "by_video.cache_ready w' \<and> key_frame ks (product_by_video_cache_key ?s) w w' \<and> by_video.held.truthful ?rows w'
      \<and> (\<forall>p. r = Inr p \<longrightarrow> ?rows ?s = Some p)
      \<and> (\<forall>e. r = Inl e \<longrightarrow> errors_is e ErrProductNotFound \<longrightarrow> product_of_video v (pg w) = None)
      \<and> (pgnet w = [] \<longrightarrow> r = (case ?rows ?s of None \<Rightarrow> Inl ErrProductNotFound | Some p \<Rightarrow> Inr p))"
    by (rule by_video.read_row_exact [OF pre mem ld call])
  have fr: "key_frame ks (product_by_video_cache_key ?s) w w'"
    and tr: "by_video.cache_ready w'" "by_video.held.truthful ?rows w'" using m by blast+
  have pg: "pg w' = pg w" and other: "k \<noteq> product_by_video_cache_key ?s \<Longrightarrow> ks (srv w') k = ks (srv w) k" for k
    using fr by (simp_all add: key_frame_def)
  have "by_id.cache_ready w' \<and> by_id.held.truthful (product_rows R (\<lambda>i. product_row i (pg w))) w'"
    using assms(1) unfolding product_caches_true_iff
    by (auto simp: by_id.cache_ready_def by_id.held.truthful_def cache_held_def other)
  then have "product_caches_true R ks Cp w'" using tr pg by (simp add: product_caches_true_iff)
  moreover have "r = (case product_of_video v (pg w) of None \<Rightarrow> Inl ErrProductNotFound | Some p \<Rightarrow> Inr p)"
    using m up unfolding rows by blast
  ultimately show ?thesis using fr by blast
qed

end

interpretation ref_product_writes: product_writes ref_redis "\<lambda>m. m" ref_video_codec "\<lambda>_. True" "\<lambda>vs. vs" dur_ttl None
    ref_product_codec "\<lambda>_. True" for dur_ttl
  by unfold_locales

section \<open>Properties\<close>

text \<open>The response to each outcome of \<open>Create\<close>.\<close>

definition product_response :: "product result \<Rightarrow> product response" where
  "product_response r = (case r of Inr p \<Rightarrow> httpx_created p | Inl e \<Rightarrow>
     (case as_product_validation e of
        Some msg \<Rightarrow> httpx_error 400 ''validation_failed'' msg
      | None \<Rightarrow>
          if errors_is e ErrVideoNotFound then httpx_error 404 ''not_found'' ''video not found''
          else if errors_is e ErrForbidden
          then httpx_error 403 ''forbidden'' ''you do not own the linked video''
          else if errors_is e ErrVideoAlreadyTaken
          then httpx_error 409 ''conflict'' ''a product already exists for this video''
          else httpx_error 500 ''internal_error'' ''create product failed''))"

lemma create_product_response:
  assumes "handle_create_product url_parse R svc uid (Inr i) fresh now w = (resp, w')"
  obtains r where "product_create url_parse R svc uid i fresh now w = (r, w')" and "resp = product_response r"
proof -
  obtain r w1 where "product_create url_parse R svc uid i fresh now w = (r, w1)" by (metis surj_pair)
  then show ?thesis
    using assms by (intro that [of r]) (cases r; simp add: handle_create_product_def product_response_def)+
qed

lemma product_response_status:
  "status (product_response (Inl e)) \<noteq> 201" "status (product_response (Inr p)) = 201"
  "status (product_response (Inl ErrVideoNotFound)) = 404" "status (product_response (Inl ErrForbidden)) = 403"
  "status (product_response (Inl ErrVideoAlreadyTaken)) = 409"
  "as_product_validation e = Some m \<Longrightarrow> product_response (Inl e) = httpx_error 400 ''validation_failed'' m"
  by (auto simp: product_response_def httpx_error_def httpx_created_def split: option.split)

context product_writes
begin

text \<open>What is in the table afterwards.\<close>

lemma product_create_table:
  assumes "product_inv w" and "pfits (new_product i fresh now)"
    and "product_create url_parse R (psvc b) uid i fresh now w = (r, w')"
  defines "made \<equiv> pg w' = add_product (new_product i fresh now) (pg w) \<and> validate_product url_parse i = None
    \<and> owner_answer (pc_video_id i) uid (pg w) = Inr () \<and> product_of_video (pc_video_id i) (pg w) = None"
  shows "(pg w' = pg w \<or> made) \<and> (\<forall>p. r = Inr p \<longrightarrow> made) \<and> (products_keyed (pg w) \<longrightarrow> products_keyed (pg w'))
    \<and> (w' = w \<or> product_inv w')"
proof -
  have inserted: "made \<and> (products_keyed (pg w) \<longrightarrow> products_keyed (pg w'))"
    if "insert_product_sql i fresh now (pg w) = (Inr p, pg w')" and "validate_product url_parse i = None"
      and "owner_answer (pc_video_id i) uid (pg w) = Inr ()" for p
    using insert_product_sql_Inr [OF that(1)] add_product_keeps(1) [OF that(1)] that(2,3) by (simp add: made_def)
  from assms(1-3) show ?thesis
  proof (cases rule: product_create_runs)
    case (failed e w1 w2)
    then show ?thesis using pg_create_product_cases(3) [OF failed(7) refl] inserted by auto
  next
    case (created p w1 w2)
    then show ?thesis using pg_create_product_cases(2) [OF created(6) refl] inserted by auto
  qed simp_all
qed

text \<open>What is answered when Postgres can be reached.\<close>

lemma product_create_answer:
  assumes "product_inv w" and "pfits (new_product i fresh now)"
    and "product_create url_parse R (psvc b) uid i fresh now w = (r, w')"
    and "pgnet w = []" and "product_row fresh (pg w) = None"
  shows "case validate_product url_parse i of
      Some e \<Rightarrow> r = Inl e \<and> pg w' = pg w
    | None \<Rightarrow> (case owner_answer (pc_video_id i) uid (pg w) of
        Inl e \<Rightarrow> r = Inl e
      | Inr _ \<Rightarrow> (if product_of_video (pc_video_id i) (pg w) \<noteq> None then r = Inl ErrVideoAlreadyTaken
          else (\<exists>p. r = Inr p) \<or> (r = Inl ErrVideoAlreadyTaken \<and> pg w' = pg w)))"
  using assms(1-3)
proof (cases rule: product_create_runs)
  case (failed e w1 w2)
  have price: "0 \<le> pc_price_cents i" using failed(1) by (simp add: validate_product_def split: if_splits)
  have vid: "video_exists (pc_video_id i) (pg w)"
    using failed(3) video_row_id by (force simp: owner_answer_def video_exists_def split: option.splits)
  show ?thesis
    using pg_create_product_cases(5) [OF failed(7) failed(6) [OF assms(4)] price] vid failed assms(5)
    by (auto split: option.splits)
next
  case (created p w1 w2)
  have "insert_product_sql i fresh now (pg w) = (Inr p, pg w')"
    using pg_create_product_cases(2) [OF created(6) refl] created by simp
  from insert_product_sql_Inr [OF this] show ?thesis using created by simp
next
  case (refused e)
  have "owner_answer (pc_video_id i) uid (pg w) = Inl e" using refused(5) [OF assms(4)] by simp
  then show ?thesis using refused by simp
qed simp_all

end

lemma owner_answer_cases: "owner_answer v uid d = Inl e \<Longrightarrow> e = ErrVideoNotFound \<or> e = ErrForbidden"
  by (auto simp: owner_answer_def split: option.splits if_splits)

text \<open>
  C13. Creating a product, whatever the links to Redis and Postgres do: the table is as before, or
  holds one more product with the cleaned fields - and then the input was valid, the video
  exists and is the caller's and had no product. A 201 means the row is there. One product per
  video stays true, and so do the caches of products and of videos. With Postgres reachable the
  status is 400, 404 or 403 exactly for an invalid input, a missing video and someone else's;
  otherwise it is 201 or 409, and 409 when the video has a product.
\<close>

theorem product_creation_is_guarded:
  assumes "redis_server R ks" and "json_codec C fits" and "\<forall>v \<in> set (videos (pg w)). fits v"
    and "json_codec Cp pfits" and "pfits (new_product i fresh now)"
    and "video_cache_true R ks C w" and "product_caches_true R ks Cp w" and "is_bloom (ks (srv w) bloom_key_product_videos)"
    and "handle_create_product url_parse R
       (app_product_service R Cp (app_video_service R C arrange dur_ttl hook) b) uid (Inr i) fresh now w = (resp, w')"
  shows "(let made = pg w' = add_product (new_product i fresh now) (pg w)
        \<and> validate_product url_parse i = None \<and> owner_answer (pc_video_id i) uid (pg w) = Inr ()
        \<and> product_of_video (pc_video_id i) (pg w) = None
      in (pg w' = pg w \<or> made) \<and> (status resp = 201 \<longrightarrow> made))
    \<and> (products_keyed (pg w) \<longrightarrow> products_keyed (pg w'))
    \<and> video_cache_true R ks C w' \<and> product_caches_true R ks Cp w'
    \<and> (pgnet w = [] \<longrightarrow> product_row fresh (pg w) = None \<longrightarrow>
        (case validate_product url_parse i of
           Some e \<Rightarrow> pg w' = pg w \<and> (\<forall>m. as_product_validation e = Some m \<longrightarrow>
             resp = httpx_error 400 ''validation_failed'' m)
         | None \<Rightarrow>
             if owner_answer (pc_video_id i) uid (pg w) = Inl ErrVideoNotFound then status resp = 404
             else if owner_answer (pc_video_id i) uid (pg w) = Inl ErrForbidden then status resp = 403
             else if product_of_video (pc_video_id i) (pg w) \<noteq> None then status resp = 409
             else status resp = 201 \<or> (status resp = 409 \<and> pg w' = pg w)))"
proof -
  have loc: "product_writes R ks C fits Cp pfits"
    using assms(1,2,4) by (simp add: product_writes_def video_reads_def)
  have inv: "product_writes.product_inv R ks C fits Cp w"
    using assms(1,2,3,6-8) loc
    by (simp add: product_writes.product_inv_def video_reads.owner_ready_def bloom_key.bloom_ready_def
        video_reads_def bloom_key_def)
  let ?svc = "app_product_service R Cp (app_video_service R C arrange dur_ttl hook) b"
  obtain r where call: "product_create url_parse R ?svc uid i fresh now w = (r, w')"
    and resp: "resp = product_response r" by (rule create_product_response [OF assms(9)])
  note tab = product_writes.product_create_table [OF loc inv assms(5) call]
  note ans = product_writes.product_create_answer [OF loc inv assms(5) call]
  have caches: "video_cache_true R ks C w' \<and> product_caches_true R ks Cp w'"
    using tab assms(1,2,6,7) by (auto simp: product_writes.product_inv_def [OF loc] video_reads.owner_ready_def video_reads_def)
  have made: "pg w' = add_product (new_product i fresh now) (pg w) \<and> validate_product url_parse i = None
      \<and> owner_answer (pc_video_id i) uid (pg w) = Inr () \<and> product_of_video (pc_video_id i) (pg w) = None"
    if "status resp = 201"
    using tab that by (cases r) (auto simp: resp product_response_status(1))
  have answer: "case validate_product url_parse i of
         Some e \<Rightarrow> pg w' = pg w \<and> (\<forall>m. as_product_validation e = Some m \<longrightarrow>
           resp = httpx_error 400 ''validation_failed'' m)
       | None \<Rightarrow>
           if owner_answer (pc_video_id i) uid (pg w) = Inl ErrVideoNotFound then status resp = 404
           else if owner_answer (pc_video_id i) uid (pg w) = Inl ErrForbidden then status resp = 403
           else if product_of_video (pc_video_id i) (pg w) \<noteq> None then status resp = 409
           else status resp = 201 \<or> (status resp = 409 \<and> pg w' = pg w)"
    if "pgnet w = []" and "product_row fresh (pg w) = None"
    using ans [OF that] owner_answer_cases [of "pc_video_id i" uid "pg w"]
    by (cases "owner_answer (pc_video_id i) uid (pg w)")
      (auto simp: resp product_response_status split: option.splits if_splits)
  show ?thesis unfolding Let_def using made caches tab answer by blast
qed

definition example_product_input :: product_input where
  "example_product_input = \<lparr>pc_video_id = 7, pc_name = ''cup'', pc_price_cents = 900, pc_currency = ''usd'',
     pc_image_url = ''http://h/v''\<rparr>"

lemma example_product_valid: "validate_product example_url_parse example_product_input = None"
  by (simp add: validate_product_def example_product_input_def example_url_parse_def http_url_def trim_space_def
      is_space_def to_upper_def)

theorem product_creation_is_guarded_witness:
  "status (fst (handle_create_product example_url_parse ref_redis
     (app_product_service ref_redis ref_product_codec (app_video_service ref_redis ref_video_codec (\<lambda>vs. vs) 0 None) True)
     2 (Inr example_product_input) 9 0 (example_video_world [Refused]))) = 403"
proof -
  obtain resp w' where h: "handle_create_product example_url_parse ref_redis
     (app_product_service ref_redis ref_product_codec (app_video_service ref_redis ref_video_codec (\<lambda>vs. vs) 0 None) True)
     2 (Inr example_product_input) 9 0 (example_video_world [Refused]) = (resp, w')" by (metis surj_pair)
  have caches: "product_caches_true ref_redis (\<lambda>m. m) ref_product_codec (example_video_world [Refused])"
  proof -
    have "product_cache_key s \<noteq> video_cache_key (ref_uuid_str 7)" for s
      by (simp add: product_cache_key_def video_cache_key_def)
    moreover have "product_by_video_cache_key (ref_uuid_str i) \<noteq> video_cache_key (ref_uuid_str 7)" for i
      using ref_redis.resource_keys_differ(3) [of i 7] by simp
    ultimately show ?thesis by (simp add: product_caches_true_def cache_held_def)
  qed
  have bl: "is_bloom (srv (example_video_world [Refused]) bloom_key_product_videos)"
    by (simp add: bloom_key_product_videos_def video_cache_key_def)
  have own: "owner_answer (pc_video_id example_product_input) 2 (pg (example_video_world [Refused])) = Inl ErrForbidden"
    "product_row 9 (pg (example_video_world [Refused])) = None"
    by (simp_all add: owner_answer_def video_row_def example_product_input_def example_video_def product_row_def
        example_video_world_def new_world_def empty_postgres_def)
  from product_creation_is_guarded [OF ref_redis.redis_server_axioms ref_videos.json_codec_axioms _
      ref_products.json_codec_axioms _ example_video_cache_true caches bl h] own example_product_valid
  show ?thesis by (simp add: h)
qed

end
