(* ===== verification/Tables.thy ===== *)
theory Tables
  imports LikeReconciler FeedPush Stats Auth Product
begin

text \<open>
  Which operations leave the tables of Postgres and ClickHouse alone, whatever the links do: every
  operation but the three that insert a row. Each fact comes twice, for the world a call returns
  as a component of its result and for one named by a case split; the pairs are collected in
  \<open>tabs_snd\<close> and \<open>tabs_res\<close>.
\<close>

named_theorems tabs_snd "the tables after a call"
named_theorems tabs_res "the tables after a call whose result is named"

definition tabs :: "'s world \<Rightarrow> postgres \<times> clickhouse" where
  "tabs w = (pg w, ch w)"

lemma tabs_upd [simp]: "tabs (w\<lparr>srv := s\<rparr>) = tabs w" "tabs (w\<lparr>net := l\<rparr>) = tabs w"
  by (simp_all add: tabs_def)

text \<open>From the one form to the other.\<close>

lemma named: "(\<And>w. tabs (snd (f w)) = tabs w) \<Longrightarrow> f w = (r, w') \<Longrightarrow> tabs w' = tabs w"
  by (metis snd_conv)

section \<open>Single calls\<close>

lemma redis_call_tabs [tabs_snd]: "tabs (snd (redis_call f w)) = tabs w"
  by (simp add: tabs_def redis_call_frame)

lemma pg_call_tabs [tabs_snd]: "tabs (snd (pg_call (reading f) w)) = tabs w"
  using pg_call_read [of f w] by (simp add: tabs_def pg_call_frame) (metis surj_pair snd_conv)

lemma pg_exec_tabs [tabs_snd]: "tabs (snd (pg_exec (reading f) w)) = tabs w"
  using pg_exec_read [of f w] by (simp add: tabs_def pg_exec_frame) (metis surj_pair snd_conv)

lemma ch_call_tabs [tabs_snd]: "tabs (snd (ch_call (reading f) w)) = tabs w"
  using ch_call_read [of f w] by (simp add: tabs_def ch_call_frame) (metis surj_pair snd_conv)

lemmas call_res [tabs_res] = named [OF redis_call_tabs] named [OF pg_call_tabs] named [OF pg_exec_tabs]
  named [OF ch_call_tabs]

lemma bucket_allow_tabs [tabs_snd]: "tabs (snd (bucket_allow R key p cost now w)) = tabs w"
  by (auto simp: bucket_allow_def split: prod.splits sum.splits dest!: tabs_res)

lemmas bucket_res [tabs_res] = named [OF bucket_allow_tabs]

lemma rate_limit_tabs [tabs_snd]: "tabs (snd (rate_limit_mw R cfg key now c w)) = tabs w"
  by (auto simp: rate_limit_mw_def Let_def split: prod.splits sum.splits dest!: tabs_res)

section \<open>Caches\<close>

lemma json_get_tabs [tabs_snd]: "tabs (snd (json_get R C kf k w)) = tabs w"
  by (auto simp: json_get_def tabs_snd split: prod.splits sum.splits option.splits dest!: tabs_res)

lemma json_set_tabs [tabs_snd]: "tabs (snd (json_set R C kf ttl k v w)) = tabs w"
  by (auto simp: json_set_def split: prod.splits sum.splits option.splits dest!: tabs_res)

lemmas json_res [tabs_res] = named [OF json_get_tabs] named [OF json_set_tabs]

lemma read_through_tabs:
  assumes "\<And>w. tabs (snd (load w)) = tabs w"
  shows "tabs (snd (read_through (Some (json_cache_ops R C kf ttl)) k load key_of w)) = tabs w"
  by (auto simp: read_through_def json_cache_ops_def tabs_snd Let_def
      split: prod.splits sum.splits option.splits dest!: tabs_res named [OF assms])

section \<open>Videos and products\<close>

lemma pg_find_video_tabs [tabs_snd]: "tabs (snd (pg_find_video i w)) = tabs w"
  by (auto simp: pg_find_video_def split: prod.splits sum.splits pgerr.splits dest!: tabs_res)

lemma video_get_tabs [tabs_snd]:
  "tabs (snd (video_get R (app_video_service R C arrange ttl hook) i w)) = tabs w"
  by (simp add: video_get_def app_video_service_def pg_video_repo_def read_through_tabs tabs_snd)

lemmas video_res [tabs_res] = named [OF pg_find_video_tabs] named [OF video_get_tabs]

lemma is_present_tabs [tabs_snd]:
  "tabs (snd (video_is_present R (app_video_service R C arrange ttl hook) i w)) = tabs w"
  by (auto simp: video_is_present_def split: prod.splits sum.splits dest!: tabs_res)

lemma handle_get_video_tabs [tabs_snd]:
  "tabs (snd (handle_get_video R (app_video_service R C arrange ttl hook) p w)) = tabs w"
  by (auto simp: handle_get_video_def split: prod.splits sum.splits option.splits dest!: tabs_res)

lemma select_product_tabs [tabs_snd]: "tabs (snd (select_product f msg w)) = tabs w"
  by (auto simp: select_product_def split: prod.splits sum.splits pgerr.splits dest!: tabs_res)

lemma product_get_tabs [tabs_snd]:
  "tabs (snd (product_get_by_id R (app_product_service R C vsvc b) i w)) = tabs w"
  "tabs (snd (product_get_by_video R (app_product_service R C vsvc b) i w)) = tabs w"
  by (simp_all add: product_get_by_id_def product_get_by_video_def app_product_service_def pg_product_repo_def
      pg_find_product_def pg_find_product_by_video_def read_through_tabs tabs_snd)

lemmas product_res [tabs_res] = named [OF select_product_tabs] named [OF product_get_tabs(1)]
  named [OF product_get_tabs(2)] named [OF is_present_tabs]

lemma handle_get_product_tabs [tabs_snd]:
  "tabs (snd (handle_get_product R (app_product_service R C vsvc b) p w)) = tabs w"
  "tabs (snd (handle_get_product_by_video R (app_product_service R C vsvc b) p w)) = tabs w"
  by (auto simp: handle_get_product_def handle_get_product_by_video_def
      split: prod.splits sum.splits option.splits dest!: tabs_res)

section \<open>The feed\<close>

lemma feed_page_tabs [tabs_snd]: "tabs (snd (pg_feed_page c i n w)) = tabs w"
  by (auto simp: pg_feed_page_def split: prod.splits sum.splits if_splits dest!: tabs_res)

lemma find_videos_tabs [tabs_snd]: "tabs (snd (pg_find_videos arrange is w)) = tabs w"
  by (auto simp: pg_find_videos_def split: prod.splits sum.splits if_splits dest!: tabs_res)

lemmas feed_res [tabs_res] = named [OF feed_page_tabs] named [OF find_videos_tabs]

lemma fetch_tabs:
  "tabs (snd (pull_fetch C pg_feed_page cur n w)) = tabs w"
  "tabs (snd (push_fetch R C (pg_find_videos arrange) cur n w)) = tabs w"
  by (auto simp: pull_fetch_def push_fetch_def Let_def split: prod.splits sum.splits dest!: tabs_res)

lemma handle_feed_tabs:
  assumes "\<And>cur n w. tabs (snd (fetch cur n w)) = tabs w"
  shows "tabs (snd (handle_feed C fetch h c l w)) = tabs w"
  using assms by (auto simp: handle_feed_def split: prod.splits sum.splits option.splits) (metis snd_conv)+

section \<open>Accounts\<close>

lemma select_user_tabs [tabs_snd]: "tabs (snd (select_user f msg w)) = tabs w"
  by (auto simp: select_user_def split: prod.splits sum.splits pgerr.splits dest!: tabs_res)

lemma refresh_tabs [tabs_snd]:
  "tabs (snd (refresh_issue R uid ttl fresh b w)) = tabs w"
  "tabs (snd (refresh_validate R t w)) = tabs w"
  "tabs (snd (refresh_revoke R t w)) = tabs w"
  by (auto simp: refresh_issue_def refresh_validate_def refresh_revoke_def Let_def tabs_snd
      split: prod.splits sum.splits option.splits if_splits dest!: tabs_res)

lemmas account_res [tabs_res] = named [OF select_user_tabs] named [OF refresh_tabs(1)] named [OF refresh_tabs(2)]
  named [OF refresh_tabs(3)]

lemma issue_tokens_tabs [tabs_snd]: "tabs (snd (issue_tokens J (app_auth_service R jwt cost ttl b) u dr w)) = tabs w"
  by (auto simp: issue_tokens_def app_auth_service_def new_auth_service_def redis_refresh_store_def
      split: prod.splits sum.splits dest!: tabs_res)

lemmas issue_res [tabs_res] = named [OF issue_tokens_tabs]

lemma account_tabs [tabs_snd]:
  "tabs (snd (handle_login J B (app_auth_service R jwt cost ttl b) body dr w)) = tabs w"
  "tabs (snd (handle_refresh J (app_auth_service R jwt cost ttl b) rbody dr w)) = tabs w"
  "tabs (snd (handle_logout (app_auth_service R jwt cost ttl b) rbody w)) = tabs w"
proof -
  have s: "as_users (app_auth_service R jwt cost ttl b) = pg_user_repo"
    "as_refresh (app_auth_service R jwt cost ttl b) = redis_refresh_store R"
    by (simp_all add: app_auth_service_def new_auth_service_def)
  note d = handle_login_def auth_login_def handle_refresh_def auth_refresh_def handle_logout_def auth_logout_def
    s pg_user_repo_def pg_find_user_by_email_def redis_refresh_store_def
  show "tabs (snd (handle_login J B (app_auth_service R jwt cost ttl b) body dr w)) = tabs w"
    by (auto simp: d split: prod.splits sum.splits if_splits dest!: tabs_res)
  show "tabs (snd (handle_refresh J (app_auth_service R jwt cost ttl b) rbody dr w)) = tabs w"
    by (auto simp: d tabs_snd split: prod.splits sum.splits dest!: tabs_res)
  show "tabs (snd (handle_logout (app_auth_service R jwt cost ttl b) rbody w)) = tabs w"
    by (auto simp: d split: prod.splits sum.splits dest!: tabs_res)
qed

section \<open>Likes, views, statistics\<close>

lemma like_handlers_tabs [tabs_snd]:
  "tabs (snd (handle_like R u p ts w)) = tabs w"
  "tabs (snd (handle_unlike R u p ts w)) = tabs w"
  by (auto simp: handle_like_def handle_unlike_def service_like_def service_unlike_def like_apply_def
      split: prod.splits sum.splits dest!: tabs_res)

definition quiet_filter :: "'s world filter \<Rightarrow> bool" where
  "quiet_filter f \<longleftrightarrow> (\<forall>i w. tabs (snd (f_allow f i w)) = tabs w)"

lemma chain_tabs: "\<forall>f \<in> set fs. quiet_filter f \<Longrightarrow> tabs (snd (chain_apply fs i w)) = tabs w"
proof (induction fs arbitrary: w)
  case (Cons f fs)
  obtain ok reason w1 where f: "f_allow f i w = ((ok, reason), w1)" by (metis surj_pair)
  then have "tabs w1 = tabs w" using Cons.prems by (metis list.set_intros(1) quiet_filter_def snd_conv)
  then show ?case using f Cons by simp
qed simp

lemma app_filters_quiet: "quiet_filter (watch_threshold_filter cfg)" "quiet_filter (duration_rate_filter R cfg fo now)"
  by (auto simp: quiet_filter_def watch_threshold_filter_def duration_rate_filter_def Let_def
      split: prod.splits sum.splits option.splits dest!: tabs_res)

lemma duration_get_tabs [tabs_snd]: "tabs (snd (redis_duration_get R v w)) = tabs w"
  by (auto simp: redis_duration_get_def split: prod.splits sum.splits option.splits dest!: tabs_res)

lemmas duration_res [tabs_res] = named [OF duration_get_tabs]

lemma handle_track_tabs:
  assumes "\<forall>f \<in> set (vs_chain svc). quiet_filter f" and "vs_durations svc = redis_duration_store R ttl"
  shows "tabs (snd (handle_track R sha svc p ip ua body viewer ts w)) = tabs w"
proof -
  have "tabs (snd (track R svc i ts w)) = tabs w" for i w
    using named [OF chain_tabs [OF assms(1)]]
    by (auto simp: track_def assms(2) redis_duration_store_def try_mark_def Let_def
        split: prod.splits sum.splits option.splits dest!: tabs_res)
  then show ?thesis
    by (auto simp: handle_track_def Let_def split: prod.splits sum.splits option.splits) (metis snd_conv)+
qed

lemma pg_count_tabs [tabs_snd]: "tabs (snd (pg_count v w)) = tabs w"
  by (auto simp: pg_count_def split: prod.splits sum.splits pgerr.splits dest!: tabs_res)

lemma ch_counts_tabs [tabs_snd]: "tabs (snd (ch_counts v w)) = tabs w"
  by (auto simp: ch_counts_def split: prod.splits sum.splits dest!: tabs_res)

lemmas counts_res [tabs_res] = named [OF pg_count_tabs] named [OF ch_counts_tabs]

lemma stats_cache_tabs [tabs_snd]:
  "tabs (snd (stats_read_cache R C v w)) = tabs w"
  "tabs (stats_write_cache R C ttl st w) = tabs w"
  "tabs (release_lock R v token w) = tabs w"
  "tabs (snd (acquire_lock R ttl v token w)) = tabs w"
  by (auto simp: stats_read_cache_def stats_write_cache_def release_lock_def acquire_lock_def tabs_snd
      split: prod.splits sum.splits option.splits dest!: tabs_res)

lemmas stats_cache_res [tabs_res] = named [OF stats_cache_tabs(1)] named [OF stats_cache_tabs(4)]

abbreviation wired_stats where
  "wired_stats R VC arrange ttl hook a b c \<equiv> app_stats_service R (app_video_service R VC arrange ttl hook) a b c"

lemma stats_compute_tabs [tabs_snd]:
  "tabs (snd (stats_compute (wired_stats R VC arrange ttl hook a b c) first v now w)) = tabs w"
  by (auto simp: stats_compute_def stats_assemble_def app_stats_service_def new_stats_service_def Let_def
      split: prod.splits dest!: tabs_res)

lemmas stats_compute_res [tabs_res] = named [OF stats_compute_tabs]

lemma stats_recompute_tabs [tabs_snd]:
  "tabs (snd (stats_recompute R C (wired_stats R VC arrange ttl hook a b c) first v token got now w)) = tabs w"
  by (auto simp: stats_recompute_def Let_def tabs_snd split: prod.splits sum.splits dest!: tabs_res)

lemmas stats_recompute_res [tabs_res] = named [OF stats_recompute_tabs]

lemma stats_fetch_tabs:
  assumes "\<And>x y. pause x = Some y \<Longrightarrow> tabs y = tabs x"
  shows "tabs (snd (stats_fetch R C (wired_stats R VC arrange ttl hook a b c) pause first v token now w)) = tabs w"
proof -
  have e: "ss_exists (wired_stats R VC arrange ttl hook a b c) = video_is_present R (app_video_service R VC arrange ttl hook)"
    by (simp add: app_stats_service_def new_stats_service_def)
  show ?thesis
    unfolding stats_fetch_def e Let_def
    by (auto simp: tabs_snd split: prod.splits sum.splits option.splits bool.splits dest!: tabs_res assms)
qed

lemma handle_stats_tabs:
  assumes "\<And>x y. pause x = Some y \<Longrightarrow> tabs y = tabs x"
  shows "tabs (snd (handle_stats R C (wired_stats R VC arrange ttl hook a b c) pause first p token now w)) = tabs w"
proof -
  have "tabs (snd (stats_get R C (wired_stats R VC arrange ttl hook a b c) pause first v token now w)) = tabs w" for v w
    using named [OF stats_fetch_tabs [OF assms]]
    by (auto simp: stats_get_def stats_fetch_tabs [OF assms] split: prod.splits option.splits dest!: tabs_res)
  then show ?thesis
    by (auto simp: handle_stats_def split: prod.splits sum.splits option.splits) (metis snd_conv)+
qed

section \<open>The three inserts\<close>

text \<open>\<open>inserts P w w'\<close>: no table changed but, perhaps, that a Postgres statement which \<open>P\<close> describes
  took effect.\<close>

definition inserts :: "(postgres \<Rightarrow> postgres \<Rightarrow> bool) \<Rightarrow> 's world \<Rightarrow> 's world \<Rightarrow> bool" where
  "inserts P w w' \<longleftrightarrow> ch w' = ch w \<and> (pg w' = pg w \<or> P (pg w) (pg w'))"

lemma inserts_tabs: "tabs w' = tabs w \<Longrightarrow> inserts P w w'"
  by (simp add: inserts_def tabs_def)

lemma inserts_after: "tabs w1 = tabs w \<Longrightarrow> inserts P w1 w2 \<Longrightarrow> inserts P w w2"
  by (simp add: inserts_def tabs_def)

lemma inserts_before: "inserts P w w1 \<Longrightarrow> tabs w2 = tabs w1 \<Longrightarrow> inserts P w w2"
  by (simp add: inserts_def tabs_def)

lemma inserts_mono: "inserts P w w' \<Longrightarrow> (P (pg w) (pg w') \<Longrightarrow> Q (pg w) (pg w')) \<Longrightarrow> inserts Q w w'"
  by (auto simp: inserts_def)

lemma pg_exec_inserts:
  assumes "pg_exec f w = (r, w')" and "snd (f (pg w)) = pg w \<or> P (pg w) (snd (f (pg w)))"
  shows "inserts P w w'"
proof -
  have "ch w' = ch w" using pg_exec_frame(3) [of f w] assms(1) by simp
  with assms show ?thesis by (cases rule: pg_exec_cases) (auto simp: inserts_def dest: arg_cong [of _ _ snd])
qed

definition adds_user :: "string \<Rightarrow> uuid \<Rightarrow> gotime \<Rightarrow> postgres \<Rightarrow> postgres \<Rightarrow> bool" where
  "adds_user email fresh now d d' \<longleftrightarrow> (\<exists>h. d' = add_user (new_user email h fresh now) d)
     \<and> user_by_email (normalize_email email) d = None"

lemma create_user_inserts: "pg_create_user email h fresh now w = (r, w') \<Longrightarrow> inserts (adds_user email fresh now) w w'"
proof -
  assume r: "pg_create_user email h fresh now w = (r, w')"
  obtain q w1 where c: "pg_exec (insert_user_sql email h fresh now) w = (q, w1)" by (metis surj_pair)
  have "inserts (adds_user email fresh now) w w1"
    using insert_user_cases [OF prod.collapse [symmetric], of email h fresh now "pg w"]
    by (intro pg_exec_inserts [OF c]) (auto simp: adds_user_def)
  moreover have "w' = w1" using r c by (auto simp: pg_create_user_def split: sum.splits pgerr.splits sqlstate.splits)
  ultimately show ?thesis by simp
qed

lemma bloom_tabs [tabs_snd]:
  "tabs (snd (bf_may_contain R key x w)) = tabs w" "tabs (snd (bf_add R key x w)) = tabs w"
  by (auto simp: bf_may_contain_def bf_add_def split: prod.splits sum.splits dest!: tabs_res)

lemmas bloom_res [tabs_res] = named [OF bloom_tabs(1)] named [OF bloom_tabs(2)]

lemma email_filter_tabs:
  "email_maybe_taken (app_auth_service R jwt cost ttl b) n w = (t, w') \<Longrightarrow> tabs w' = tabs w"
  "tabs (record_email (app_auth_service R jwt cost ttl b) n w) = tabs w"
  by (auto simp: email_maybe_taken_def record_email_def app_auth_service_def new_auth_service_def redis_bloom_def tabs_snd
      split: if_splits prod.splits sum.splits dest!: tabs_res)

lemma register_inserts:
  "auth_register B (app_auth_service R jwt cost ttl b) email password salt fresh now w = (r, w')
    \<Longrightarrow> inserts (adds_user email fresh now) w w'"
proof -
  let ?svc = "app_auth_service R jwt cost ttl b" and ?n = "normalize_email email"
  assume run: "auth_register B ?svc email password salt fresh now w = (r, w')"
  have us: "as_users ?svc = pg_user_repo" by (simp add: app_auth_service_def new_auth_service_def)
  obtain t w1 where t: "email_maybe_taken ?svc ?n w = (t, w1)" by (metis surj_pair)
  have "w' = w \<or> w' = w1 \<or> (\<exists>h q w2. pg_create_user email h fresh now w1 = (q, w2)
      \<and> (w' = w2 \<or> w' = record_email ?svc ?n w2))"
    using run t by (auto simp: auth_register_def us pg_user_repo_def Let_def split: option.splits if_splits prod.splits sum.splits)
  then show ?thesis
    using email_filter_tabs(1) [OF t] create_user_inserts email_filter_tabs(2) [of R jwt cost ttl b ?n]
    by (metis inserts_tabs inserts_after inserts_before)
qed

definition adds_video :: "uuid \<Rightarrow> video_input \<Rightarrow> uuid \<Rightarrow> gotime \<Rightarrow> postgres \<Rightarrow> postgres \<Rightarrow> bool" where
  "adds_video uid i fresh now d d' \<longleftrightarrow> d' = add_video (new_video uid i fresh now) d \<and> user_exists uid d"

definition quiet_hook :: "(video \<Rightarrow> 's world \<Rightarrow> 's world) option \<Rightarrow> bool" where
  "quiet_hook hook \<longleftrightarrow> (\<forall>h v w. hook = Some h \<longrightarrow> tabs (h v w) = tabs w)"

lemma publish_quiet: "quiet_hook (Some (push_publish R cap))" "quiet_hook None"
  by (simp_all add: quiet_hook_def push_publish_def tabs_snd)

lemma duration_set_tabs [tabs_snd]: "tabs (snd (redis_duration_set R ttl v d w)) = tabs w"
  by (simp add: redis_duration_set_def tabs_snd)

lemma video_create_inserts:
  assumes "quiet_hook hook"
    and "video_create url R (app_video_service R C arrange ttl hook) uid i fresh now w = (r, w')"
  shows "inserts (adds_video uid i fresh now) w w'"
proof -
  obtain q w1 where c: "pg_exec (insert_video_sql uid i fresh now) w = (q, w1)" by (metis surj_pair)
  have i: "inserts (adds_video uid i fresh now) w w1"
    using insert_video_sql_state [of uid i fresh now "pg w"] insert_video_sql_Inr [of uid i fresh now "pg w"]
    by (intro pg_exec_inserts [OF c]) (auto simp: adds_video_def)
  have "w' = w \<or> tabs w' = tabs w1"
    using assms c
    by (auto simp: video_create_def app_video_service_def pg_video_repo_def pg_create_video_def json_cache_ops_def
        redis_duration_store_def quiet_hook_def Let_def tabs_snd split: option.splits sum.splits)
  with i show ?thesis by (metis inserts_tabs inserts_before)
qed

definition adds_product :: "uuid \<Rightarrow> product_input \<Rightarrow> uuid \<Rightarrow> gotime \<Rightarrow> postgres \<Rightarrow> postgres \<Rightarrow> bool" where
  "adds_product uid i fresh now d d' \<longleftrightarrow> d' = add_product (new_product i fresh now) d
     \<and> owner_answer (pc_video_id i) uid d = Inr () \<and> product_of_video (pc_video_id i) d = None"

lemma assert_owner_tabs [tabs_snd]:
  "tabs (snd (assert_owner R (app_video_service R C arrange ttl hook) v u w)) = tabs w"
  by (auto simp: assert_owner_def split: prod.splits sum.splits dest!: tabs_res)

lemma video_filter_tabs:
  "tabs (snd (video_maybe_taken (app_product_service R Cp vsvc b) k w)) = tabs w"
  "tabs (record_video (app_product_service R Cp vsvc b) k w) = tabs w"
  by (auto simp: video_maybe_taken_def record_video_def app_product_service_def redis_bloom_def tabs_snd
      split: if_splits prod.splits sum.splits dest!: tabs_res)

text \<open>What the creation writes is a matter of these frames; that it writes for the owner only is
  the service's check, proved in theory Product.\<close>

lemma product_create_ch:
  assumes "product_create url R (app_product_service R Cp (app_video_service R C arrange ttl hook) b) uid i fresh now w = (r, w')"
  shows "ch w' = ch w"
proof -
  let ?svc = "app_product_service R Cp (app_video_service R C arrange ttl hook) b"
  have svc: "pd_assert_owner ?svc = assert_owner R (app_video_service R C arrange ttl hook)" "pd_repo ?svc = pg_product_repo"
    "pd_cache ?svc = Some (json_cache_ops R Cp product_cache_key resource_cache_ttl)"
    "pd_by_video_cache ?svc = Some (json_cache_ops R Cp product_by_video_cache_key resource_cache_ttl)"
    by (simp_all add: app_product_service_def)
  obtain a wa where a: "assert_owner R (app_video_service R C arrange ttl hook) (pc_video_id i) uid w = (a, wa)" by (metis surj_pair)
  obtain t wb where t: "video_maybe_taken ?svc (uuid_str R (pc_video_id i)) wa = (t, wb)" by (metis surj_pair)
  obtain q wc where c: "pg_exec (insert_product_sql i fresh now) wb = (q, wc)" by (metis surj_pair)
  have same: "tabs wa = tabs w" "tabs wb = tabs w"
    using named [OF assert_owner_tabs a] named [OF video_filter_tabs(1) t] by simp_all
  have "ch wc = ch wb" using pg_exec_frame(3) [of "insert_product_sql i fresh now" wb] c by simp
  then have cc: "ch wc = ch w" using same by (simp add: tabs_def)
  obtain p wd where d: "pg_create_product i fresh now wb = (p, wd)" by (metis surj_pair)
  then have cd: "wd = wc" using c by (auto simp: pg_create_product_def split: sum.splits pgerr.splits sqlstate.splits)
  have "w' = w \<or> w' = wa \<or> w' = wb \<or> tabs w' = tabs wc"
    using assms a t d
    by (auto simp: product_create_def svc pg_product_repo_def Let_def video_filter_tabs cd
        json_cache_ops_def tabs_snd split: option.splits sum.splits if_splits)
  with same cc show ?thesis by (auto simp: tabs_def)
qed

context product_writes
begin

lemma product_create_inserts:
  assumes "product_inv w" and "pfits (new_product i fresh now)"
    and "product_create url R (psvc b) uid i fresh now w = (r, w')"
  shows "inserts (adds_product uid i fresh now) w w'"
proof -
  have added: "pg w2 = pg w \<or> adds_product uid i fresh now (pg w) (pg w2)"
    if "pg_create_product i fresh now w1 = (q, w2)" and "pg w1 = pg w"
      and "owner_answer (pc_video_id i) uid (pg w) = Inr ()" for q w1 w2
  proof -
    have "pg w2 = pg w1 \<or> (\<exists>p. insert_product_sql i fresh now (pg w1) = (Inr p, pg w2))"
      using pg_create_product_cases(2,3) [OF that(1)] by (cases q) auto
    then show ?thesis using that(2,3) insert_product_sql_Inr [of i fresh now "pg w1"] by (auto simp: adds_product_def)
  qed
  have "pg w' = pg w \<or> adds_product uid i fresh now (pg w) (pg w')"
    by (rule product_create_runs [OF assms]) (use added in auto)
  then show ?thesis using product_create_ch [OF assms(3)] by (simp add: inserts_def)
qed

end

end
