(* ===== verification/App.thy ===== *)
theory App
  imports Health Tables
begin

text \<open>
  \<open>internal/platform/app\<close>: the composition root. \<open>app_new\<close> is \<open>New\<close>: it opens the three stores,
  warms the Bloom filters and the push feed, and wires the services from the configuration.
  \<open>serve\<close> is the router: each route with its middlewares in the order they are mounted. What a
  request brings is a \<open>request\<close>, what the process draws for it (clocks, fresh ids, random bytes,
  goroutine order) a \<open>chance\<close>. The metrics endpoint, Swagger and the request-id header are left
  out; the listening socket and the shutdown are not modelled.
\<close>

section \<open>External code\<close>

record externals =
  x_drivers :: drivers
  x_url :: url_lib
  x_sha :: "string \<Rightarrow> string"
  x_jwt :: jwt_lib
  x_bcrypt :: bcrypt_lib
  x_video :: "video codec"
  x_product :: "product codec"
  x_stats :: "stats codec"
  x_cursor :: "cursor codec"
  x_arrange :: "video list \<Rightarrow> video list"

section \<open>The application\<close>

record 's application =
  ap_config :: config
  ap_jwt :: jwt_service
  ap_auth :: "'s world auth_service"
  ap_videos :: "'s world video_service"
  ap_products :: "'s world product_service"
  ap_fetch :: "'s world fetcher"
  ap_views :: "int \<Rightarrow> 's world view_service"
  ap_stats :: "'s world stats_service"

definition app_jwt_service :: "config \<Rightarrow> jwt_service" where
  "app_jwt_service cfg = \<lparr>jwt_secret = jc_secret (cf_jwt cfg), jwt_access_ttl = jc_access_ttl (cf_jwt cfg),
     jwt_issuer = ''vidmerce''\<rparr>"

text \<open>The chain reads the clock at each request, so the service is a function of that reading.\<close>

definition app_view_policy :: "config \<Rightarrow> view_policy" where
  "app_view_policy cfg = \<lparr>vp_min_duration_sec = vwc_min_duration_sec (cf_view cfg),
     vp_unknown_min_watch_ms = vwc_unknown_min_watch_ms (cf_view cfg)\<rparr>"

definition app_view_service :: "('s, 'z) redis_scheme \<Rightarrow> config \<Rightarrow> int \<Rightarrow> 's world view_service" where
  "app_view_service R cfg now =
     \<lparr>vs_chain = [watch_threshold_filter (app_view_policy cfg), duration_rate_filter R (app_view_policy cfg) True now],
      vs_durations = redis_duration_store R (vwc_duration_cache_ttl (cf_view cfg)),
      vs_unique = Some (vwc_unique_ttl (cf_view cfg))\<rparr>"

text \<open>The feed implementation and the hook it needs, by mode.\<close>

definition push_mode :: "config \<Rightarrow> bool" where
  "push_mode cfg \<longleftrightarrow> fc_mode (cf_feed cfg) = feed_mode_push"

definition app_fetcher :: "('s, 'z) redis_scheme \<Rightarrow> externals \<Rightarrow> config \<Rightarrow> 's world fetcher" where
  "app_fetcher R X cfg =
     (if push_mode cfg then push_fetch R (x_cursor X) (repo_find_by_ids (pg_video_repo (x_arrange X)))
      else pull_fetch (x_cursor X) (repo_feed_page (pg_video_repo (x_arrange X))))"

definition app_hook :: "('s, 'z) redis_scheme \<Rightarrow> config \<Rightarrow> (video \<Rightarrow> 's world \<Rightarrow> 's world) option" where
  "app_hook R cfg =
     (if push_mode cfg then Some (push_publish R (push_cap (fc_push_zset_cap (cf_feed cfg)))) else None)"

definition app_wire :: "('s, 'z) redis_scheme \<Rightarrow> externals \<Rightarrow> config \<Rightarrow> 's application" where
  "app_wire R X cfg =
     (let bloom = bc_enabled (cf_bloom cfg);
          videos = app_video_service R (x_video X) (x_arrange X) (vwc_duration_cache_ttl (cf_view cfg)) (app_hook R cfg)
      in \<lparr>ap_config = cfg, ap_jwt = app_jwt_service cfg,
          ap_auth = app_auth_service R (app_jwt_service cfg) (cf_bcrypt_cost cfg) (jc_refresh_ttl (cf_jwt cfg)) bloom,
          ap_videos = videos, ap_products = app_product_service R (x_product X) videos bloom,
          ap_fetch = app_fetcher R X cfg, ap_views = app_view_service R cfg,
          ap_stats = app_stats_service R videos (stc_cache_ttl (cf_stats cfg)) (stc_lock_ttl (cf_stats cfg))
            (stc_lock_retry (cf_stats cfg))\<rparr>)"

section \<open>Start-up\<close>

definition open_stores :: "externals \<Rightarrow> config \<Rightarrow> 's world \<Rightarrow> unit result \<times> 's world" where
  "open_stores X cfg w =
     (case new_pool (x_drivers X) (cf_postgres cfg) w of
        (Inl e, w) \<Rightarrow> (Inl (Wrapped ''postgres'' e), w)
      | (Inr _, w) \<Rightarrow>
          (case new_redis_client (cf_redis cfg) w of
             (Inl e, w) \<Rightarrow> (Inl (Wrapped ''redis'' e), w)
           | (Inr _, w) \<Rightarrow>
               (case new_clickhouse_conn (x_drivers X) (cf_clickhouse cfg) w of
                  (Inl e, w) \<Rightarrow> (Inl (Wrapped ''clickhouse'' e), w)
                | (Inr _, w) \<Rightarrow> (Inr (), w))))"

definition warm_blooms :: "('s, 'z) redis_scheme \<Rightarrow> config \<Rightarrow> 's world \<Rightarrow> unit result \<times> 's world" where
  "warm_blooms R cfg w =
     (if \<not> bc_enabled (cf_bloom cfg) then (Inr (), w)
      else case warmup_emails R bloom_key_emails w of
             (Inl e, w) \<Rightarrow> (Inl (Wrapped ''bloom warmup emails'' e), w)
           | (Inr _, w) \<Rightarrow>
               (case warmup_product_videos R bloom_key_product_videos w of
                  (Inl e, w) \<Rightarrow> (Inl (Wrapped ''bloom warmup product videos'' e), w)
                | (Inr _, w) \<Rightarrow> (Inr (), w)))"

definition warm_feed :: "('s, 'z) redis_scheme \<Rightarrow> externals \<Rightarrow> config \<Rightarrow> 's world \<Rightarrow> unit result \<times> 's world" where
  "warm_feed R X cfg w =
     (if \<not> push_mode cfg then (Inr (), w)
      else case push_warmup R (repo_feed_page (pg_video_repo (x_arrange X))) (push_cap (fc_push_zset_cap (cf_feed cfg))) w of
             (Inl e, w) \<Rightarrow> (Inl (Wrapped ''feed warmup'' e), w)
           | (Inr _, w) \<Rightarrow> (Inr (), w))"

definition app_new :: "('s, 'z) redis_scheme \<Rightarrow> externals \<Rightarrow> config \<Rightarrow> 's world \<Rightarrow> 's application result \<times> 's world" where
  "app_new R X cfg w =
     (case open_stores X cfg w of
        (Inl e, w) \<Rightarrow> (Inl e, w)
      | (Inr _, w) \<Rightarrow>
          (case warm_blooms R cfg w of
             (Inl e, w) \<Rightarrow> (Inl e, w)
           | (Inr _, w) \<Rightarrow>
               (case warm_feed R X cfg w of
                  (Inl e, w) \<Rightarrow> (Inl e, w)
                | (Inr _, w) \<Rightarrow> (Inr (app_wire R X cfg), w))))"

section \<open>Requests\<close>

text \<open>A body is what binding it gives: an error message or the decoded fields.\<close>

datatype route =
    HealthR | ReadyR
  | RegisterR "string + string \<times> string"
  | LoginR "string + string \<times> string"
  | RefreshR "string + string"
  | LogoutR "string + string"
  | GetVideoR string
  | GetVideoProductR string
  | GetProductR string
  | GetFeedR string string
  | PostVideoR "string + video_input"
  | PostProductR "string + product_input"
  | LikeR string
  | UnlikeR string
  | ViewR string track_body
  | StatsR string

record request =
  rq_route :: route
  rq_authorization :: string
  rq_ip :: string
  rq_user_agent :: string

record 's chance =
  cn_now :: gotime
  cn_bucket_ms :: int
  cn_stamp_ms :: int
  cn_id :: uuid
  cn_salt :: string
  cn_draws :: draws
  cn_lock :: string
  cn_pause :: "'s world \<Rightarrow> 's world option"
  cn_likes_first :: bool
  cn_deps :: "(string \<times> 's world pinger) list"

datatype payload =
    UnitP
  | HealthP "string \<times> string \<times> gotime"
  | DepsP "(string \<times> string) list"
  | UserP public_user
  | TokensP token_pair
  | LogoutP bool
  | VideoP video
  | ProductP product
  | FeedP "video list"
  | LikeP like_state
  | TrackP track_result
  | StatsP stats

definition with_data :: "('d \<Rightarrow> payload) \<Rightarrow> 'd response \<Rightarrow> payload response" where
  "with_data f r = \<lparr>status = status r, resp_code = resp_code r, resp_message = resp_message r,
     resp_data = map_option f (resp_data r), resp_meta = resp_meta r\<rparr>"

abbreviation answer :: "('d \<Rightarrow> payload) \<Rightarrow> 'd response \<times> 'w \<Rightarrow> payload response \<times> 'w" where
  "answer f p \<equiv> (case p of (r, w) \<Rightarrow> (with_data f r, w))"

section \<open>Middlewares of the router\<close>

definition login_limit :: mw_config where
  "login_limit = \<lparr>mw_policy = \<lparr>pol_capacity = 10, pol_leak_per_second = 1 / 6, pol_ttl = hour\<rparr>,
     mw_fail_open = False\<rparr>"

definition like_limit :: "config \<Rightarrow> mw_config" where
  "like_limit cfg = \<lparr>mw_policy = \<lparr>pol_capacity = lkc_bucket_capacity (cf_like cfg),
       pol_leak_per_second = of_int (lkc_bucket_leak_per_min (cf_like cfg)) / 60, pol_ttl = hour\<rparr>,
     mw_fail_open = True\<rparr>"

definition login_bucket_key :: "string \<Rightarrow> string" where
  "login_bucket_key ip = ''bucket:login:'' @ ip"

definition like_bucket_key :: "'z libs_scheme \<Rightarrow> uuid \<Rightarrow> string \<Rightarrow> string" where
  "like_bucket_key L uid param = ''bucket:like:'' @ uuid_str L uid @ '':'' @ param"

text \<open>A middleware either answers or hands the context to the rest of the chain.\<close>

definition then_handle ::
  "('c, payload) middleware \<times> 'w \<Rightarrow> ('c \<Rightarrow> 'w \<Rightarrow> payload response \<times> 'w) \<Rightarrow> payload response \<times> 'w"
where
  "then_handle m h = (case m of (Abort r, w) \<Rightarrow> (r, w) | (Next c, w) \<Rightarrow> h c w)"

definition auth_mw :: "externals \<Rightarrow> 's application \<Rightarrow> request \<Rightarrow> gotime \<Rightarrow> 's world \<Rightarrow> (uuid, payload) middleware \<times> 's world" where
  "auth_mw X a rq now w =
     (case require_auth (x_jwt X) (ap_jwt a) now (rq_authorization rq) of
        Inl r \<Rightarrow> (Abort (with_data (\<lambda>_. UnitP) r), w)
      | Inr uid \<Rightarrow> (Next uid, w))"

section \<open>The router\<close>

definition serve_protected ::
  "('s, 'z) redis_scheme \<Rightarrow> externals \<Rightarrow> 's application \<Rightarrow> request \<Rightarrow> 's chance \<Rightarrow> uuid \<Rightarrow> 's world
     \<Rightarrow> payload response \<times> 's world"
where
  "serve_protected R X a rq cn uid w =
     (case rq_route rq of
        PostVideoR body \<Rightarrow>
          answer VideoP (handle_create_video (x_url X) R (ap_videos a) uid body (cn_id cn) (cn_now cn) w)
      | PostProductR body \<Rightarrow>
          answer ProductP (handle_create_product (x_url X) R (ap_products a) uid body (cn_id cn) (cn_now cn) w)
      | LikeR p \<Rightarrow>
          then_handle (rate_limit_mw R (like_limit (ap_config a)) (like_bucket_key R uid p) (cn_bucket_ms cn) uid w)
            (\<lambda>uid w. answer LikeP (handle_like R uid p (cn_stamp_ms cn) w))
      | UnlikeR p \<Rightarrow>
          then_handle (rate_limit_mw R (like_limit (ap_config a)) (like_bucket_key R uid p) (cn_bucket_ms cn) uid w)
            (\<lambda>uid w. answer LikeP (handle_unlike R uid p (cn_stamp_ms cn) w))
      | _ \<Rightarrow> (httpx_error 404 [] [], w))"

fun protected :: "route \<Rightarrow> bool" where
  "protected (PostVideoR body) = True"
| "protected (PostProductR body) = True"
| "protected (LikeR p) = True"
| "protected (UnlikeR p) = True"
| "protected _ = False"

definition app_feed_handler :: "config \<Rightarrow> feed_handler" where
  "app_feed_handler cfg = new_feed_handler (fc_page_default (cf_feed cfg)) (fc_page_max (cf_feed cfg))"

definition serve ::
  "('s, 'z) redis_scheme \<Rightarrow> externals \<Rightarrow> 's application \<Rightarrow> request \<Rightarrow> 's chance \<Rightarrow> 's world
     \<Rightarrow> payload response \<times> 's world"
where
  "serve R X a rq cn w =
     (if protected (rq_route rq) then then_handle (auth_mw X a rq (cn_now cn) w) (serve_protected R X a rq cn)
      else case rq_route rq of
        HealthR \<Rightarrow> answer HealthP (handle_health (ap_config a) (cn_now cn), w)
      | ReadyR \<Rightarrow> answer DepsP (handle_ready (cn_deps cn) w)
      | RegisterR body \<Rightarrow>
          answer UserP (handle_register (x_bcrypt X) (ap_auth a) body (cn_salt cn) (cn_id cn) (cn_now cn) w)
      | LoginR body \<Rightarrow>
          then_handle (rate_limit_mw R login_limit (login_bucket_key (rq_ip rq)) (cn_bucket_ms cn) () w)
            (\<lambda>_ w. answer TokensP (handle_login (x_jwt X) (x_bcrypt X) (ap_auth a) body (cn_draws cn) w))
      | RefreshR body \<Rightarrow> answer TokensP (handle_refresh (x_jwt X) (ap_auth a) body (cn_draws cn) w)
      | LogoutR body \<Rightarrow> answer LogoutP (handle_logout (ap_auth a) body w)
      | GetVideoR p \<Rightarrow> answer VideoP (handle_get_video R (ap_videos a) p w)
      | GetVideoProductR p \<Rightarrow> answer ProductP (handle_get_product_by_video R (ap_products a) p w)
      | GetProductR p \<Rightarrow> answer ProductP (handle_get_product R (ap_products a) p w)
      | GetFeedR cur lmt \<Rightarrow>
          answer FeedP (handle_feed (x_cursor X) (ap_fetch a) (app_feed_handler (ap_config a)) cur lmt w)
      | ViewR p body \<Rightarrow>
          answer TrackP (handle_track R (x_sha X) (ap_views a (cn_bucket_ms cn)) p (rq_ip rq) (rq_user_agent rq) body
            (optional_auth (x_jwt X) (ap_jwt a) (cn_now cn) (rq_authorization rq)) (cn_stamp_ms cn) w)
      | StatsR p \<Rightarrow>
          answer StatsP (handle_stats R (x_stats X) (ap_stats a) (cn_pause cn) (cn_likes_first cn) p (cn_lock cn) (cn_now cn) w)
      | _ \<Rightarrow> (httpx_error 404 [] [], w))"

section \<open>Who may write what\<close>

lemma app_wire_simps [simp]:
  "ap_config (app_wire R X cfg) = cfg" "ap_jwt (app_wire R X cfg) = app_jwt_service cfg"
  "ap_fetch (app_wire R X cfg) = app_fetcher R X cfg" "ap_views (app_wire R X cfg) = app_view_service R cfg"
  by (simp_all add: app_wire_def Let_def)

abbreviation wired_videos where
  "wired_videos R X cfg \<equiv> app_video_service R (x_video X) (x_arrange X) (vwc_duration_cache_ttl (cf_view cfg)) (app_hook R cfg)"

lemma app_wire_services:
  "ap_videos (app_wire R X cfg) = wired_videos R X cfg"
  "ap_products (app_wire R X cfg) = app_product_service R (x_product X) (wired_videos R X cfg) (bc_enabled (cf_bloom cfg))"
  "ap_auth (app_wire R X cfg) = app_auth_service R (app_jwt_service cfg) (cf_bcrypt_cost cfg) (jc_refresh_ttl (cf_jwt cfg))
     (bc_enabled (cf_bloom cfg))"
  "ap_stats (app_wire R X cfg) = app_stats_service R (wired_videos R X cfg) (stc_cache_ttl (cf_stats cfg))
     (stc_lock_ttl (cf_stats cfg)) (stc_lock_retry (cf_stats cfg))"
  by (simp_all add: app_wire_def Let_def)

lemma app_hook_quiet: "quiet_hook (app_hook R cfg)"
  by (simp add: app_hook_def publish_quiet)

lemma ping_all_tabs:
  assumes "set deps \<subseteq> set health_deps"
  shows "tabs (snd (ping_all deps w)) = tabs w"
  using assms
proof (induction deps arbitrary: w)
  case (Cons d deps)
  obtain n p where d: "d = (n, p)" by (metis surj_pair)
  have "tabs (snd (p w)) = tabs w"
    using Cons.prems d by (auto simp: health_deps_def ping_postgres_def ping_redis_def ping_clickhouse_def tabs_snd)
  then show ?case using Cons d by (auto split: prod.splits sum.splits) (metis snd_conv)+
qed simp

lemma handle_ready_tabs: "set deps \<subseteq> set health_deps \<Longrightarrow> tabs (snd (handle_ready deps w)) = tabs w"
  using ping_all_tabs [of deps w] by (auto simp: handle_ready_def split: prod.splits)

lemma app_views_tabs: "tabs (snd (handle_track R sha (app_view_service R cfg now) p ip ua body viewer ts w)) = tabs w"
  by (rule handle_track_tabs) (simp_all add: app_view_service_def app_filters_quiet)

lemma app_feed_tabs: "tabs (snd (handle_feed C (app_fetcher R X cfg) h c l w)) = tabs w"
  by (rule handle_feed_tabs) (simp add: app_fetcher_def pg_video_repo_def fetch_tabs)

lemma then_handle_tabs:
  assumes "tabs (snd m) = tabs w" and "\<And>c w1. tabs w1 = tabs w \<Longrightarrow> tabs (snd (h c w1)) = tabs w"
  shows "tabs (snd (then_handle m h)) = tabs w"
  using assms by (auto simp: then_handle_def split: prod.splits middleware.splits)

lemma answer_snd: "snd (answer f p) = snd p"
  by (simp split: prod.splits)

text \<open>The public routes but one write no table.\<close>

lemma public_tabs:
  assumes "\<not> protected (rq_route rq)" and "\<forall>body. rq_route rq \<noteq> RegisterR body"
    and "set (cn_deps cn) \<subseteq> set health_deps" and "\<And>x y. cn_pause cn x = Some y \<Longrightarrow> tabs y = tabs x"
  shows "tabs (snd (serve R X (app_wire R X cfg) rq cn w)) = tabs w"
proof (cases "rq_route rq")
  case (LoginR body)
  then show ?thesis
    by (auto simp: serve_def app_wire_services answer_snd tabs_snd intro!: then_handle_tabs)
next
  case (StatsR p)
  then show ?thesis
    by (simp add: serve_def app_wire_services answer_snd handle_stats_tabs [OF assms(4)])
qed (use assms in \<open>simp_all add: serve_def app_wire_services answer_snd tabs_snd handle_ready_tabs app_views_tabs app_feed_tabs\<close>)

text \<open>What the caches and filters must satisfy for the ownership check to be right; every operation
  of the services keeps it (theories Video and Product).\<close>

definition app_ready ::
  "('s, 'z) redis_scheme \<Rightarrow> ('s \<Rightarrow> keyspace) \<Rightarrow> externals \<Rightarrow> (video \<Rightarrow> bool) \<Rightarrow> 's world \<Rightarrow> bool"
where
  "app_ready R ks X fits w \<longleftrightarrow> (\<forall>v \<in> set (videos (pg w)). fits v) \<and> video_cache_true R ks (x_video X) w
     \<and> product_caches_true R ks (x_product X) w \<and> is_bloom (ks (srv w) bloom_key_product_videos)"

lemma handle_register_inserts:
  assumes "handle_register B (app_auth_service R jwt cost ttl b) (Inr (email, pw)) salt fresh now w = (resp, w')"
  shows "inserts (adds_user email fresh now) w w'"
proof -
  obtain r w1 where c: "auth_register B (app_auth_service R jwt cost ttl b) email pw salt fresh now w = (r, w1)"
    by (metis surj_pair)
  with assms have "w' = w1" by (auto simp: handle_register_def split: sum.splits)
  with register_inserts [OF c] show ?thesis by simp
qed

lemma handle_create_video_inserts:
  assumes "handle_create_video url R (wired_videos R X cfg) uid (Inr i) fresh now w = (resp, w')"
  shows "inserts (adds_video uid i fresh now) w w'"
proof -
  obtain r w1 where c: "video_create url R (wired_videos R X cfg) uid i fresh now w = (r, w1)" by (metis surj_pair)
  with assms have "w' = w1" by (auto simp: handle_create_video_def split: sum.splits option.splits)
  with video_create_inserts [OF app_hook_quiet c] show ?thesis by simp
qed

lemma handle_create_product_inserts:
  assumes "redis_server R ks" and "json_codec (x_video X) fits" and "json_codec (x_product X) pfits"
    and "app_ready R ks X fits w" and "pfits (new_product i fresh now)"
    and "handle_create_product url R (app_product_service R (x_product X) (wired_videos R X cfg) b) uid (Inr i) fresh now w = (resp, w')"
  shows "inserts (adds_product uid i fresh now) w w'"
proof -
  have loc: "product_writes R ks (x_video X) fits (x_product X) pfits"
    using assms(1-3) by (simp add: product_writes_def video_reads_def)
  have inv: "product_writes.product_inv R ks (x_video X) fits (x_product X) w"
    using assms(1,2,4) loc
    by (simp add: app_ready_def product_writes.product_inv_def video_reads.owner_ready_def bloom_key.bloom_ready_def
        video_reads_def bloom_key_def)
  obtain r w1 where c: "product_create url R (app_product_service R (x_product X) (wired_videos R X cfg) b) uid i fresh now w = (r, w1)"
    by (metis surj_pair)
  with assms(6) have "w' = w1" by (auto simp: handle_create_product_def split: sum.splits option.splits)
  with product_writes.product_create_inserts [OF loc inv assms(5) c] show ?thesis by simp
qed

lemma bad_bodies:
  "handle_register B asvc (Inl m) salt fresh now w = (resp, w') \<Longrightarrow> w' = w"
  "handle_create_video url L vsvc uid (Inl m) fresh now w = (vresp, w') \<Longrightarrow> w' = w"
  "handle_create_product url L psvc uid (Inl m) fresh now w = (presp, w') \<Longrightarrow> w' = w"
  by (simp_all add: handle_register_def handle_create_video_def handle_create_product_def)

lemma require_auth_rejects: "require_auth J svc now raw = Inl r \<Longrightarrow> status r = 401"
  by (auto simp: require_auth_def httpx_error_def Let_def split: if_splits sum.splits)

lemma register_writes:
  assumes "rq_route rq = RegisterR body" and "serve R X (app_wire R X cfg) rq cn w = (resp, w')"
  shows "inserts (\<lambda>d d'. \<exists>email pw. body = Inr (email, pw) \<and> adds_user email (cn_id cn) (cn_now cn) d d') w w'"
proof -
  obtain r where h: "handle_register (x_bcrypt X) (ap_auth (app_wire R X cfg)) body (cn_salt cn) (cn_id cn) (cn_now cn) w = (r, w')"
    using assms by (auto simp: serve_def split: prod.splits)
  show ?thesis
  proof (cases body)
    case (Inl m)
    then show ?thesis using bad_bodies(1) [OF h [unfolded Inl]] by (simp add: inserts_def)
  next
    case (Inr f)
    obtain email pw where f: "f = (email, pw)" by (metis surj_pair)
    from handle_register_inserts [OF h [unfolded Inr f app_wire_services]] show ?thesis
      using Inr f by (auto simp: inserts_def)
  qed
qed

lemma protected_writes:
  assumes "redis_server R ks" and "json_codec (x_video X) fits" and "json_codec (x_product X) pfits"
    and "app_ready R ks X fits w" and "\<And>i. pfits (new_product i (cn_id cn) (cn_now cn))"
    and "protected (rq_route rq)" and "serve_protected R X (app_wire R X cfg) rq cn uid w = (resp, w')"
  shows "inserts (\<lambda>d d'. (\<exists>i. rq_route rq = PostVideoR (Inr i) \<and> adds_video uid i (cn_id cn) (cn_now cn) d d')
      \<or> (\<exists>i. rq_route rq = PostProductR (Inr i) \<and> adds_product uid i (cn_id cn) (cn_now cn) d d')) w w'"
proof -
  consider (v) body where "rq_route rq = PostVideoR body" | (p) body where "rq_route rq = PostProductR body"
    | (l) p where "rq_route rq = LikeR p \<or> rq_route rq = UnlikeR p"
    using assms(6) by (cases "rq_route rq") auto
  then show ?thesis
  proof cases
    case v
    obtain r where h: "handle_create_video (x_url X) R (wired_videos R X cfg) uid body (cn_id cn) (cn_now cn) w = (r, w')"
      using assms(7) v by (auto simp: serve_protected_def app_wire_services split: prod.splits)
    show ?thesis
    proof (cases body)
      case (Inl m)
      then show ?thesis using bad_bodies(2) [OF h [unfolded Inl]] by (simp add: inserts_def)
    next
      case (Inr i)
      from handle_create_video_inserts [OF h [unfolded Inr]] show ?thesis using v Inr by (auto simp: inserts_def)
    qed
  next
    case p
    obtain r where h: "handle_create_product (x_url X) R
        (app_product_service R (x_product X) (wired_videos R X cfg) (bc_enabled (cf_bloom cfg))) uid body (cn_id cn) (cn_now cn) w = (r, w')"
      using assms(7) p by (auto simp: serve_protected_def app_wire_services split: prod.splits)
    show ?thesis
    proof (cases body)
      case (Inl m)
      then show ?thesis using bad_bodies(3) [OF h [unfolded Inl]] by (simp add: inserts_def)
    next
      case (Inr i)
      from handle_create_product_inserts [OF assms(1-5) h [unfolded Inr]] show ?thesis using p Inr by (auto simp: inserts_def)
    qed
  next
    case l
    then have "tabs (snd (serve_protected R X (app_wire R X cfg) rq cn uid w)) = tabs w"
      by (auto simp: serve_protected_def answer_snd tabs_snd intro!: then_handle_tabs)
    then show ?thesis using assms(7) by (simp add: inserts_tabs)
  qed
qed

text \<open>
  C7. Who may write what, over the whole router and whatever the links do. A protected route
  without a good token answers 401 and does nothing at all. No request writes ClickHouse. The
  tables of Postgres change in three ways only: a registration adds an account with an email no
  account had; an authenticated caller adds a video owned by the user of the token; an
  authenticated caller adds a product to a video that the user of the token owns and that had
  none. No request updates or removes a row.
\<close>

theorem writes_are_authorised:
  assumes "redis_server R ks" and "json_codec (x_video X) fits" and "json_codec (x_product X) pfits"
    and "app_ready R ks X fits w" and "\<And>i. pfits (new_product i (cn_id cn) (cn_now cn))"
    and "set (cn_deps cn) \<subseteq> set health_deps" and "\<And>x y. cn_pause cn x = Some y \<Longrightarrow> tabs y = tabs x"
    and "serve R X (app_wire R X cfg) rq cn w = (resp, w')"
  defines "auth \<equiv> require_auth (x_jwt X) (app_jwt_service cfg) (cn_now cn) (rq_authorization rq)"
  shows "(protected (rq_route rq) \<longrightarrow> (\<forall>r. auth = Inl r \<longrightarrow> status resp = 401 \<and> w' = w))
    \<and> ch w' = ch w
    \<and> (pg w' = pg w
       \<or> (\<exists>email pw. rq_route rq = RegisterR (Inr (email, pw)) \<and> adds_user email (cn_id cn) (cn_now cn) (pg w) (pg w'))
       \<or> (\<exists>i uid. rq_route rq = PostVideoR (Inr i) \<and> auth = Inr uid
            \<and> adds_video uid i (cn_id cn) (cn_now cn) (pg w) (pg w'))
       \<or> (\<exists>i uid. rq_route rq = PostProductR (Inr i) \<and> auth = Inr uid
            \<and> adds_product uid i (cn_id cn) (cn_now cn) (pg w) (pg w')))"
proof (cases "protected (rq_route rq)")
  case False
  show ?thesis
  proof (cases "\<exists>body. rq_route rq = RegisterR body")
    case False
    then have "tabs w' = tabs w"
      using public_tabs [of rq cn R X cfg w] \<open>\<not> protected (rq_route rq)\<close> assms(6-8) by simp
    then show ?thesis using \<open>\<not> protected (rq_route rq)\<close> by (simp add: tabs_def)
  next
    case True
    then obtain body where b: "rq_route rq = RegisterR body" by blast
    from register_writes [OF b assms(8)] show ?thesis using b by (auto simp: inserts_def)
  qed
next
  case True
  show ?thesis
  proof (cases auth)
    case (Inl r)
    then have "resp = with_data (\<lambda>_. UnitP) r \<and> w' = w"
      using assms(8) True by (auto simp: serve_def auth_mw_def then_handle_def auth_def)
    moreover have "status r = 401" using Inl require_auth_rejects unfolding auth_def by blast
    ultimately show ?thesis using True Inl by (simp add: with_data_def)
  next
    case (Inr uid)
    then have "serve_protected R X (app_wire R X cfg) rq cn uid w = (resp, w')"
      using assms(8) True by (simp add: serve_def auth_mw_def then_handle_def auth_def)
    from protected_writes [OF assms(1-5) True this] show ?thesis using Inr by (auto simp: inserts_def)
  qed
qed

text \<open>An application over the reference services, and a visitor without a token who posts a video.\<close>

definition example_externals :: externals where
  "example_externals = \<lparr>x_drivers = \<lparr>dv_parse_dsn = (\<lambda>_. None), dv_open_pool = (\<lambda>_. None), dv_open_clickhouse = (\<lambda>_. None)\<rparr>,
     x_url = example_url_parse, x_sha = (\<lambda>s. s), x_jwt = ref_jwt, x_bcrypt = ref_bcrypt, x_video = ref_video_codec,
     x_product = ref_product_codec, x_stats = ref_stats_codec, x_cursor = ref_cursor_codec, x_arrange = (\<lambda>vs. vs)\<rparr>"

definition example_chance :: "keyspace chance" where
  "example_chance = \<lparr>cn_now = 0, cn_bucket_ms = 0, cn_stamp_ms = 0, cn_id = 9, cn_salt = [], cn_draws = example_draws,
     cn_lock = ''t'', cn_pause = (\<lambda>w. Some w), cn_likes_first = False, cn_deps = health_deps\<rparr>"

definition anonymous_post :: request where
  "anonymous_post = \<lparr>rq_route = PostVideoR (Inr example_video_input), rq_authorization = [], rq_ip = ''198.51.100.7'',
     rq_user_agent = []\<rparr>"

theorem writes_are_authorised_witness:
  "case serve ref_redis example_externals (app_wire ref_redis example_externals default_config) anonymous_post example_chance
       (example_video_world []) of
     (resp, w') \<Rightarrow> status resp = 401 \<and> w' = example_video_world []"
proof -
  obtain resp w' where run: "serve ref_redis example_externals (app_wire ref_redis example_externals default_config)
      anonymous_post example_chance (example_video_world []) = (resp, w')" by (metis surj_pair)
  have x: "x_video example_externals = ref_video_codec" "x_product example_externals = ref_product_codec"
    by (simp_all add: example_externals_def)
  have "app_ready ref_redis (\<lambda>m. m) example_externals (\<lambda>_. True) (example_video_world [])"
    using example_video_cache_true
    by (simp add: app_ready_def x product_caches_true_def cache_held_def ref_product_codec_def unpack_def)
  note ready = this
  have auth: "require_auth (x_jwt example_externals) (app_jwt_service default_config) (cn_now example_chance)
      (rq_authorization anonymous_post) = Inl (httpx_error 401 ''unauthenticated'' ''missing authorization header'')"
    by (simp add: require_auth_def anonymous_post_def)
  from writes_are_authorised [OF ref_redis.redis_server_axioms _ _ ready _ _ _ run, of "\<lambda>_. True", unfolded x auth]
  have "status resp = 401 \<and> w' = example_video_world []"
    using ref_videos.json_codec_axioms ref_products.json_codec_axioms
    by (auto simp: anonymous_post_def example_chance_def)
  then show ?thesis by (simp add: run)
qed

end
