(* ===== verification/Metrics.thy ===== *)
theory Metrics
  imports App
begin

text \<open>
  \<open>internal/platform/metrics\<close> and \<open>logger\<close>: the Prometheus instruments as a registry, the helpers
  that record business events, and where the services and workers call them. An operation with its
  recording is its model, run beside the registry; what is recorded depends on the same results.
  Counters are natural numbers where Prometheus has doubles, which are exact below \<open>2 ^ 53\<close>;
  durations are arguments. The worker process is in theory WorkerMetrics.
\<close>

section \<open>The instruments\<close>

datatype series =
    HTTPRequestsTotal string string string
  | LikeOperationsTotal string string
  | LikeWorkerApplyTotal string string
  | LikeReconcilerDriftTotal
  | LikeReconcilerCheckedTotal
  | ViewTrackTotal string
  | ViewFilterRejectionsTotal string string
  | ViewWorkerBatchesTotal
  | ViewWorkerInsertErrorsTotal
  | StatsRequestsTotal string
  | StatsLockAcquireTotal string
  | RateLimitHitsTotal string

datatype histogram =
    HTTPRequestDuration string string
  | LikeWorkerApplyDuration string
  | ViewWorkerBatchSize
  | ViewWorkerInsertDuration
  | StatsComputeDuration

datatype gauge =
    HTTPRequestsInFlight
  | RedisStreamLength string
  | RedisStreamPending string string

text \<open>What the program has recorded: for a counter the sum of its increments, for a gauge the value last
  set, for a histogram the observations in order. How the client library stores and exports them
  is not modelled.\<close>

record registry =
  counters :: "series \<Rightarrow> int"
  gauges :: "gauge \<Rightarrow> int"
  observed :: "histogram \<Rightarrow> int list"

definition new_registry :: registry where
  "new_registry = \<lparr>counters = (\<lambda>_. 0), gauges = (\<lambda>_. 0), observed = (\<lambda>_. [])\<rparr>"

definition counter_add :: "series \<Rightarrow> int \<Rightarrow> registry \<Rightarrow> registry" where
  "counter_add s n r = r\<lparr>counters := (counters r)(s := counters r s + n)\<rparr>"

definition gauge_set :: "gauge \<Rightarrow> int \<Rightarrow> registry \<Rightarrow> registry" where
  "gauge_set g n r = r\<lparr>gauges := (gauges r)(g := n)\<rparr>"

definition gauge_add :: "gauge \<Rightarrow> int \<Rightarrow> registry \<Rightarrow> registry" where
  "gauge_add g n r = gauge_set g (gauges r g + n) r"

definition observe :: "histogram \<Rightarrow> int \<Rightarrow> registry \<Rightarrow> registry" where
  "observe h x r = r\<lparr>observed := (observed r)(h := observed r h @ [x])\<rparr>"

lemma registry_simps [simp]:
  "counters (counter_add s n r) = (counters r)(s := counters r s + n)"
  "counters (gauge_set g n r) = counters r" "counters (gauge_add g n r) = counters r"
  "counters (observe h x r) = counters r"
  "gauges (counter_add s n r) = gauges r" "gauges (gauge_set g n r) = (gauges r)(g := n)"
  "gauges (gauge_add g n r) = (gauges r)(g := gauges r g + n)" "gauges (observe h x r) = gauges r"
  "observed (counter_add s n r) = observed r" "observed (gauge_set g n r) = observed r"
  "observed (gauge_add g n r) = observed r" "observed (observe h x r) = (observed r)(h := observed r h @ [x])"
  by (simp_all add: counter_add_def gauge_set_def gauge_add_def observe_def)

section \<open>The helpers\<close>

text \<open>\<open>en\<close> is the package variable \<open>Enabled\<close>.\<close>

definition record_like_op :: "bool \<Rightarrow> string \<Rightarrow> string \<Rightarrow> registry \<Rightarrow> registry" where
  "record_like_op en opr st r = (if \<not> en then r else counter_add (LikeOperationsTotal opr st) 1 r)"

definition record_like_worker_apply :: "bool \<Rightarrow> string \<Rightarrow> bool \<Rightarrow> int \<Rightarrow> registry \<Rightarrow> registry" where
  "record_like_worker_apply en opr changed d r =
     (if \<not> en then r
      else observe (LikeWorkerApplyDuration opr) d
        (counter_add (LikeWorkerApplyTotal opr (if changed then ''true'' else ''false'')) 1 r))"

definition record_view_track :: "bool \<Rightarrow> string \<Rightarrow> registry \<Rightarrow> registry" where
  "record_view_track en res r = (if \<not> en then r else counter_add (ViewTrackTotal res) 1 r)"

definition record_view_filter_reject :: "bool \<Rightarrow> string \<Rightarrow> registry \<Rightarrow> registry" where
  "record_view_filter_reject en rejected_by r =
     (if \<not> en then r
      else (let (filter, reason) = split_rejected_by rejected_by
            in counter_add (ViewFilterRejectionsTotal filter reason) 1 r))"

definition record_view_worker_flush :: "bool \<Rightarrow> nat \<Rightarrow> int \<Rightarrow> bool \<Rightarrow> registry \<Rightarrow> registry" where
  "record_view_worker_flush en n d failed r =
     (if \<not> en then r
      else if failed then counter_add ViewWorkerInsertErrorsTotal 1 r
      else observe ViewWorkerInsertDuration d (observe ViewWorkerBatchSize (int n)
        (counter_add ViewWorkerBatchesTotal 1 r)))"

definition record_stats_result :: "bool \<Rightarrow> string \<Rightarrow> registry \<Rightarrow> registry" where
  "record_stats_result en res r = (if \<not> en then r else counter_add (StatsRequestsTotal res) 1 r)"

definition record_stats_compute :: "bool \<Rightarrow> int \<Rightarrow> registry \<Rightarrow> registry" where
  "record_stats_compute en d r = (if \<not> en then r else observe StatsComputeDuration d r)"

definition record_stats_lock :: "bool \<Rightarrow> string \<Rightarrow> registry \<Rightarrow> registry" where
  "record_stats_lock en res r = (if \<not> en then r else counter_add (StatsLockAcquireTotal res) 1 r)"

definition record_rate_limit :: "bool \<Rightarrow> string \<Rightarrow> registry \<Rightarrow> registry" where
  "record_rate_limit en bucket r = (if \<not> en then r else counter_add (RateLimitHitsTotal bucket) 1 r)"

lemmas record_defs = record_like_op_def record_like_worker_apply_def record_view_track_def
  record_view_filter_reject_def record_view_worker_flush_def record_stats_result_def
  record_stats_compute_def record_stats_lock_def record_rate_limit_def

section \<open>Where they are called: the API\<close>

definition metered_like_apply ::
  "bool \<Rightarrow> ('s, 'z) redis_scheme \<Rightarrow> uuid \<Rightarrow> uuid \<Rightarrow> op \<Rightarrow> int \<Rightarrow> 's world \<times> registry
     \<Rightarrow> like_state result \<times> 's world \<times> registry"
where
  "metered_like_apply en R u v opr now_ms st =
     (let (w, r) = st
      in case redis_call (run_like_script R u v opr now_ms) w of
           (Inl e, w') \<Rightarrow> (Inl (Wrapped ''like script'' e), w', record_like_op en opr ''error'' r)
         | (Inr (Inl msg), w') \<Rightarrow> (Inl (Wrapped ''like script'' (Plain msg)), w', record_like_op en opr ''error'' r)
         | (Inr (Inr (liked, n, s)), w') \<Rightarrow>
             (Inr \<lparr>ls_liked = (liked = 1), ls_count = n\<rparr>, w',
              record_like_op en opr (if s \<noteq> [] then s else ''applied'') r))"

definition metered_track ::
  "bool \<Rightarrow> ('s, 'z) redis_scheme \<Rightarrow> 's world view_service \<Rightarrow> view_input \<Rightarrow> int \<Rightarrow> 's world \<times> registry
     \<Rightarrow> track_result result \<times> 's world \<times> registry"
where
  "metered_track en R svc i ts st =
     (let (w, r) = st; (res, w') = track R svc i ts w
      in (res, w',
          case res of
            Inl e \<Rightarrow> record_view_track en ''error'' r
          | Inr x \<Rightarrow>
              if tr_accepted x then record_view_track en ''accepted'' r
              else record_view_filter_reject en (tr_rejected_by x) (record_view_track en ''rejected'' r)))"

definition metered_rate_limit_mw ::
  "bool \<Rightarrow> string \<Rightarrow> ('s, 'z) redis_scheme \<Rightarrow> mw_config \<Rightarrow> string \<Rightarrow> int \<Rightarrow> 'c \<Rightarrow> 's world \<times> registry
     \<Rightarrow> ('c, 'd) middleware \<times> 's world \<times> registry"
where
  "metered_rate_limit_mw en label R cfg key now c st =
     (let (w, r) = st; (m, w') = rate_limit_mw R cfg key now c w
      in (m, w',
          case fst (bucket_allow R key (mw_policy cfg) 1 now w) of
            Inl e \<Rightarrow> r
          | Inr res \<Rightarrow> if \<not> lb_allowed res \<and> label \<noteq> [] then record_rate_limit en label r else r))"

text \<open>\<open>Get\<close> and \<open>fetch\<close> of the statistics; \<open>took\<close> is the time of the computation.\<close>

definition metered_stats_recompute ::
  "bool \<Rightarrow> ('s, 'z) redis_scheme \<Rightarrow> stats codec \<Rightarrow> 's world stats_service \<Rightarrow> bool \<Rightarrow> uuid \<Rightarrow> string \<Rightarrow> bool \<Rightarrow> gotime
     \<Rightarrow> int \<Rightarrow> 's world \<times> registry \<Rightarrow> stats result \<times> 's world \<times> registry"
where
  "metered_stats_recompute en R C svc likes_first v token got now took st =
     (let (w, r) = st; (res, w') = stats_recompute R C svc likes_first v token got now w;
          r = record_stats_compute en took r
      in (res, w', case res of Inl e \<Rightarrow> r | Inr x \<Rightarrow> record_stats_result en ''computed'' r))"

definition metered_stats_fetch ::
  "bool \<Rightarrow> ('s, 'z) redis_scheme \<Rightarrow> stats codec \<Rightarrow> 's world stats_service \<Rightarrow> ('s world \<Rightarrow> 's world option) \<Rightarrow> bool
     \<Rightarrow> uuid \<Rightarrow> string \<Rightarrow> gotime \<Rightarrow> int \<Rightarrow> 's world \<times> registry \<Rightarrow> stats result \<times> 's world \<times> registry"
where
  "metered_stats_fetch en R C svc pause likes_first v token now took st =
     (let (w, r) = st
      in case ss_exists svc v w of
           (Inl e, w) \<Rightarrow> (Inl (Wrapped ''video exists check'' e), w, r)
         | (Inr False, w) \<Rightarrow> (Inl ErrStatsVideoNotFound, w, record_stats_result en ''not_found'' r)
         | (Inr True, w) \<Rightarrow>
             (let (lock, w) = acquire_lock R (ss_lock_ttl svc) v token w;
                  (got, r) = (case lock of
                      Inl e \<Rightarrow> (False, record_stats_lock en ''error'' r)
                    | Inr (g, t) \<Rightarrow> (g, record_stats_lock en (if g then ''acquired'' else ''contended'') r))
              in if got then metered_stats_recompute en R C svc likes_first v token got now took (w, r)
                 else case pause w of
                        None \<Rightarrow> (Inl (Plain ''context canceled''), w, r)
                      | Some w \<Rightarrow>
                          (case stats_read_cache R C v w of
                             (Some x, w) \<Rightarrow> (Inr x, w, record_stats_result en ''cache_hit'' r)
                           | (None, w) \<Rightarrow> metered_stats_recompute en R C svc likes_first v token got now took (w, r))))"

definition metered_stats_get ::
  "bool \<Rightarrow> ('s, 'z) redis_scheme \<Rightarrow> stats codec \<Rightarrow> 's world stats_service \<Rightarrow> ('s world \<Rightarrow> 's world option) \<Rightarrow> bool
     \<Rightarrow> uuid \<Rightarrow> string \<Rightarrow> gotime \<Rightarrow> int \<Rightarrow> 's world \<times> registry \<Rightarrow> stats result \<times> 's world \<times> registry"
where
  "metered_stats_get en R C svc pause likes_first v token now took st =
     (let (w, r) = st
      in case stats_read_cache R C v w of
           (Some x, w) \<Rightarrow> (Inr x, w, record_stats_result en ''cache_hit'' r)
         | (None, w) \<Rightarrow>
             (let (res, w, r) = metered_stats_fetch en R C svc pause likes_first v token now took (w, r)
              in (res, w,
                  case res of
                    Inl e \<Rightarrow> if \<not> errors_is e ErrStatsVideoNotFound then record_stats_result en ''error'' r else r
                  | Inr x \<Rightarrow> r)))"

text \<open>The recording is transparent: it changes neither an answer nor a store.\<close>

lemma metered_like_apply_same:
  "metered_like_apply en R u v opr ts (w, r) = (a, w', r') \<Longrightarrow> like_apply R u v opr ts w = (a, w')"
  by (auto simp: metered_like_apply_def like_apply_def split: prod.splits sum.splits)

lemma metered_track_same: "metered_track en R svc i ts (w, r) = (a, w', r') \<Longrightarrow> track R svc i ts w = (a, w')"
  by (auto simp: metered_track_def split: prod.splits)

lemma metered_rate_limit_same:
  "metered_rate_limit_mw en lb R cfg key now c (w, r) = (m, w', r') \<Longrightarrow> rate_limit_mw R cfg key now c w = (m, w')"
  by (auto simp: metered_rate_limit_mw_def split: prod.splits)

lemma metered_recompute_same:
  "metered_stats_recompute en R C svc lf v tok got now took (w, r) = (a, w', r') \<Longrightarrow>
     stats_recompute R C svc lf v tok got now w = (a, w')"
  by (auto simp: metered_stats_recompute_def Let_def split: prod.splits)

lemma metered_fetch_same:
  "metered_stats_fetch en R C svc pause lf v tok now took (w, r) = (a, w', r') \<Longrightarrow>
     stats_fetch R C svc pause lf v tok now w = (a, w')"
  by (auto simp: metered_stats_fetch_def stats_fetch_def Let_def metered_recompute_same all_bool_eq
      split: prod.splits sum.splits bool.splits option.splits if_splits)

lemma metered_stats_same:
  "metered_stats_get en R C svc pause lf v tok now took (w, r) = (a, w', r') \<Longrightarrow>
     stats_get R C svc pause lf v tok now w = (a, w')"
  by (auto simp: metered_stats_get_def stats_get_def metered_fetch_same
      split: prod.splits option.splits)

text \<open>A request for statistics is counted once: as a hit, computed, not found or an error. (An error
  that wraps the not-found error of another store would be missed; none does.)\<close>

definition stats_requests :: "registry \<Rightarrow> int" where
  "stats_requests r = (\<Sum>s \<leftarrow> [''cache_hit'', ''computed'', ''not_found'', ''error'']. counters r (StatsRequestsTotal s))"

lemma stats_requests_simps [simp]:
  "stats_requests (record_stats_lock en s r) = stats_requests r"
  "stats_requests (record_stats_compute en d r) = stats_requests r"
  "s \<in> {''cache_hit'', ''computed'', ''not_found'', ''error''} \<Longrightarrow>
     stats_requests (record_stats_result True s r) = stats_requests r + 1"
  by (auto simp: stats_requests_def record_stats_lock_def record_stats_compute_def record_stats_result_def)

lemma recompute_found: "fst (stats_recompute R C svc lf v tok got now w) \<noteq> Inl ErrStatsVideoNotFound"
  by (auto simp: stats_recompute_def stats_compute_def stats_assemble_def Let_def split: prod.splits sum.splits if_splits)

lemma metered_fetch_counts:
  assumes "metered_stats_fetch True R C svc pause lf v tok now took (w, r) = (res, w', r')"
  shows "stats_requests r' = stats_requests r +
    (case res of Inr x \<Rightarrow> 1 | Inl e \<Rightarrow> if e = ErrStatsVideoNotFound then 1 else 0)"
  using assms
  by (auto simp: metered_stats_fetch_def metered_stats_recompute_def Let_def
      split: prod.splits sum.splits bool.splits option.splits if_splits dest: arg_cong [where f = fst] simp: recompute_found)

lemma metered_stats_count:
  assumes "metered_stats_get True R C svc pause lf v tok now took (w, r) = (res, w', r')"
    and "\<And>e. res = Inl e \<Longrightarrow> errors_is e ErrStatsVideoNotFound \<Longrightarrow> e = ErrStatsVideoNotFound"
  shows "stats_requests r' = stats_requests r + 1"
  using assms
  by (auto simp: metered_stats_get_def err_simps dest!: metered_fetch_counts
      split: prod.splits sum.splits option.splits if_splits)

text \<open>A view that a filter refuses is counted under the filter's name and its reason.\<close>

lemma metered_track_rejected:
  assumes "metered_track True R svc i ts (w, r) = (Inr x, w', r')" and "\<not> tr_accepted x"
    and "tr_rejected_by x = name @ '':'' @ reason" and "simple_name name"
  shows "counters r' = (counters r)(ViewTrackTotal ''rejected'' := counters r (ViewTrackTotal ''rejected'') + 1,
      ViewFilterRejectionsTotal name reason := counters r (ViewFilterRejectionsTotal name reason) + 1)"
  using assms split_name_reason [OF assms(4)]
  by (auto simp: metered_track_def record_view_track_def record_view_filter_reject_def split: prod.splits)

section \<open>Links that lose no reply\<close>

text \<open>A call then either happened and answered, or did not happen.\<close>

definition faithful :: "link list \<Rightarrow> bool" where
  "faithful ls \<longleftrightarrow> ReplyLost \<notin> set ls"

lemma faithful_nil [simp]: "faithful []"
  by (simp add: faithful_def)

lemma link_call_faithful:
  "link_call ls f s = (a, s', ls') \<Longrightarrow> faithful ls \<Longrightarrow>
     faithful ls' \<and> (\<forall>e. a = Inl e \<longrightarrow> s' = s)"
  by (cases "(ls, f, s)" rule: link_call.cases) (auto simp: faithful_def split: prod.splits)

lemma redis_call_faithful:
  assumes "redis_call f w = (a, w')" and "faithful (net w)"
  shows "faithful (net w') \<and> (\<forall>e. a = Inl e \<longrightarrow> srv w' = srv w)"
proof -
  obtain s ls where "link_call (net w) f (srv w) = (a, s, ls)" and "w' = w\<lparr>srv := s, net := ls\<rparr>"
    using assms(1) by (auto simp: redis_call_def split: prod.splits)
  then show ?thesis using link_call_faithful assms(2) by fastforce
qed

lemma ch_call_faithful:
  assumes "ch_call f w = (a, w')" and "faithful (chnet w)"
  shows "faithful (chnet w') \<and> (\<forall>e. a = Inl e \<longrightarrow> ch w' = ch w)"
proof -
  obtain s ls where "link_call (chnet w) f (ch w) = (a, s, ls)" and "w' = w\<lparr>ch := s, chnet := ls\<rparr>"
    using assms(1) by (auto simp: ch_call_def split: prod.splits)
  then show ?thesis using link_call_faithful assms(2) by fastforce
qed

lemma pg_exec_faithful:
  assumes "pg_exec f w = (a, w')" and "faithful (pgnet w)"
  shows "faithful (pgnet w') \<and> (f (pg w) = (a, pg w') \<or> (\<exists>e. a = Inl e) \<and> pg w' = pg w)"
proof -
  obtain q s ls where q: "link_call (pgnet w) f (pg w) = (q, s, ls)" by (metis surj_pair)
  then have "w' = w\<lparr>pg := s, pgnet := ls\<rparr>" and "a = (case q of Inl e \<Rightarrow> Inl (ConnErr e) | Inr x \<Rightarrow> x)"
    using assms(1) by (auto simp: pg_exec_def pg_call_def split: prod.splits sum.splits)
  with q link_call_faithful [OF q assms(2)] show ?thesis
    by (cases rule: link_call_cases [OF q]) auto
qed

section \<open>The like metrics and the stream\<close>

fun metered_likes ::
  "bool \<Rightarrow> ('s, 'z) redis_scheme \<Rightarrow> like_request list \<Rightarrow> 's world \<times> registry \<Rightarrow> 's world \<times> registry"
where
  "metered_likes en R [] st = st"
| "metered_likes en R ((u, v, opr, ts) # rs) st = metered_likes en R rs (snd (metered_like_apply en R u v opr ts st))"

definition like_ops :: "string \<Rightarrow> registry \<Rightarrow> int" where
  "like_ops s r = counters r (LikeOperationsTotal OpLike s) + counters r (LikeOperationsTotal OpUnlike s)"

definition like_events :: "keyspace \<Rightarrow> int" where
  "like_events m = int (length (xentries (like_stream m)))"

lemma like_ops_record:
  "opr = OpLike \<or> opr = OpUnlike \<Longrightarrow> like_ops s (record_like_op True opr s' r) = like_ops s r + (if s = s' then 1 else 0)"
  by (auto simp: like_ops_def record_like_op_def)

lemma like_room_less:
  assumes "like_room L (Suc n) m"
  shows "like_room L n m"
proof -
  have "int n - 2 ^ 63 \<le> num_val (m (video_likes_count_key L v)) \<and> num_val (m (video_likes_count_key L v)) + int n < 2 ^ 63" for v
    using assms [unfolded like_room_def, THEN conjunct2, rule_format, of v] by linarith
  then show ?thesis using assms by (simp add: like_room_def)
qed

lemma contract_events:
  "like_contract L u v opr ts m m' \<Longrightarrow>
     like_events m' = like_events m + (if edge_step opr u v (redis_edges L m) = redis_edges L m then 0 else 1)"
  by (cases "edge_step opr u v (redis_edges L m) = redis_edges L m")
    (simp_all add: like_contract_def Let_def like_events_def stream_add_def, force)

text \<open>One request: what is recorded, and by how much the stream grew.\<close>

definition like_recorded :: "('s \<Rightarrow> keyspace) \<Rightarrow> string \<Rightarrow> 's world \<Rightarrow> 's world \<Rightarrow> bool" where
  "like_recorded ks s w w' \<longleftrightarrow> (faithful (net w) \<longrightarrow> faithful (net w'))
     \<and> (s = ''applied'' \<and> like_events (ks (srv w')) = like_events (ks (srv w)) + 1
      \<or> s = ''noop'' \<and> like_events (ks (srv w')) = like_events (ks (srv w))
      \<or> s = ''error'' \<and> like_events (ks (srv w)) \<le> like_events (ks (srv w'))
          \<and> like_events (ks (srv w')) \<le> like_events (ks (srv w)) + 1
          \<and> (faithful (net w) \<longrightarrow> like_events (ks (srv w')) = like_events (ks (srv w))))"

text \<open>The same of \<open>n\<close> requests.\<close>

definition like_metrics_true ::
  "('s \<Rightarrow> keyspace) \<Rightarrow> nat \<Rightarrow> 's world \<Rightarrow> registry \<Rightarrow> 's world \<Rightarrow> registry \<Rightarrow> bool"
where
  "like_metrics_true ks n w r w' r' \<longleftrightarrow>
     (let gained = (\<lambda>s. like_ops s r' - like_ops s r); grown = like_events (ks (srv w')) - like_events (ks (srv w))
      in gained ''applied'' + gained ''noop'' + gained ''error'' = int n
       \<and> gained ''applied'' \<le> grown \<and> grown \<le> gained ''applied'' + gained ''error''
       \<and> (faithful (net w) \<longrightarrow> faithful (net w') \<and> grown = gained ''applied''))"

lemma like_metrics_trans:
  "like_metrics_true ks n w r w1 r1 \<Longrightarrow> like_metrics_true ks k w1 r1 w' r' \<Longrightarrow> like_metrics_true ks (n + k) w r w' r'"
  by (auto simp: like_metrics_true_def Let_def)

lemma like_recorded_true:
  assumes "opr = OpLike \<or> opr = OpUnlike" and "\<exists>s. r' = record_like_op True opr s r \<and> like_recorded ks s w w'"
  shows "like_metrics_true ks 1 w r w' r'"
proof -
  obtain s where s: "r' = record_like_op True opr s r" "like_recorded ks s w w'" using assms(2) by blast
  have "s \<in> {''applied'', ''noop'', ''error''}" using s(2) by (auto simp: like_recorded_def)
  then show ?thesis using s(2) unfolding s(1) like_metrics_true_def like_ops_record [OF assms(1)]
    by (elim insertE) (simp_all add: like_recorded_def)
qed

context redis_server
begin

lemma metered_like_step:
  assumes "like_typed R (ks (srv w))" and "like_room R (Suc n) (ks (srv w))" and "opr = OpLike \<or> opr = OpUnlike"
    and "metered_like_apply True R u v opr ts (w, r) = (a, w', r')"
  shows "\<exists>s. r' = record_like_op True opr s r \<and> like_recorded ks s w w'"
    and "like_typed R (ks (srv w'))" and "like_room R n (ks (srv w'))"
proof -
  define same where "same = (edge_step opr u v (redis_edges R (ks (srv w))) = redis_edges R (ks (srv w)))"
  obtain x s' where run: "run_like_script R u v opr ts (srv w) = (x, s')"
    and x: "\<exists>l c. x = Inr (l, c, if same then ''noop'' else ''applied'')"
    and con: "like_contract R u v opr ts (ks (srv w)) (ks s')"
    using script_contract [OF assms(1-3), of u v ts] unfolding same_def by blast
  obtain y w1 where call: "redis_call (run_like_script R u v opr ts) w = (y, w1)" by (metis surj_pair)
  have ev: "like_events (ks s') = like_events (ks (srv w)) + (if same then 0 else 1)"
    using contract_events [OF con] by (simp add: same_def)
  have w1: "w' = w1" using assms(4) call by (auto simp: metered_like_apply_def split: sum.splits)
  have kept: "like_typed R (ks s')" "like_room R n (ks s')"
    using con contract_room [OF con assms(2)] by (simp_all add: like_contract_def Let_def)
  from call have y: "srv w1 = s' \<and> y = Inr x \<or> (\<exists>e. y = Inl e) \<and> (srv w1 = s' \<or> srv w1 = srv w)"
    by (cases rule: redis_call_cases) (auto simp: run)
  then show "like_typed R (ks (srv w'))" and "like_room R n (ks (srv w'))"
    using assms(1) kept like_room_less [OF assms(2)] unfolding w1 by auto
  have f: "faithful (net w) \<longrightarrow> faithful (net w1)" "faithful (net w) \<longrightarrow> (\<forall>e. y = Inl e \<longrightarrow> srv w1 = srv w)"
    using redis_call_faithful [OF call] by blast+
  show "\<exists>s. r' = record_like_op True opr s r \<and> like_recorded ks s w w'"
  proof (cases y)
    case (Inl e)
    have "like_recorded ks ''error'' w w'" using y ev f Inl unfolding w1 like_recorded_def by (auto split: if_splits)
    then show ?thesis using assms(4) call Inl by (auto simp: metered_like_apply_def)
  next
    case (Inr z)
    have "like_recorded ks (if same then ''noop'' else ''applied'') w w'"
      using y ev f(1) Inr unfolding w1 like_recorded_def by simp
    then show ?thesis using assms(4) call Inr x y by (auto simp: metered_like_apply_def split: if_splits)
  qed
qed

lemma metered_likes_follow:
  assumes "like_typed R (ks (srv w))" and "like_room R (length rs) (ks (srv w))" and "\<forall>q \<in> set rs. valid_request q"
    and "metered_likes True R rs (w, r) = (w', r')"
  shows "like_metrics_true ks (length rs) w r w' r'"
  using assms
proof (induction rs arbitrary: w r)
  case Nil
  then show ?case by (simp add: like_metrics_true_def)
next
  case (Cons q rs)
  obtain u v opr ts where q: "q = (u, v, opr, ts)" by (metis surj_pair)
  obtain a w1 r1 where one: "metered_like_apply True R u v opr ts (w, r) = (a, w1, r1)" by (metis surj_pair)
  have opr: "opr = OpLike \<or> opr = OpUnlike" and room: "like_room R (Suc (length rs)) (ks (srv w))"
    using Cons.prems(2,3) q by simp_all
  note st = metered_like_step [OF Cons.prems(1) room opr one]
  have "metered_likes True R rs (w1, r1) = (w', r')" using Cons.prems(4) q one by simp
  from Cons.IH [OF st(2,3) _ this] Cons.prems(3) have "like_metrics_true ks (length rs) w1 r1 w' r'" by simp
  moreover have "like_metrics_true ks 1 w r w1 r1" using st(1) like_recorded_true [OF opr] by blast
  ultimately show ?case using like_metrics_trans by fastforce
qed

end

section \<open>The logger\<close>

datatype log_level = LevelDebug | LevelInfo | LevelWarn | LevelError

definition parse_level :: "string \<Rightarrow> log_level" where
  "parse_level s =
     (let l = to_lower s
      in if l = ''debug'' then LevelDebug
         else if l \<in> {''warn'', ''warning''} then LevelWarn
         else if l \<in> {''error'', ''err''} then LevelError
         else LevelInfo)"

text \<open>\<open>slog\<close> drops the records below the handler's level.\<close>

fun level_rank :: "log_level \<Rightarrow> nat" where
  "level_rank LevelDebug = 0" | "level_rank LevelInfo = 1" | "level_rank LevelWarn = 2" | "level_rank LevelError = 3"

fun severity_level :: "severity \<Rightarrow> log_level" where
  "severity_level LogInfo = LevelInfo" | "severity_level LogWarn = LevelWarn" | "severity_level LogError = LevelError"

definition access_logged :: "string \<Rightarrow> nat \<Rightarrow> bool" where
  "access_logged level st \<longleftrightarrow> level_rank (parse_level level) \<le> level_rank (severity_level (access_log_level st))"

text \<open>No configured level hides a server error.\<close>

lemma server_errors_are_logged: "500 \<le> st \<Longrightarrow> access_logged level st"
  by (simp add: access_logged_def access_log_level_def parse_level_def Let_def)

section \<open>The HTTP middleware\<close>

text \<open>\<open>c.FullPath()\<close> is the pattern a route was registered with, not the path of the request.\<close>

fun full_path :: "route \<Rightarrow> string" where
  "full_path HealthR = ''/health''"
| "full_path ReadyR = ''/ready''"
| "full_path (RegisterR b) = ''/auth/register''"
| "full_path (LoginR b) = ''/auth/login''"
| "full_path (RefreshR b) = ''/auth/refresh''"
| "full_path (LogoutR b) = ''/auth/logout''"
| "full_path (GetVideoR p) = ''/videos/:id''"
| "full_path (GetVideoProductR p) = ''/videos/:id/product''"
| "full_path (GetProductR p) = ''/products/:id''"
| "full_path (GetFeedR c l) = ''/feed''"
| "full_path (PostVideoR b) = ''/videos''"
| "full_path (PostProductR b) = ''/products''"
| "full_path (LikeR p) = ''/videos/:id/like''"
| "full_path (UnlikeR p) = ''/videos/:id/unlike''"
| "full_path (ViewR p b) = ''/videos/:id/view''"
| "full_path (StatsR p) = ''/videos/:id/stats''"

fun http_method :: "route \<Rightarrow> string" where
  "http_method HealthR = ''GET''"
| "http_method ReadyR = ''GET''"
| "http_method (GetVideoR p) = ''GET''"
| "http_method (GetVideoProductR p) = ''GET''"
| "http_method (GetProductR p) = ''GET''"
| "http_method (GetFeedR c l) = ''GET''"
| "http_method (StatsR p) = ''GET''"
| "http_method _ = ''POST''"

text \<open>Before and after \<open>c.Next()\<close>.\<close>

definition http_begin :: "bool \<Rightarrow> registry \<Rightarrow> registry" where
  "http_begin en r = (if \<not> en then r else gauge_add HTTPRequestsInFlight 1 r)"

definition http_end :: "bool \<Rightarrow> string \<Rightarrow> string \<Rightarrow> nat \<Rightarrow> int \<Rightarrow> registry \<Rightarrow> registry" where
  "http_end en method path st took r =
     (if \<not> en then r
      else (let path = (if path = [] then ''unknown'' else path)
            in observe (HTTPRequestDuration method path) took
                 (counter_add (HTTPRequestsTotal method path (format_int (int st))) 1
                   (gauge_add HTTPRequestsInFlight (- 1) r))))"

definition metered_serve ::
  "bool \<Rightarrow> ('s, 'z) redis_scheme \<Rightarrow> externals \<Rightarrow> 's application \<Rightarrow> request \<Rightarrow> 's chance \<Rightarrow> int \<Rightarrow> 's world \<times> registry
     \<Rightarrow> payload response \<times> 's world \<times> registry"
where
  "metered_serve en R X a rq cn took st =
     (let (w, r) = st; r = http_begin en r; (resp, w) = serve R X a rq cn w
      in (resp, w, http_end en (http_method (rq_route rq)) (full_path (rq_route rq)) (status resp) took r))"

text \<open>Whatever ids and tokens a request carries, it is counted under one of the sixteen patterns of
  the router, once, with the status it was answered; and the gauge returns to where it was.\<close>

lemma full_path_known:
  "full_path rt \<in> {''/health'', ''/ready'', ''/auth/register'', ''/auth/login'', ''/auth/refresh'', ''/auth/logout'',
     ''/videos/:id'', ''/videos/:id/product'', ''/products/:id'', ''/feed'', ''/videos'', ''/products'',
     ''/videos/:id/like'', ''/videos/:id/unlike'', ''/videos/:id/view'', ''/videos/:id/stats''}"
  by (cases rt) simp_all

lemma full_path_not_empty [simp]: "full_path rt \<noteq> []"
  by (cases rt) simp_all

lemma metered_serve_counts:
  assumes "metered_serve True R X a rq cn took (w, r) = (resp, w', r')"
  shows "gauges r' = gauges r"
    and "counters r' = (counters r)(HTTPRequestsTotal (http_method (rq_route rq)) (full_path (rq_route rq)) (format_int (int (status resp)))
      := counters r (HTTPRequestsTotal (http_method (rq_route rq)) (full_path (rq_route rq)) (format_int (int (status resp)))) + 1)"
    and "serve R X a rq cn w = (resp, w')"
  using assms by (auto simp: metered_serve_def http_begin_def http_end_def Let_def split: prod.splits)

section \<open>The stream gauges\<close>

text \<open>The two commands of the collector; \<open>None\<close> is an error reply (a key of another type, no such
  group).\<close>

record 's redis_monitor =
  mXLEN :: "string \<Rightarrow> 's \<Rightarrow> nat option"
  mXPENDING :: "string \<Rightarrow> string \<Rightarrow> 's \<Rightarrow> nat option"

locale redis_monitor = redis_server R ks for R :: "('s, 'z) redis_scheme" and ks +
  fixes M :: "'s redis_monitor"
  assumes xlen: "is_stream (ks s k) \<Longrightarrow> mXLEN M k s = Some (length (xentries (stream_val (ks s k))))"
    and xpending: "is_stream (ks s k) \<Longrightarrow>
      mXPENDING M k g s = map_option (\<lambda>x. length (snd x)) (xgroups (stream_val (ks s k)) g)"

definition ref_monitor :: "keyspace redis_monitor" where
  "ref_monitor = \<lparr>mXLEN = (\<lambda>k m. Some (length (xentries (stream_val (m k))))),
     mXPENDING = (\<lambda>k g m. map_option (\<lambda>x. length (snd x)) (xgroups (stream_val (m k)) g))\<rparr>"

interpretation ref_monitor: redis_monitor ref_redis "\<lambda>m. m" ref_monitor
  by unfold_locales (simp_all add: ref_monitor_def)

definition collector_interval :: "int \<Rightarrow> int" where
  "collector_interval i = (if i \<le> 0 then 15 * second else i)"

definition poll_stream :: "'s redis_monitor \<Rightarrow> string \<Rightarrow> string \<Rightarrow> 's world \<times> registry \<Rightarrow> 's world \<times> registry" where
  "poll_stream M grp k st =
     (let (w, r) = st;
          (a, w) = redis_call (reading (mXLEN M k)) w;
          r = (case a of Inr (Some n) \<Rightarrow> gauge_set (RedisStreamLength k) (int n) r | _ \<Rightarrow> r)
      in if grp = [] then (w, r)
         else (let (b, w) = redis_call (reading (mXPENDING M k grp)) w
               in (w, case b of Inr (Some n) \<Rightarrow> gauge_set (RedisStreamPending k grp) (int n) r | _ \<Rightarrow> r)))"

definition poll_streams :: "'s redis_monitor \<Rightarrow> string \<Rightarrow> 's world \<times> registry \<Rightarrow> 's world \<times> registry" where
  "poll_streams M grp st = fold (poll_stream M grp) [like_stream_key, view_stream_key] st"

context redis_monitor
begin

text \<open>A poll changes no store, and with the link up shows the length and the pending entries of the
  stream; a later poll of the other stream leaves the gauges alone.\<close>

lemma poll_stream_up:
  assumes "net w = []" and "is_stream (ks (srv w) k)" and "xgroups (stream_val (ks (srv w) k)) g \<noteq> None" and "g \<noteq> []"
  shows "\<exists>r'. poll_stream M g k (w, r) = (w, r')
    \<and> gauges r' (RedisStreamLength k) = int (length (xentries (stream_val (ks (srv w) k))))
    \<and> gauges r' (RedisStreamPending k g) = int (length (stream_pending g (stream_val (ks (srv w) k))))"
  using assms xlen [of "srv w" k] xpending [of "srv w" k g]
  by (auto simp: poll_stream_def redis_call_up Let_def stream_pending_def)

lemma poll_stream_other:
  assumes "k' \<noteq> k"
  shows "gauges (snd (poll_stream M g k st)) (RedisStreamLength k') = gauges (snd st) (RedisStreamLength k')"
    and "gauges (snd (poll_stream M g k st)) (RedisStreamPending k' g) = gauges (snd st) (RedisStreamPending k' g)"
  using assms by (auto simp: poll_stream_def Let_def split: prod.splits sum.splits option.splits)

lemma poll_likes:
  assumes "net w = []" and "like_ready c (ks (srv w))" and "wc_group c \<noteq> []"
  shows "gauges (snd (poll_streams M (wc_group c) (w, r))) (RedisStreamLength like_stream_key)
      = like_events (ks (srv w))"
    and "gauges (snd (poll_streams M (wc_group c) (w, r))) (RedisStreamPending like_stream_key (wc_group c))
      = int (length (stream_pending (wc_group c) (like_stream (ks (srv w)))))"
proof -
  obtain r1 where one: "poll_stream M (wc_group c) like_stream_key (w, r) = (w, r1)"
    and g: "gauges r1 (RedisStreamLength like_stream_key) = int (length (xentries (stream_val (ks (srv w) like_stream_key))))"
      "gauges r1 (RedisStreamPending like_stream_key (wc_group c)) =
        int (length (stream_pending (wc_group c) (stream_val (ks (srv w) like_stream_key))))"
    using poll_stream_up [of w like_stream_key "wc_group c" r] assms by (auto simp: like_ready_def like_stream_def)
  have apart: "like_stream_key \<noteq> view_stream_key" by (simp add: like_stream_key_def view_stream_key_def)
  show "gauges (snd (poll_streams M (wc_group c) (w, r))) (RedisStreamLength like_stream_key) = like_events (ks (srv w))"
    "gauges (snd (poll_streams M (wc_group c) (w, r))) (RedisStreamPending like_stream_key (wc_group c))
      = int (length (stream_pending (wc_group c) (like_stream (ks (srv w)))))"
    using g poll_stream_other [OF apart, of "wc_group c" "(w, r1)"]
    by (simp_all add: poll_streams_def one like_events_def like_stream_def)
qed

end

text \<open>Passes leave a link that is up as it is.\<close>

lemma like_process_net:
  assumes "net w = []"
  shows "net (like_process R pg_like_repo c clk m w) = []"
proof (cases "like_parse_event R m")
  case None
  then show ?thesis using assms by (simp add: like_process_def like_ack_def redis_call_up)
next
  case (Some ev)
  obtain x w1 where call: "repo_apply pg_like_repo (le_user_id ev) (le_video_id ev) (le_op ev) (clk (fst m)) w = (x, w1)"
    by (metis surj_pair)
  have "net w1 = []"
    using pg_likes.apply_frame(2) [of "le_user_id ev" "le_video_id ev" "le_op ev" "clk (fst m)" w] call assms by simp
  then show ?thesis using Some call by (simp add: like_process_def like_ack_def redis_call_up split: sum.split)
qed

lemma like_pass_net: "net w = [] \<Longrightarrow> net (like_pass R pg_like_repo c clk w) = []"
proof -
  have fold: "net x = [] \<Longrightarrow> net (fold (like_process R pg_like_repo c clk) es x) = []" for es x
    by (induction es arbitrary: x) (simp_all add: like_process_net)
  assume "net w = []"
  then show ?thesis by (simp add: like_pass_def like_read_def redis_call_up fold)
qed

lemma like_passes_net: "net w = [] \<Longrightarrow> net (like_passes R pg_like_repo c clk n w) = []"
  by (induction n arbitrary: w) (simp_all add: like_pass_net)

section \<open>Properties\<close>

text \<open>
  C21. The like metrics account for the stream: over any sequence of likes and unlikes and any
  outages, every request is counted once as applied, noop or error; what is counted as applied is
  in the stream, and what is in the stream is counted as applied or, when the reply was lost, as an
  error. Where no reply is lost, applied is exactly the growth of the stream.
\<close>

theorem like_metrics_account_for_the_stream:
  assumes "redis_server R ks" and "like_typed R (ks (srv w))" and "like_room R (length rs) (ks (srv w))"
    and "\<forall>q \<in> set rs. valid_request q" and "metered_likes True R rs (w, r) = (w', r')"
  defines "gained \<equiv> \<lambda>s. like_ops s r' - like_ops s r" and "grown \<equiv> like_events (ks (srv w')) - like_events (ks (srv w))"
  shows "gained ''applied'' + gained ''noop'' + gained ''error'' = int (length rs)
    \<and> gained ''applied'' \<le> grown \<and> grown \<le> gained ''applied'' + gained ''error''
    \<and> (faithful (net w) \<longrightarrow> grown = gained ''applied'')"
  using redis_server.metered_likes_follow [OF assms(1-5)]
  by (simp add: like_metrics_true_def Let_def gained_def grown_def)

definition some_likes :: "like_request list" where
  "some_likes = [(1, 7, OpLike, 0), (1, 7, OpLike, 1), (2, 7, OpLike, 2), (1, 7, OpUnlike, 3)]"

theorem like_metrics_account_for_the_stream_witness:
  "case metered_likes True ref_redis some_likes ((new_world (\<lambda>_. None))\<lparr>net := [Up, Up, Refused]\<rparr>, new_registry) of
     (w', r') \<Rightarrow> like_ops ''applied'' r' + like_ops ''noop'' r' + like_ops ''error'' r' = 4
       \<and> like_events (srv w') = like_ops ''applied'' r'"
proof -
  let ?w = "(new_world (\<lambda>_. None))\<lparr>net := [Up, Up, Refused]\<rparr> :: keyspace world"
  obtain w' r' where run: "metered_likes True ref_redis some_likes (?w, new_registry) = (w', r')" by (metis surj_pair)
  have start: "like_typed ref_redis (srv ?w)" "like_room ref_redis (length some_likes) (srv ?w)"
    using no_likes(1) by (simp_all add: new_world_def like_room_def like_stream_def empty_stream_def like_stream_max_len_def some_likes_def)
  have ok: "\<forall>q \<in> set some_likes. valid_request q" by (simp add: some_likes_def)
  show ?thesis
    using like_metrics_account_for_the_stream [OF ref_redis.redis_server_axioms start ok run] run
    by (simp add: some_likes_def new_registry_def like_ops_def faithful_def new_world_def like_events_def like_stream_def
        empty_stream_def)
qed



end
