(* ===== verification/Frames.thy ===== *)
theory Frames
  imports App
begin

text \<open>
  Which operations leave the login bucket of a client address alone, whatever the links do: all of
  them but the login limiter itself. Each fact comes in the two forms of theory Tables, collected
  in \<open>login_snd\<close> and \<open>login_res\<close>. Together they say that no other route can be used to empty or to
  fill the bucket.
\<close>

named_theorems login_snd "the login bucket after a call"
named_theorems login_res "the login bucket after a call whose result is named"
named_theorems login_apart "keys that are no login bucket"

definition login_entry :: "('s \<Rightarrow> keyspace) \<Rightarrow> string \<Rightarrow> 's world \<Rightarrow> entry option" where
  "login_entry ks ip w = ks (srv w) (login_bucket_key ip)"

lemma keys_apart [login_apart]:
  "login_bucket_key ip \<noteq> user_liked_set_key L u"
  "login_bucket_key ip \<noteq> video_likes_count_key L v"
  "login_bucket_key ip \<noteq> like_stream_key"
  "login_bucket_key ip \<noteq> view_stream_key"
  "login_bucket_key ip \<noteq> view_bucket_key L i"
  "login_bucket_key ip \<noteq> like_bucket_key L u p"
  "login_bucket_key ip \<noteq> duration_key L v"
  "login_bucket_key ip \<noteq> unique_key L i"
  "login_bucket_key ip \<noteq> stats_cache_key L v"
  "login_bucket_key ip \<noteq> stats_lock_key L v"
  "login_bucket_key ip \<noteq> video_cache_key k"
  "login_bucket_key ip \<noteq> product_cache_key k"
  "login_bucket_key ip \<noteq> product_by_video_cache_key k"
  "login_bucket_key ip \<noteq> refresh_key k"
  "login_bucket_key ip \<noteq> refresh_user_index_key L u"
  "login_bucket_key ip \<noteq> bloom_key_emails"
  "login_bucket_key ip \<noteq> bloom_key_product_videos"
  "login_bucket_key ip \<noteq> feed_global_key"
  by (simp_all add: login_bucket_key_def user_liked_set_key_def video_likes_count_key_def like_stream_key_def
      view_stream_key_def view_bucket_key_def like_bucket_key_def duration_key_def unique_key_def stats_cache_key_def
      stats_lock_key_def video_cache_key_def product_cache_key_def product_by_video_cache_key_def refresh_key_def
      refresh_user_index_key_def bloom_key_emails_def bloom_key_product_videos_def feed_global_key_def)

locale login_frame = redis_server R ks for R :: "('s, 'z) redis_scheme" and ks +
  fixes ip :: string
begin

abbreviation kept where
  "kept w w' \<equiv> login_entry ks ip w' = login_entry ks ip w"

lemma named_kept: "(\<And>w. kept w (snd (f w))) \<Longrightarrow> f w = (r, w') \<Longrightarrow> kept w w'"
  by (metis snd_conv)

lemma call_kept: "f w = (r, w') \<Longrightarrow> kept w (snd (f w)) \<Longrightarrow> kept w w'"
  by simp

section \<open>Single calls\<close>

lemma redis_call_kept:
  assumes "\<And>s. ks (snd (f s)) (login_bucket_key ip) = ks s (login_bucket_key ip)"
  shows "kept w (snd (redis_call f w))"
proof -
  obtain r w' where c: "redis_call f w = (r, w')" by (metis surj_pair)
  from c show ?thesis
    by (cases rule: redis_call_cases) (use assms [of "srv w"] in \<open>auto simp: login_entry_def c\<close>)
qed

lemma other_calls_kept [login_snd]:
  "kept w (snd (pg_call g w))" "kept w (snd (pg_exec h w))" "kept w (snd (ch_call c w))"
  by (simp_all add: login_entry_def pg_call_frame pg_exec_frame ch_call_frame)

lemma command_calls_kept [login_snd]:
  "kept w (snd (redis_call (reading f) w))"
  "login_bucket_key ip \<noteq> k \<Longrightarrow> kept w (snd (redis_call (writing (rSET R k v t)) w))"
  "login_bucket_key ip \<noteq> k \<Longrightarrow> kept w (snd (redis_call (writing (rDEL R k)) w))"
  "login_bucket_key ip \<noteq> k \<Longrightarrow> kept w (snd (redis_call (rSETNX R k v t) w))"
  "login_bucket_key ip \<noteq> k \<Longrightarrow> kept w (snd (redis_call (rXADD R k n ff) w))"
  "login_bucket_key ip \<noteq> k \<Longrightarrow> kept w (snd (redis_call (writing (rBFADD R k xs)) w))"
  "login_bucket_key ip \<noteq> k \<Longrightarrow> kept w (snd (redis_call (writing (\<lambda>s. rEXPIRE R k n (rSADD R k x s))) w))"
  "login_bucket_key ip \<noteq> k \<Longrightarrow>
     kept w (snd (redis_call (writing (\<lambda>s. rZREMRANGEBYRANK R k a b (rZADD R k es s))) w))"
  "login_bucket_key ip \<noteq> k \<Longrightarrow> kept w (snd (redis_call (writing (release_lock_script R k tok)) w))"
  "login_bucket_key ip \<noteq> k \<Longrightarrow>
     kept w (snd (redis_call (leaky_bucket_script R k cap leak now cost ttl) w))"
  by (rule redis_call_kept; auto simp: set del setnx own_key zset_frame expire release_lock_script_def
        leaky_bucket_script_def Let_def split: if_splits)+

lemma like_call_kept [login_snd]: "kept w (snd (redis_call (run_like_script R u v opr ts) w))"
proof (rule redis_call_kept)
  fix s
  note a = login_apart [of ip]
  show "ks (snd (run_like_script R u v opr ts s)) (login_bucket_key ip) = ks s (login_bucket_key ip)"
    by (auto simp: run_like_script_def like_script_def Let_def own_key set a split: prod.splits if_splits
        dest!: arg_cong [of _ _ snd])
qed

lemmas call_res [login_res] =
  call_kept [of "pg_call g" for g, OF _ other_calls_kept(1)] call_kept [of "pg_exec g" for g, OF _ other_calls_kept(2)]
  call_kept [of "ch_call g" for g, OF _ other_calls_kept(3)]
  call_kept [of "redis_call (reading g)" for g, OF _ command_calls_kept(1)]
  call_kept [of "redis_call (run_like_script R u v opr ts)" for u v opr ts, OF _ like_call_kept]
  call_kept [of "redis_call (writing (rSET R k v t))" for k v t, OF _ command_calls_kept(2)]
  call_kept [of "redis_call (rSETNX R k v t)" for k v t, OF _ command_calls_kept(4)]
  call_kept [of "redis_call (rXADD R k n ff)" for k n ff, OF _ command_calls_kept(5)]
  call_kept [of "redis_call (writing (rBFADD R k xs))" for k xs, OF _ command_calls_kept(6)]
  call_kept [of "redis_call (writing (\<lambda>s. rEXPIRE R k n (rSADD R k x s)))" for k n x, OF _ command_calls_kept(7)]
  call_kept [of "redis_call (leaky_bucket_script R k cap leak now cost ttl)" for k cap leak now cost ttl,
    OF _ command_calls_kept(10)]

section \<open>Caches, videos, products, the feed\<close>

lemma json_get_kept:
  "login_bucket_key ip \<noteq> kf k \<Longrightarrow> kept w (snd (json_get R C kf k w))"
  by (auto simp: json_get_def login_snd split: prod.splits sum.splits option.splits dest!: login_res)

lemma json_set_kept:
  "login_bucket_key ip \<noteq> kf k \<Longrightarrow> kept w (snd (json_set R C kf ttl k v w))"
  by (auto simp: json_set_def login_snd split: prod.splits sum.splits option.splits dest!: login_res)

lemma read_through_kept:
  assumes "\<And>w. kept w (snd (load w))" and "\<And>k. login_bucket_key ip \<noteq> kf k"
  shows "kept w (snd (read_through (Some (json_cache_ops R C kf ttl)) k load key_of w))"
  by (auto simp: read_through_def json_cache_ops_def Let_def json_set_kept [where kf = kf, OF assms(2)]
      split: prod.splits sum.splits option.splits
      dest!: named_kept [OF assms(1)] named_kept [OF json_get_kept [where kf = kf, OF assms(2)]])

lemma pg_finds_kept [login_snd]:
  "kept w (snd (pg_find_video v w))" "kept w (snd (select_product f msg w))" "kept w (snd (pg_feed_page c i n w))"
  "kept w (snd (pg_find_videos arrange is w))" "kept w (snd (select_user g umsg w))" "kept w (snd (pg_count v w))"
  "kept w (snd (ch_counts v w))"
  by (auto simp: pg_find_video_def select_product_def pg_feed_page_def pg_find_videos_def select_user_def pg_count_def
      ch_counts_def split: prod.splits sum.splits pgerr.splits if_splits dest!: login_res)

lemma video_get_kept [login_snd]:
  "kept w (snd (video_get R (app_video_service R C arrange ttl hook) i w))"
  by (simp add: video_get_def app_video_service_def pg_video_repo_def read_through_kept login_snd login_apart)

lemmas video_res [login_res] = named_kept [OF pg_finds_kept(1)] named_kept [OF video_get_kept]

lemma video_uses_kept [login_snd]:
  "kept w (snd (video_is_present R (app_video_service R C arrange ttl hook) i w))"
  "kept w (snd (assert_owner R (app_video_service R C arrange ttl hook) i u w))"
  "kept w (snd (handle_get_video R (app_video_service R C arrange ttl hook) p w))"
  by (auto simp: video_is_present_def assert_owner_def handle_get_video_def
      split: prod.splits sum.splits option.splits dest!: login_res)

lemma product_get_kept [login_snd]:
  "kept w (snd (product_get_by_id R (app_product_service R C vsvc b) i w))"
  "kept w (snd (product_get_by_video R (app_product_service R C vsvc b) i w))"
  by (simp_all add: product_get_by_id_def product_get_by_video_def app_product_service_def pg_product_repo_def
      pg_find_product_def pg_find_product_by_video_def read_through_kept login_snd login_apart)

lemmas product_res [login_res] = named_kept [OF product_get_kept(1)] named_kept [OF product_get_kept(2)]
  named_kept [OF video_uses_kept(1)] named_kept [OF pg_finds_kept(3)] named_kept [OF pg_finds_kept(4)]
  named_kept [OF pg_finds_kept(5)] named_kept [OF pg_finds_kept(6)] named_kept [OF pg_finds_kept(7)]

lemma handle_get_product_kept [login_snd]:
  "kept w (snd (handle_get_product R (app_product_service R C vsvc b) p w))"
  "kept w (snd (handle_get_product_by_video R (app_product_service R C vsvc b) p w))"
  by (auto simp: handle_get_product_def handle_get_product_by_video_def
      split: prod.splits sum.splits option.splits dest!: login_res)

lemma fetch_kept:
  "kept w (snd (pull_fetch C pg_feed_page cur n w))"
  "kept w (snd (push_fetch R C (pg_find_videos arrange) cur n w))"
  by (auto simp: pull_fetch_def push_fetch_def Let_def split: prod.splits sum.splits dest!: login_res)

lemma handle_feed_kept:
  assumes "\<And>cur n w. kept w (snd (fetch cur n w))"
  shows "kept w (snd (handle_feed C fetch h c l w))"
  using assms by (auto simp: handle_feed_def split: prod.splits sum.splits option.splits) (metis snd_conv)+

section \<open>Accounts\<close>

lemma refresh_kept [login_snd]:
  "kept w (snd (refresh_issue R uid ttl fresh b w))"
  "kept w (snd (refresh_validate R t w))"
  "kept w (snd (refresh_revoke R t w))"
proof -
  show "kept w (snd (refresh_issue R uid ttl fresh b w))"
    by (auto simp: refresh_issue_def Let_def login_snd login_apart split: prod.splits sum.splits dest!: login_res)
  show "kept w (snd (refresh_validate R t w))"
    by (auto simp: refresh_validate_def Let_def split: prod.splits sum.splits option.splits if_splits dest!: login_res)
  show "kept w (snd (refresh_revoke R t w))"
    by (auto simp: refresh_revoke_def login_snd login_apart split: prod.splits option.splits)
qed

lemmas refresh_res [login_res] = named_kept [OF refresh_kept(1)] named_kept [OF refresh_kept(2)]
  named_kept [OF refresh_kept(3)]

lemma issue_tokens_kept [login_snd]: "kept w (snd (issue_tokens J (app_auth_service R jwt cost ttl b) u dr w))"
  by (auto simp: issue_tokens_def app_auth_service_def new_auth_service_def redis_refresh_store_def
      split: prod.splits sum.splits dest!: login_res)

lemmas issue_res [login_res] = named_kept [OF issue_tokens_kept]

lemma bloom_kept [login_snd]:
  "kept w (snd (bf_may_contain R k x w))"
  "login_bucket_key ip \<noteq> k \<Longrightarrow> kept w (snd (bf_add R k x w))"
  by (auto simp: bf_may_contain_def bf_add_def split: prod.splits sum.splits dest!: login_res)

lemma email_filter_kept:
  "kept w (snd (email_maybe_taken (app_auth_service R jwt cost ttl b) n w))"
  "kept w (record_email (app_auth_service R jwt cost ttl b) n w)"
  by (auto simp: email_maybe_taken_def record_email_def app_auth_service_def new_auth_service_def redis_bloom_def
      login_snd login_apart split: if_splits prod.splits sum.splits dest!: named_kept [OF bloom_kept(1)])

lemma create_user_kept: "kept w (snd (pg_create_user email h fresh now w))"
  using pg_create_user_cases(1) [of email h fresh now w] by (simp add: login_entry_def) (metis surj_pair snd_conv)

lemma account_kept [login_snd]:
  "kept w (snd (handle_login J B (app_auth_service R jwt cost ttl b) body dr w))"
  "kept w (snd (handle_refresh J (app_auth_service R jwt cost ttl b) rbody dr w))"
  "kept w (snd (handle_logout (app_auth_service R jwt cost ttl b) rbody w))"
  "kept w (snd (handle_register B (app_auth_service R jwt cost ttl b) body salt fresh now w))"
proof -
  have s: "as_users (app_auth_service R jwt cost ttl b) = pg_user_repo"
    "as_refresh (app_auth_service R jwt cost ttl b) = redis_refresh_store R"
    by (simp_all add: app_auth_service_def new_auth_service_def)
  note d = handle_login_def auth_login_def handle_refresh_def auth_refresh_def handle_logout_def auth_logout_def
    handle_register_def auth_register_def s pg_user_repo_def pg_find_user_by_email_def redis_refresh_store_def
  show "kept w (snd (handle_login J B (app_auth_service R jwt cost ttl b) body dr w))"
    by (auto simp: d split: prod.splits sum.splits if_splits dest!: login_res)
  show "kept w (snd (handle_refresh J (app_auth_service R jwt cost ttl b) rbody dr w))"
    by (auto simp: d login_snd split: prod.splits sum.splits dest!: login_res)
  show "kept w (snd (handle_logout (app_auth_service R jwt cost ttl b) rbody w))"
    by (auto simp: d split: prod.splits sum.splits dest!: login_res)
  show "kept w (snd (handle_register B (app_auth_service R jwt cost ttl b) body salt fresh now w))"
    by (auto simp: d Let_def email_filter_kept split: prod.splits sum.splits option.splits
        dest!: named_kept [OF email_filter_kept(1)] named_kept [OF create_user_kept])
qed

section \<open>Likes, views, statistics\<close>

lemma like_handlers_kept [login_snd]:
  "kept w (snd (handle_like R u p ts w))"
  "kept w (snd (handle_unlike R u p ts w))"
  by (auto simp: handle_like_def handle_unlike_def service_like_def service_unlike_def like_apply_def
      split: prod.splits sum.splits dest!: login_res)

lemma bucket_allow_kept:
  "login_bucket_key ip \<noteq> k \<Longrightarrow> kept w (snd (bucket_allow R k p cost now w))"
  by (auto simp: bucket_allow_def split: prod.splits sum.splits dest!: login_res)

lemma rate_limit_kept:
  "login_bucket_key ip \<noteq> k \<Longrightarrow> kept w (snd (rate_limit_mw R cfg k now c w))"
  by (auto simp: rate_limit_mw_def Let_def split: prod.splits sum.splits
      dest!: call_kept [OF _ bucket_allow_kept])

definition apart_filter :: "'s world filter \<Rightarrow> bool" where
  "apart_filter f \<longleftrightarrow> (\<forall>i w. kept w (snd (f_allow f i w)))"

lemma chain_kept: "\<forall>f \<in> set fs. apart_filter f \<Longrightarrow> kept w (snd (chain_apply fs i w))"
proof (induction fs arbitrary: w)
  case (Cons f fs)
  obtain ok reason w1 where f: "f_allow f i w = ((ok, reason), w1)" by (metis surj_pair)
  then have "kept w w1" using Cons.prems by (metis list.set_intros(1) apart_filter_def snd_conv)
  then show ?case using f Cons by simp
qed simp

lemma app_filters_apart: "apart_filter (watch_threshold_filter cfg)" "apart_filter (duration_rate_filter R cfg fo now)"
  by (auto simp: apart_filter_def watch_threshold_filter_def duration_rate_filter_def Let_def login_apart
      split: prod.splits sum.splits option.splits dest!: call_kept [OF _ bucket_allow_kept])

lemma duration_kept [login_snd]:
  "kept w (snd (redis_duration_get R v w))" "kept w (snd (redis_duration_set R ttl v d w))"
  by (auto simp: redis_duration_get_def redis_duration_set_def login_snd login_apart
      split: prod.splits sum.splits option.splits dest!: login_res)

lemmas duration_res [login_res] = named_kept [OF duration_kept(1)]

lemma app_views_kept: "kept w (snd (handle_track R sha (app_view_service R cfg now) p addr ua body viewer ts w))"
proof -
  have "\<forall>f \<in> set (vs_chain (app_view_service R cfg now)). apart_filter f"
    by (simp add: app_view_service_def app_filters_apart)
  note c = named_kept [OF chain_kept [OF this]]
  have d: "vs_durations (app_view_service R cfg now) = redis_duration_store R (vwc_duration_cache_ttl (cf_view cfg))"
    by (simp add: app_view_service_def)
  have "kept w (snd (track R (app_view_service R cfg now) i ts w))" for i w
    unfolding track_def d redis_duration_store_def try_mark_def Let_def
    by (auto simp: login_apart split: prod.splits sum.splits option.splits dest!: c login_res)
  then show ?thesis
    by (auto simp: handle_track_def Let_def split: prod.splits sum.splits option.splits) (metis snd_conv)+
qed

lemma stats_cache_kept [login_snd]:
  "kept w (snd (stats_read_cache R C v w))"
  "kept w (stats_write_cache R C ttl st w)"
  "kept w (release_lock R v token w)"
  "kept w (snd (acquire_lock R ttl v token w))"
  by (auto simp: stats_read_cache_def stats_write_cache_def release_lock_def acquire_lock_def login_snd login_apart
      split: prod.splits sum.splits option.splits dest!: login_res)

lemmas stats_cache_res [login_res] = named_kept [OF stats_cache_kept(1)] named_kept [OF stats_cache_kept(4)]

lemma stats_compute_kept [login_snd]:
  "kept w (snd (stats_compute (wired_stats R VC arrange ttl hook a b c) first v now w))"
  by (auto simp: stats_compute_def stats_assemble_def app_stats_service_def new_stats_service_def Let_def
      split: prod.splits dest!: login_res)

lemmas stats_compute_res [login_res] = named_kept [OF stats_compute_kept]

lemma stats_recompute_kept [login_snd]:
  "kept w (snd (stats_recompute R C (wired_stats R VC arrange ttl hook a b c) first v token got now w))"
  by (auto simp: stats_recompute_def Let_def login_snd split: prod.splits sum.splits dest!: login_res)

lemma handle_stats_kept:
  assumes "\<And>x y. pause x = Some y \<Longrightarrow> kept x y"
  shows "kept w (snd (handle_stats R C (wired_stats R VC arrange ttl hook a b c) pause first p token now w))"
proof -
  let ?svc = "wired_stats R VC arrange ttl hook a b c"
  have e: "ss_exists ?svc = video_is_present R (app_video_service R VC arrange ttl hook)"
    by (simp add: app_stats_service_def new_stats_service_def)
  have f: "kept w (snd (stats_fetch R C ?svc pause first v token now w))" for v w
    unfolding stats_fetch_def e Let_def
    by (auto simp: login_snd split: prod.splits sum.splits option.splits bool.splits dest!: login_res assms)
  have "kept w (snd (stats_get R C ?svc pause first v token now w))" for v w
    using named_kept [OF f]
    by (auto simp: stats_get_def f split: prod.splits option.splits dest!: login_res)
  then show ?thesis
    by (auto simp: handle_stats_def split: prod.splits sum.splits option.splits) (metis snd_conv)+
qed

section \<open>Creating videos and products\<close>

lemma hook_kept: "app_hook R cfg = Some h \<Longrightarrow> kept w (h v w)"
  by (auto simp: app_hook_def push_publish_def login_snd login_apart split: if_splits)

lemma create_video_kept [login_snd]: "kept w (snd (handle_create_video url R (wired_videos R X cfg) uid body fresh now w))"
proof -
  have s: "vd_repo (wired_videos R X cfg) = pg_video_repo (x_arrange X)"
    "vd_cache (wired_videos R X cfg) = Some (json_cache_ops R (x_video X) video_cache_key resource_cache_ttl)"
    "vd_durations (wired_videos R X cfg) = Some (redis_duration_store R (vwc_duration_cache_ttl (cf_view cfg)))"
    "vd_on_create (wired_videos R X cfg) = app_hook R cfg"
    by (simp_all add: app_video_service_def)
  have c: "kept w (snd (pg_create_video uid i fresh now w))" for i w
    using pg_create_video_cases(1) [of uid i fresh now w] by (simp add: login_entry_def) (metis surj_pair snd_conv)
  have "kept w (snd (video_create url R (wired_videos R X cfg) uid i fresh now w))" for i w
    unfolding video_create_def s pg_video_repo_def json_cache_ops_def redis_duration_store_def
    by (auto simp: Let_def login_snd login_apart json_set_kept hook_kept
        split: prod.splits sum.splits option.splits dest!: named_kept [OF c])
  then show ?thesis
    by (auto simp: handle_create_video_def split: prod.splits sum.splits option.splits) (metis snd_conv)+
qed

lemma create_product_kept [login_snd]:
  "kept w (snd (handle_create_product url R (app_product_service R Cp (wired_videos R X cfg) b) uid body fresh now w))"
proof -
  let ?svc = "app_product_service R Cp (wired_videos R X cfg) b"
  have s: "pd_assert_owner ?svc = assert_owner R (wired_videos R X cfg)" "pd_repo ?svc = pg_product_repo"
    "pd_cache ?svc = Some (json_cache_ops R Cp product_cache_key resource_cache_ttl)"
    "pd_by_video_cache ?svc = Some (json_cache_ops R Cp product_by_video_cache_key resource_cache_ttl)"
    by (simp_all add: app_product_service_def)
  have f: "kept w (snd (video_maybe_taken ?svc k w))" "kept w (record_video ?svc k w)" for k w
    by (auto simp: video_maybe_taken_def record_video_def app_product_service_def redis_bloom_def login_snd login_apart
        split: if_splits prod.splits sum.splits dest!: named_kept [OF bloom_kept(1)])
  have c: "kept w (snd (pg_create_product i fresh now w))" for i w
    using pg_create_product_cases(1) [of i fresh now w] by (simp add: login_entry_def) (metis surj_pair snd_conv)
  note named = named_kept [OF video_uses_kept(2)] named_kept [OF f(1)] named_kept [OF c]
  have "kept w (snd (product_create url R ?svc uid i fresh now w))" for i w
    unfolding product_create_def s pg_product_repo_def json_cache_ops_def
    by (auto simp: Let_def f login_apart json_set_kept
        split: prod.splits sum.splits option.splits dest!: named)
  then show ?thesis
    by (auto simp: handle_create_product_def split: prod.splits sum.splits option.splits) (metis snd_conv)+
qed

section \<open>The router\<close>

lemma then_handle_kept:
  assumes "kept w (snd m)" and "\<And>c w1. kept w w1 \<Longrightarrow> kept w (snd (h c w1))"
  shows "kept w (snd (then_handle m h))"
  using assms by (auto simp: then_handle_def split: prod.splits middleware.splits)

lemma ping_all_kept: "set deps \<subseteq> set health_deps \<Longrightarrow> kept w (snd (ping_all deps w))"
proof (induction deps arbitrary: w)
  case (Cons d deps)
  obtain n p where d: "d = (n, p)" by (metis surj_pair)
  have "kept w (snd (p w))"
    using Cons.prems d by (auto simp: health_deps_def ping_postgres_def ping_redis_def ping_clickhouse_def login_snd)
  then show ?case using Cons d by (auto split: prod.splits sum.splits) (metis snd_conv)+
qed simp

lemma handle_ready_kept: "set deps \<subseteq> set health_deps \<Longrightarrow> kept w (snd (handle_ready deps w))"
  using ping_all_kept [of deps w] by (auto simp: handle_ready_def split: prod.splits)

lemma app_feed_kept: "kept w (snd (handle_feed C (app_fetcher R X cfg) h c l w))"
  by (rule handle_feed_kept) (simp add: app_fetcher_def pg_video_repo_def fetch_kept)

lemma serve_protected_kept: "kept w (snd (serve_protected R X (app_wire R X cfg) rq cn uid w))"
  by (cases "rq_route rq")
    (auto simp: serve_protected_def app_wire_services answer_snd login_snd login_apart rate_limit_kept
      intro!: then_handle_kept)

text \<open>Whatever is asked, a bucket changes only by a login from its own address.\<close>

lemma serve_kept:
  assumes "\<forall>body. rq_route rq = LoginR body \<longrightarrow> rq_ip rq \<noteq> ip"
    and "set (cn_deps cn) \<subseteq> set health_deps" and "\<And>x y. cn_pause cn x = Some y \<Longrightarrow> kept x y"
  shows "kept w (snd (serve R X (app_wire R X cfg) rq cn w))"
proof (cases "protected (rq_route rq)")
  case True
  then show ?thesis
    using serve_protected_kept
    by (auto simp: serve_def auth_mw_def intro!: then_handle_kept split: sum.splits)
next
  case False
  show ?thesis
  proof (cases "rq_route rq")
    case (LoginR body)
    then have "login_bucket_key ip \<noteq> login_bucket_key (rq_ip rq)" using assms(1) by (simp add: login_bucket_key_def)
    then show ?thesis using LoginR
      by (auto simp: serve_def app_wire_services answer_snd login_snd rate_limit_kept intro!: then_handle_kept)
  next
    case (StatsR p)
    then show ?thesis by (simp add: serve_def app_wire_services answer_snd handle_stats_kept [OF assms(3)])
  qed (use False assms in \<open>simp_all add: serve_def app_wire_services answer_snd login_snd handle_ready_kept app_views_kept app_feed_kept\<close>)
qed

end

interpretation ref_login_frame: login_frame ref_redis "\<lambda>m. m" ip for ip
  by unfold_locales

end
