(* ===== verification/LoginLimit.thy ===== *)
theory LoginLimit
  imports Frames
begin

text \<open>
  Brute force against the whole service: any sequence of requests, on any routes and from any
  addresses, with time passing in between and any outages of the stores. The login limiter bounds
  how many passwords one address gets to try, and no other route helps.
\<close>

section \<open>Visits\<close>

text \<open>Each visit comes \<open>d\<close> milliseconds after the one before; the limiter's clock keeps the
  server's time.\<close>

fun visits ::
  "('s, 'z) redis_scheme \<Rightarrow> externals \<Rightarrow> 's application \<Rightarrow> int \<Rightarrow> (nat \<times> request \<times> 's chance) list
     \<Rightarrow> 's world \<Rightarrow> (request \<times> payload response) list"
where
  "visits R X a t [] w = []"
| "visits R X a t ((d, rq, cn) # vs) w =
     (let (resp, w') = serve R X a rq (cn\<lparr>cn_bucket_ms := t + int d\<rparr>) (w\<lparr>srv := rELAPSE R d (srv w)\<rparr>)
      in (rq, resp) # visits R X a (t + int d) vs w')"

fun is_login :: "route \<Rightarrow> bool" where
  "is_login (LoginR body) = True"
| "is_login _ = False"

text \<open>A login from the address that was let through to the check of the password.\<close>

definition password_checked :: "string \<Rightarrow> request \<times> payload response \<Rightarrow> bool" where
  "password_checked ip v \<longleftrightarrow> rq_ip (fst v) = ip \<and> is_login (rq_route (fst v)) \<and> status (snd v) \<notin> {429, 503}"

definition password_checks :: "string \<Rightarrow> (request \<times> payload response) list \<Rightarrow> nat" where
  "password_checks ip vs = length (filter (password_checked ip) vs)"

definition visit_ok :: "('s \<Rightarrow> keyspace) \<Rightarrow> string \<Rightarrow> nat \<times> request \<times> 's chance \<Rightarrow> bool" where
  "visit_ok ks ip v \<longleftrightarrow> set (cn_deps (snd (snd v))) \<subseteq> set health_deps
     \<and> (\<forall>x y. cn_pause (snd (snd v)) x = Some y \<longrightarrow> login_entry ks ip y = login_entry ks ip x)"

section \<open>One visit\<close>

context login_frame
begin

abbreviation level where
  "level t w \<equiv> level_at (1 / 6) t (login_entry ks ip w)"

abbreviation ok where
  "ok t w \<equiv> bucket_inv 10 3600 t (login_entry ks ip w)"

text \<open>The limiter: a request let through raises the level by one, and nothing lowers it.\<close>

lemma limit_step:
  assumes "ok (of_int now) w" and "rate_limit_mw R login_limit (login_bucket_key ip) now () w = (m, w')"
  shows "ok (of_int now) w' \<and> (case m of Next _ \<Rightarrow> level (of_int now) w + 1 \<le> level (of_int now) w'
     | Abort r \<Rightarrow> status r \<in> {429, 503} \<and> level (of_int now) w \<le> level (of_int now) w')"
proof -
  let ?k = "login_bucket_key ip" and ?t = "of_int now :: rat"
  let ?f = "leaky_bucket_script R ?k 10 (1 / 6) ?t 1 3600"
  define lv where "lv = level ?t w"
  have p: "of_int (pol_capacity (mw_policy login_limit)) = (10 :: rat)" "pol_leak_per_second (mw_policy login_limit) = 1 / 6"
    "bucket_ttl (mw_policy login_limit) = 3600" "mw_fail_open login_limit = False"
    by (simp_all add: login_limit_def bucket_ttl_def hour_def second_def go_div_def)
  obtain r w1 where call: "redis_call ?f w = (r, w1)" by (metis surj_pair)
  have run: "(m, w') = (case r of
      Inl e \<Rightarrow> Abort (httpx_error 503 ''service_unready'' ''rate limiter unavailable'')
    | Inr (a, rem, ra) \<Rightarrow> if a = 1 then Next ()
        else Abort (httpx_error_detail 429 ''rate_limited'' ''too many requests''
          (RetryMeta (let x = go_div (wrap64 (ra * millisecond)) second in if x < 1 then 1 else x))), w1)"
    using assms(2) call by (auto simp: rate_limit_mw_def bucket_allow_def p Let_def split: sum.splits prod.splits)
  have inv: "bucket_inv 10 3600 ?t (ks (srv w) ?k)" using assms(1) by (simp add: login_entry_def)
  have hash: "is_hash (ks (srv w) ?k)" by (rule bucket_inv_is_hash [OF inv])
  have lv0: "0 \<le> lv" using bucket_inv_level [OF inv, of "1 / 6"] by (simp add: lv_def login_entry_def)
  have after: "bucket_inv 10 3600 ?t (ks (snd (?f (srv w))) ?k)" by (rule script_keeps_inv [OF inv]) simp_all
  have la: "0 \<le> level_after 10 1 lv" using lv0 by (simp add: level_after_def)
  have lva: "level_at (1 / 6) ?t (ks (snd (?f (srv w))) ?k) = level_after 10 1 lv"
    using script_level [OF hash, of "1 / 6" ?t 10 ?t 1 3600] la by (simp add: lv_def login_entry_def)
  have reply: "fst (fst (?f (srv w))) = (if lv + 1 \<le> 10 then 1 else 0)"
    using script_reply [OF hash, of 10 "1 / 6" ?t 1 3600] by (simp add: lv_def login_entry_def Let_def)
  from call show ?thesis
  proof (cases rule: redis_call_cases)
    case (1 a)
    then have "fst a = (if lv + 1 \<le> 10 then 1 else 0)" and "srv w1 = snd (?f (srv w))" using reply by simp_all
    then show ?thesis
      using run 1 after lva by (auto simp: login_entry_def lv_def [unfolded login_entry_def, symmetric] level_after_def
          httpx_defs split: prod.splits)
  next
    case (2 e)
    then show ?thesis using run inv by (simp add: login_entry_def httpx_defs)
  next
    case (3 e)
    then show ?thesis
      using run after lva by (simp add: login_entry_def lv_def [unfolded login_entry_def, symmetric] level_after_def httpx_defs)
  qed
qed

lemma elapse_step:
  fixes d :: nat
  assumes "ok t w"
  defines "w' \<equiv> w\<lparr>srv := rELAPSE R d (srv w)\<rparr>"
  shows "ok (t + of_nat d) w'" and "level t w \<le> level (t + of_nat d) w' + of_nat d / 6000"
proof -
  have e: "login_entry ks ip w' = doc_elapse d (ks (srv w)) (login_bucket_key ip)"
    by (simp add: login_entry_def w'_def elapse)
  note b = bucket_inv_elapse [where m = "ks (srv w)" and key = "login_bucket_key ip",
      OF assms(1) [unfolded login_entry_def], of "1 / 6" d]
  show "ok (t + of_nat d) w'" using b(1) unfolding e by simp
  show "level t w \<le> level (t + of_nat d) w' + of_nat d / 6000"
    using b(2) unfolding e by (simp add: login_entry_def drain_def)
qed

lemma serve_step:
  assumes "ok (of_int (cn_bucket_ms cn)) w" and "visit_ok ks ip (d, rq, cn)"
    and "serve R X (app_wire R X cfg) rq cn w = (resp, w')"
  defines "t \<equiv> of_int (cn_bucket_ms cn)"
  shows "ok t w' \<and> (if password_checked ip (rq, resp) then level t w + 1 \<le> level t w' else level t w \<le> level t w')"
proof (cases "is_login (rq_route rq) \<and> rq_ip rq = ip")
  case False
  then have "\<forall>body. rq_route rq = LoginR body \<longrightarrow> rq_ip rq \<noteq> ip" by auto
  then have "kept w w'"
    using assms(2,3) serve_kept [of rq cn X cfg w] by (simp add: visit_ok_def)
  then show ?thesis using assms(1) False by (auto simp: password_checked_def t_def)
next
  case True
  then obtain body where b: "rq_route rq = LoginR body" by (cases "rq_route rq") auto
  obtain m w1 where m: "rate_limit_mw R login_limit (login_bucket_key ip) (cn_bucket_ms cn) () w
      = (m :: (unit, payload) middleware, w1)" by (metis surj_pair)
  note st = limit_step [OF assms(1) m]
  show ?thesis
  proof (cases m)
    case (Abort r)
    then have "resp = r \<and> w' = w1" using assms(3) b m True by (simp add: serve_def then_handle_def)
    then show ?thesis using st Abort by (simp add: password_checked_def t_def)
  next
    case (Next u)
    have "w' = snd (handle_login (x_jwt X) (x_bcrypt X) (ap_auth (app_wire R X cfg)) body (cn_draws cn) w1)"
      using assms(3) b m True Next by (simp add: serve_def then_handle_def split: prod.splits)
    then have "kept w1 w'" by (simp add: app_wire_services login_snd)
    then show ?thesis using st Next by (simp add: t_def)
  qed
qed

section \<open>All of them\<close>

lemma visits_bound:
  assumes "ok (of_int t) w" and "\<forall>v \<in> set vs. visit_ok ks ip v"
  shows "of_nat (password_checks ip (visits R X (app_wire R X cfg) t vs w)) + level (of_int t) w
    \<le> 10 + of_nat (sum_list (map fst vs)) / 6000"
  using assms
proof (induction vs arbitrary: t w)
  case Nil
  then show ?case using bucket_inv_level [of 10 3600 "of_int t" "login_entry ks ip w" "1 / 6"]
    by (simp add: password_checks_def)
next
  case (Cons v vs)
  obtain d rq cn where v: "v = (d, rq, cn)" by (metis prod_cases3)
  let ?w = "w\<lparr>srv := rELAPSE R d (srv w)\<rparr>" and ?cn = "cn\<lparr>cn_bucket_ms := t + int d\<rparr>"
  obtain resp w1 where s: "serve R X (app_wire R X cfg) rq ?cn ?w = (resp, w1)" by (metis surj_pair)
  note e = elapse_step [OF Cons.prems(1), of d]
  have vok: "visit_ok ks ip (d, rq, ?cn)" using Cons.prems(2) v by (simp add: visit_ok_def)
  have at: "of_int (cn_bucket_ms ?cn) = (of_int t + of_nat d :: rat)" by simp
  note st = serve_step [OF _ vok s, unfolded at, OF e(1)]
  have IH: "of_nat (password_checks ip (visits R X (app_wire R X cfg) (t + int d) vs w1)) + level (of_int t + of_nat d) w1
      \<le> 10 + of_nat (sum_list (map fst vs)) / 6000"
    using Cons.IH [of "t + int d" w1] st Cons.prems(2) by simp
  have "password_checks ip (visits R X (app_wire R X cfg) t (v # vs) w)
      = (if password_checked ip (rq, resp) then 1 else 0) + password_checks ip (visits R X (app_wire R X cfg) (t + int d) vs w1)"
    by (simp add: v s password_checks_def)
  then show ?case using e(2) st IH by (simp add: v add_divide_distrib split: if_splits)
qed

end

section \<open>Property\<close>

text \<open>
  C9. Password guessing is bounded, end to end: over any sequence of requests to any routes from
  any addresses, whatever the links to the stores do in between, the number of logins from one
  address that get as far as the check of the password is at most 10 plus one for every six
  seconds of the sequence. In particular no other route drains an address's bucket, and an
  outage of Redis never lets a login through (the limiter fails closed).
\<close>

theorem password_guesses_are_limited:
  assumes "redis_server R ks" and "ks (srv w) (login_bucket_key ip) = None"
    and "\<forall>v \<in> set vs. visit_ok ks ip v"
  shows "of_nat (password_checks ip (visits R X (app_wire R X cfg) t vs w))
    \<le> (10 + of_nat (sum_list (map fst vs)) / 6000 :: rat)"
proof -
  have loc: "login_frame R ks" using assms(1) by (simp add: login_frame_def)
  have "bucket_inv 10 3600 (of_int t) (login_entry ks ip w)" using assms(2) by (simp add: login_entry_def bucket_inv_def)
  moreover have "level_at (1 / 6) (of_int t) (login_entry ks ip w) = 0" using assms(2) by (simp add: login_entry_def level_at_def)
  ultimately show ?thesis using login_frame.visits_bound [OF loc _ assms(3), of t w X cfg] by simp
qed

text \<open>Twelve attempts in half a minute, the first with Redis unreachable.\<close>

definition guess :: request where
  "guess = \<lparr>rq_route = LoginR (Inr (''a@b.cd'', ''guess'')), rq_authorization = [], rq_ip = ''198.51.100.7'', rq_user_agent = []\<rparr>"

theorem password_guesses_are_limited_witness:
  "password_checks ''198.51.100.7'' (visits ref_redis example_externals (app_wire ref_redis example_externals default_config) 0
     (replicate 12 (2500, guess, example_chance)) ((new_world (\<lambda>_. None))\<lparr>net := [Refused]\<rparr>)) \<le> 15"
proof -
  have "(of_nat (password_checks ''198.51.100.7'' (visits ref_redis example_externals (app_wire ref_redis example_externals default_config) 0
     (replicate 12 (2500, guess, example_chance)) ((new_world (\<lambda>_. None))\<lparr>net := [Refused]\<rparr>))) :: rat)
     \<le> 10 + of_nat (sum_list (map fst (replicate 12 (2500, guess, example_chance)))) / 6000"
    by (rule password_guesses_are_limited [OF ref_redis.redis_server_axioms])
      (simp_all add: new_world_def visit_ok_def example_chance_def)
  also have "\<dots> = of_nat 15" by (simp add: sum_list_replicate)
  finally show ?thesis unfolding of_nat_le_iff .
qed

end
