(* ===== verification/StartUp.thy ===== *)
theory StartUp
  imports LoginLimit
begin

text \<open>
  What \<open>New\<close> establishes before the first request: the filters cover the tables, the push feed
  mirrors the videos, the services are wired from the configuration - or the process stops with
  the error of the first step that failed.
\<close>

section \<open>The steps\<close>

lemma new_pool_cases:
  "new_pool D cfg w = (r, w') \<Longrightarrow> tabs w' = tabs w \<and> srv w' = srv w \<and> net w' = net w
     \<and> (dv_parse_dsn D (pc_dsn cfg) = None \<longrightarrow> dv_open_pool D (pool_options cfg) = None \<longrightarrow> pgnet w = [] \<longrightarrow> r = Inr () \<and> w' = w)"
  using ping_cases(1) [of w "fst (ping_postgres w)" "snd (ping_postgres w)"]
  by (cases w) (auto simp: new_pool_def tabs_def split: option.splits prod.splits sum.splits)

lemma new_redis_client_cases:
  "new_redis_client cfg w = (r, w') \<Longrightarrow> tabs w' = tabs w \<and> srv w' = srv w \<and> (net w = [] \<longrightarrow> r = Inr () \<and> w' = w)"
  using ping_cases(2) [of w "fst (ping_redis w)" "snd (ping_redis w)"]
  by (cases w) (auto simp: new_redis_client_def tabs_def split: prod.splits sum.splits)

lemma new_clickhouse_conn_cases:
  "new_clickhouse_conn D cfg w = (r, w') \<Longrightarrow> tabs w' = tabs w \<and> srv w' = srv w \<and> net w' = net w
     \<and> (dv_open_clickhouse D cfg = None \<longrightarrow> chnet w = [] \<longrightarrow> r = Inr () \<and> w' = w)"
  using ping_cases(3) [of w "fst (ping_clickhouse w)" "snd (ping_clickhouse w)"]
  by (cases w) (auto simp: new_clickhouse_conn_def tabs_def split: option.splits prod.splits sum.splits)

definition drivers_ok :: "externals \<Rightarrow> config \<Rightarrow> bool" where
  "drivers_ok X cfg \<longleftrightarrow> dv_parse_dsn (x_drivers X) (pc_dsn (cf_postgres cfg)) = None
     \<and> dv_open_pool (x_drivers X) (pool_options (cf_postgres cfg)) = None
     \<and> dv_open_clickhouse (x_drivers X) (cf_clickhouse cfg) = None"

lemma open_stores_cases:
  assumes "open_stores X cfg w = (r, w')"
  shows "tabs w' = tabs w \<and> srv w' = srv w"
    and "drivers_ok X cfg \<Longrightarrow> net w = [] \<Longrightarrow> pgnet w = [] \<Longrightarrow> chnet w = [] \<Longrightarrow> r = Inr () \<and> w' = w"
proof -
  obtain a wa where a: "new_pool (x_drivers X) (cf_postgres cfg) w = (a, wa)" by (metis surj_pair)
  obtain b wb where b: "new_redis_client (cf_redis cfg) wa = (b, wb)" by (metis surj_pair)
  obtain c wc where c: "new_clickhouse_conn (x_drivers X) (cf_clickhouse cfg) wb = (c, wc)" by (metis surj_pair)
  note k = new_pool_cases [OF a] new_redis_client_cases [OF b] new_clickhouse_conn_cases [OF c]
  have run: "(r, w') = (case a of Inl e \<Rightarrow> (Inl (Wrapped ''postgres'' e), wa)
      | Inr _ \<Rightarrow> (case b of Inl e \<Rightarrow> (Inl (Wrapped ''redis'' e), wb)
      | Inr _ \<Rightarrow> (case c of Inl e \<Rightarrow> (Inl (Wrapped ''clickhouse'' e), wc) | Inr _ \<Rightarrow> (Inr (), wc))))"
    unfolding assms [symmetric] open_stores_def a b c by (simp add: b c split: sum.splits)
  show "tabs w' = tabs w \<and> srv w' = srv w"
    using run k by (auto split: sum.splits)
  show "drivers_ok X cfg \<Longrightarrow> net w = [] \<Longrightarrow> pgnet w = [] \<Longrightarrow> chnet w = [] \<Longrightarrow> r = Inr () \<and> w' = w"
    using run k by (auto simp: drivers_ok_def split: sum.splits)
qed

text \<open>The filters.\<close>

definition filters_cover :: "'z libs_scheme \<Rightarrow> postgres \<Rightarrow> keyspace \<Rightarrow> bool" where
  "filters_cover L d m \<longleftrightarrow> (\<forall>u \<in> set (users d). u_email u \<in> bloom_members bloom_key_emails m)
     \<and> (\<forall>p \<in> set (products d). uuid_str L (p_video_id p) \<in> bloom_members bloom_key_product_videos m)"

definition filters_typed :: "keyspace \<Rightarrow> bool" where
  "filters_typed m \<longleftrightarrow> is_bloom (m bloom_key_emails) \<and> is_bloom (m bloom_key_product_videos)"

context bloom_key
begin

text \<open>One warm-up, whichever table it reads.\<close>

lemma warmup_steps:
  assumes "bloom_ready w"
    and "(r, w') = (case bf_init R key w of
        (Inl e, w') \<Rightarrow> (Inl e, w')
      | (Inr _, w') \<Rightarrow>
          (case pg_call (reading rows) w' of
             (Inl e, w'') \<Rightarrow> (Inl (Wrapped msg e), w'')
           | (Inr xs, w'') \<Rightarrow> warm_rows R key [] xs w''))"
  shows "tabs w' = tabs w \<and> (\<forall>k. k \<noteq> key \<longrightarrow> ks (srv w') k = ks (srv w) k) \<and> is_bloom (ks (srv w') key)"
    and "r = Inr () \<Longrightarrow> set (rows (pg w)) \<subseteq> bloom_members key (ks (srv w'))"
proof -
  obtain a w1 where i: "bf_init R key w = (a, w1)" by (metis surj_pair)
  note ia = bf_init_sound [OF assms(1) i]
  obtain b w2 where p: "pg_call (reading rows) w1 = (b, w2)" by (metis surj_pair)
  have pa: "tabs w2 = tabs w1" "srv w2 = srv w1"
    using named [OF pg_call_tabs p] pg_call_frame(1) [of "reading rows" w1] p by simp_all
  have ready2: "bloom_ready w2" using ia pa by (simp add: bloom_ready_def)
  have wr: "bloom_ready w3 \<and> only_key ks key w2 w3" if "warm_rows R key [] xs w2 = (q, w3)" for xs q w3
    using warm_rows_sound [OF ready2 that] by blast
  have ik: "tabs w1 = tabs w" "\<forall>k. k \<noteq> key \<longrightarrow> ks (srv w1) k = ks (srv w) k" "bloom_ready w1"
    using ia by (simp_all add: only_key_def stores_same_def tabs_def)
  consider "w' = w1" | "w' = w2" | xs q where "warm_rows R key [] xs w2 = (q, w')"
    using assms(2) i p by (cases a; cases b) (auto dest: sym)
  then show "tabs w' = tabs w \<and> (\<forall>k. k \<noteq> key \<longrightarrow> ks (srv w') k = ks (srv w) k) \<and> is_bloom (ks (srv w') key)"
  proof cases
    case (3 xs q)
    then show ?thesis using wr [OF 3] ik pa by (simp add: bloom_ready_def only_key_def stores_same_def tabs_def)
  qed (use ik pa in \<open>simp_all add: bloom_ready_def\<close>)
  show "set (rows (pg w)) \<subseteq> bloom_members key (ks (srv w'))" if r: "r = Inr ()"
  proof -
    obtain xs where "a = Inr ()" and "b = Inr xs" and "warm_rows R key [] xs w2 = (Inr (), w')"
      using assms(2) i p r by (cases a; cases b) auto
    then show ?thesis using warmup_covers [OF assms(1), of w1 rows xs w2 w'] i p by simp
  qed
qed

end

lemma filter_keys_apart:
  "bloom_key_emails \<noteq> bloom_key_product_videos" "feed_global_key \<noteq> bloom_key_emails"
  "feed_global_key \<noteq> bloom_key_product_videos"
  by (simp_all add: bloom_key_emails_def bloom_key_product_videos_def feed_global_key_def)

lemma warm_blooms_cases:
  assumes "redis_server R ks" and "filters_typed (ks (srv w))" and "warm_blooms R cfg w = (r, w')"
  shows "tabs w' = tabs w \<and> ks (srv w') feed_global_key = ks (srv w) feed_global_key"
    and "bc_enabled (cf_bloom cfg) \<Longrightarrow> r = Inr () \<Longrightarrow> filters_cover R (pg w) (ks (srv w'))"
proof -
  have loc: "bloom_key R ks" using assms(1) by (simp add: bloom_key_def)
  note warm = bloom_key.warmup_steps [OF loc] and ready = bloom_key.bloom_ready_def [OF loc]
  let ?ek = bloom_key_emails and ?pk = bloom_key_product_videos
  obtain a wa where a: "warmup_emails R ?ek w = (a, wa)" by (metis surj_pair)
  obtain b wb where b: "warmup_product_videos R ?pk wa = (b, wb)" by (metis surj_pair)
  have sa: "(tabs wa = tabs w \<and> (\<forall>k. k \<noteq> ?ek \<longrightarrow> ks (srv wa) k = ks (srv w) k) \<and> is_bloom (ks (srv wa) ?ek))
      \<and> (a = Inr () \<longrightarrow> (\<forall>u \<in> set (users (pg w)). u_email u \<in> bloom_members ?ek (ks (srv wa))))"
    using warm [where key = ?ek, OF _ a [symmetric, unfolded warmup_emails_def]] assms(2)
    by (auto simp: ready filters_typed_def)
  have typed: "is_bloom (ks (srv wa) ?pk)" using sa assms(2) filter_keys_apart by (simp add: filters_typed_def)
  have sb: "(tabs wb = tabs wa \<and> (\<forall>k. k \<noteq> ?pk \<longrightarrow> ks (srv wb) k = ks (srv wa) k))
      \<and> (b = Inr () \<longrightarrow> (\<forall>p \<in> set (products (pg wa)). uuid_str R (p_video_id p) \<in> bloom_members ?pk (ks (srv wb))))"
    using warm [where key = ?pk, OF _ b [symmetric, unfolded warmup_product_videos_def]] typed
    by (auto simp: ready)
  have run: "(r, w') = (if \<not> bc_enabled (cf_bloom cfg) then (Inr (), w)
      else case a of Inl e \<Rightarrow> (Inl (Wrapped ''bloom warmup emails'' e), wa)
      | Inr _ \<Rightarrow> (case b of Inl e \<Rightarrow> (Inl (Wrapped ''bloom warmup product videos'' e), wb) | Inr _ \<Rightarrow> (Inr (), wb)))"
    unfolding assms(3) [symmetric] warm_blooms_def a by (simp add: b split: sum.splits)
  show "tabs w' = tabs w \<and> ks (srv w') feed_global_key = ks (srv w) feed_global_key"
    using run sa sb filter_keys_apart by (auto split: if_splits sum.splits)
  show "bc_enabled (cf_bloom cfg) \<Longrightarrow> r = Inr () \<Longrightarrow> filters_cover R (pg w) (ks (srv w'))"
    using run sa sb filter_keys_apart
    by (auto simp: filters_cover_def bloom_members_def tabs_def split: sum.splits)
qed

text \<open>With the links up nothing fails.\<close>

definition all_up :: "'s world \<Rightarrow> bool" where
  "all_up w \<longleftrightarrow> net w = [] \<and> pgnet w = [] \<and> chnet w = []"

lemma redis_call_all_up: "all_up w \<Longrightarrow> all_up (snd (redis_call f w)) \<and> (\<exists>a. fst (redis_call f w) = Inr a)"
  by (simp add: all_up_def redis_call_up)

lemma bf_add_batch_up: "all_up w \<Longrightarrow> bf_add_batch R key xs w = (r, w') \<Longrightarrow> r = Inr () \<and> all_up w'"
  by (auto simp: bf_add_batch_def all_up_def redis_call_up split: if_splits)

lemma warm_rows_up: "all_up w \<Longrightarrow> warm_rows R key buf xs w = (r, w') \<Longrightarrow> r = Inr () \<and> all_up w'"
proof (induction xs arbitrary: buf w)
  case Nil
  then show ?case by (auto dest: bf_add_batch_up split: if_splits)
next
  case (Cons x xs)
  obtain q w1 where b: "bf_add_batch R key (buf @ [x]) w = (q, w1)" by (metis surj_pair)
  show ?case
    using Cons.prems Cons.IH [of w "buf @ [x]"] Cons.IH [of w1 "[]"] bf_add_batch_up [OF Cons.prems(1) b] b
    by (auto simp: Let_def split: if_splits)
qed

lemma warm_blooms_up:
  assumes "all_up w" and "warm_blooms R cfg w = (r, w')"
  shows "r = Inr () \<and> all_up w'"
proof -
  have i: "bf_init R key w = (Inr (), w1) \<and> all_up w1" if "w1 = snd (redis_call (rBFRESERVE R key) w)" and "all_up w" for key w w1
    using that by (simp add: bf_init_def all_up_def redis_call_up)
  have pg_read_up: "pg_call (reading f) w = (Inr (f (pg w)), w)" if "all_up w" for f and w :: "'a world"
    using that by (simp add: all_up_def pg_call_up)
  have e: "q = Inr () \<and> all_up w1" if run: "warmup_emails R key w = (q, w1)" and up: "all_up w" for key q w and w1 :: "'a world"
  proof -
    let ?w = "snd (redis_call (rBFRESERVE R key) w)"
    have "warm_rows R key [] (map u_email (users (pg ?w))) ?w = (q, w1)"
      using run i [OF refl up, of key] by (simp add: warmup_emails_def pg_read_up)
    then show ?thesis using warm_rows_up i [OF refl up, of key] by blast
  qed
  have p: "q = Inr () \<and> all_up w1" if run: "warmup_product_videos R key w = (q, w1)" and up: "all_up w" for key q w and w1 :: "'a world"
  proof -
    let ?w = "snd (redis_call (rBFRESERVE R key) w)"
    have "warm_rows R key [] (map (\<lambda>p. uuid_str R (p_video_id p)) (products (pg ?w))) ?w = (q, w1)"
      using run i [OF refl up, of key] by (simp add: warmup_product_videos_def pg_read_up)
    then show ?thesis using warm_rows_up i [OF refl up, of key] by blast
  qed
  show ?thesis
  proof (cases "bc_enabled (cf_bloom cfg)")
    case False
    then show ?thesis using assms by (simp add: warm_blooms_def)
  next
    case True
    obtain q1 w1 where a: "warmup_emails R bloom_key_emails w = (q1, w1)" by (metis surj_pair)
    obtain q2 w2 where b: "warmup_product_videos R bloom_key_product_videos w1 = (q2, w2)" by (metis surj_pair)
    have one: "q1 = Inr () \<and> all_up w1" by (rule e [OF a assms(1)])
    then have "q2 = Inr () \<and> all_up w2" using p [OF b] by blast
    then show ?thesis using assms(2) True a b one by (simp add: warm_blooms_def)
  qed
qed

lemma warm_feed_frame:
  assumes "redis_server R ks" and "warm_feed R X cfg w = (r, w')"
  shows "tabs w' = tabs w \<and> (\<forall>k. k \<noteq> feed_global_key \<longrightarrow> ks (srv w') k = ks (srv w) k)"
proof -
  let ?cap = "push_cap (fc_push_zset_cap (cf_feed cfg))"
  obtain a wa where a: "pg_feed_page 0 uuid_nil ?cap w = (a, wa)" by (metis surj_pair)
  have "pg_call f w = (q, w2) \<Longrightarrow> srv w2 = srv w" for f q w2 using pg_call_frame(1) [of f w] by simp
  then have wa: "tabs wa = tabs w" "srv wa = srv w"
    using named [OF feed_page_tabs a] a by (auto simp: pg_feed_page_def split: if_splits prod.splits sum.splits)
  have "w' = w \<or> w' = wa \<or> (\<exists>es q. redis_call (writing (rZADD R feed_global_key es)) wa = (q, w'))"
    using assms(2) a
    by (auto simp: warm_feed_def push_warmup_def pg_video_repo_def split: if_splits prod.splits sum.splits)
  then show ?thesis
  proof (elim disjE exE)
    fix es q
    assume c: "redis_call (writing (rZADD R feed_global_key es)) wa = (q, w')"
    have "\<forall>k. k \<noteq> feed_global_key \<longrightarrow> ks (srv w') k = ks (srv wa) k"
      using redis_call_keeps [OF c, of "\<lambda>s. \<forall>k. k \<noteq> feed_global_key \<longrightarrow> ks s k = ks (srv wa) k"]
        redis_server.zset_frame [OF assms(1)] by simp
    then show ?thesis using wa named [OF redis_call_tabs c] by simp
  qed (use wa in simp_all)
qed

section \<open>Property\<close>

text \<open>
  C35. What a start-up that succeeds has established, whatever the links did: the services are those
  of the configuration, no table was written, and with Bloom filters enabled every registered
  email and every video with a product is in its filter - so that a negative answer of a filter
  is right from the first request on. In push mode, with the links up and an empty key, the
  sorted set mirrors the newest videos, and in pull mode it is not touched. With drivers and
  links in order the start-up does succeed.
\<close>

theorem start_up_is_complete:
  assumes "redis_server R ks" and "filters_typed (ks (srv w))" and "app_new R X cfg w = (r, w')"
  shows "pg w' = pg w \<and> ch w' = ch w
    \<and> (\<forall>a. r = Inr a \<longrightarrow> a = app_wire R X cfg
        \<and> (bc_enabled (cf_bloom cfg) \<longrightarrow> filters_cover R (pg w) (ks (srv w')))
        \<and> (\<not> push_mode cfg \<longrightarrow> ks (srv w') feed_global_key = ks (srv w) feed_global_key))
    \<and> (drivers_ok X cfg \<longrightarrow> net w = [] \<longrightarrow> pgnet w = [] \<longrightarrow> chnet w = [] \<longrightarrow>
        timed (videos (pg w)) \<longrightarrow> ks (srv w) feed_global_key = None \<longrightarrow>
        r = Inr (app_wire R X cfg)
        \<and> (push_mode cfg \<longrightarrow>
            feed_mirror R ks (push_cap (fc_push_zset_cap (cf_feed cfg))) (videos (pg w)) (srv w')))"
proof -
  obtain a wa where a: "open_stores X cfg w = (a, wa)" by (metis surj_pair)
  obtain b wb where b: "warm_blooms R cfg wa = (b, wb)" by (metis surj_pair)
  obtain c wc where c: "warm_feed R X cfg wb = (c, wc)" by (metis surj_pair)
  have run: "(r, w') = (case a of Inl e \<Rightarrow> (Inl e, wa) | Inr _ \<Rightarrow> (case b of Inl e \<Rightarrow> (Inl e, wb)
      | Inr _ \<Rightarrow> (case c of Inl e \<Rightarrow> (Inl e, wc) | Inr _ \<Rightarrow> (Inr (app_wire R X cfg), wc))))"
    unfolding assms(3) [symmetric] app_new_def a by (simp add: b c split: sum.splits)
  note oa = open_stores_cases [OF a]
  have typed: "filters_typed (ks (srv wa))" using oa(1) assms(2) by simp
  note wb = warm_blooms_cases [OF assms(1) typed b] and wf = warm_feed_frame [OF assms(1) c]
  have tabs: "tabs w' = tabs w" using run oa(1) wb(1) wf by (auto split: sum.splits)
  have est: "x = app_wire R X cfg \<and> (bc_enabled (cf_bloom cfg) \<longrightarrow> filters_cover R (pg w) (ks (srv w')))
      \<and> (\<not> push_mode cfg \<longrightarrow> ks (srv w') feed_global_key = ks (srv w) feed_global_key)" if x: "r = Inr x" for x
  proof -
    have st: "b = Inr ()" "w' = wc" "x = app_wire R X cfg" using run x by (auto split: sum.splits)
    have "filters_cover R (pg w) (ks (srv wc))" if "bc_enabled (cf_bloom cfg)"
      using wb(2) [OF that st(1)] wf oa(1) filter_keys_apart
      by (simp add: filters_cover_def bloom_members_def tabs_def)
    moreover have "ks (srv wc) feed_global_key = ks (srv w) feed_global_key" if "\<not> push_mode cfg"
      using that c wb(1) oa(1) by (simp add: warm_feed_def)
    ultimately show ?thesis using st by simp
  qed
  have up: "r = Inr (app_wire R X cfg) \<and> (push_mode cfg \<longrightarrow>
      feed_mirror R ks (push_cap (fc_push_zset_cap (cf_feed cfg))) (videos (pg w)) (srv w'))"
    if "drivers_ok X cfg" "net w = []" "pgnet w = []" "chnet w = []"
      "timed (videos (pg w))" "ks (srv w) feed_global_key = None"
  proof -
    have ab: "a = Inr ()" "wa = w" "b = Inr ()" "all_up wb"
      using oa(2) [OF that(1-4)] warm_blooms_up [OF _ b] that by (auto simp: all_up_def)
    have upb: "net wb = []" "pgnet wb = []" using ab(4) by (simp_all add: all_up_def)
    have same: "pg wb = pg w" "ks (srv wb) feed_global_key = None"
      using wb(1) ab(2) that(6) by (simp_all add: tabs_def)
    have timed: "timed (videos (pg wb))" using same that(5) by simp
    show ?thesis
    proof (cases "push_mode cfg")
      case False
      then have "c = Inr ()" using c by (simp add: warm_feed_def)
      then show ?thesis using run ab False by simp
    next
      case True
      obtain q wq where q: "push_warmup R pg_feed_page (push_cap (fc_push_zset_cap (cf_feed cfg))) wb = (q, wq)"
        by (metis surj_pair)
      have cap: "0 < push_cap (fc_push_zset_cap (cf_feed cfg))" by (simp add: push_cap_def)
      from redis_server.warmup_mirror [OF assms(1) upb cap timed same(2) q]
      show ?thesis using run ab c True q same(1) by (auto simp: warm_feed_def pg_video_repo_def)
    qed
  qed
  show ?thesis using tabs est up unfolding tabs_def by blast
qed

text \<open>A first start in push mode over a table of videos.\<close>

definition push_config :: config where
  "push_config = default_config\<lparr>cf_feed := default_feed\<lparr>fc_mode := feed_mode_push\<rparr>\<rparr>"

definition first_start :: "keyspace world" where
  "first_start = pushed_world\<lparr>srv := (\<lambda>_. None)\<rparr>"

theorem start_up_is_complete_witness:
  "\<exists>w'. app_new ref_redis example_externals push_config first_start = (Inr (app_wire ref_redis example_externals push_config), w')
     \<and> filters_cover ref_redis (pg first_start) (srv w')
     \<and> feed_mirror ref_redis (\<lambda>m. m) 1000 timed_feed (srv w')"
proof -
  obtain r w' where run: "app_new ref_redis example_externals push_config first_start = (r, w')" by (metis surj_pair)
  have pre: "filters_typed (srv first_start)" "drivers_ok example_externals push_config" "net first_start = []"
    "pgnet first_start = []" "chnet first_start = []" "timed (videos (pg first_start))" "srv first_start feed_global_key = None"
    "videos (pg first_start) = timed_feed" "push_mode push_config" "bc_enabled (cf_bloom push_config)"
    "push_cap (fc_push_zset_cap (cf_feed push_config)) = 1000"
    using timed_feed_ok
    by (simp_all add: first_start_def filters_typed_def drivers_ok_def example_externals_def push_config_def push_mode_def
        config_defaults push_cap_def pushed_world_def new_world_def)
  note all = start_up_is_complete [OF ref_redis.redis_server_axioms pre(1) run]
  from conjunct2 [OF conjunct2 [OF conjunct2 [OF all]]]
  have up: "r = Inr (app_wire ref_redis example_externals push_config)"
    "feed_mirror ref_redis (\<lambda>m. m) 1000 (videos (pg first_start)) (srv w')"
    by (simp_all only: pre(2-7,9,11) simp_thms)
  from conjunct1 [OF conjunct2 [OF conjunct2 [OF all]]]
  have "filters_cover ref_redis (pg first_start) (srv w')" by (simp only: up(1) pre(10) simp_thms sum.inject all_simps)
  then show ?thesis using run up pre(8) by metis
qed

end
