(* ===== verification/WorkerMain.thy ===== *)
theory WorkerMain
  imports StartUp
begin

text \<open>
  \<open>cmd/worker\<close>: the background process. It opens the same three stores as the API and runs three
  goroutines until it is cancelled: the like worker, the view worker and the like reconciler. A
  \<open>worker_turn\<close> is one step of one of them, so a list of turns is one interleaving; a goroutine
  that fails to create its consumer group cancels the others. Metrics and signals are left out.
\<close>

section \<open>Wiring\<close>

definition wired_like_worker :: "config \<Rightarrow> worker_config" where
  "wired_like_worker cfg = new_worker
     \<lparr>wc_group = wk_consumer_group (cf_worker cfg), wc_consumer = wk_name (cf_worker cfg),
      wc_batch_size = wk_batch_size (cf_worker cfg), wc_block_timeout = wk_batch_timeout (cf_worker cfg)\<rparr>"

definition wired_reconciler :: "config \<Rightarrow> reconciler_config" where
  "wired_reconciler cfg = new_reconciler
     \<lparr>rc_interval = lkc_reconciler_interval (cf_like cfg), rc_sample = lkc_reconciler_sample_size (cf_like cfg)\<rparr>"

text \<open>\<open>ReadBatch\<close> is not set and so takes its default.\<close>

definition wired_view_worker :: "config \<Rightarrow> view_worker_config" where
  "wired_view_worker cfg = new_view_worker
     \<lparr>vc_group = wk_consumer_group (cf_worker cfg), vc_consumer = wk_name (cf_worker cfg),
      vc_flush_size = wk_batch_size (cf_worker cfg), vc_flush_interval = wk_batch_timeout (cf_worker cfg),
      vc_read_batch = 0\<rparr>"

section \<open>The process\<close>

text \<open>Which consumers have their group, the variables of the view loop, and whether the shared
  context is cancelled.\<close>

record 's worker_proc =
  wp_like :: bool
  wp_view :: bool
  wp_loop :: view_loop
  wp_cancelled :: bool
  wp_world :: "'s world"

datatype worker_turn =
    LikeStart
  | LikeTurn "nat \<Rightarrow> gotime"
  | ViewStart gotime
  | ViewTurn "gotime \<times> gotime"
  | ReconcilerTurn gotime

fun worker_step :: "('s, 'z) redis_scheme \<Rightarrow> config \<Rightarrow> worker_turn \<Rightarrow> 's worker_proc \<Rightarrow> 's worker_proc" where
  "worker_step R cfg LikeStart p =
     (case like_ensure_group R (wired_like_worker cfg) (wp_world p) of
        (Inl e, w) \<Rightarrow> p\<lparr>wp_cancelled := True, wp_world := w\<rparr>
      | (Inr _, w) \<Rightarrow> p\<lparr>wp_like := True, wp_world := w\<rparr>)"
| "worker_step R cfg (LikeTurn clk) p =
     (if \<not> wp_like p then p
      else p\<lparr>wp_world := like_pass R pg_like_repo (wired_like_worker cfg) clk (wp_world p)\<rparr>)"
| "worker_step R cfg (ViewStart t0) p =
     (case view_ensure_group R (wired_view_worker cfg) (wp_world p) of
        (Inl e, w) \<Rightarrow> p\<lparr>wp_cancelled := True, wp_world := w\<rparr>
      | (Inr _, w) \<Rightarrow>
          p\<lparr>wp_view := True, wp_loop := \<lparr>vl_batch = [], vl_ids = [], vl_last_flush = t0\<rparr>, wp_world := w\<rparr>)"
| "worker_step R cfg (ViewTurn t) p =
     (if \<not> wp_view p then p
      else (let (l, w) = view_pass R clickhouse_sink (wired_view_worker cfg) t (wp_loop p, wp_world p)
            in p\<lparr>wp_loop := l, wp_world := w\<rparr>))"
| "worker_step R cfg (ReconcilerTurn now) p =
     p\<lparr>wp_world := snd (reconcile_once pg_like_repo (rc_sample (wired_reconciler cfg)) now (wp_world p))\<rparr>"

text \<open>A goroutine starts once, and after a cancellation nothing but the last flush happens.\<close>

definition worker_enabled :: "worker_turn \<Rightarrow> 's worker_proc \<Rightarrow> bool" where
  "worker_enabled t p \<longleftrightarrow> \<not> wp_cancelled p
     \<and> (case t of LikeStart \<Rightarrow> \<not> wp_like p | ViewStart t0 \<Rightarrow> \<not> wp_view p | _ \<Rightarrow> True)"

fun worker_steps :: "('s, 'z) redis_scheme \<Rightarrow> config \<Rightarrow> worker_turn list \<Rightarrow> 's worker_proc \<Rightarrow> 's worker_proc" where
  "worker_steps R cfg [] p = p"
| "worker_steps R cfg (t # ts) p =
     worker_steps R cfg ts (if worker_enabled t p then worker_step R cfg t p else p)"

definition worker_stop :: "('s, 'z) redis_scheme \<Rightarrow> config \<Rightarrow> 's worker_proc \<Rightarrow> 's worker_proc" where
  "worker_stop R cfg p =
     (if \<not> wp_view p then p\<lparr>wp_cancelled := True\<rparr>
      else (let (l, w) = view_flush R clickhouse_sink (wired_view_worker cfg) (wp_loop p, wp_world p)
            in p\<lparr>wp_loop := l, wp_cancelled := True, wp_world := w\<rparr>))"

definition worker_begin :: "'s world \<Rightarrow> 's worker_proc" where
  "worker_begin w = \<lparr>wp_like = False, wp_view = False, wp_loop = \<lparr>vl_batch = [], vl_ids = [], vl_last_flush = 0\<rparr>,
     wp_cancelled = False, wp_world = w\<rparr>"

text \<open>\<open>run\<close>, up to the signal that ends it: it fails only when a store cannot be opened.\<close>

definition worker_run ::
  "('s, 'z) redis_scheme \<Rightarrow> externals \<Rightarrow> config \<Rightarrow> worker_turn list \<Rightarrow> 's world \<Rightarrow> unit result \<times> 's world"
where
  "worker_run R X cfg ts w =
     (case open_stores X cfg w of
        (Inl e, w) \<Rightarrow> (Inl e, w)
      | (Inr _, w) \<Rightarrow> (Inr (), wp_world (worker_stop R cfg (worker_steps R cfg ts (worker_begin w)))))"

section \<open>What each goroutine leaves alone\<close>

text \<open>The like worker leaves ClickHouse, the users and videos and every key but its stream alone and
  keeps the like counters exact. The view worker leaves Postgres and every key but its stream alone
  and keeps the daily totals exact.\<close>

abbreviation likes_ok :: "postgres \<Rightarrow> bool" where
  "likes_ok d \<equiv> likes_keyed d \<and> counts_exact d"

definition like_frame :: "('s \<Rightarrow> keyspace) \<Rightarrow> 's world \<Rightarrow> 's world \<Rightarrow> bool" where
  "like_frame ks w w' \<longleftrightarrow> ch w' = ch w \<and> chnet w' = chnet w
     \<and> users (pg w') = users (pg w) \<and> videos (pg w') = videos (pg w) \<and> (likes_ok (pg w) \<longrightarrow> likes_ok (pg w'))
     \<and> (\<forall>k. k \<noteq> like_stream_key \<longrightarrow> ks (srv w') k = ks (srv w) k)"

definition view_frame :: "('s \<Rightarrow> keyspace) \<Rightarrow> 's world \<Rightarrow> 's world \<Rightarrow> bool" where
  "view_frame ks w w' \<longleftrightarrow> pg w' = pg w \<and> pgnet w' = pgnet w \<and> (rolled_up (ch w) \<longrightarrow> rolled_up (ch w'))
     \<and> (\<forall>k. k \<noteq> view_stream_key \<longrightarrow> ks (srv w') k = ks (srv w) k)"

lemma frame_refl [simp]: "like_frame ks w w" "view_frame ks w w"
  by (simp_all add: like_frame_def view_frame_def)

lemma frame_trans:
  "like_frame ks w x \<Longrightarrow> like_frame ks x y \<Longrightarrow> like_frame ks w y"
  "view_frame ks w x \<Longrightarrow> view_frame ks x y \<Longrightarrow> view_frame ks w y"
  by (simp_all add: like_frame_def view_frame_def)

context redis_server
begin

lemma call_frame:
  assumes "\<And>s k'. k' \<noteq> key \<Longrightarrow> ks (snd (f s)) k' = ks s k'" and "redis_call f w = (r, w')"
  shows "pg w' = pg w \<and> pgnet w' = pgnet w \<and> ch w' = ch w \<and> chnet w' = chnet w
    \<and> (\<forall>k. k \<noteq> key \<longrightarrow> ks (srv w') k = ks (srv w) k)"
  using redis_call_stores [OF assms(2)]
    redis_call_keeps [OF assms(2), of "\<lambda>s. \<forall>k. k \<noteq> key \<longrightarrow> ks s k = ks (srv w) k"] assms(1) by simp

lemma like_call_frame:
  assumes "\<And>s k'. k' \<noteq> like_stream_key \<Longrightarrow> ks (snd (f s)) k' = ks s k'" and "redis_call f w = (r, w')"
  shows "like_frame ks w w'"
  using call_frame [OF assms] by (simp add: like_frame_def)

lemma view_call_frame:
  assumes "\<And>s k'. k' \<noteq> view_stream_key \<Longrightarrow> ks (snd (f s)) k' = ks s k'" and "redis_call f w = (r, w')"
  shows "view_frame ks w w'" and "ch w' = ch w"
  using call_frame [OF assms] by (simp_all add: view_frame_def)

lemma like_ack_frame: "like_frame ks w (like_ack R c i w)"
  unfolding like_ack_def by (rule like_call_frame [OF _ surjective_pairing]) (simp add: own_key)

lemma view_ack_frame: "view_frame ks w (view_ack R c is w)" "ch (view_ack R c is w) = ch w"
  unfolding view_ack_def
  by (rule view_call_frame [OF _ surjective_pairing], simp add: own_key)+

lemma apply_frame: "like_frame ks w (snd (repo_apply pg_like_repo u v opr now w))"
proof -
  obtain q w' where call: "pg_apply u v opr now w = (q, w')" by (metis surj_pair)
  have "srv w' = srv w" using pg_likes.apply_frame(1) [of u v opr now w] call by (simp add: pg_like_repo_def)
  moreover have "ch w' = ch w \<and> chnet w' = chnet w"
  proof -
    obtain r w1 where e: "pg_exec (apply_sql opr u v now) w = (r, w1)" by (metis surj_pair)
    have "w' = w1 \<or> w' = w" using call e by (auto simp: pg_apply_def split: sum.splits prod.splits if_splits)
    then show ?thesis using pg_exec_frame [of "apply_sql opr u v now" w] e by auto
  qed
  moreover have "users (pg w') = users (pg w) \<and> videos (pg w') = videos (pg w)"
    using call apply_sql_rows [of opr u v now "pg w"] by (cases rule: pg_apply_cases) simp_all
  moreover have "likes_ok (pg w) \<longrightarrow> likes_ok (pg w')"
    using pg_likes.apply_inv [of w u v opr now] call by (simp add: pg_like_repo_def)
  ultimately show ?thesis by (simp add: like_frame_def pg_like_repo_def call)
qed

lemma like_process_frame: "like_frame ks w (like_process R pg_like_repo c clk m w)"
  using like_ack_frame apply_frame
  by (auto simp: like_process_def split: option.splits prod.splits sum.splits)
    (metis frame_trans(1) snd_conv)+

lemma fold_frame:
  assumes "\<And>x w. like_frame ks w (f x w)"
  shows "like_frame ks w (fold f xs w)"
  by (induction xs arbitrary: w) (auto intro: frame_trans(1) assms)

lemma like_pass_frame: "like_frame ks w (like_pass R pg_like_repo c clk w)"
proof -
  obtain r w1 where read: "like_read R c w = (r, w1)" by (metis surj_pair)
  have "like_frame ks w w1"
    by (rule like_call_frame [OF _ read [unfolded like_read_def]]) (simp add: own_key)
  moreover have "like_frame ks w1 (fold (like_process R pg_like_repo c clk) es w1)" for es
    by (intro fold_frame like_process_frame)
  ultimately show ?thesis by (auto simp: like_pass_def read split: sum.splits intro: frame_trans(1))
qed

lemma ch_insert_frame: "view_frame ks w (snd (sink_insert clickhouse_sink evs w))"
proof -
  obtain q w1 where c1: "ch_call (reading (\<lambda>_. ())) w = (q, w1)" by (metis surj_pair)
  obtain q2 w2 where c2: "ch_call (writing (insert_views (map view_row_of evs))) w1 = (q2, w2)" by (metis surj_pair)
  have "snd (ch_insert evs w) \<in> {w, w1, w2}" using c1 c2 by (simp add: ch_insert_def Let_def split: sum.split)
  moreover have "srv w1 = srv w \<and> pg w1 = pg w \<and> pgnet w1 = pgnet w" "srv w2 = srv w1 \<and> pg w2 = pg w1 \<and> pgnet w2 = pgnet w1"
    using ch_call_frame [of "reading (\<lambda>_. ())" w] c1 ch_call_frame [of "writing (insert_views (map view_row_of evs))" w1] c2
    by simp_all
  moreover obtain r w' where run: "ch_insert evs w = (r, w')" by (metis surj_pair)
  moreover have "rolled_up (ch w) \<longrightarrow> rolled_up (ch w')"
    using run by (cases rule: ch_insert_cases) (auto simp: insert_views_rolled_up)
  ultimately show ?thesis by (auto simp: clickhouse_sink_def view_frame_def)
qed

lemma view_flush_frame: "view_frame ks (snd st) (snd (view_flush R clickhouse_sink c st))"
proof -
  obtain l w where st: "st = (l, w)" by (cases st)
  obtain r w1 where call: "sink_insert clickhouse_sink (vl_batch l) w = (r, w1)" by (metis surj_pair)
  have "view_frame ks w w1" using ch_insert_frame [of w "vl_batch l"] by (simp add: call)
  then show ?thesis using frame_trans(2) view_ack_frame by (simp add: view_flush_def st call split: sum.split) blast
qed

lemma view_collect_frame: "view_frame ks (snd st) (snd (view_collect R c m st))"
  using view_ack_frame by (cases st) (simp add: view_collect_def split: option.split)

lemma view_fold_frame: "view_frame ks (snd st) (snd (fold (view_collect R c) es st))"
proof (induction es arbitrary: st)
  case (Cons m es)
  show ?case using frame_trans(2) [OF view_collect_frame Cons.IH] by simp
qed simp

lemma view_pass_frame: "view_frame ks (snd st) (snd (view_pass R clickhouse_sink c t st))"
proof -
  obtain l w where st: "st = (l, w)" by (cases st)
  let ?f = "rXREADGROUP R view_stream_key (vc_group c) (nat (vc_read_batch c))"
  obtain r w1 where read: "redis_call ?f w = (r, w1)" by (metis surj_pair)
  have f1: "view_frame ks w w1" by (rule view_call_frame(1) [OF _ read]) (simp add: own_key)
  show ?thesis
  proof (cases r)
    case (Inl e)
    then show ?thesis using f1 read by (simp add: view_pass_def st)
  next
    case (Inr es)
    obtain l2 w2 where col: "fold (view_collect R c) es (l, w1) = (l2, w2)" by (metis surj_pair)
    obtain l3 w3 where fl: "view_flush R clickhouse_sink c (l2, w2) = (l3, w3)" by (metis surj_pair)
    have "view_frame ks w w2" using view_fold_frame [of "(l, w1)" c es] f1 col by (auto intro: frame_trans(2))
    moreover have "view_frame ks w2 w3" using view_flush_frame [of "(l2, w2)" c] fl by simp
    ultimately have "view_frame ks w w2 \<and> view_frame ks w w3" by (blast intro: frame_trans(2))
    then show ?thesis using read Inr col fl by (simp add: view_pass_def st Let_def)
  qed
qed

end


section \<open>The reconciler beside exact counters\<close>

text \<open>Where the counters are exact the reconciler only reads.\<close>

definition pg_quiet :: "'s world \<Rightarrow> 's world \<Rightarrow> bool" where
  "pg_quiet w w' \<longleftrightarrow> pg w' = pg w \<and> srv w' = srv w \<and> net w' = net w \<and> ch w' = ch w \<and> chnet w' = chnet w
     \<and> (pgnet w = [] \<longrightarrow> pgnet w' = [])"

lemma pg_quiet_refl [simp]: "pg_quiet w w"
  by (simp add: pg_quiet_def)

lemma pg_quiet_trans: "pg_quiet w x \<Longrightarrow> pg_quiet x y \<Longrightarrow> pg_quiet w y"
  by (simp add: pg_quiet_def)

lemma pg_read_quiet:
  assumes "pg_exec (reading f) w = (r, w')"
  shows "pg_quiet w w' \<and> (\<forall>a. r = Inr a \<longrightarrow> f (pg w) = Inr a)"
proof -
  have "pg_quiet w w'"
    using pg_exec_read [OF assms] pg_exec_net [OF assms] pg_exec_frame [of "reading f" w] assms
    by (simp add: pg_quiet_def)
  then show ?thesis using pg_exec_read [OF assms] by blast
qed

lemma reconcile_video_quiet:
  assumes "counts_exact (pg w)" and "reconcile_video pg_like_repo now v (t, w) = (t', w')"
  shows "pg_quiet w w'"
proof -
  obtain a w1 where a: "pg_count v w = (a, w1)" by (metis surj_pair)
  obtain b w2 where b: "pg_count_from_edges v w1 = (b, w2)" by (metis surj_pair)
  have q1: "pg_quiet w w1 \<and> (\<forall>n. a = Inr n \<longrightarrow> stats_count v (pg w) = Some n)"
    using a by (auto simp: pg_count_def split: prod.splits sum.splits option.splits dest!: pg_read_quiet)
  have q2: "pg_quiet w1 w2 \<and> (\<forall>n. b = Inr n \<longrightarrow> edge_count v (pg w1) = n)"
    using b by (auto simp: pg_count_from_edges_def split: prod.splits sum.splits dest!: pg_read_quiet)
  have exact: "n = m" if "a = Inr n" "b = Inr m" for n m
  proof -
    have "stats_count v (pg w) = Some n" "edge_count v (pg w) = m" using q1 q2 that by (auto simp: pg_quiet_def)
    then show ?thesis using assms(1) by (auto simp: stats_count_def counts_exact_def dest!: find_Some_iff')
  qed
  have "w' = w1 \<or> w' = w2"
    using assms(2) a b exact by (auto simp: reconcile_video_def pg_like_repo_def Let_def split: sum.splits)
  then show ?thesis using q1 q2 pg_quiet_trans by blast
qed

lemma reconcile_fold_quiet:
  "counts_exact (pg w) \<Longrightarrow> fold (reconcile_video pg_like_repo now) is (t, w) = (t', w') \<Longrightarrow> pg_quiet w w'"
proof (induction "is" arbitrary: t w)
  case Nil
  then show ?case by simp
next
  case (Cons v vs)
  obtain t1 w1 where one: "reconcile_video pg_like_repo now v (t, w) = (t1, w1)" by (metis surj_pair)
  have q: "pg_quiet w w1" by (rule reconcile_video_quiet [OF Cons.prems(1) one])
  then have "counts_exact (pg w1)" using Cons.prems(1) by (simp add: pg_quiet_def)
  from Cons.IH [OF this, of t1] Cons.prems(2) one q show ?case by (auto intro: pg_quiet_trans)
qed

lemma reconcile_quiet:
  assumes "counts_exact (pg w)"
  shows "pg_quiet w (snd (reconcile_once pg_like_repo k now w))"
proof -
  obtain a w1 where a: "pg_sample_video_ids k w = (a, w1)" by (metis surj_pair)
  have q: "pg_quiet w w1"
    using a by (auto simp: pg_sample_video_ids_def split: if_splits prod.splits sum.splits
        dest!: pg_read_quiet)
  then have exact: "counts_exact (pg w1)" using assms by (simp add: pg_quiet_def)
  show ?thesis
  proof (cases a)
    case (Inl e)
    then show ?thesis using q a by (simp add: reconcile_once_def pg_like_repo_def)
  next
    case (Inr vs)
    obtain t w2 where f: "fold (reconcile_video pg_like_repo now) vs (\<lparr>t_checked = 0, t_drifted = 0, t_corrected = 0\<rparr>, w1) = (t, w2)"
      by (metis surj_pair)
    have "pg_quiet w w2" using q reconcile_fold_quiet [OF exact f] by (rule pg_quiet_trans)
    then show ?thesis using Inr a f by (simp add: reconcile_once_def pg_like_repo_def)
  qed
qed

section \<open>The process under any outage\<close>

text \<open>What holds of the process at every moment, relative to the world it was started in.\<close>

definition worker_safe ::
  "('s, 'z) redis_scheme \<Rightarrow> ('s \<Rightarrow> keyspace) \<Rightarrow> config \<Rightarrow> 's world \<Rightarrow> view_loop \<Rightarrow> 's world \<Rightarrow> bool"
where
  "worker_safe R ks cfg w0 l w \<longleftrightarrow> likes_ok (pg w) \<and> rolled_up (ch w)
     \<and> view_inv R (wired_view_worker cfg) (ks (srv w)) (video_views (ch w)) l
     \<and> users (pg w) = users (pg w0) \<and> videos (pg w) = videos (pg w0)
     \<and> (\<forall>k. k \<noteq> like_stream_key \<longrightarrow> k \<noteq> view_stream_key \<longrightarrow> ks (srv w) k = ks (srv w0) k)"

lemma stream_keys_apart [simp]: "view_stream_key \<noteq> like_stream_key" "like_stream_key \<noteq> view_stream_key"
  by (simp_all add: view_stream_key_def like_stream_key_def)

lemma view_inv_stream:
  "m' view_stream_key = m view_stream_key \<Longrightarrow> view_inv L c m' rows l = view_inv L c m rows l"
  by (simp add: view_inv_def view_ready_def view_stream_def)

lemma view_inv_fresh:
  "view_inv L c m rows l \<Longrightarrow> view_inv L c m rows \<lparr>vl_batch = [], vl_ids = [], vl_last_flush = t0\<rparr>"
  by (simp add: view_inv_def collected_def)

lemma group_again:
  assumes "is_stream (m k)" and "xgroups (stream_val (m k)) g \<noteq> None"
  shows "doc_stream (stream_group g) k m = m"
  using assms by (cases "(m k)" rule: is_stream.cases) (auto simp: doc_stream_def stream_group_def empty_stream_def)

context redis_server
begin

lemma safe_like:
  assumes "worker_safe R ks cfg w0 l w" and "like_frame ks w w'"
  shows "worker_safe R ks cfg w0 l w'"
  using assms view_inv_stream [of "ks (srv w')" "ks (srv w)"]
  by (auto simp: worker_safe_def like_frame_def)

lemma safe_quiet:
  assumes "worker_safe R ks cfg w0 l w" and "pg_quiet w w'"
  shows "worker_safe R ks cfg w0 l w'"
  using assms by (simp add: worker_safe_def pg_quiet_def)

lemma safe_view:
  assumes "worker_safe R ks cfg w0 l w" and "view_frame ks w w'"
    and "view_inv R (wired_view_worker cfg) (ks (srv w')) (video_views (ch w')) l'"
  shows "worker_safe R ks cfg w0 l' w'"
  using assms by (simp add: worker_safe_def view_frame_def)

lemma like_start_frame:
  assumes "like_ensure_group R c w = (r, w')"
  shows "like_frame ks w w'"
proof -
  obtain q w1 where call: "redis_call (rXGROUP R like_stream_key (wc_group c)) w = (q, w1)" by (metis surj_pair)
  have "like_frame ks w w1" by (rule like_call_frame [OF _ call]) (simp add: own_key)
  then show ?thesis using assms call by (auto simp: like_ensure_group_def split: sum.splits)
qed

lemma view_start_same:
  assumes "view_ensure_group R c w = (r, w')" and "view_ready c (ks (srv w))"
  shows "pg w' = pg w" "ch w' = ch w" "ks (srv w') = ks (srv w)"
proof -
  let ?f = "rXGROUP R view_stream_key (vc_group c)"
  obtain q w1 where call: "redis_call ?f w = (q, w1)" by (metis surj_pair)
  have w': "w' = w1" using assms(1) call by (auto simp: view_ensure_group_def split: sum.splits)
  have s: "is_stream (ks (srv w) view_stream_key)" "xgroups (stream_val (ks (srv w) view_stream_key)) (vc_group c) \<noteq> None"
    using assms(2) by (simp_all add: view_ready_def view_stream_def)
  have "ks (snd (?f (srv w))) = ks (srv w)" using xgroup(2) [OF s(1)] group_again [of "ks (srv w)" view_stream_key, OF s] by simp
  then show "ks (srv w') = ks (srv w)"
    using redis_call_keeps [OF call, of "\<lambda>s. ks s = ks (srv w)"] w' by simp
  show "pg w' = pg w" "ch w' = ch w" using redis_call_stores [OF call] w' by simp_all
qed

lemma safe_step:
  assumes "worker_safe R ks cfg w0 (wp_loop p) (wp_world p)"
  shows "worker_safe R ks cfg w0 (wp_loop (worker_step R cfg t p)) (wp_world (worker_step R cfg t p))"
proof (cases t)
  case LikeStart
  obtain r w1 where run: "like_ensure_group R (wired_like_worker cfg) (wp_world p) = (r, w1)" by (metis surj_pair)
  show ?thesis using safe_like [OF assms like_start_frame [OF run]] by (simp add: LikeStart run split: sum.split)
next
  case (LikeTurn clk)
  show ?thesis using safe_like [OF assms like_pass_frame] assms by (simp add: LikeTurn)
next
  case (ViewStart t0)
  obtain r w1 where run: "view_ensure_group R (wired_view_worker cfg) (wp_world p) = (r, w1)" by (metis surj_pair)
  have inv: "view_inv R (wired_view_worker cfg) (ks (srv (wp_world p))) (video_views (ch (wp_world p))) (wp_loop p)"
    using assms by (simp add: worker_safe_def)
  then have ready: "view_ready (wired_view_worker cfg) (ks (srv (wp_world p)))" by (simp add: view_inv_def)
  note same = view_start_same [OF run ready]
  have "worker_safe R ks cfg w0 (wp_loop p) w1" using assms same by (simp add: worker_safe_def)
  moreover from this have "worker_safe R ks cfg w0 \<lparr>vl_batch = [], vl_ids = [], vl_last_flush = t0\<rparr> w1"
    by (auto simp: worker_safe_def intro: view_inv_fresh)
  ultimately show ?thesis by (simp add: ViewStart run split: sum.split)
next
  case (ViewTurn t)
  obtain l w1 where run: "view_pass R clickhouse_sink (wired_view_worker cfg) t (wp_loop p, wp_world p) = (l, w1)"
    by (metis surj_pair)
  have "view_inv R (wired_view_worker cfg) (ks (srv w1)) (video_views (ch w1)) l"
    using view_worker.inv_pass [OF ch_view_worker [OF redis_server_axioms], of "wired_view_worker cfg" "(wp_loop p, wp_world p)" t]
      assms run by (simp add: worker_safe_def)
  moreover have "view_frame ks (wp_world p) w1"
    using view_pass_frame [of "(wp_loop p, wp_world p)" "wired_view_worker cfg" t] run by simp
  ultimately show ?thesis using safe_view assms run by (simp add: ViewTurn)
next
  case (ReconcilerTurn now)
  have "counts_exact (pg (wp_world p))" using assms by (simp add: worker_safe_def)
  from safe_quiet [OF assms reconcile_quiet [OF this]] show ?thesis by (simp add: ReconcilerTurn)
qed

lemma safe_steps:
  "worker_safe R ks cfg w0 (wp_loop p) (wp_world p) \<Longrightarrow>
   worker_safe R ks cfg w0 (wp_loop (worker_steps R cfg ts p)) (wp_world (worker_steps R cfg ts p))"
  by (induction ts arbitrary: p) (simp_all add: safe_step)

lemma safe_stop:
  assumes "worker_safe R ks cfg w0 (wp_loop p) (wp_world p)"
  shows "worker_safe R ks cfg w0 (wp_loop (worker_stop R cfg p)) (wp_world (worker_stop R cfg p))"
proof -
  obtain l w1 where run: "view_flush R clickhouse_sink (wired_view_worker cfg) (wp_loop p, wp_world p) = (l, w1)"
    by (metis surj_pair)
  have "view_inv R (wired_view_worker cfg) (ks (srv w1)) (video_views (ch w1)) l"
    using view_worker.inv_flush [OF ch_view_worker [OF redis_server_axioms], of "wired_view_worker cfg" "(wp_loop p, wp_world p)"]
      assms run by (simp add: worker_safe_def)
  moreover have "view_frame ks (wp_world p) w1"
    using view_flush_frame [of "(wp_loop p, wp_world p)" "wired_view_worker cfg"] run by simp
  ultimately show ?thesis using safe_view assms run by (simp add: worker_stop_def)
qed

end

section \<open>Property\<close>


text \<open>A like, a view and a malformed entry are waiting; every link fails now and then.\<close>

definition busy_world :: "keyspace world" where
  "busy_world = (example_world (like_backlog(view_stream_key := view_backlog view_stream_key)))
     \<lparr>net := [Up, Up, Up, ReplyLost, Refused], pgnet := [Up, ReplyLost, Refused], chnet := [Up, Up, ReplyLost]\<rparr>"

lemma wired_default:
  "wired_like_worker default_config = new_worker \<lparr>wc_group = ''vidmerce-workers'', wc_consumer = ''worker-1'',
     wc_batch_size = 500, wc_block_timeout = second\<rparr>"
  "vc_group (wired_view_worker default_config) = ''vidmerce-workers''"
  by (simp_all add: wired_like_worker_def wired_view_worker_def new_view_worker_def config_defaults)

definition busy_turns :: "worker_turn list" where
  "busy_turns = [ViewStart 0, LikeStart, LikeTurn (\<lambda>_. 0), ViewTurn (second, second), ReconcilerTurn 5,
     LikeTurn (\<lambda>_. 1), ViewTurn (second, 2 * second)]"

lemma view_backlog_ready:
  assumes "vc_group c = ''vidmerce-workers''" and "m view_stream_key = view_backlog view_stream_key"
  shows "view_ready c m" and "acked_stored ref_redis (vc_group c) (view_stream m) rows"
  using assms view_backlog_inv(1,2)
  by (auto simp: view_ready_def view_stream_def view_inv_def acked_stored_def example_view_worker_def new_view_worker_def
      view_backlog_def group_last_def stream_ok_def)


end
