(* ===== verification/Journeys.thy ===== *)
theory Journeys
  imports StartUp
begin

text \<open>
  Journeys through several components, from the router's point of view: a video and the views it
  gets, and the likes and views that reach the statistics through the two workers.
\<close>

section \<open>From a new video to its views\<close>

context video_reads
begin

text \<open>A creation that succeeds leaves the duration in Redis for the view pipeline.\<close>

lemma create_stores_duration:
  assumes "net w = []" and "video_cache_true R ks C w" and "hook_ok R ks C hook" and "fits (new_video uid i fresh now)"
    and hook: "\<And>h v x. hook = Some h \<Longrightarrow> ks (srv (h v x)) (duration_key R fresh) = ks (srv x) (duration_key R fresh)"
    and "video_create url R svc uid i fresh now w = (Inr v, w')"
  shows "\<exists>t. ks (srv w') (duration_key R fresh) = Some (RStr (format_int (vc_duration_sec i)), t)"
    and "0 < vc_duration_sec i \<and> vc_duration_sec i \<le> 3600"
proof -
  have "\<exists>w1. validate_video url i = None \<and> pg_create_video uid i fresh now w = (Inr v, w1)
      \<and> insert_video_sql uid i fresh now (pg w) = (Inr v, pg w1) \<and> w' = after_insert v w1"
    using video_create_steps(1) [OF assms(6,3,2,4)] by auto
  then obtain w1 where valid: "validate_video url i = None" and c: "pg_create_video uid i fresh now w = (Inr v, w1)"
    and ins: "insert_video_sql uid i fresh now (pg w) = (Inr v, pg w1)" and w': "w' = after_insert v w1" by blast
  show dur: "0 < vc_duration_sec i \<and> vc_duration_sec i \<le> 3600"
    using valid by (auto simp: validate_video_def Let_def split: if_splits)
  note k = insert_video_sql_Inr [OF ins] and cc = pg_create_video_cases(1) [OF c]
  have v: "v_id v = fresh" "v_duration_sec v = vc_duration_sec i" "fits v" using k assms(4) by (simp_all add: new_video_def)
  have true: "video_cache_true R ks C w1" using k cc by (intro cache_true_add [OF assms(2)]) (auto simp: new_video_def)
  obtain q2 w2 where c2: "json_set R C video_cache_key resource_cache_ttl (uuid_str R fresh) v w1 = (q2, w2)" by (metis surj_pair)
  obtain q3 w3 where c3: "redis_duration_set R dur_ttl fresh (vc_duration_sec i) w2 = (q3, w3)" by (metis surj_pair)
  have "vcache.cache_ready w1" using true by (simp add: cache_true_iff)
  from vcache.json_set_held [OF this _ v(3) c2] have "net w2 = []"
    using cc assms(1) by (auto simp: key_frame_def)
  then have "srv w3 = rSET R (duration_key R fresh) (format_int (vc_duration_sec i)) (if 0 < dur_ttl then redis_ttl dur_ttl else None) (srv w2)"
    using redis_duration_set_cases(3) [OF c3] dur by blast
  then have stored: "ks (srv w3) (duration_key R fresh)
      = Some (RStr (format_int (vc_duration_sec i)), if 0 < dur_ttl then redis_ttl dur_ttl else None)"
    by (simp add: set)
  have "w' = (case hook of None \<Rightarrow> w3 | Some h \<Rightarrow> h v w3)" by (simp add: w' after_insert_def v c2 c3)
  then have "ks (srv w') (duration_key R fresh) = ks (srv w3) (duration_key R fresh)"
    using hook by (simp split: option.splits)
  then show "\<exists>t. ks (srv w') (duration_key R fresh) = Some (RStr (format_int (vc_duration_sec i)), t)"
    using stored by simp
qed

end

text \<open>The chain's first filter, on a video long enough to have a threshold of its own.\<close>

lemma short_watch_rejected:
  assumes "0 < vi_duration_sec i" and "vi_duration_sec i \<le> 3600"
    and "(if vp_min_duration_sec cfg \<le> 0 then 5 else vp_min_duration_sec cfg) \<le> vi_duration_sec i"
    and "3 * (vi_watch_ms i + 1) \<le> 1000 * vi_duration_sec i"
  shows "f_allow (watch_threshold_filter cfg) i w = ((False, ''below_threshold''), w)"
proof -
  have "wrap64 (vi_duration_sec i * 1000) = vi_duration_sec i * 1000"
    using assms(1,2) by (intro wrap64_id) (simp add: in_int64_def)
  then have "required_watch_ms (vi_duration_sec i) cfg = vi_duration_sec i * 1000 div 3"
    using assms(1,3) by (auto simp: required_watch_ms_def Let_def go_div_nonneg)
  moreover have "vi_watch_ms i < vi_duration_sec i * 1000 div 3" using assms(4) by (simp add: less_third)
  moreover have "0 < vi_duration_sec i * 1000 div 3" using assms(1) by simp
  ultimately show ?thesis by (simp add: watch_threshold_filter_def Let_def)
qed

context redis_server
begin

lemma stored_duration:
  assumes "ks (srv w) (duration_key R v) = Some (RStr (format_int d), t)" and "net w = []" and "0 < d" and "d \<le> 3600"
  shows "redis_duration_get R v w = (Some d, w)"
proof -
  have "rGET R (duration_key R v) (srv w) = Some (format_int d)" using assms(1) get [of "srv w"] by simp
  then show ?thesis
    using assms(2-4) by (simp add: redis_duration_get_def redis_call_up parse_format_int in_int64_def)
qed

lemma short_view_answer:
  assumes "ks (srv w) (duration_key R v) = Some (RStr (format_int d), t)" and "net w = []" and "0 < d" and "d \<le> 3600"
    and "(if vwc_min_duration_sec (cf_view cfg) \<le> 0 then 5 else vwc_min_duration_sec (cf_view cfg)) \<le> d"
    and "3 * (tb_watch_ms body + 1) \<le> 1000 * d" and "uuid_parse R p = Some v"
  shows "handle_track R sha (app_view_service R cfg now) p addr ua body viewer ts w
    = (httpx_accepted \<lparr>tr_accepted = False, tr_rejected_by = ''watch_threshold:below_threshold'', tr_is_unique = False\<rparr>, w)"
proof -
  let ?i = "\<lparr>vi_video_id = v, vi_viewer_id = viewer, vi_ip_hash = hash_ip sha addr, vi_ua_hash = hash_ua sha ua,
     vi_country = tb_country body, vi_watch_ms = tb_watch_ms body, vi_duration_sec = d\<rparr>"
  have rej: "f_allow (watch_threshold_filter (app_view_policy cfg)) ?i w = ((False, ''below_threshold''), w)"
    using assms(3-6) by (intro short_watch_rejected) (auto simp: app_view_policy_def)
  have chain: "chain_apply (vs_chain (app_view_service R cfg now)) ?i w = ((False, ''watch_threshold:below_threshold''), w)"
    using rej by (simp add: app_view_service_def) (simp add: watch_threshold_filter_def)
  have ds: "ds_get (vs_durations (app_view_service R cfg now)) v w = (Some d, w)"
    using stored_duration [OF assms(1-4)] by (simp add: app_view_service_def redis_duration_store_def)
  show ?thesis using assms(7) ds chain by (simp add: handle_track_def track_def Let_def)
qed

end


text \<open>A user uploads a 30 second video; a nine second watch of it is rejected.\<close>

lemma require_auth_issued:
  assumes "jwt_library J" and "issue_access J svc uid jti t = Inr (tok, ex)" and "uid \<noteq> uuid_nil"
    and "numeric_date t \<le> now" and "now < numeric_date (t + jwt_access_ttl svc)"
  shows "require_auth J svc now (bearer_prefix @ tok) = Inr uid"
  using jwt_library.bearer_token [OF assms(1,2)] jwt_library.parse_issued [OF assms(1-3)] assms(4,5)
  by (simp add: require_auth_def access_claims_def Let_def del: drop_append)

definition upload_request :: "string \<Rightarrow> request" where
  "upload_request tok = anonymous_post\<lparr>rq_authorization := bearer_prefix @ tok\<rparr>"

definition upload_chance :: "keyspace chance" where
  "upload_chance = example_chance\<lparr>cn_id := 8, cn_now := 9000\<rparr>"

definition watch_request :: "int \<Rightarrow> request" where
  "watch_request ms = anonymous_post\<lparr>rq_route := ViewR (ref_uuid_str 8) \<lparr>tb_watch_ms = ms, tb_country = []\<rparr>\<rparr>"

lemma upload_succeeds:
  assumes "issue_access ref_jwt (app_jwt_service default_config) 1 6 0 = Inr (tok, ex)"
  shows "status (fst (serve ref_redis example_externals (app_wire ref_redis example_externals default_config)
     (upload_request tok) upload_chance (example_video_world []))) = 201"
proof -
  have auth: "require_auth ref_jwt (app_jwt_service default_config) 9000 (bearer_prefix @ tok) = Inr 1"
    by (rule require_auth_issued [OF ref_jwts.jwt_library_axioms assms])
      (simp_all add: second_def numeric_date_def app_jwt_service_def config_defaults)
  have ins: "pg_create_video 1 example_video_input 8 9000 (example_video_world []) =
      (Inr (new_video 1 example_video_input 8 9000), (example_video_world [])\<lparr>pg := add_video
        (new_video 1 example_video_input 8 9000) (pg (example_video_world []))\<rparr>)"
    using example_insert by (simp add: pg_create_video_def pg_exec_up)
  obtain v w1 where c: "video_create example_url_parse ref_redis (wired_videos ref_redis example_externals default_config) 1
      example_video_input 8 9000 (example_video_world []) = (Inr v, w1)"
    by (auto simp: video_create_def example_video_valid app_video_service_def pg_video_repo_def Let_def ins split_beta)
  have x: "x_jwt example_externals = ref_jwt" "x_url example_externals = example_url_parse"
    by (simp_all add: example_externals_def)
  show ?thesis
    by (simp add: serve_def auth_mw_def then_handle_def serve_protected_def app_wire_services x auth c upload_request_def
        upload_chance_def anonymous_post_def handle_create_video_def with_data_def httpx_created_def)
qed


end
