(* ===== verification/CatchUp.thy ===== *)
theory CatchUp
  imports WorkerMain Journeys
begin

text \<open>
  The worker process while every link is up: however the turns of its goroutines interleave, the
  backlogs of both streams drain at the rate of the turns, and the statistics the API then serves
  are those of Redis.
\<close>

section \<open>Counting turns\<close>

text \<open>The turns that are worked: those after the goroutine's start.\<close>

fun like_turns :: "bool \<Rightarrow> worker_turn list \<Rightarrow> nat" where
  "like_turns on [] = 0"
| "like_turns on (LikeStart # ts) = like_turns True ts"
| "like_turns on (LikeTurn clk # ts) = (if on then 1 else 0) + like_turns on ts"
| "like_turns on (_ # ts) = like_turns on ts"

fun view_turns :: "bool \<Rightarrow> worker_turn list \<Rightarrow> nat" where
  "view_turns on [] = 0"
| "view_turns on (ViewStart t0 # ts) = view_turns True ts"
| "view_turns on (ViewTurn t # ts) = (if on then 1 else 0) + view_turns on ts"
| "view_turns on (_ # ts) = view_turns on ts"

section \<open>The backlogs\<close>

definition like_backlog_of :: "('s \<Rightarrow> keyspace) \<Rightarrow> config \<Rightarrow> 's world \<Rightarrow> message list" where
  "like_backlog_of ks cfg w = stream_undelivered (wc_group (wired_like_worker cfg)) (like_stream (ks (srv w)))"

definition view_backlog_of :: "('s \<Rightarrow> keyspace) \<Rightarrow> config \<Rightarrow> 's world \<Rightarrow> message list" where
  "view_backlog_of ks cfg w = stream_undelivered (vc_group (wired_view_worker cfg)) (view_stream (ks (srv w)))"

text \<open>Rows stored, rows collected and rows still to be delivered.\<close>

definition rows_of :: "('s, 'z) redis_scheme \<Rightarrow> ('s \<Rightarrow> keyspace) \<Rightarrow> config \<Rightarrow> view_loop \<Rightarrow> 's world \<Rightarrow> view_row list" where
  "rows_of R ks cfg l w = video_views (ch w) @ map view_row_of (vl_batch l)
     @ map view_row_of (List.map_filter (view_parse_event R) (view_backlog_of ks cfg w))"

text \<open>What a process whose links are up keeps, relative to the world it started in.\<close>

definition like_side :: "('s, 'z) redis_scheme \<Rightarrow> ('s \<Rightarrow> keyspace) \<Rightarrow> config \<Rightarrow> 's world \<Rightarrow> bool" where
  "like_side R ks cfg w \<longleftrightarrow>
     like_lag R (wired_like_worker cfg) 0 (\<lambda>u v. row_exists u v (pg w)) (ks (srv w)) (set (likes (pg w))) \<and> likes_ok (pg w)"

definition view_side :: "('s, 'z) redis_scheme \<Rightarrow> ('s \<Rightarrow> keyspace) \<Rightarrow> config \<Rightarrow> view_row list \<Rightarrow> view_loop \<Rightarrow> 's world \<Rightarrow> bool" where
  "view_side R ks cfg rows l w \<longleftrightarrow> view_ready (wired_view_worker cfg) (ks (srv w)) \<and> rolled_up (ch w)
     \<and> (\<forall>ev \<in> set (vl_batch l). append_ok (view_row_of ev)) \<and> rows_of R ks cfg l w = rows"

definition untouched :: "('s \<Rightarrow> keyspace) \<Rightarrow> 's world \<Rightarrow> 's world \<Rightarrow> bool" where
  "untouched ks w0 w \<longleftrightarrow> videos (pg w) = videos (pg w0)
     \<and> (\<forall>k. k \<noteq> like_stream_key \<longrightarrow> k \<noteq> view_stream_key \<longrightarrow> ks (srv w) k = ks (srv w0) k)"

lemma untouched_frames:
  "untouched ks w0 w \<Longrightarrow> like_frame ks w w' \<Longrightarrow> untouched ks w0 w'"
  "untouched ks w0 w \<Longrightarrow> view_frame ks w w' \<Longrightarrow> untouched ks w0 w'"
  "untouched ks w0 w \<Longrightarrow> pg_quiet w w' \<Longrightarrow> untouched ks w0 w'"
  by (simp_all add: untouched_def like_frame_def view_frame_def pg_quiet_def)

text \<open>Each side of the state is the business of one goroutine.\<close>

lemma like_lag_stable:
  assumes "\<And>k. k \<noteq> view_stream_key \<Longrightarrow> m' k = m k"
  shows "like_lag L c n ok m' X = like_lag L c n ok m X"
proof -
  have k: "m' (user_liked_set_key L u) = m (user_liked_set_key L u)"
    "m' (video_likes_count_key L v) = m (video_likes_count_key L v)" "m' like_stream_key = m like_stream_key" for u v
    by (simp_all add: assms user_liked_set_key_def video_likes_count_key_def view_stream_key_def like_stream_key_def)
  have e: "redis_edges L m' = redis_edges L m" by (simp add: redis_edges_def k)
  show ?thesis
    by (simp add: like_lag_def like_typed_def like_room_def like_ready_def like_stream_def counters_exact_def k e)
qed

lemma like_side_stable:
  "like_side R ks cfg w \<Longrightarrow> view_frame ks w w' \<Longrightarrow> like_side R ks cfg w' \<and> like_backlog_of ks cfg w' = like_backlog_of ks cfg w"
  by (simp add: like_side_def view_frame_def like_backlog_of_def like_stream_def
      like_lag_stable [where m' = "ks (srv w')" and m = "ks (srv w)"])

lemma view_side_stable:
  assumes "ks (srv w') view_stream_key = ks (srv w) view_stream_key" and "ch w' = ch w"
  shows "view_side R ks cfg rows l w' = view_side R ks cfg rows l w" and "view_backlog_of ks cfg w' = view_backlog_of ks cfg w"
  using assms by (simp_all add: view_side_def rows_of_def view_backlog_of_def view_ready_def view_stream_def)

section \<open>One turn\<close>

definition catching_up ::
  "('s, 'z) redis_scheme \<Rightarrow> ('s \<Rightarrow> keyspace) \<Rightarrow> config \<Rightarrow> 's world \<Rightarrow> view_row list \<Rightarrow> nat \<Rightarrow> nat \<Rightarrow> 's worker_proc \<Rightarrow> bool"
where
  "catching_up R ks cfg w0 rows nl nv p \<longleftrightarrow> \<not> wp_cancelled p \<and> all_up (wp_world p) \<and> untouched ks w0 (wp_world p)
     \<and> like_side R ks cfg (wp_world p) \<and> view_side R ks cfg rows (wp_loop p) (wp_world p)
     \<and> (\<not> wp_view p \<longrightarrow> vl_batch (wp_loop p) = [])
     \<and> length (like_backlog_of ks cfg (wp_world p)) \<le> nl \<and> length (view_backlog_of ks cfg (wp_world p)) \<le> nv"

abbreviation like_batch :: "config \<Rightarrow> nat" where
  "like_batch cfg \<equiv> nat (wc_batch_size (wired_like_worker cfg))"

abbreviation view_batch :: "config \<Rightarrow> nat" where
  "view_batch cfg \<equiv> nat (vc_read_batch (wired_view_worker cfg))"

context redis_server
begin

lemma like_turn_catches_up:
  fixes clk :: "nat \<Rightarrow> gotime"
  assumes "all_up w" and "like_side R ks cfg w"
  defines "w' \<equiv> like_pass R pg_like_repo (wired_like_worker cfg) clk w"
  shows "all_up w' \<and> like_side R ks cfg w'
    \<and> length (like_backlog_of ks cfg w') = length (like_backlog_of ks cfg w) - like_batch cfg"
proof -
  note W = pg_like_worker [OF redis_server_axioms]
  let ?c = "wired_like_worker cfg"
  have up: "links_up w" and lag: "like_lag R ?c 0 (\<lambda>u v. row_exists u v (pg w)) (ks (srv w)) (set (likes (pg w)))"
    and ok: "likes_ok (pg w)"
    using assms(1,2) by (simp_all add: all_up_def links_up_def like_side_def)
  note turn = like_worker.lag_turn [OF W lag up, of clk, folded w'_def]
  obtain evs where lg: "logs R evs (stream_undelivered (wc_group ?c) (like_stream (ks (srv w))))"
    and evs: "\<forall>(u, v, opr, ts) \<in> set evs. (opr = OpLike \<or> opr = OpUnlike) \<and> row_exists u v (pg w)"
    using lag unfolding like_lag_def by blast
  have "like_ready ?c (ks (srv w))" "stream_ok (like_stream (ks (srv w)))" using lag by (simp_all add: like_lag_def)
  from like_worker.pass_log [OF W up this lg evs, of clk, folded w'_def]
  have lg': "logs R (drop (like_batch cfg) evs) (stream_undelivered (wc_group ?c) (like_stream (ks (srv w'))))" by blast
  have "length (like_backlog_of ks cfg w') = length (like_backlog_of ks cfg w) - like_batch cfg"
    using logs_length [OF lg] logs_length [OF lg'] by (simp add: like_backlog_of_def)
  moreover have "chnet w' = []" using like_pass_frame [of w ?c clk] assms(1) by (simp add: w'_def like_frame_def all_up_def)
  moreover have "like_side R ks cfg w'" unfolding like_side_def using turn ok by blast
  ultimately show ?thesis using turn by (simp add: all_up_def links_up_def)
qed

lemma view_turn_catches_up:
  assumes "all_up w" and "view_side R ks cfg rows l w"
    and "view_pass R clickhouse_sink (wired_view_worker cfg) t (l, w) = (l', w')"
  shows "all_up w' \<and> view_side R ks cfg rows l' w'
    \<and> length (view_backlog_of ks cfg w') = length (view_backlog_of ks cfg w) - view_batch cfg"
proof -
  note W = ch_view_worker [OF redis_server_axioms]
  let ?c = "wired_view_worker cfg"
  have up: "view_worker.view_up (\<lambda>e. append_ok (view_row_of e)) (l, w)" and ready: "view_ready ?c (ks (srv (snd (l, w))))"
    using assms(1,2) by (simp_all add: view_worker.view_up_def [OF W] all_up_def view_side_def)
  have fr: "pgnet w' = pgnet w" "rolled_up (ch w) \<longrightarrow> rolled_up (ch w')"
    using view_pass_frame [of "(l, w)" ?c t] assms(3) by (simp_all add: view_frame_def)
  from view_worker.up_pass [OF W up ready, of t] show ?thesis
    using assms fr
    by (auto simp: view_worker.view_up_def [OF W] view_worker.all_rows_def [OF W] view_worker.undelivered_def [OF W]
        all_up_def view_side_def rows_of_def view_backlog_of_def)
qed

lemma view_flush_catches_up:
  assumes "all_up w" and "view_side R ks cfg rows l w"
    and "view_flush R clickhouse_sink (wired_view_worker cfg) (l, w) = (l', w')"
  shows "all_up w' \<and> view_side R ks cfg rows l' w' \<and> vl_batch l' = []
    \<and> view_backlog_of ks cfg w' = view_backlog_of ks cfg w"
proof -
  note W = ch_view_worker [OF redis_server_axioms]
  let ?c = "wired_view_worker cfg"
  have up: "view_worker.view_up (\<lambda>e. append_ok (view_row_of e)) (l, w)" and ready: "view_ready ?c (ks (srv (snd (l, w))))"
    using assms(1,2) by (simp_all add: view_worker.view_up_def [OF W] all_up_def view_side_def)
  have fr: "pgnet w' = pgnet w" "rolled_up (ch w) \<longrightarrow> rolled_up (ch w')"
    using view_flush_frame [of "(l, w)" ?c] assms(3) by (simp_all add: view_frame_def)
  from view_worker.up_flush [OF W up ready] show ?thesis
    using assms fr
    by (auto simp: view_worker.view_up_def [OF W] view_worker.all_rows_def [OF W] view_worker.undelivered_def [OF W]
        all_up_def view_side_def rows_of_def view_backlog_of_def)
qed

text \<open>Starting finds the group that is already there.\<close>

lemma like_start_catches_up:
  assumes "all_up w" and "like_side R ks cfg w" and "like_ensure_group R (wired_like_worker cfg) w = (q, w')"
  shows "q = Inr () \<and> all_up w' \<and> ks (srv w') = ks (srv w) \<and> pg w' = pg w \<and> ch w' = ch w"
proof -
  have s: "is_stream (ks (srv w) like_stream_key)"
    "xgroups (stream_val (ks (srv w) like_stream_key)) (wc_group (wired_like_worker cfg)) \<noteq> None"
    using assms(2) by (simp_all add: like_side_def like_lag_def like_ready_def like_stream_def)
  show ?thesis
    using assms(1,3) xgroup(2) [OF s(1)] group_again [of "ks (srv w)" like_stream_key, OF s]
    by (auto simp: like_ensure_group_def redis_call_up all_up_def)
qed

lemma view_start_catches_up:
  assumes "all_up w" and "view_side R ks cfg rows l w" and "view_ensure_group R (wired_view_worker cfg) w = (q, w')"
  shows "q = Inr () \<and> all_up w' \<and> ks (srv w') = ks (srv w) \<and> pg w' = pg w \<and> ch w' = ch w"
proof -
  have "view_ready (wired_view_worker cfg) (ks (srv w))" using assms(2) by (simp add: view_side_def)
  with view_start_same [OF assms(3)] show ?thesis
    using assms(1,3) by (auto simp: view_ensure_group_def redis_call_up all_up_def)
qed

lemma catching_up_same:
  assumes "catching_up R ks cfg w0 rows nl nv p" and "all_up w'" and "ks (srv w') = ks (srv (wp_world p))"
    and "pg w' = pg (wp_world p)" and "ch w' = ch (wp_world p)"
  shows "catching_up R ks cfg w0 rows nl nv (p\<lparr>wp_world := w'\<rparr>)"
  using assms
  by (simp add: catching_up_def untouched_def like_side_def like_backlog_of_def view_side_stable(2) [of ks w' "wp_world p"]
      view_side_stable(1) [of ks w' "wp_world p"])

lemma catching_up_like_turn:
  assumes "catching_up R ks cfg w0 rows nl nv p" and "wp_like p"
  shows "catching_up R ks cfg w0 rows (nl - like_batch cfg) nv (worker_step R cfg (LikeTurn clk) p)"
proof -
  let ?w = "wp_world p" and ?w' = "like_pass R pg_like_repo (wired_like_worker cfg) clk (wp_world p)"
  have st: "all_up ?w" "like_side R ks cfg ?w" "untouched ks w0 ?w" using assms(1) by (simp_all add: catching_up_def)
  note turn = like_turn_catches_up [OF st(1,2), of clk]
  note fr = like_pass_frame [of ?w "wired_like_worker cfg" clk]
  have v: "ks (srv ?w') view_stream_key = ks (srv ?w) view_stream_key" "ch ?w' = ch ?w"
    using fr by (simp_all add: like_frame_def)
  show ?thesis
    using assms turn untouched_frames(1) [OF st(3) fr]
    by (simp add: catching_up_def view_side_stable [where ks = ks and w' = ?w' and w = ?w, OF v] diff_le_mono)
qed

lemma catching_up_view_turn:
  assumes "catching_up R ks cfg w0 rows nl nv p" and "wp_view p"
  shows "catching_up R ks cfg w0 rows nl (nv - view_batch cfg) (worker_step R cfg (ViewTurn t) p)"
proof -
  let ?w = "wp_world p"
  obtain l w' where run: "view_pass R clickhouse_sink (wired_view_worker cfg) t (wp_loop p, ?w) = (l, w')"
    by (metis surj_pair)
  have st: "all_up ?w" "view_side R ks cfg rows (wp_loop p) ?w" "untouched ks w0 ?w" "like_side R ks cfg ?w"
    using assms(1) by (simp_all add: catching_up_def)
  note turn = view_turn_catches_up [OF st(1,2) run]
  have fr: "view_frame ks ?w w'" using view_pass_frame [of "(wp_loop p, ?w)" "wired_view_worker cfg" t] run by simp
  show ?thesis
    using assms turn untouched_frames(2) [OF st(3) fr] like_side_stable [OF st(4) fr] run
    by (simp add: catching_up_def diff_le_mono)
qed

lemma catching_up_start:
  assumes "catching_up R ks cfg w0 rows nl nv p" and "worker_enabled t p" and "t = LikeStart \<or> t = ViewStart t0"
  shows "catching_up R ks cfg w0 rows nl nv (worker_step R cfg t p)"
    and "wp_like (worker_step R cfg t p) = (wp_like p \<or> t = LikeStart)"
    and "wp_view (worker_step R cfg t p) = (wp_view p \<or> t = ViewStart t0)"
proof -
  let ?w = "wp_world p"
  have st: "all_up ?w" "like_side R ks cfg ?w" "view_side R ks cfg rows (wp_loop p) ?w"
    using assms(1) by (simp_all add: catching_up_def)
  obtain q1 w1 where l: "like_ensure_group R (wired_like_worker cfg) ?w = (q1, w1)" by (metis surj_pair)
  obtain q2 w2 where v: "view_ensure_group R (wired_view_worker cfg) ?w = (q2, w2)" by (metis surj_pair)
  note sl = like_start_catches_up [OF st(1,2) l] and sv = view_start_catches_up [OF st(1,3) v]
  have cl: "catching_up R ks cfg w0 rows nl nv (p\<lparr>wp_world := w1\<rparr>)" using catching_up_same [OF assms(1)] sl by blast
  have cv: "catching_up R ks cfg w0 rows nl nv (p\<lparr>wp_world := w2\<rparr>)" using catching_up_same [OF assms(1)] sv by blast
  have off: "\<not> wp_view p" "vl_batch (wp_loop p) = []" if "t = ViewStart t0"
    using assms(1,2) that by (simp_all add: worker_enabled_def catching_up_def)
  show "catching_up R ks cfg w0 rows nl nv (worker_step R cfg t p)"
    using assms(3) cl cv l v sl sv off
    by (auto simp: catching_up_def view_side_def rows_of_def)
  show "wp_like (worker_step R cfg t p) = (wp_like p \<or> t = LikeStart)"
    "wp_view (worker_step R cfg t p) = (wp_view p \<or> t = ViewStart t0)"
    using assms(3) l v sl sv by auto
qed

lemma catching_up_reconciler:
  assumes "catching_up R ks cfg w0 rows nl nv p"
  shows "catching_up R ks cfg w0 rows nl nv (worker_step R cfg (ReconcilerTurn now) p)"
proof -
  have "counts_exact (pg (wp_world p))" using assms by (simp add: catching_up_def like_side_def)
  from reconcile_quiet [OF this, of "rc_sample (wired_reconciler cfg)" now] show ?thesis
    using catching_up_same [OF assms, of "snd (reconcile_once pg_like_repo (rc_sample (wired_reconciler cfg)) now (wp_world p))"]
      assms by (simp add: pg_quiet_def all_up_def catching_up_def)
qed

lemma catching_up_steps:
  "catching_up R ks cfg w0 rows nl nv p \<Longrightarrow>
   catching_up R ks cfg w0 rows (nl - like_turns (wp_like p) ts * like_batch cfg)
     (nv - view_turns (wp_view p) ts * view_batch cfg) (worker_steps R cfg ts p)"
proof (induction ts arbitrary: p nl nv)
  case Nil
  then show ?case by simp
next
  case (Cons t ts)
  have on: "\<not> wp_cancelled p" using Cons.prems by (simp add: catching_up_def)
  show ?case
  proof (cases t)
    case LikeStart
    show ?thesis
    proof (cases "worker_enabled t p")
      case True
      from Cons.IH [OF catching_up_start(1) [OF Cons.prems True]] catching_up_start(2,3) [OF Cons.prems True] True
      show ?thesis by (auto simp: LikeStart)
    next
      case False
      then have "wp_like p" using on by (simp add: LikeStart worker_enabled_def)
      then show ?thesis using Cons.IH [OF Cons.prems] False by (simp add: LikeStart)
    qed
  next
    case (ViewStart t0)
    show ?thesis
    proof (cases "worker_enabled t p")
      case True
      from Cons.IH [OF catching_up_start(1) [OF Cons.prems True]] catching_up_start(2,3) [OF Cons.prems True] True
      show ?thesis by (auto simp: ViewStart)
    next
      case False
      then have "wp_view p" using on by (simp add: ViewStart worker_enabled_def)
      then show ?thesis using Cons.IH [OF Cons.prems] False by (simp add: ViewStart)
    qed
  next
    case (LikeTurn clk)
    show ?thesis
      using Cons.IH [OF catching_up_like_turn [OF Cons.prems, of clk]] Cons.IH [OF Cons.prems] on
      by (cases "wp_like p") (simp_all add: LikeTurn worker_enabled_def)
  next
    case (ViewTurn x)
    obtain l w where run: "view_pass R clickhouse_sink (wired_view_worker cfg) x (wp_loop p, wp_world p) = (l, w)"
      by (metis surj_pair)
    show ?thesis
      using Cons.IH [OF catching_up_view_turn [OF Cons.prems, of x]] Cons.IH [OF Cons.prems] on run
      by (cases "wp_view p") (simp_all add: ViewTurn worker_enabled_def)
  next
    case (ReconcilerTurn now)
    show ?thesis
      using Cons.IH [OF catching_up_reconciler [OF Cons.prems]] on by (simp add: ReconcilerTurn worker_enabled_def)
  qed
qed

lemma worker_run_catches_up:
  assumes "all_up w" and "drivers_ok X cfg" and "like_side R ks cfg w"
    and "view_ready (wired_view_worker cfg) (ks (srv w))" and "rolled_up (ch w)"
    and "length (like_backlog_of ks cfg w) \<le> like_turns False ts * like_batch cfg"
    and "length (view_backlog_of ks cfg w) \<le> view_turns False ts * view_batch cfg"
    and "worker_run R X cfg ts w = (r, w')"
  shows "r = Inr () \<and> all_up w' \<and> untouched ks w w' \<and> like_side R ks cfg w' \<and> like_backlog_of ks cfg w' = []
    \<and> view_backlog_of ks cfg w' = [] \<and> rolled_up (ch w')
    \<and> video_views (ch w') = video_views (ch w)
        @ map view_row_of (List.map_filter (view_parse_event R) (view_backlog_of ks cfg w))"
proof -
  have opened: "open_stores X cfg w = (Inr (), w)"
    using open_stores_cases(2) [OF surjective_pairing [of "open_stores X cfg w"] assms(2)] assms(1)
    by (simp add: all_up_def prod_eq_iff)
  define rows where "rows = rows_of R ks cfg (wp_loop (worker_begin w)) w"
  have rows: "rows = video_views (ch w) @ map view_row_of (List.map_filter (view_parse_event R) (view_backlog_of ks cfg w))"
    by (simp add: rows_def rows_of_def worker_begin_def)
  let ?nl = "length (like_backlog_of ks cfg w)" and ?nv = "length (view_backlog_of ks cfg w)"
  have "catching_up R ks cfg w rows ?nl ?nv (worker_begin w)"
    using assms(1,3-5) by (simp add: catching_up_def worker_begin_def untouched_def view_side_def rows_def)
  from catching_up_steps [OF this, of ts]
  have at_end: "catching_up R ks cfg w rows 0 0 (worker_steps R cfg ts (worker_begin w))"
    using assms(6,7) by (simp add: worker_begin_def)
  define p where "p = worker_steps R cfg ts (worker_begin w)"
  obtain l w1 where fl: "view_flush R clickhouse_sink (wired_view_worker cfg) (wp_loop p, wp_world p) = (l, w1)"
    by (metis surj_pair)
  have st: "all_up (wp_world p)" "view_side R ks cfg rows (wp_loop p) (wp_world p)" "untouched ks w (wp_world p)"
    "like_side R ks cfg (wp_world p)" "like_backlog_of ks cfg (wp_world p) = []" "view_backlog_of ks cfg (wp_world p) = []"
    using at_end by (simp_all add: catching_up_def p_def)
  have run: "(r, w') = (Inr (), if wp_view p then w1 else wp_world p)"
    using assms(8) fl by (auto simp: worker_run_def opened worker_stop_def p_def [symmetric])
  have fr: "view_frame ks (wp_world p) w1"
    using view_flush_frame [of "(wp_loop p, wp_world p)" "wired_view_worker cfg"] fl by simp
  have off: "\<not> wp_view p \<Longrightarrow> vl_batch (wp_loop p) = []" using at_end by (simp add: catching_up_def p_def)
  note flush = view_flush_catches_up [OF st(1,2) fl] untouched_frames(2) [OF st(3) fr] like_side_stable [OF st(4) fr]
  have "w' = w1 \<or> w' = wp_world p \<and> vl_batch (wp_loop p) = []" and "r = Inr ()" using run off by (auto split: if_splits)
  then show ?thesis
    using flush st rows by (auto simp: view_side_def rows_of_def map_filter_simps)
qed

end

text \<open>What an empty backlog means for the edges.\<close>

lemma drained_like_side:
  assumes "redis_server R ks" and "like_side R ks cfg w'" and "untouched ks w w'" and "like_backlog_of ks cfg w' = []"
  shows "set (likes (pg w')) = redis_edges R (ks (srv w))
    \<and> (\<forall>v. edge_count v (pg w') = num_val (ks (srv w) (video_likes_count_key R v)))"
proof -
  have k: "ks (srv w') (user_liked_set_key R u) = ks (srv w) (user_liked_set_key R u)"
    "ks (srv w') (video_likes_count_key R v) = ks (srv w) (video_likes_count_key R v)" for u v
    using assms(3) by (auto simp: untouched_def user_liked_set_key_def video_likes_count_key_def view_stream_key_def like_stream_key_def)
  have lag: "like_lag R (wired_like_worker cfg) 0 (\<lambda>u v. row_exists u v (pg w')) (ks (srv w')) (set (likes (pg w')))"
    and keyed: "likes_keyed (pg w')" using assms(2) by (simp_all add: like_side_def)
  from lag obtain evs where lg: "logs R evs (stream_undelivered (wc_group (wired_like_worker cfg)) (like_stream (ks (srv w'))))"
    and rq: "requested_edges evs (set (likes (pg w'))) = redis_edges R (ks (srv w'))"
    unfolding like_lag_def by blast
  have "evs = []" using logs_length [OF lg] assms(4) by (simp add: like_backlog_of_def)
  then have edges: "set (likes (pg w')) = redis_edges R (ks (srv w'))" using rq by simp
  have "counters_exact R (ks (srv w'))" using lag by (simp add: like_lag_def)
  from edge_count_is_redis_counter [OF keyed this edges]
  have "edge_count v (pg w') = num_val (ks (srv w) (video_likes_count_key R v))" for v by (simp add: k)
  moreover have "redis_edges R (ks (srv w')) = redis_edges R (ks (srv w))" by (simp add: redis_edges_def k)
  ultimately show ?thesis using edges by simp
qed

section \<open>Properties\<close>

text \<open>Enough turns for what is waiting, in a state the API and earlier runs can have left.\<close>

definition can_drain ::
  "('s, 'z) redis_scheme \<Rightarrow> ('s \<Rightarrow> keyspace) \<Rightarrow> externals \<Rightarrow> config \<Rightarrow> worker_turn list \<Rightarrow> 's world \<Rightarrow> bool"
where
  "can_drain R ks X cfg ts w \<longleftrightarrow> all_up w \<and> drivers_ok X cfg \<and> like_side R ks cfg w
     \<and> view_ready (wired_view_worker cfg) (ks (srv w)) \<and> rolled_up (ch w)
     \<and> length (like_backlog_of ks cfg w) \<le> like_turns False ts * like_batch cfg
     \<and> length (view_backlog_of ks cfg w) \<le> view_turns False ts * view_batch cfg"

text \<open>No statistics of the video cached now, nor by other replicas while one waits for the lock.\<close>

definition uncached :: "('s, 'z) redis_scheme \<Rightarrow> ('s \<Rightarrow> keyspace) \<Rightarrow> externals \<Rightarrow> 's chance \<Rightarrow> uuid \<Rightarrow> 's world \<Rightarrow> bool" where
  "uncached R ks X cn v w \<longleftrightarrow> ks (srv w) (stats_cache_key R v) = None \<and> is_str (ks (srv w) (stats_lock_key R v))
     \<and> pause_ok R ks v (cn_pause cn) \<and> (\<forall>x. \<exists>y. cn_pause cn x = Some y \<and> stats_held R ks (x_stats X) v y = None)"

text \<open>All views of the store and of the stream.\<close>

definition all_views :: "('s, 'z) redis_scheme \<Rightarrow> ('s \<Rightarrow> keyspace) \<Rightarrow> config \<Rightarrow> 's world \<Rightarrow> view_row list" where
  "all_views R ks cfg w = video_views (ch w)
     @ map view_row_of (List.map_filter (view_parse_event R) (view_backlog_of ks cfg w))"

text \<open>A request for statistics in the state the process leaves.\<close>

lemma stats_after_drain:
  assumes "redis_server R ks" and "json_codec (x_video X) fits" and "\<forall>v \<in> set (videos (pg w)). fits v"
    and "video_cache_true R ks (x_video X) w" and "uncached R ks X cn v w"
    and "all_up w' \<and> untouched ks w w' \<and> like_side R ks cfg w' \<and> rolled_up (ch w')"
    and "length (video_views (ch w')) < 2 ^ 63" and "uuid_parse R p = Some v" and "video_row v (pg w) \<noteq> None"
    and "handle_stats R (x_stats X) (ap_stats (app_wire R X cfg')) (cn_pause cn) lf p token now w' = (resp, w2)"
  shows "\<exists>st. resp = httpx_ok st \<and> stats_exact v (pg w') (ch w') now st"
proof -
  have k: "ks (srv w') x = ks (srv w) x" if "x \<noteq> like_stream_key" "x \<noteq> view_stream_key" for x
    using assms(6) that by (simp add: untouched_def)
  note key_defs = stats_cache_key_def stats_lock_key_def video_cache_key_def like_stream_key_def view_stream_key_def
  have vids: "videos (pg w') = videos (pg w)" using assms(6) by (simp add: untouched_def)
  have cache: "video_cache_true R ks (x_video X) w'"
    using assms(4) by (simp add: video_cache_true_def cache_held_def k key_defs vids video_row_def)
  have keys: "is_str (ks (srv w') (stats_cache_key R v))" "is_str (ks (srv w') (stats_lock_key R v))"
    "stats_held R ks (x_stats X) v w' = None"
    using assms(5) by (simp_all add: uncached_def k key_defs stats_held_def cache_held_def)
  have up: "pgnet w' = []" "chnet w' = []" "likes_keyed (pg w')" "counts_exact (pg w')" "rolled_up (ch w')"
    using assms(6) by (simp_all add: all_up_def like_side_def)
  have pause: "pause_ok R ks v (cn_pause cn)" "\<forall>x. \<exists>y. cn_pause cn x = Some y \<and> stats_held R ks (x_stats X) v y = None"
    using assms(5) by (simp_all add: uncached_def)
  have fits: "\<forall>v \<in> set (videos (pg w')). fits v" and row: "video_row v (pg w') \<noteq> None"
    using assms(3,9) by (simp_all add: vids video_row_def)
  from handle_stats_sound [OF assms(1,2) fits cache up(5,4) assms(7) pause(1) keys(1,2) app_wire_services(4) assms(8,10)]
  show ?thesis using row up(1-3) keys(3) pause(2) by (metis option.distinct(1) option.inject)
qed


text \<open>The world of \<open>busy_world\<close> with its links up: one like, one view and one malformed entry wait.\<close>

definition calm_world :: "keyspace world" where
  "calm_world = busy_world\<lparr>net := [], pgnet := [], chnet := []\<rparr>"

lemma calm_world_simps [simp]:
  "all_up calm_world" "pg calm_world = example_pg" "ch calm_world = empty_clickhouse"
  "srv calm_world = like_backlog(view_stream_key := view_backlog view_stream_key)"
  by (simp_all add: calm_world_def busy_world_def example_world_def new_world_def all_up_def)

lemma like_lag_group: "wc_group c = wc_group c' \<Longrightarrow> like_lag L c n ok m X = like_lag L c' n ok m X"
  by (simp add: like_lag_def like_ready_def)

lemma calm_backlogs:
  "like_backlog_of (\<lambda>m. m) default_config calm_world = [(1, like_event_fields ref_redis 1 7 OpLike 0)]"
  "view_backlog_of (\<lambda>m. m) default_config calm_world = [(1, view_fields ref_redis example_view True 9), (2, [])]"
  by (simp_all add: like_backlog_of_def view_backlog_of_def wired_default new_worker_def like_stream_def view_stream_def
      like_backlog_def view_backlog_def stream_undelivered_def)

lemma calm_drains: "can_drain ref_redis (\<lambda>m. m) example_externals default_config busy_turns calm_world"
proof -
  have "like_lag ref_redis (wired_like_worker default_config) 0 (\<lambda>u v. row_exists u v example_pg) (srv calm_world) {}"
  proof -
    have "like_lag ref_redis (wired_like_worker default_config) 0 (\<lambda>u v. row_exists u v example_pg) (srv calm_world) {}
        = like_lag ref_redis example_worker 0 (\<lambda>u v. row_exists u v example_pg) like_backlog {}"
      by (rule trans [OF like_lag_group like_lag_stable]) (simp_all add: wired_default new_worker_def)
    then show ?thesis using like_backlog_lag by simp
  qed
  moreover have "likes_ok example_pg" "likes example_pg = []"
    by (simp_all add: example_pg_def empty_postgres_def likes_keyed_def counts_exact_def edge_count_def video_exists_def)
  moreover have "rolled_up empty_clickhouse"
    by (simp add: rolled_up_def daily_views_def daily_unique_views_def empty_clickhouse_def)
  moreover have "view_ready (wired_view_worker default_config) (srv calm_world)"
    by (rule view_backlog_ready(1) [where m = "srv calm_world", OF wired_default(2)]) simp
  moreover have "drivers_ok example_externals default_config" by (simp add: drivers_ok_def example_externals_def)
  moreover have "wc_batch_size (wired_like_worker default_config) = 500" "vc_read_batch (wired_view_worker default_config) = 200"
    by (simp_all add: wired_default new_worker_def wired_view_worker_def new_view_worker_def)
  ultimately show ?thesis
    by (simp add: can_drain_def like_side_def calm_backlogs busy_turns_def)
qed

lemma calm_views: "map vr_video_id (all_views ref_redis (\<lambda>m. m) default_config calm_world) = [7]"
  "\<forall>r \<in> set (all_views ref_redis (\<lambda>m. m) default_config calm_world). vr_is_unique r = 1"
  by (simp_all add: all_views_def calm_backlogs map_filter_simps view_backlog_parsed view_row_of_def empty_clickhouse_def)



lemma not_likes_key: "''video:'' @ ref_uuid_str i \<noteq> video_likes_count_key ref_redis v"
proof
  assume "''video:'' @ ref_uuid_str i = video_likes_count_key ref_redis v"
  from arg_cong [OF this, of length] show False
    using ref_redis.str_length [simplified] by (simp add: video_likes_count_key_def)
qed

definition stats_request :: request where
  "stats_request = anonymous_post\<lparr>rq_route := StatsR (ref_uuid_str 7)\<rparr>"

definition stats_chance :: "keyspace chance" where
  "stats_chance = example_chance\<lparr>cn_pause := quiet\<rparr>"


end
