(* ===== verification/WorkerMetrics.thy ===== *)
theory WorkerMetrics
  imports Metrics CatchUp
begin

text \<open>
  The worker process (theory WorkerMain) with what it records, and the proof that its metrics agree
  with the tables it writes.
\<close>

section \<open>Where they are called: the worker process\<close>

text \<open>\<open>took\<close> is the duration of the Apply of each entry, or of the insert.\<close>

definition metered_like_process ::
  "bool \<Rightarrow> ('s, 'z) redis_scheme \<Rightarrow> 's world like_repo \<Rightarrow> worker_config \<Rightarrow> (nat \<Rightarrow> gotime) \<Rightarrow> (nat \<Rightarrow> int) \<Rightarrow> message
     \<Rightarrow> 's world \<times> registry \<Rightarrow> 's world \<times> registry"
where
  "metered_like_process en R repo c clk took m st =
     (let (w, r) = st
      in (like_process R repo c clk m w,
          case like_parse_event R m of
            None \<Rightarrow> r
          | Some ev \<Rightarrow>
              (case fst (repo_apply repo (le_user_id ev) (le_video_id ev) (le_op ev) (clk (fst m)) w) of
                 Inl e \<Rightarrow> r
               | Inr res \<Rightarrow> record_like_worker_apply en (le_op ev) (lr_changed res) (took (fst m)) r)))"

definition metered_like_pass ::
  "bool \<Rightarrow> ('s, 'z) redis_scheme \<Rightarrow> 's world like_repo \<Rightarrow> worker_config \<Rightarrow> (nat \<Rightarrow> gotime) \<Rightarrow> (nat \<Rightarrow> int)
     \<Rightarrow> 's world \<times> registry \<Rightarrow> 's world \<times> registry"
where
  "metered_like_pass en R repo c clk took st =
     (let (w, r) = st
      in case like_read R c w of
           (Inl e, w') \<Rightarrow> (w', r)
         | (Inr es, w') \<Rightarrow> fold (metered_like_process en R repo c clk took) es (w', r))"

definition metered_view_flush ::
  "bool \<Rightarrow> ('s, 'z) redis_scheme \<Rightarrow> 's world sink \<Rightarrow> view_worker_config \<Rightarrow> int \<Rightarrow> (view_loop \<times> 's world) \<times> registry
     \<Rightarrow> (view_loop \<times> 's world) \<times> registry"
where
  "metered_view_flush en R sink c took st =
     (let ((l, w), r) = st
      in (view_flush R sink c (l, w),
          if vl_batch l = [] then r
          else record_view_worker_flush en (length (vl_batch l)) took
                 (case fst (sink_insert sink (vl_batch l) w) of Inl e \<Rightarrow> True | Inr _ \<Rightarrow> False) r))"

definition metered_view_pass ::
  "bool \<Rightarrow> ('s, 'z) redis_scheme \<Rightarrow> 's world sink \<Rightarrow> view_worker_config \<Rightarrow> gotime \<times> gotime \<Rightarrow> int
     \<Rightarrow> (view_loop \<times> 's world) \<times> registry \<Rightarrow> (view_loop \<times> 's world) \<times> registry"
where
  "metered_view_pass en R sink c t took st =
     (let ((l, w), r) = st
      in case redis_call (rXREADGROUP R view_stream_key (vc_group c) (nat (vc_read_batch c))) w of
           (Inl e, w1) \<Rightarrow> ((l, w1), r)
         | (Inr es, w1) \<Rightarrow>
             (let (l, w) = fold (view_collect R c) es (l, w1)
              in if int (length (vl_batch l)) \<ge> vc_flush_size c
                    \<or> (0 < length (vl_batch l) \<and> fst t - vl_last_flush l \<ge> vc_flush_interval c)
                 then (let ((l, w), r) = metered_view_flush en R sink c took ((l, w), r)
                       in ((l\<lparr>vl_last_flush := snd t\<rparr>, w), r))
                 else ((l, w), r)))"

text \<open>The reconciler adds to its counters itself, whatever \<open>Enabled\<close> says.\<close>

definition metered_reconcile_once ::
  "'w like_repo \<Rightarrow> int \<Rightarrow> gotime \<Rightarrow> 'w \<times> registry \<Rightarrow> tally result \<times> 'w \<times> registry"
where
  "metered_reconcile_once repo k now st =
     (let (w, r) = st; (res, w') = reconcile_once repo k now w
      in (res, w',
          case res of
            Inl e \<Rightarrow> r
          | Inr t \<Rightarrow>
              (let r = counter_add LikeReconcilerCheckedTotal (t_checked t) r
               in if t_drifted t > 0 then counter_add LikeReconcilerDriftTotal (t_drifted t) r else r)))"

fun metered_worker_step ::
  "bool \<Rightarrow> ('s, 'z) redis_scheme \<Rightarrow> config \<Rightarrow> worker_turn \<Rightarrow> (nat \<Rightarrow> int) \<Rightarrow> 's worker_proc \<times> registry
     \<Rightarrow> 's worker_proc \<times> registry"
where
  "metered_worker_step en R cfg (LikeTurn clk) took (p, r) =
     (if \<not> wp_like p then (p, r)
      else (let (w, r) = metered_like_pass en R pg_like_repo (wired_like_worker cfg) clk took (wp_world p, r)
            in (p\<lparr>wp_world := w\<rparr>, r)))"
| "metered_worker_step en R cfg (ViewTurn t) took (p, r) =
     (if \<not> wp_view p then (p, r)
      else (let ((l, w), r) = metered_view_pass en R clickhouse_sink (wired_view_worker cfg) t (took 0)
                  ((wp_loop p, wp_world p), r)
            in (p\<lparr>wp_loop := l, wp_world := w\<rparr>, r)))"
| "metered_worker_step en R cfg (ReconcilerTurn now) took (p, r) =
     (let (_, w, r) = metered_reconcile_once pg_like_repo (rc_sample (wired_reconciler cfg)) now (wp_world p, r)
      in (p\<lparr>wp_world := w\<rparr>, r))"
| "metered_worker_step en R cfg t took (p, r) = (worker_step R cfg t p, r)"

fun metered_worker_steps ::
  "bool \<Rightarrow> ('s, 'z) redis_scheme \<Rightarrow> config \<Rightarrow> (worker_turn \<times> (nat \<Rightarrow> int)) list \<Rightarrow> 's worker_proc \<times> registry
     \<Rightarrow> 's worker_proc \<times> registry"
where
  "metered_worker_steps en R cfg [] st = st"
| "metered_worker_steps en R cfg ((t, took) # ts) (p, r) =
     metered_worker_steps en R cfg ts
       (if worker_enabled t p then metered_worker_step en R cfg t took (p, r) else (p, r))"

definition metered_worker_stop ::
  "bool \<Rightarrow> ('s, 'z) redis_scheme \<Rightarrow> config \<Rightarrow> int \<Rightarrow> 's worker_proc \<times> registry \<Rightarrow> 's worker_proc \<times> registry"
where
  "metered_worker_stop en R cfg took st =
     (let (p, r) = st
      in if \<not> wp_view p then (p\<lparr>wp_cancelled := True\<rparr>, r)
         else (let ((l, w), r) = metered_view_flush en R clickhouse_sink (wired_view_worker cfg) took
                     ((wp_loop p, wp_world p), r)
               in (p\<lparr>wp_loop := l, wp_cancelled := True, wp_world := w\<rparr>, r)))"

text \<open>The recording does not change what the process does.\<close>

lemma metered_fold_same:
  "fst (fold (metered_like_process en R repo c clk took) es (w, r)) = fold (like_process R repo c clk) es w"
  by (induction es arbitrary: w r) (simp_all add: metered_like_process_def)

lemma metered_like_pass_same: "fst (metered_like_pass en R repo c clk took (w, r)) = like_pass R repo c clk w"
  by (simp add: metered_like_pass_def like_pass_def metered_fold_same split: prod.split sum.split)

lemma metered_flush_same: "fst (metered_view_flush en R sink c took (st, r)) = view_flush R sink c st"
  by (simp add: metered_view_flush_def split: prod.split)

lemma metered_view_pass_same: "fst (metered_view_pass en R sink c t took (st, r)) = view_pass R sink c t st"
  by (auto simp: metered_view_pass_def view_pass_def metered_view_flush_def Let_def split: prod.split sum.split)

lemma metered_step_same: "fst (metered_worker_step en R cfg t took (p, r)) = worker_step R cfg t p"
proof (cases t)
  case (LikeTurn clk)
  then show ?thesis
    using metered_like_pass_same [of en R pg_like_repo "wired_like_worker cfg" clk took "wp_world p" r]
    by (auto split: prod.split)
next
  case (ViewTurn x)
  then show ?thesis
    using metered_view_pass_same [of en R clickhouse_sink "wired_view_worker cfg" x "took 0" "(wp_loop p, wp_world p)" r]
    by (auto split: prod.split)
next
  case (ReconcilerTurn now)
  then show ?thesis by (simp add: metered_reconcile_once_def split: prod.split)
qed simp_all

lemma metered_steps_same:
  "fst (metered_worker_steps en R cfg ts (p, r)) = worker_steps R cfg (map fst ts) p"
proof (induction ts arbitrary: p r)
  case (Cons x ts)
  obtain t took where x: "x = (t, took)" by (metis surj_pair)
  obtain p1 r1 where s: "metered_worker_step en R cfg t took (p, r) = (p1, r1)" by (metis surj_pair)
  show ?case using Cons metered_step_same [of en R cfg t took p r] x s by simp
qed simp

lemma metered_stop_same: "fst (metered_worker_stop en R cfg took (p, r)) = worker_stop R cfg p"
  using metered_flush_same [of en R clickhouse_sink "wired_view_worker cfg" took "(wp_loop p, wp_world p)" r]
  by (auto simp: metered_worker_stop_def worker_stop_def split: prod.split)

section \<open>The worker's books\<close>

text \<open>What the tables hold less what the metrics claim to have put there, for likes and for views; the
  drift counter; and the batches counted less the batches observed.\<close>

definition like_gain :: "registry \<Rightarrow> int" where
  "like_gain r = counters r (LikeWorkerApplyTotal OpLike ''true'') - counters r (LikeWorkerApplyTotal OpUnlike ''true'')"

definition books :: "'s world \<Rightarrow> registry \<Rightarrow> int \<times> int \<times> int \<times> int" where
  "books w r = (int (length (likes (pg w))) - like_gain r,
     int (length (video_views (ch w))) - sum_list (observed r ViewWorkerBatchSize),
     counters r LikeReconcilerDriftTotal,
     counters r ViewWorkerBatchesTotal - int (length (observed r ViewWorkerBatchSize)))"

definition no_loss :: "'s world \<Rightarrow> bool" where
  "no_loss w \<longleftrightarrow> faithful (pgnet w) \<and> faithful (chnet w)"

text \<open>One step keeps the books, the exactness of the counters and the good links.\<close>

definition books_kept :: "'s world \<Rightarrow> registry \<Rightarrow> 's world \<Rightarrow> registry \<Rightarrow> bool" where
  "books_kept w r w' r' \<longleftrightarrow> (no_loss w \<and> likes_ok (pg w) \<longrightarrow> no_loss w' \<and> likes_ok (pg w') \<and> books w' r' = books w r)"

lemma books_kept_refl [simp]: "books_kept w r w r"
  by (simp add: books_kept_def)

lemma books_kept_trans: "books_kept w r w1 r1 \<Longrightarrow> books_kept w1 r1 w' r' \<Longrightarrow> books_kept w r w' r'"
  by (simp add: books_kept_def)

lemma books_kept_redis:
  assumes "redis_call f w = (a, w')"
  shows "books_kept w r w' r"
  using redis_call_stores [OF assms] by (simp add: books_kept_def no_loss_def books_def)

lemma books_kept_snd: "books_kept w r (snd (redis_call f w)) r"
  by (rule books_kept_redis [OF surjective_pairing])

lemma length_without:
  "distinct xs \<Longrightarrow> int (length (filter (\<lambda>y. y \<noteq> x) xs)) = int (length xs) - (if x \<in> set xs then 1 else 0)"
  by (induction xs) auto

lemma apply_sql_length:
  assumes "likes_keyed d" and "apply_sql opr u v now d = (x, d')"
  shows "case x of
      Inl e \<Rightarrow> d' = d
    | Inr (chg, n) \<Rightarrow> int (length (likes d')) = int (length (likes d)) + (if chg then if opr = OpLike then 1 else - 1 else 0)"
proof -
  have "distinct (likes d)" using assms(1) by (simp add: likes_keyed_def)
  then show ?thesis
    using assms(2) length_without [of "likes d" "(u, v)"]
    by (auto simp: apply_sql_def apply_like_sql_def apply_unlike_sql_def Let_def split: if_splits)
qed

lemma like_gain_record:
  "opr = OpLike \<or> opr = OpUnlike \<Longrightarrow>
     like_gain (record_like_worker_apply True opr chg d r)
       = like_gain r + (if chg then if opr = OpLike then 1 else - 1 else 0)"
  by (auto simp: like_gain_def record_like_worker_apply_def)

text \<open>Recording an apply touches no other entry of the books.\<close>

lemma books_record_apply:
  "books w (record_like_worker_apply True opr chg d r) =
     (int (length (likes (pg w))) - like_gain (record_like_worker_apply True opr chg d r), snd (books w r))"
  by (simp add: books_def record_like_worker_apply_def)

lemma metered_like_process_books:
  "books_kept w r (fst (metered_like_process True R pg_like_repo c clk took m (w, r)))
     (snd (metered_like_process True R pg_like_repo c clk took m (w, r)))"
proof (cases "like_parse_event R m")
  case None
  then show ?thesis using books_kept_snd
    by (simp add: metered_like_process_def like_process_def like_ack_def)
next
  case (Some ev)
  let ?opr = "le_op ev" and ?t = "clk (fst m)"
  obtain x w1 where call: "pg_apply (le_user_id ev) (le_video_id ev) ?opr ?t w = (x, w1)" by (metis surj_pair)
  have one: "books_kept w r w1 (case x of Inl e \<Rightarrow> r
      | Inr res \<Rightarrow> record_like_worker_apply True ?opr (lr_changed res) (took (fst m)) r)"
  proof (cases "?opr = OpLike \<or> ?opr = OpUnlike")
    case False
    then show ?thesis using call by (auto simp: pg_apply_def)
  next
    case opr: True
    obtain q w2 where e: "pg_exec (apply_sql ?opr (le_user_id ev) (le_video_id ev) ?t) w = (q, w2)" by (metis surj_pair)
    have w2: "w1 = w2" and x: "x = (case q of Inl e \<Rightarrow> Inl (Wrapped (''apply '' @ ?opr) (pg_goerr e))
        | Inr (chg, n) \<Rightarrow> Inr \<lparr>lr_changed = chg, lr_new_count = n, lr_was_noop = (\<not> chg)\<rparr>)"
      using call e opr by (auto simp: pg_apply_def split: sum.splits prod.splits)
    have fr: "ch w2 = ch w" "chnet w2 = chnet w"
      using e pg_exec_frame [of "apply_sql ?opr (le_user_id ev) (le_video_id ev) ?t" w] by auto
    show ?thesis unfolding books_kept_def w2
    proof
      assume ok: "no_loss w \<and> likes_ok (pg w)"
      note f = pg_exec_faithful [OF e, THEN conjunct1] pg_exec_faithful [OF e, THEN conjunct2]
      have pf: "faithful (pgnet w)" and cf: "faithful (chnet w)" using ok by (simp_all add: no_loss_def)
      have inv: "likes_ok (pg w2)"
        using f(2) [OF pf] ok apply_sql_inv [of "pg w" ?opr "le_user_id ev" "le_video_id ev" ?t] by auto
      show "no_loss w2 \<and> likes_ok (pg w2) \<and>
          books w2 (case x of Inl e \<Rightarrow> r | Inr res \<Rightarrow> record_like_worker_apply True ?opr (lr_changed res) (took (fst m)) r)
            = books w r"
      proof (intro conjI)
        show "no_loss w2" using f(1) [OF pf] cf fr by (simp add: no_loss_def)
        show "likes_keyed (pg w2)" "counts_exact (pg w2)" using inv by simp_all
        show "books w2 (case x of Inl e \<Rightarrow> r | Inr res \<Rightarrow> record_like_worker_apply True ?opr (lr_changed res) (took (fst m)) r)
            = books w r"
          using f(2) [OF pf]
        proof
          assume s: "apply_sql ?opr (le_user_id ev) (le_video_id ev) ?t (pg w) = (q, pg w2)"
          show ?thesis
            using apply_sql_length [OF _ s] ok fr x
            by (auto simp: books_record_apply like_gain_record [OF opr] split: sum.splits prod.splits)
              (simp_all add: books_def fr)
        next
          assume "(\<exists>e. q = Inl e) \<and> pg w2 = pg w"
          then show ?thesis using x fr by (auto simp: books_def)
        qed
      qed
    qed
  qed
  show ?thesis
  proof (cases x)
    case (Inl e)
    then show ?thesis using one call Some by (simp add: metered_like_process_def like_process_def pg_like_repo_def)
  next
    case (Inr res)
    then show ?thesis using books_kept_trans [OF one books_kept_snd] call Some
      by (simp add: metered_like_process_def like_process_def pg_like_repo_def like_ack_def)
  qed
qed

lemma metered_fold_books:
  assumes "fold (metered_like_process True R pg_like_repo c clk took) es (w, r) = (w', r')"
  shows "books_kept w r w' r'"
  using assms
proof (induction es arbitrary: w r)
  case (Cons m es)
  obtain w1 r1 where one: "metered_like_process True R pg_like_repo c clk took m (w, r) = (w1, r1)" by (metis surj_pair)
  have "books_kept w r w1 r1" using metered_like_process_books [of w r R c clk took m] one by simp
  then show ?case using books_kept_trans [OF _ Cons.IH [of w1 r1]] Cons.prems one by simp
qed simp

lemma metered_like_pass_books:
  assumes "metered_like_pass True R pg_like_repo c clk took (w, r) = (w', r')"
  shows "books_kept w r w' r'"
proof -
  obtain a w1 where read: "like_read R c w = (a, w1)" by (metis surj_pair)
  have one: "books_kept w r w1 r" by (rule books_kept_redis [OF read [unfolded like_read_def]])
  show ?thesis
    using assms read one by (cases a) (auto simp: metered_like_pass_def intro: books_kept_trans metered_fold_books)
qed

lemma ch_insert_faithful:
  assumes "ch_insert evs w = (a, w')"
  shows "pg w' = pg w" and "pgnet w' = pgnet w"
    and "faithful (chnet w) \<Longrightarrow> faithful (chnet w')
      \<and> length (video_views (ch w')) = length (video_views (ch w)) + (case a of Inl e \<Rightarrow> 0 | Inr _ \<Rightarrow> length evs)"
proof -
  let ?rows = "map view_row_of evs"
  obtain x w1 where prep: "ch_call (reading (\<lambda>_. ())) w = (x, w1)" by (metis surj_pair)
  obtain y w2 where send: "ch_call (writing (insert_views ?rows)) w1 = (y, w2)" by (metis surj_pair)
  have fr: "pg w1 = pg w" "pgnet w1 = pgnet w" "pg w2 = pg w1" "pgnet w2 = pgnet w1"
    using prep send ch_call_frame [of "reading (\<lambda>_. ())" w] ch_call_frame [of "writing (insert_views ?rows)" w1] by auto
  have w1: "ch w1 = ch w" using ch_call_read [OF prep] by simp
  have "w' \<in> {w, w1, w2}" using assms prep send by (auto simp: ch_insert_def Let_def split: if_splits sum.splits)
  then show "pg w' = pg w" "pgnet w' = pgnet w" using fr by auto
  assume f: "faithful (chnet w)"
  have f1: "faithful (chnet w1)" using ch_call_faithful [OF prep f] by simp
  note f2 = ch_call_faithful [OF send f1]
  have up: "ch w2 = insert_views ?rows (ch w1)" if "y = Inr u" for u
    using send that by (cases rule: ch_call_cases) auto
  show "faithful (chnet w')
      \<and> length (video_views (ch w')) = length (video_views (ch w)) + (case a of Inl e \<Rightarrow> 0 | Inr _ \<Rightarrow> length evs)"
    using assms prep send f f1 f2 w1 up
    by (auto simp: ch_insert_def Let_def split: if_splits sum.splits)
qed

lemma metered_flush_books:
  assumes "metered_view_flush True R clickhouse_sink c took ((l, w), r) = ((l', w'), r')"
  shows "books_kept w r w' r'"
proof (cases "vl_batch l = []")
  case True
  then show ?thesis using assms by (simp add: metered_view_flush_def view_flush_def)
next
  case False
  obtain a w1 where ins: "ch_insert (vl_batch l) w = (a, w1)" by (metis surj_pair)
  note f = ch_insert_faithful [OF ins]
  have one: "books_kept w r w1 (record_view_worker_flush True (length (vl_batch l)) took
      (case a of Inl e \<Rightarrow> True | Inr _ \<Rightarrow> False) r)"
    using f by (cases a) (auto simp: books_kept_def no_loss_def books_def record_view_worker_flush_def like_gain_def)
  show ?thesis
  proof (cases a)
    case (Inl e)
    then show ?thesis using one assms ins False by (auto simp: metered_view_flush_def view_flush_def clickhouse_sink_def)
  next
    case (Inr u)
    then show ?thesis using books_kept_trans [OF one books_kept_snd] assms ins False
      by (auto simp: metered_view_flush_def view_flush_def clickhouse_sink_def view_ack_def)
  qed
qed

lemma collect_books:
  assumes "fold (view_collect R c) es (l, w) = (l', w')"
  shows "books_kept w r w' r"
  using assms
proof (induction es arbitrary: l w)
  case (Cons m es)
  obtain l1 w1 where one: "view_collect R c m (l, w) = (l1, w1)" by (metis surj_pair)
  have "books_kept w r w1 r"
    using one books_kept_snd by (auto simp: view_collect_def view_ack_def split: option.splits)
  then show ?case using books_kept_trans [OF _ Cons.IH [of l1 w1]] Cons.prems one by simp
qed simp

lemma metered_view_pass_books:
  assumes "metered_view_pass True R clickhouse_sink c t took ((l, w), r) = ((l', w'), r')"
  shows "books_kept w r w' r'"
proof -
  obtain a w1 where read: "redis_call (rXREADGROUP R view_stream_key (vc_group c) (nat (vc_read_batch c))) w = (a, w1)"
    by (metis surj_pair)
  have one: "books_kept w r w1 r" by (rule books_kept_redis [OF read])
  show ?thesis
  proof (cases a)
    case (Inl e)
    then show ?thesis using assms read one by (simp add: metered_view_pass_def)
  next
    case (Inr es)
    obtain l2 w2 where col: "fold (view_collect R c) es (l, w1) = (l2, w2)" by (metis surj_pair)
    obtain l3 w3 r3 where fl: "metered_view_flush True R clickhouse_sink c took ((l2, w2), r) = ((l3, w3), r3)"
      by (metis surj_pair)
    note two = books_kept_trans [OF one collect_books [OF col]]
    have "w' = w2 \<and> r' = r \<or> w' = w3 \<and> r' = r3"
      using assms read Inr col fl by (auto simp: metered_view_pass_def Let_def split: if_splits)
    then show ?thesis using two books_kept_trans [OF two metered_flush_books [OF fl]] by auto
  qed
qed

text \<open>Where the counters are exact the reconciler reports no drift, whatever its link does.\<close>

lemma pg_read_faithful:
  "pg_exec (reading f) w = (a, w') \<Longrightarrow> faithful (pgnet w) \<Longrightarrow> faithful (pgnet w')"
  using pg_exec_faithful by blast

lemma reconcile_video_faithful:
  assumes "counts_exact (pg w)" and "reconcile_video pg_like_repo now v (t, w) = (t', w')"
  shows "t_drifted t' = t_drifted t" and "faithful (pgnet w) \<Longrightarrow> faithful (pgnet w')"
proof -
  obtain a w1 where a: "pg_count v w = (a, w1)" by (metis surj_pair)
  obtain b w2 where b: "pg_count_from_edges v w1 = (b, w2)" by (metis surj_pair)
  have q1: "pg_quiet w w1 \<and> (\<forall>n. a = Inr n \<longrightarrow> stats_count v (pg w) = Some n)"
    using a by (auto simp: pg_count_def split: prod.splits sum.splits option.splits dest!: pg_read_quiet)
  have q2: "pg_quiet w1 w2 \<and> (\<forall>n. b = Inr n \<longrightarrow> edge_count v (pg w1) = n)"
    using b by (auto simp: pg_count_from_edges_def split: prod.splits sum.splits dest!: pg_read_quiet)
  have exact: "n = m" if "a = Inr n" "b = Inr m" for n m
  proof -
    have "stats_count v (pg w) = Some n" "edge_count v (pg w) = m" using q1 q2 that by (auto simp: pg_quiet_def)
    then show ?thesis using assms(1) by (auto simp: stats_count_def counts_exact_def dest!: find_Some_iff')
  qed
  have w': "t_drifted t' = t_drifted t \<and> (w' = w1 \<or> w' = w2)"
    using assms(2) a b exact by (auto simp: reconcile_video_def pg_like_repo_def Let_def split: sum.splits)
  have "faithful (pgnet w) \<longrightarrow> faithful (pgnet w1)" "faithful (pgnet w1) \<longrightarrow> faithful (pgnet w2)"
    using a b by (auto simp: pg_count_def pg_count_from_edges_def split: prod.splits sum.splits option.splits
        dest: pg_read_faithful)
  then show "t_drifted t' = t_drifted t" and "faithful (pgnet w) \<Longrightarrow> faithful (pgnet w')" using w' by auto
qed

lemma reconcile_fold_faithful:
  assumes "counts_exact (pg w)" and "fold (reconcile_video pg_like_repo now) vs (t, w) = (t', w')"
  shows "t_drifted t' = t_drifted t \<and> (faithful (pgnet w) \<longrightarrow> faithful (pgnet w'))"
  using assms
proof (induction vs arbitrary: t w)
  case (Cons v vs)
  obtain t1 w1 where one: "reconcile_video pg_like_repo now v (t, w) = (t1, w1)" by (metis surj_pair)
  have "counts_exact (pg w1)" using reconcile_video_quiet [OF Cons.prems(1) one] Cons.prems(1) by (simp add: pg_quiet_def)
  from Cons.IH [OF this, of t1] Cons.prems(2) one reconcile_video_faithful [OF Cons.prems(1) one]
  show ?case by auto
qed simp

lemma reconcile_once_faithful:
  assumes "counts_exact (pg w)" and "reconcile_once pg_like_repo k now w = (a, w')"
  shows "(\<forall>t. a = Inr t \<longrightarrow> t_drifted t = 0) \<and> (faithful (pgnet w) \<longrightarrow> faithful (pgnet w'))"
proof -
  obtain x w1 where x: "pg_sample_video_ids k w = (x, w1)" by (metis surj_pair)
  have q: "pg_quiet w w1"
    using x by (auto simp: pg_sample_video_ids_def split: if_splits prod.splits sum.splits dest!: pg_read_quiet)
  have f: "faithful (pgnet w) \<longrightarrow> faithful (pgnet w1)"
    using x by (auto simp: pg_sample_video_ids_def split: if_splits prod.splits sum.splits dest: pg_read_faithful)
  have "counts_exact (pg w1)" using assms(1) q by (simp add: pg_quiet_def)
  note later = reconcile_fold_faithful [OF this]
  have s: "repo_sample pg_like_repo k w = (x, w1)" using x by (simp add: pg_like_repo_def)
  show ?thesis
  proof (cases x)
    case (Inl e)
    then show ?thesis using assms(2) s f by (auto simp: reconcile_once_def)
  next
    case (Inr vs)
    obtain t w2 where l: "fold (reconcile_video pg_like_repo now) vs (\<lparr>t_checked = 0, t_drifted = 0, t_corrected = 0\<rparr>, w1) = (t, w2)"
      by (metis surj_pair)
    then show ?thesis using assms(2) s f Inr later [OF l] by (auto simp: reconcile_once_def)
  qed
qed

lemma metered_reconcile_books:
  assumes "metered_reconcile_once pg_like_repo k now (w, r) = (a, w', r')"
  shows "books_kept w r w' r'"
  unfolding books_kept_def
proof
  assume ok: "no_loss w \<and> likes_ok (pg w)"
  obtain x w1 where run: "reconcile_once pg_like_repo k now w = (x, w1)" by (metis surj_pair)
  have ex: "counts_exact (pg w)" using ok by simp
  have q: "pg_quiet w w1" using reconcile_quiet [OF ex, of k now] run by simp
  note f = reconcile_once_faithful [OF ex run]
  have "w' = w1" "books w1 r' = books w1 r"
    using assms run f by (auto simp: metered_reconcile_once_def Let_def books_def like_gain_def split: sum.splits)
  then show "no_loss w' \<and> likes_ok (pg w') \<and> books w' r' = books w r"
    using ok q f by (simp add: no_loss_def books_def pg_quiet_def)
qed

section \<open>The whole process\<close>

lemma books_kept_group:
  "like_ensure_group R c w = (a, w') \<Longrightarrow> books_kept w r w' r"
  "view_ensure_group R c' w = (b, w') \<Longrightarrow> books_kept w r w' r"
  by (auto simp: like_ensure_group_def view_ensure_group_def split: prod.splits sum.splits intro: books_kept_redis)

lemma metered_step_books:
  assumes "metered_worker_step True R cfg t took (p, r) = (p', r')"
  shows "books_kept (wp_world p) r (wp_world p') r'"
proof (cases t)
  case LikeStart
  then show ?thesis using assms by (auto split: prod.splits sum.splits dest!: books_kept_group(1))
next
  case (LikeTurn clk)
  then show ?thesis using assms by (auto split: if_splits prod.splits dest!: metered_like_pass_books)
next
  case (ViewStart t0)
  then show ?thesis using assms by (auto split: prod.splits sum.splits dest!: books_kept_group(2))
next
  case (ViewTurn x)
  then show ?thesis using assms by (auto split: if_splits prod.splits dest!: metered_view_pass_books)
next
  case (ReconcilerTurn now)
  then show ?thesis using assms by (auto split: prod.splits dest!: metered_reconcile_books)
qed

lemma metered_steps_books:
  assumes "metered_worker_steps True R cfg ts (p, r) = (p', r')"
  shows "books_kept (wp_world p) r (wp_world p') r'"
  using assms
proof (induction ts arbitrary: p r)
  case (Cons x ts)
  obtain t took where x: "x = (t, took)" by (metis surj_pair)
  obtain p1 r1 where s: "(if worker_enabled t p then metered_worker_step True R cfg t took (p, r) else (p, r)) = (p1, r1)"
    by (metis surj_pair)
  have "books_kept (wp_world p) r (wp_world p1) r1" using s by (auto split: if_splits dest: metered_step_books)
  then show ?case using books_kept_trans [OF _ Cons.IH [of p1 r1]] Cons.prems x s by simp
qed simp

lemma metered_stop_books:
  assumes "metered_worker_stop True R cfg took (p, r) = (p', r')"
  shows "books_kept (wp_world p) r (wp_world p') r'"
  using assms by (auto simp: metered_worker_stop_def split: if_splits prod.splits dest!: metered_flush_books)

definition metered_worker_life ::
  "bool \<Rightarrow> ('s, 'z) redis_scheme \<Rightarrow> config \<Rightarrow> (worker_turn \<times> (nat \<Rightarrow> int)) list \<Rightarrow> int \<Rightarrow> 's world \<times> registry
     \<Rightarrow> 's world \<times> registry"
where
  "metered_worker_life en R cfg ts took st =
     (let (w, r) = st;
          (p, r) = metered_worker_stop en R cfg took (metered_worker_steps en R cfg ts (worker_begin w, r))
      in (wp_world p, r))"

section \<open>Property\<close>



end
