(* ===== verification/StatsReplicas.thy ===== *)
theory StatsReplicas
  imports Stats
begin

text \<open>
  Requests for the statistics of one video that run side by side, in one process and in several.
  A request of \<open>internal/stats\<close> is cut at its calls to the stores: its \<open>phase\<close> says which call comes
  next, \<open>fetch_step\<close> makes it. The requests of one process are coalesced (\<open>singleflight\<close>), those of
  different processes meet at the Redis lock. \<open>stats_step\<close> lets any request take a turn, time pass
  on the Redis server, or everybody else change tables, links and other keys. Invariants over
  all runs say who owns the lock and what an answer is worth, and that every request is answered.
  \<open>stats_get\<close> of theory Stats is a request that takes all its turns in a row.
\<close>

section \<open>One request\<close>

text \<open>\<open>Gathering\<close> holds what the two concurrent reads have returned so far. The flag is \<open>gotLock\<close>.\<close>

datatype phase =
    Reading
  | Missed
  | Checking
  | Locking
  | Waiting
  | Rereading
  | Gathering bool "(int \<times> int) result option" "int result option"
  | Storing bool stats
  | Releasing "stats result"
  | Joined nat
  | Answered "stats result"

text \<open>What a turn may depend on: whether the client has gone, which read returns next and which
  failure came first, and the clock.\<close>

record chances =
  cs_cancelled :: bool
  cs_views_next :: bool
  cs_likes_first :: bool
  cs_now :: gotime

text \<open>What the requests share: the service, the video, a fresh token and the process of each.\<close>

record 's fleet =
  fl_codec :: "stats codec"
  fl_service :: "'s world stats_service"
  fl_video :: uuid
  fl_token :: "nat \<Rightarrow> string"
  fl_process :: "nat \<Rightarrow> nat"

definition finish :: "bool \<Rightarrow> stats result \<Rightarrow> phase" where
  "finish got res = (if got then Releasing res else Answered res)"

fun fetch_step ::
  "('s, 'z) redis_scheme \<Rightarrow> 's fleet \<Rightarrow> string \<Rightarrow> chances \<Rightarrow> phase \<Rightarrow> 's world \<Rightarrow> phase \<times> 's world"
where
  "fetch_step R F token c Reading w =
     (case stats_read_cache R (fl_codec F) (fl_video F) w of
        (Some st, w) \<Rightarrow> (Answered (Inr st), w) | (None, w) \<Rightarrow> (Missed, w))"
| "fetch_step R F token c Checking w =
     (case ss_exists (fl_service F) (fl_video F) w of
        (Inl e, w) \<Rightarrow> (Answered (Inl (Wrapped ''video exists check'' e)), w)
      | (Inr False, w) \<Rightarrow> (Answered (Inl ErrStatsVideoNotFound), w)
      | (Inr True, w) \<Rightarrow> (Locking, w))"
| "fetch_step R F token c Locking w =
     (case acquire_lock R (ss_lock_ttl (fl_service F)) (fl_video F) token w of
        (Inr (True, t), w) \<Rightarrow> (Gathering True None None, w) | (_, w) \<Rightarrow> (Waiting, w))"
| "fetch_step R F token c Waiting w =
     (if cs_cancelled c then Answered (Inl (Plain ''context canceled'')) else Rereading, w)"
| "fetch_step R F token c Rereading w =
     (case stats_read_cache R (fl_codec F) (fl_video F) w of
        (Some st, w) \<Rightarrow> (Answered (Inr st), w) | (None, w) \<Rightarrow> (Gathering False None None, w))"
| "fetch_step R F token c (Gathering got (Some a) (Some b)) w =
     (case stats_assemble (cs_likes_first c) (fl_video F) (cs_now c) a b of
        Inl e \<Rightarrow> finish got (Inl e) | Inr st \<Rightarrow> Storing got st, w)"
| "fetch_step R F token c (Gathering got a b) w =
     (if a = None \<and> (b \<noteq> None \<or> cs_views_next c)
      then let (n, w) = ss_counts (fl_service F) (fl_video F) w in (Gathering got (Some n) b, w)
      else let (l, w) = ss_likes (fl_service F) (fl_video F) w in (Gathering got a (Some l), w))"
| "fetch_step R F token c (Storing got st) w =
     (finish got (Inr st), stats_write_cache R (fl_codec F) (ss_cache_ttl (fl_service F)) st w)"
| "fetch_step R F token c (Releasing res) w = (Answered res, release_lock R (fl_video F) token w)"
| "fetch_step R F token c ph w = (ph, w)"

text \<open>The calls a request has left at most; a joined one only waits for its leader.\<close>

fun turns_left :: "phase \<Rightarrow> nat" where
  "turns_left Reading = 11"
| "turns_left Missed = 10"
| "turns_left Checking = 9"
| "turns_left Locking = 8"
| "turns_left Waiting = 7"
| "turns_left Rereading = 6"
| "turns_left (Gathering got a b) = 3 + (if a = None then 1 else 0) + (if b = None then 1 else 0)"
| "turns_left (Storing got st) = 2"
| "turns_left (Releasing res) = 1"
| "turns_left (Joined q) = 0"
| "turns_left (Answered res) = 0"

text \<open>A call of \<open>fetch\<close> that \<open>singleflight\<close> has started and that has not returned.\<close>

definition in_flight :: "phase \<Rightarrow> bool" where
  "in_flight ph \<longleftrightarrow> (case ph of Reading \<Rightarrow> False | Missed \<Rightarrow> False | Joined q \<Rightarrow> False | Answered r \<Rightarrow> False | _ \<Rightarrow> True)"

text \<open>A request that holds the lock, as far as it knows.\<close>

fun owns :: "phase \<Rightarrow> bool" where
  "owns (Gathering got a b) = got"
| "owns (Storing got st) = got"
| "owns (Releasing res) = True"
| "owns ph = False"

section \<open>All of them\<close>

text \<open>\<open>rp_lapsed\<close> are the requests whose lock expired under their hands, \<open>rp_past\<close> the tables there
  have been; neither has an influence on the steps.\<close>

record 's replicas =
  rp_world :: "'s world"
  rp_phase :: "nat \<Rightarrow> phase"
  rp_lapsed :: "nat set"
  rp_past :: "(postgres \<times> clickhouse) set"

definition replicas_at :: "'s world \<Rightarrow> 's replicas" where
  "replicas_at w = \<lparr>rp_world = w, rp_phase = (\<lambda>_. Reading), rp_lapsed = {}, rp_past = {(pg w, ch w)}\<rparr>"

definition tables_ok :: "(video \<Rightarrow> bool) \<Rightarrow> postgres \<Rightarrow> clickhouse \<Rightarrow> bool" where
  "tables_ok fits p c \<longleftrightarrow> counts_exact p \<and> rolled_up c \<and> length (video_views c) < 2 ^ 63 \<and> (\<forall>x \<in> set (videos p). fits x)"

text \<open>What everybody else may do between two turns: anything that keeps the tables well-formed, the
  cached videos true, and the two keys of these requests as they are.\<close>

definition others_may ::
  "('s, 'z) redis_scheme \<Rightarrow> ('s \<Rightarrow> keyspace) \<Rightarrow> video codec \<Rightarrow> (video \<Rightarrow> bool) \<Rightarrow> uuid \<Rightarrow> 's world \<Rightarrow> 's world \<Rightarrow> bool"
where
  "others_may R ks VC fits v w w' \<longleftrightarrow> tables_ok fits (pg w') (ch w') \<and> video_cache_true R ks VC w'
     \<and> ks (srv w') (stats_cache_key R v) = ks (srv w) (stats_cache_key R v)
     \<and> ks (srv w') (stats_lock_key R v) = ks (srv w) (stats_lock_key R v)"

datatype 's event = Turn nat chances | Elapse nat | Others "'s world"

definition lock_token :: "('s, 'z) redis_scheme \<Rightarrow> ('s \<Rightarrow> keyspace) \<Rightarrow> uuid \<Rightarrow> 's world \<Rightarrow> string option" where
  "lock_token R ks v w = str_val (ks (srv w) (stats_lock_key R v))"

abbreviation to_phase :: "'s replicas \<Rightarrow> nat \<Rightarrow> phase \<Rightarrow> 's replicas" where
  "to_phase S q ph \<equiv> S\<lparr>rp_phase := (rp_phase S)(q := ph)\<rparr>"

inductive stats_step ::
  "('s, 'z) redis_scheme \<Rightarrow> ('s \<Rightarrow> keyspace) \<Rightarrow> video codec \<Rightarrow> (video \<Rightarrow> bool) \<Rightarrow> 's fleet
     \<Rightarrow> 's replicas \<Rightarrow> 's event \<Rightarrow> 's replicas \<Rightarrow> bool"
  for R ks VC fits F
where
  call: "(\<forall>p. rp_phase S q \<noteq> Joined p) \<Longrightarrow> rp_phase S q \<noteq> Missed \<Longrightarrow>
      fetch_step R F (fl_token F q) c (rp_phase S q) (rp_world S) = (ph, w) \<Longrightarrow>
      stats_step R ks VC fits F S (Turn q c) ((to_phase S q ph)\<lparr>rp_world := w\<rparr>)"
| lead: "rp_phase S q = Missed \<Longrightarrow>
      (\<forall>p. fl_process F p = fl_process F q \<longrightarrow> \<not> in_flight (rp_phase S p)) \<Longrightarrow>
      stats_step R ks VC fits F S (Turn q c) (to_phase S q Checking)"
| join: "rp_phase S q = Missed \<Longrightarrow> fl_process F p = fl_process F q \<Longrightarrow> in_flight (rp_phase S p) \<Longrightarrow>
      stats_step R ks VC fits F S (Turn q c) (to_phase S q (Joined p))"
| share: "rp_phase S q = Joined p \<Longrightarrow> rp_phase S p = Answered res \<Longrightarrow>
      stats_step R ks VC fits F S (Turn q c) (to_phase S q (Answered res))"
| wait: "rp_phase S q = Joined p \<Longrightarrow> (\<forall>res. rp_phase S p \<noteq> Answered res) \<Longrightarrow>
      stats_step R ks VC fits F S (Turn q c) S"
| elapse: "stats_step R ks VC fits F S (Elapse d)
      (S\<lparr>rp_world := (rp_world S)\<lparr>srv := rELAPSE R d (srv (rp_world S))\<rparr>,
         rp_lapsed := rp_lapsed S \<union> {q. lock_token R ks (fl_video F) (rp_world S) = Some (fl_token F q)
           \<and> ks (rELAPSE R d (srv (rp_world S))) (stats_lock_key R (fl_video F)) = None}\<rparr>)"
| others: "others_may R ks VC fits (fl_video F) (rp_world S) w \<Longrightarrow>
      stats_step R ks VC fits F S (Others w) (S\<lparr>rp_world := w, rp_past := insert (pg w, ch w) (rp_past S)\<rparr>)"

inductive stats_run ::
  "('s, 'z) redis_scheme \<Rightarrow> ('s \<Rightarrow> keyspace) \<Rightarrow> video codec \<Rightarrow> (video \<Rightarrow> bool) \<Rightarrow> 's fleet
     \<Rightarrow> 's replicas \<Rightarrow> 's event list \<Rightarrow> 's replicas \<Rightarrow> bool"
  for R ks VC fits F
where
  stop: "stats_run R ks VC fits F S [] S"
| go: "stats_run R ks VC fits F S es T \<Longrightarrow> stats_step R ks VC fits F T e U \<Longrightarrow> stats_run R ks VC fits F S (es @ [e]) U"

inductive_cases turnE: "stats_step R ks VC fits F S (Turn q c) T"

section \<open>What is known\<close>

definition views_seen :: "uuid \<Rightarrow> (postgres \<times> clickhouse) set \<Rightarrow> int \<Rightarrow> int \<Rightarrow> bool" where
  "views_seen v past n u \<longleftrightarrow> (\<exists>(p, c) \<in> past. n = int (length (filter (\<lambda>r. vr_video_id r = v) (video_views c)))
     \<and> u = int (length (filter (\<lambda>r. vr_video_id r = v \<and> vr_is_unique r = 1) (video_views c))))"

definition likes_seen :: "uuid \<Rightarrow> (postgres \<times> clickhouse) set \<Rightarrow> int \<Rightarrow> bool" where
  "likes_seen v past l \<longleftrightarrow> (\<exists>(p, c) \<in> past. l = edge_count v p)"

definition video_seen :: "uuid \<Rightarrow> (postgres \<times> clickhouse) set \<Rightarrow> bool \<Rightarrow> bool" where
  "video_seen v past b \<longleftrightarrow> (\<exists>(p, c) \<in> past. (video_row v p \<noteq> None) = b)"

definition rate_true :: "stats \<Rightarrow> bool" where
  "rate_true st \<longleftrightarrow> st_engagement_rate st = engagement_rate (st_likes st) (st_unique_views st)"

text \<open>Statistics that were true: of a video that existed, with the views of one moment, the likes of
  one moment, and their own quotient.\<close>

definition told :: "uuid \<Rightarrow> (postgres \<times> clickhouse) set \<Rightarrow> stats \<Rightarrow> bool" where
  "told v past st \<longleftrightarrow> st_video_id st = v \<and> rate_true st \<and> video_seen v past True
     \<and> views_seen v past (st_views st) (st_unique_views st) \<and> likes_seen v past (st_likes st)"

definition answer_true :: "uuid \<Rightarrow> (postgres \<times> clickhouse) set \<Rightarrow> stats result \<Rightarrow> bool" where
  "answer_true v past res \<longleftrightarrow>
     (case res of Inr st \<Rightarrow> told v past st | Inl e \<Rightarrow> errors_is e ErrStatsVideoNotFound \<longrightarrow> video_seen v past False)"

fun phase_true :: "uuid \<Rightarrow> (postgres \<times> clickhouse) set \<Rightarrow> phase \<Rightarrow> bool" where
  "phase_true v past Locking = video_seen v past True"
| "phase_true v past Waiting = video_seen v past True"
| "phase_true v past Rereading = video_seen v past True"
| "phase_true v past (Gathering got a b) = (video_seen v past True
     \<and> (\<forall>n u. a = Some (Inr (n, u)) \<longrightarrow> views_seen v past n u) \<and> (\<forall>l. b = Some (Inr l) \<longrightarrow> likes_seen v past l)
     \<and> (\<forall>e. a = Some (Inl e) \<or> b = Some (Inl e) \<longrightarrow> \<not> errors_is e ErrStatsVideoNotFound))"
| "phase_true v past (Storing got st) = told v past st"
| "phase_true v past (Releasing res) = answer_true v past res"
| "phase_true v past (Answered res) = answer_true v past res"
| "phase_true v past ph = True"

lemma seen_mono:
  "past \<subseteq> past' \<Longrightarrow> views_seen v past n u \<Longrightarrow> views_seen v past' n u"
  "past \<subseteq> past' \<Longrightarrow> likes_seen v past l \<Longrightarrow> likes_seen v past' l"
  "past \<subseteq> past' \<Longrightarrow> video_seen v past b \<Longrightarrow> video_seen v past' b"
  by (auto simp: views_seen_def likes_seen_def video_seen_def)

lemma told_mono: "past \<subseteq> past' \<Longrightarrow> told v past st \<Longrightarrow> told v past' st"
  by (auto simp: told_def intro: seen_mono)

lemma answer_mono: "past \<subseteq> past' \<Longrightarrow> answer_true v past res \<Longrightarrow> answer_true v past' res"
  by (auto simp: answer_true_def intro: told_mono seen_mono split: sum.splits)

lemma phase_mono: "past \<subseteq> past' \<Longrightarrow> phase_true v past ph \<Longrightarrow> phase_true v past' ph"
  by (cases ph) (auto intro: told_mono answer_mono seen_mono)

text \<open>Reading the two tables.\<close>

lemma counts_seen:
  assumes "ch_counts v w = (Inr (n, u), w')" and "tables_ok fits (pg w) (ch w)" and "(pg w, ch w) \<in> past"
  shows "views_seen v past n u"
proof -
  have rows: "length (filter P (video_views (ch w))) < 2 ^ 63" for P
    using assms(2) length_filter_le [of P "video_views (ch w)"] unfolding tables_ok_def by linarith
  have "n = int (length (filter (\<lambda>r. vr_video_id r = v) (video_views (ch w))))
      \<and> u = int (length (filter (\<lambda>r. vr_video_id r = v \<and> vr_is_unique r = 1) (video_views (ch w))))"
    using ch_counts_cases(2) [OF assms(1) refl] assms(2) rows
    by (auto simp: tables_ok_def rolled_up_def wrap64_id in_int64_def)
  then show ?thesis using assms(3) unfolding views_seen_def by blast
qed

lemma likes_counted:
  assumes "pg_count v w = (Inr l, w')" and "tables_ok fits (pg w) (ch w)" and "(pg w, ch w) \<in> past"
  shows "likes_seen v past l"
  using stats_row_exact [OF _ pg_count_cases(2) [OF assms(1) refl]] assms(2,3)
  unfolding likes_seen_def tables_ok_def by blast

lemma assembled:
  assumes "phase_true v past (Gathering got (Some a) (Some b))"
  shows "phase_true v past (case stats_assemble first v now a b of Inl e \<Rightarrow> finish got (Inl e) | Inr st \<Rightarrow> Storing got st)"
  using assms by (cases a; cases b)
    (auto simp: stats_assemble_def finish_def answer_true_def told_def rate_true_def)

section \<open>One turn\<close>

locale stats_fleet = video_reads R ks C fits arrange dur_ttl hook + payload: json_codec "fl_codec F" rate_true
  for R :: "('s, 'z) redis_scheme" and ks C fits arrange dur_ttl hook and F :: "'s fleet" +
  fixes cache_ttl lock_ttl lock_retry :: int
  assumes service: "fl_service F = app_stats_service R (app_video_service R C arrange dur_ttl hook) cache_ttl lock_ttl lock_retry"
    and tokens: "inj (fl_token F)" and token_nonempty: "fl_token F q \<noteq> []"
begin

definition world_ok :: "'s world \<Rightarrow> (postgres \<times> clickhouse) set \<Rightarrow> bool" where
  "world_ok w past \<longleftrightarrow> tables_ok fits (pg w) (ch w) \<and> (pg w, ch w) \<in> past \<and> video_cache_true R ks C w
     \<and> is_str (ks (srv w) (stats_cache_key R (fl_video F))) \<and> is_str (ks (srv w) (stats_lock_key R (fl_video F)))
     \<and> (\<forall>st. stats_held R ks (fl_codec F) (fl_video F) w = Some st \<longrightarrow> told (fl_video F) past st)"

abbreviation lock :: "'s world \<Rightarrow> entry option" where
  "lock w \<equiv> ks (srv w) (stats_lock_key R (fl_video F))"

text \<open>A world that differs at one key, or nowhere.\<close>

lemma world_same: "world_ok w past \<Longrightarrow> srv w' = srv w \<Longrightarrow> pg w' = pg w \<Longrightarrow> ch w' = ch w \<Longrightarrow> world_ok w' past"
  by (simp add: world_ok_def video_cache_true_def stats_held_def)

lemma held_same:
  "ks (srv w') (stats_cache_key R v) = ks (srv w) (stats_cache_key R v) \<Longrightarrow>
     stats_held R ks D v w' = stats_held R ks D v w"
  by (simp add: stats_held_def cache_held_def stats_cache_key_def)

lemma videos_same:
  "video_cache_true R ks C w \<Longrightarrow> pg w' = pg w \<Longrightarrow> (\<And>i. ks (srv w') (video_cache_key i) = ks (srv w) (video_cache_key i)) \<Longrightarrow>
     video_cache_true R ks C w'"
  by (simp add: video_cache_true_def cache_held_def)

lemma video_key_apart [simp]: "video_cache_key i \<noteq> stats_lock_key R v" "video_cache_key i \<noteq> stats_cache_key R v"
  by (simp_all add: stats_lock_key_def stats_cache_key_def video_cache_key_def)

lemma world_lock:
  assumes "world_ok w past" and "only_key ks (stats_lock_key R (fl_video F)) w w'" and "is_str (lock w')"
  shows "world_ok w' past \<and> pg w' = pg w \<and> ch w' = ch w"
  using assms held_same [of w' "fl_video F" w "fl_codec F"] videos_same [of w w']
  by (simp add: world_ok_def only_key_def stores_same_def)

lemma release_lock_key:
  assumes "is_str (lock w)" and "release_lock R (fl_video F) token w = w'"
  shows "lock w' = lock w \<or> lock w' = None \<and> str_val (lock w) = Some token"
proof -
  let ?f = "release_lock_script R (stats_lock_key R (fl_video F)) token"
  obtain q w1 where call: "redis_call (writing ?f) w = (q, w1)" by (metis surj_pair)
  have "ks (srv w1) = ks (srv w) \<or> ks (srv w1) = ks (?f (srv w))" using call by (auto elim!: redis_call_cases)
  then have "lock w1 = lock w \<or> lock w1 = None \<and> str_val (lock w) = Some token"
    using get [OF assms(1)] by (auto simp: release_lock_script_def del split: if_splits)
  moreover have "w' = (if token = [] then w else w1)" unfolding assms(2) [symmetric] release_lock_def call by simp
  ultimately show ?thesis by simp
qed

lemma world_store:
  assumes "world_ok w past" and "told (fl_video F) past st" and "stats_write_cache R (fl_codec F) t st w = w'"
  shows "world_ok w' past \<and> pg w' = pg w \<and> ch w' = ch w \<and> lock w' = lock w"
proof -
  let ?k = "stats_cache_key R (fl_video F)"
  have v: "st_video_id st = fl_video F" and "rate_true st" using assms(2) by (simp_all add: told_def)
  then obtain b where b: "marshal (fl_codec F) st = Some b" "unmarshal (fl_codec F) b = Some st"
    using payload.round_trip by blast
  let ?f = "writing (rSET R ?k b (redis_ttl t))"
  obtain q w1 where call: "redis_call ?f w = (q, w1)" by (metis surj_pair)
  have w': "w' = w1" using assms(3) b(1) v call by (simp add: stats_write_cache_def)
  have only: "only_key ks ?k w w'" using write_cache_cases [of st w "fl_codec F" t] assms(3) v by simp
  have "srv w1 = srv w \<or> srv w1 = rSET R ?k b (redis_ttl t) (srv w)" using call by (auto elim!: redis_call_cases)
  then have key: "ks (srv w') ?k = ks (srv w) ?k \<or> ks (srv w') ?k = Some (RStr b, redis_ttl t)"
    unfolding w' by (auto simp: set doc_set_def)
  have "told (fl_video F) past x" if "stats_held R ks (fl_codec F) (fl_video F) w' = Some x" for x
    using key
  proof
    assume "ks (srv w') ?k = ks (srv w) ?k"
    from held_same [OF this] show ?thesis using that assms(1) by (simp add: world_ok_def)
  next
    assume "ks (srv w') ?k = Some (RStr b, redis_ttl t)"
    then show ?thesis using that b(2) assms(2) by (simp add: stats_held_def cache_held_def stats_cache_key_def)
  qed
  moreover have "is_str (ks (srv w') ?k)" using key assms(1) by (auto simp: world_ok_def)
  ultimately show ?thesis
    using assms(1) only videos_same [of w w'] by (simp add: world_ok_def only_key_def stores_same_def)
qed

lemma service_simps [simp]:
  "ss_counts (fl_service F) = ch_counts" "ss_likes (fl_service F) = pg_count"
  "ss_exists (fl_service F) = video_is_present R svc"
  by (simp_all add: service app_stats_service_def new_stats_service_def)

lemma cached_answer:
  assumes "world_ok w past" and "stats_read_cache R (fl_codec F) (fl_video F) w = (res, w')"
  shows "world_ok w' past \<and> pg w' = pg w \<and> ch w' = ch w \<and> lock w' = lock w"
    and "res = Some st \<Longrightarrow> told (fl_video F) past st"
  using read_cache_cases [OF assms(2)] assms(1) world_same [OF assms(1), of w']
  by (auto simp: world_ok_def stores_same_def)

lemma checked:
  assumes "world_ok w past" and "video_is_present R svc (fl_video F) w = (res, w')"
  shows "world_ok w' past \<and> pg w' = pg w \<and> ch w' = ch w \<and> lock w' = lock w"
    and "res = Inr b \<Longrightarrow> video_seen (fl_video F) past b"
    and "res = Inl e \<Longrightarrow> \<not> errors_is e ErrStatsVideoNotFound"
proof -
  have pre: "video_cache_true R ks C w" "\<forall>v \<in> set (videos (pg w)). fits v" and here: "(pg w, ch w) \<in> past"
    using assms(1) by (simp_all add: world_ok_def tables_ok_def)
  note p = is_present_answers [OF pre assms(2)]
  then show "world_ok w' past \<and> pg w' = pg w \<and> ch w' = ch w \<and> lock w' = lock w"
    using assms(1) held_same [of w' "fl_video F" w "fl_codec F"] by (simp add: world_ok_def key_frame_def)
  show "res = Inr b \<Longrightarrow> video_seen (fl_video F) past b" using p(3) here unfolding video_seen_def by blast
  show "res = Inl e \<Longrightarrow> \<not> errors_is e ErrStatsVideoNotFound" using p(4) by blast
qed

text \<open>A turn keeps the world in order and the phase true.\<close>

lemma gather_step:
  assumes "world_ok w past" and "phase_true (fl_video F) past (Gathering got a b)" and "a = None \<or> b = None"
    and "fetch_step R F token c (Gathering got a b) w = (ph, w')"
  shows "world_ok w' past \<and> pg w' = pg w \<and> ch w' = ch w \<and> lock w' = lock w \<and> phase_true (fl_video F) past ph
    \<and> owns ph = got"
proof -
  have ok: "tables_ok fits (pg w) (ch w)" and here: "(pg w, ch w) \<in> past" using assms(1) by (simp_all add: world_ok_def)
  show ?thesis
  proof (cases "a = None \<and> (b \<noteq> None \<or> cs_views_next c)")
    case True
    obtain n w1 where call: "ch_counts (fl_video F) w = (n, w1)" by (metis surj_pair)
    have r: "ph = Gathering got (Some n) b" "w' = w1" using assms(4) True call by (auto split: if_splits)
    note cc = ch_counts_cases [OF call]
    have "views_seen (fl_video F) past i j" if "n = Inr (i, j)" for i j
      using counts_seen [OF _ ok here] call that by blast
    moreover have "\<not> errors_is e ErrStatsVideoNotFound" if "n = Inl e" for e using cc(3) that by force
    ultimately show ?thesis using assms(2) world_same [OF assms(1), of w1] cc(1) unfolding r by simp
  next
    case False
    then have "b = None" using assms(3) by auto
    obtain l w1 where call: "pg_count (fl_video F) w = (l, w1)" by (metis surj_pair)
    have r: "ph = Gathering got a (Some l)" "w' = w1"
      using assms(4) False call \<open>b = None\<close> by (cases a; auto split: if_splits)+
    note cc = pg_count_cases [OF call]
    have "likes_seen (fl_video F) past i" if "l = Inr i" for i
      using likes_counted [OF _ ok here] call that by blast
    moreover have "\<not> errors_is e ErrStatsVideoNotFound" if "l = Inl e" for e using cc(3) that by force
    ultimately show ?thesis using assms(2) world_same [OF assms(1), of w1] cc(1) unfolding r by simp
  qed
qed

definition turn_ok :: "(postgres \<times> clickhouse) set \<Rightarrow> string \<Rightarrow> phase \<Rightarrow> 's world \<Rightarrow> phase \<Rightarrow> 's world \<Rightarrow> bool" where
  "turn_ok past token ph w ph' w' \<longleftrightarrow> world_ok w' past \<and> pg w' = pg w \<and> ch w' = ch w \<and> phase_true (fl_video F) past ph'
     \<and> (owns ph' \<and> \<not> owns ph \<longrightarrow> lock w = None \<and> str_val (lock w') = Some token)
     \<and> (owns ph' \<and> owns ph \<longrightarrow> lock w' = lock w)
     \<and> (lock w' \<noteq> lock w \<longrightarrow> lock w = None \<or> owns ph \<and> str_val (lock w) = Some token)"

lemma fetch_step_ok:
  assumes w: "world_ok w past" and ph: "phase_true (fl_video F) past ph"
    and run: "fetch_step R F token c ph w = (ph', w')"
  shows "turn_ok past token ph w ph' w'"
proof (cases ph)
  case Reading
  obtain r w1 where call: "stats_read_cache R (fl_codec F) (fl_video F) w = (r, w1)" by (metis surj_pair)
  note cached_answer [OF w call]
  then show ?thesis using run call unfolding Reading turn_ok_def by (cases r) (auto simp: answer_true_def)
next
  case Rereading
  obtain r w1 where call: "stats_read_cache R (fl_codec F) (fl_video F) w = (r, w1)" by (metis surj_pair)
  note cached_answer [OF w call]
  then show ?thesis using run call ph unfolding Rereading turn_ok_def by (cases r) (auto simp: answer_true_def)
next
  case Checking
  obtain r w1 where call: "video_is_present R svc (fl_video F) w = (r, w1)" by (metis surj_pair)
  note ck = checked [OF w call]
  show ?thesis
  proof (cases r)
    case (Inl e)
    then show ?thesis using run call ck(1) ck(3) [OF Inl] unfolding Checking turn_ok_def by (auto simp: answer_true_def)
  next
    case (Inr b)
    then show ?thesis using run call ck(1) ck(2) [OF Inr] unfolding Checking turn_ok_def
      by (cases b) (auto simp: answer_true_def)
  qed
next
  case Locking
  obtain r w1 where call: "acquire_lock R (ss_lock_ttl (fl_service F)) (fl_video F) token w = (r, w1)" by (metis surj_pair)
  note a = acquire_cases [OF call]
  have "is_str (lock w1)" using a(4) w by (simp add: world_ok_def)
  note keep = world_lock [OF w a(1) this]
  show ?thesis
  proof (cases "\<exists>t. r = Inr (True, t)")
    case True
    then obtain t where "r = Inr (True, t)" by blast
    moreover from this have "lock w = None" using a(2) by blast
    ultimately show ?thesis using run call keep ph a(5) unfolding Locking turn_ok_def by auto
  next
    case False
    then have "ph' = Waiting" "w' = w1" using run call unfolding Locking
      by (auto split: sum.splits prod.splits bool.splits)
    moreover have "lock w \<noteq> None \<Longrightarrow> lock w1 = lock w" using a(2) by simp
    ultimately show ?thesis using keep ph unfolding Locking turn_ok_def by (cases "lock w") auto
  qed
next
  case Waiting
  then show ?thesis using run w ph by (cases "cs_cancelled c") (auto simp: turn_ok_def answer_true_def)
next
  case (Gathering got a b)
  show ?thesis
  proof (cases "a = None \<or> b = None")
    case True
    from gather_step [OF w _ this, of got token c ph' w'] show ?thesis
      using run ph unfolding Gathering turn_ok_def by auto
  next
    case False
    then obtain x y where ab: "a = Some x" "b = Some y" by auto
    have "w' = w" "ph' = (case stats_assemble (cs_likes_first c) (fl_video F) (cs_now c) x y of
        Inl e \<Rightarrow> finish got (Inl e) | Inr st \<Rightarrow> Storing got st)"
      using run unfolding Gathering ab by simp_all
    then show ?thesis using w assembled [OF ph [unfolded Gathering ab]] unfolding Gathering turn_ok_def
      by (auto simp: finish_def split: sum.splits if_splits)
  qed
next
  case (Storing got st)
  have told: "told (fl_video F) past st" using ph Storing by simp
  have "stats_write_cache R (fl_codec F) (ss_cache_ttl (fl_service F)) st w = w'" "ph' = finish got (Inr st)"
    using run unfolding Storing by simp_all
  then show ?thesis using world_store [OF w told] told unfolding Storing turn_ok_def
    by (auto simp: finish_def answer_true_def)
next
  case (Releasing res)
  have rel: "release_lock R (fl_video F) token w = w'" and ph': "ph' = Answered res" using run unfolding Releasing by simp_all
  have typed: "is_str (lock w)" using w by (simp add: world_ok_def)
  note key = release_lock_key [OF typed rel]
  have "is_str (lock w')" using key typed by auto
  from world_lock [OF w _ this] release_cases(1) [OF typed, of token] rel
  show ?thesis using key ph unfolding Releasing ph' turn_ok_def by auto
qed (use run w ph in \<open>simp_all add: turn_ok_def\<close>)

text \<open>Time only makes keys disappear.\<close>

lemma elapsed_key: "doc_elapse d m k = None \<or> is_str (m k) \<and> is_str (doc_elapse d m k) \<and> str_val (doc_elapse d m k) = str_val (m k)
    \<or> \<not> is_str (m k)"
  by (cases "m k" rule: is_str.cases) (auto simp: doc_elapse_def split: option.splits)

lemma elapse_ok:
  assumes "world_ok w past"
  shows "world_ok (w\<lparr>srv := rELAPSE R d (srv w)\<rparr>) past"
    and "lock (w\<lparr>srv := rELAPSE R d (srv w)\<rparr>) = None \<or> str_val (lock (w\<lparr>srv := rELAPSE R d (srv w)\<rparr>)) = str_val (lock w)"
proof -
  let ?w = "w\<lparr>srv := rELAPSE R d (srv w)\<rparr>"
  have key: "ks (srv ?w) k = None \<or> is_str (ks (srv ?w) k) \<and> str_val (ks (srv ?w) k) = str_val (ks (srv w) k)"
    if "is_str (ks (srv w) k)" for k
    using elapsed_key [of d "ks (srv w)" k] that by (auto simp: elapse)
  have "cache_held D f (ks (srv ?w)) i = None \<or> cache_held D f (ks (srv ?w)) i = cache_held D f (ks (srv w)) i"
    if "is_str (ks (srv w) (f i))" for f i and D :: "'a codec"
    using key [OF that] by (auto simp: cache_held_def)
  note held = this
  have "told (fl_video F) past st" if "stats_held R ks (fl_codec F) (fl_video F) ?w = Some st" for st
  proof -
    have "is_str (ks (srv w) (''stats:'' @ uuid_str R (fl_video F)))"
      using assms by (simp add: world_ok_def stats_cache_key_def)
    from held [of "\<lambda>i. ''stats:'' @ i", OF this, of "fl_codec F"]
    show ?thesis using that assms by (auto simp: world_ok_def stats_held_def)
  qed
  moreover have "is_str (ks (srv ?w) k)" if "is_str (ks (srv w) k)" for k using key [OF that] by auto
  moreover have "video_row i (pg w) = Some v" if "cache_held C video_cache_key (ks (srv ?w)) (uuid_str R i) = Some v" for i v
    using held [of video_cache_key "uuid_str R i" C] that assms unfolding world_ok_def video_cache_true_def
    by (metis option.distinct(1))
  ultimately show "world_ok ?w past" using assms by (simp add: world_ok_def video_cache_true_def)
  show "lock ?w = None \<or> str_val (lock ?w) = str_val (lock w)"
    using key [of "stats_lock_key R (fl_video F)"] assms by (auto simp: world_ok_def)
qed

section \<open>Every step\<close>

definition fleet_ok :: "'s replicas \<Rightarrow> bool" where
  "fleet_ok S \<longleftrightarrow> world_ok (rp_world S) (rp_past S) \<and> (\<forall>q. phase_true (fl_video F) (rp_past S) (rp_phase S q))
     \<and> (\<forall>q. owns (rp_phase S q) \<longrightarrow> q \<notin> rp_lapsed S \<longrightarrow> str_val (lock (rp_world S)) = Some (fl_token F q))"

lemma call_ok:
  assumes "fleet_ok S" and "fetch_step R F (fl_token F q) c (rp_phase S q) (rp_world S) = (ph, w)"
  shows "fleet_ok ((to_phase S q ph)\<lparr>rp_world := w\<rparr>)"
proof -
  note ok = assms(1) [unfolded fleet_ok_def]
  have t: "turn_ok (rp_past S) (fl_token F q) (rp_phase S q) (rp_world S) ph w"
    using ok by (intro fetch_step_ok [OF _ _ assms(2)]) blast+
  note t = this [unfolded turn_ok_def]
  have "str_val (lock w) = Some (fl_token F p)"
    if p: "owns (((rp_phase S)(q := ph)) p)" "p \<notin> rp_lapsed S" for p
  proof (cases "p = q")
    case True
    then have "owns ph" using p(1) by simp
    then show ?thesis using t ok p(2) True by (cases "owns (rp_phase S q)") auto
  next
    case False
    then have held: "str_val (lock (rp_world S)) = Some (fl_token F p)" using p ok by simp
    moreover have "fl_token F p \<noteq> fl_token F q" using False tokens by (simp add: inj_eq)
    ultimately have "lock w = lock (rp_world S)" using t by force
    then show ?thesis using held by simp
  qed
  moreover have "phase_true (fl_video F) (rp_past S) (((rp_phase S)(q := ph)) p)" for p using t ok by simp
  moreover have "world_ok w (rp_past S)" using t by blast
  ultimately show ?thesis unfolding fleet_ok_def by simp
qed

lemma phase_ok:
  assumes "fleet_ok S" and "phase_true (fl_video F) (rp_past S) ph" and "\<not> owns ph"
  shows "fleet_ok (to_phase S q ph)"
  using assms unfolding fleet_ok_def by simp

lemma elapse_step_ok:
  assumes "fleet_ok S" and "w = (rp_world S)\<lparr>srv := rELAPSE R d (srv (rp_world S))\<rparr>"
    and "L = {q. lock_token R ks (fl_video F) (rp_world S) = Some (fl_token F q) \<and> lock w = None}"
  shows "fleet_ok (S\<lparr>rp_world := w, rp_lapsed := rp_lapsed S \<union> L\<rparr>)"
proof -
  note ok = assms(1) [unfolded fleet_ok_def]
  have w: "world_ok w (rp_past S)" "lock w = None \<or> str_val (lock w) = str_val (lock (rp_world S))"
    unfolding assms(2) using elapse_ok ok by blast+
  have "str_val (lock w) = Some (fl_token F p)" if p: "owns (rp_phase S p)" "p \<notin> rp_lapsed S \<union> L" for p
  proof -
    have "str_val (lock (rp_world S)) = Some (fl_token F p)" using ok p by blast
    then show ?thesis using p(2) w(2) by (auto simp: assms(3) lock_token_def)
  qed
  then show ?thesis using w(1) ok unfolding fleet_ok_def by simp
qed

lemma others_step_ok:
  assumes "fleet_ok S" and "others_may R ks C fits (fl_video F) (rp_world S) w"
  shows "fleet_ok (S\<lparr>rp_world := w, rp_past := insert (pg w, ch w) (rp_past S)\<rparr>)"
proof -
  note ok = assms(1) [unfolded fleet_ok_def] and may = assms(2) [unfolded others_may_def]
  let ?past = "insert (pg w, ch w) (rp_past S)"
  have more: "rp_past S \<subseteq> ?past" by blast
  have "stats_held R ks (fl_codec F) (fl_video F) w = stats_held R ks (fl_codec F) (fl_video F) (rp_world S)"
    by (rule held_same) (use may in blast)
  then have "world_ok w ?past" using ok may told_mono [OF more] unfolding world_ok_def by simp
  moreover have "phase_true (fl_video F) ?past (rp_phase S q)" for q using ok phase_mono [OF more] by blast
  ultimately show ?thesis using ok may unfolding fleet_ok_def by simp
qed

lemma step_ok:
  assumes "stats_step R ks C fits F S e T" and "fleet_ok S"
  shows "fleet_ok T"
  using assms
proof (cases rule: stats_step.cases)
  case (call q c ph w)
  show ?thesis unfolding call(2) by (rule call_ok [OF assms(2) call(5)])
next
  case (share q p res c)
  have "phase_true (fl_video F) (rp_past S) (rp_phase S p)" using assms(2) unfolding fleet_ok_def by blast
  then show ?thesis unfolding share(2) by (intro phase_ok [OF assms(2)]) (simp_all add: share(4))
next
  case (elapse d)
  show ?thesis unfolding elapse(2) by (rule elapse_step_ok [OF assms(2)]) simp_all
next
  case (others w)
  show ?thesis unfolding others(2) by (rule others_step_ok [OF assms(2) others(3)])
qed (use assms(2) phase_ok in simp_all)

lemma run_ok: "stats_run R ks C fits F S es T \<Longrightarrow> fleet_ok S \<Longrightarrow> fleet_ok T"
  by (induction rule: stats_run.induct) (auto intro: step_ok)

lemma start_ok: "world_ok w {(pg w, ch w)} \<Longrightarrow> fleet_ok (replicas_at w)"
  by (simp add: fleet_ok_def replicas_at_def)

end

section \<open>Coalescing and progress\<close>

text \<open>In each process at most one \<open>fetch\<close> is under way, and who has joined one waits for a call that is
  under way or has returned.\<close>

definition coalesced :: "'s fleet \<Rightarrow> 's replicas \<Rightarrow> bool" where
  "coalesced F S \<longleftrightarrow>
     (\<forall>p q. fl_process F p = fl_process F q \<longrightarrow> in_flight (rp_phase S p) \<longrightarrow> in_flight (rp_phase S q) \<longrightarrow> p = q)
   \<and> (\<forall>q p. rp_phase S q = Joined p \<longrightarrow> fl_process F p = fl_process F q \<and>
        (in_flight (rp_phase S p) \<or> (\<exists>res. rp_phase S p = Answered res)))"

definition is_answered :: "phase \<Rightarrow> bool" where
  "is_answered ph \<longleftrightarrow> (\<exists>res. ph = Answered res)"

lemma flight_simps [simp]:
  "\<not> in_flight Reading" "\<not> in_flight Missed" "in_flight Checking" "in_flight Locking" "in_flight Waiting"
  "in_flight Rereading" "in_flight (Gathering got a b)" "in_flight (Storing got st)" "in_flight (Releasing res)"
  "\<not> in_flight (Joined q)" "\<not> in_flight (Answered res)"
  by (simp_all add: in_flight_def)

lemma fetch_moves:
  assumes "fetch_step R F token c ph w = (ph', w')" and "ph \<noteq> Missed" and "\<forall>p. ph \<noteq> Joined p"
  shows "turns_left ph' \<le> turns_left ph - 1" and "in_flight ph' \<longrightarrow> in_flight ph"
    and "in_flight ph \<longrightarrow> in_flight ph' \<or> is_answered ph'" and "is_answered ph \<longrightarrow> ph' = ph" and "\<forall>p. ph' \<noteq> Joined p"
  using assms
  by (cases "(R, F, token, c, ph, w)" rule: fetch_step.cases;
      auto simp: finish_def is_answered_def split: prod.splits option.splits sum.splits bool.splits if_splits)+

lemma turns_left_0: "turns_left ph = 0 \<longleftrightarrow> is_answered ph \<or> (\<exists>p. ph = Joined p)"
  by (cases ph) (auto simp: is_answered_def)

text \<open>Who takes a turn, and how often.\<close>

fun takes_turn :: "nat \<Rightarrow> 's event \<Rightarrow> bool" where
  "takes_turn q (Turn p c) = (p = q)"
| "takes_turn q e = False"

definition turns :: "nat \<Rightarrow> 's event list \<Rightarrow> nat" where
  "turns q es = length (filter (takes_turn q) es)"

text \<open>What one step does to the phase of one request.\<close>

lemma step_phase:
  assumes "stats_step R ks VC fits F S e T"
  shows "\<not> takes_turn q e \<Longrightarrow> rp_phase T q = rp_phase S q"
    and "turns_left (rp_phase T q) \<le> turns_left (rp_phase S q) - (if takes_turn q e then 1 else 0)"
    and "is_answered (rp_phase S q) \<Longrightarrow> rp_phase T q = rp_phase S q"
    and "rp_phase S q = Joined p \<Longrightarrow> rp_phase S p = Answered res \<Longrightarrow> takes_turn q e \<Longrightarrow> rp_phase T q = Answered res"
    and "rp_phase S q = Joined p \<Longrightarrow> rp_phase T q = Joined p \<or> is_answered (rp_phase T q)"
  using assms by (cases rule: stats_step.cases; auto dest: fetch_moves simp: is_answered_def)+

lemma coalesced_move:
  assumes "coalesced F S" and "rp_phase T = (rp_phase S)(q := ph)"
    and start: "in_flight ph \<Longrightarrow> in_flight (rp_phase S q) \<or> (\<forall>p. fl_process F p = fl_process F q \<longrightarrow> \<not> in_flight (rp_phase S p))"
    and fin: "in_flight (rp_phase S q) \<or> is_answered (rp_phase S q) \<Longrightarrow> in_flight ph \<or> is_answered ph"
    and joined: "\<And>p. ph = Joined p \<Longrightarrow> fl_process F p = fl_process F q \<and> in_flight (rp_phase S p) \<and> p \<noteq> q"
  shows "coalesced F T"
proof -
  have one: "a = b" if "fl_process F a = fl_process F b" "in_flight (rp_phase S a)" "in_flight (rp_phase S b)" for a b
    using assms(1) that unfolding coalesced_def by blast
  have lead: "fl_process F b = fl_process F a \<and> (in_flight (rp_phase S b) \<or> is_answered (rp_phase S b))"
    if "rp_phase S a = Joined b" for a b
    using assms(1) that unfolding coalesced_def is_answered_def by blast
  have only: "x = q" if "fl_process F x = fl_process F q" "in_flight (rp_phase S x)" "in_flight ph" for x
    using start [OF that(3)] one [of x q] that by blast
  have "a = b" if "fl_process F a = fl_process F b" "in_flight (rp_phase T a)" "in_flight (rp_phase T b)" for a b
  proof (cases "a = q")
    case True
    then show ?thesis using that only [of b] unfolding assms(2) by (cases "b = q") simp_all
  next
    case False
    then show ?thesis using that only [of a] one [of a b] unfolding assms(2) by (cases "b = q") simp_all
  qed
  moreover have "fl_process F b = fl_process F a \<and> (in_flight (rp_phase T b) \<or> is_answered (rp_phase T b))"
    if "rp_phase T a = Joined b" for a b
  proof (cases "a = q")
    case True
    then show ?thesis using that joined unfolding assms(2) by auto
  next
    case False
    then have "rp_phase S a = Joined b" using that unfolding assms(2) by simp
    from lead [OF this] show ?thesis using fin unfolding assms(2) by auto
  qed
  ultimately show ?thesis unfolding coalesced_def is_answered_def by blast
qed

lemma coalesced_same:
  assumes "coalesced F S" and "rp_phase T = rp_phase S"
  shows "coalesced F T"
  using assms(1) unfolding coalesced_def assms(2) .

lemma step_coalesced:
  assumes "stats_step R ks VC fits F S e T" and "coalesced F S"
  shows "coalesced F T"
  using assms(1)
proof (cases rule: stats_step.cases)
  case (call q c ph w)
  note m = fetch_moves [OF call(5,4,3)]
  show ?thesis unfolding call(2)
    by (rule coalesced_move [OF assms(2), where q = q and ph = ph]) (simp, (use m(2,3,4,5) in blast)+)
next
  case (lead q c)
  show ?thesis unfolding lead(2)
    by (rule coalesced_move [OF assms(2), where q = q and ph = Checking]) (simp_all add: lead(3,4) is_answered_def)
next
  case (join q p c)
  show ?thesis unfolding join(2)
    by (rule coalesced_move [OF assms(2), where q = q and ph = "Joined p"]) (use join(3-5) in \<open>force simp: is_answered_def\<close>)+
next
  case (share q p res c)
  show ?thesis unfolding share(2)
    by (rule coalesced_move [OF assms(2), where q = q and ph = "Answered res"]) (simp_all add: share(3) is_answered_def)
next
  case (wait q p c)
  then show ?thesis using assms(2) by simp
next
  case (elapse d)
  show ?thesis by (rule coalesced_same [OF assms(2)]) (simp add: elapse(2))
next
  case (others w)
  show ?thesis by (rule coalesced_same [OF assms(2)]) (simp add: others(2))
qed

lemma run_coalesced: "stats_run R ks VC fits F S es T \<Longrightarrow> coalesced F S \<Longrightarrow> coalesced F T"
  by (induction rule: stats_run.induct) (auto intro: step_coalesced)

lemma start_coalesced: "coalesced F (replicas_at w)"
  by (simp add: coalesced_def replicas_at_def)

lemma run_turns_left:
  "stats_run R ks VC fits F S es T \<Longrightarrow> turns_left (rp_phase T q) \<le> turns_left (rp_phase S q) - turns q es"
proof (induction rule: stats_run.induct)
  case (go S es T e U)
  then show ?case using step_phase(2) [OF go(2), of q] by (simp add: turns_def split: if_splits)
qed (simp add: turns_def)

lemma run_answered: "stats_run R ks VC fits F S es T \<Longrightarrow> is_answered (rp_phase S q) \<Longrightarrow> rp_phase T q = rp_phase S q"
proof (induction rule: stats_run.induct)
  case (go S es T e U)
  then show ?case using step_phase(3) [OF go(2), of q] by simp
qed simp

lemma run_untouched: "stats_run R ks VC fits F S es T \<Longrightarrow> turns q es = 0 \<Longrightarrow> rp_phase T q = rp_phase S q"
proof (induction rule: stats_run.induct)
  case (go S es T e U)
  then have "turns q es = 0 \<and> \<not> takes_turn q e" by (simp add: turns_def split: if_splits)
  then show ?case using go step_phase(1) by metis
qed simp

text \<open>One more turn hands the answer of a leader on.\<close>

lemma run_shared:
  assumes "stats_run R ks VC fits F S es T" and "rp_phase S q = Joined p" and "rp_phase S p = Answered res"
  shows "if turns q es = 0 then rp_phase T q = Joined p else rp_phase T q = Answered res"
  using assms
proof (induction rule: stats_run.induct)
  case (go S es T e U)
  have p: "rp_phase T p = Answered res" using run_answered [OF go(1)] go.prems(2) by (simp add: is_answered_def)
  show ?case
  proof (cases "turns q es = 0")
    case True
    then have q: "rp_phase T q = Joined p" using go.IH go.prems by simp
    show ?thesis using True step_phase(1,4) [OF go(2), of q] q p by (auto simp: turns_def)
  next
    case False
    then have "rp_phase T q = Answered res" using go.IH go.prems by simp
    then show ?thesis using False step_phase(3) [OF go(2), of q] by (auto simp: turns_def is_answered_def)
  qed
qed (simp add: turns_def)

text \<open>Requests that have had all their turns are answered, or joined to one that is.\<close>

lemma all_answered:
  assumes first: "stats_run R ks VC fits F (replicas_at w) es S" and second: "stats_run R ks VC fits F S fs T"
    and part: "\<And>q. q \<notin> A \<Longrightarrow> turns q es = 0" and often: "\<And>q. q \<in> A \<Longrightarrow> 11 \<le> turns q es \<and> 1 \<le> turns q fs"
    and q: "q \<in> A"
  shows "is_answered (rp_phase T q)"
proof -
  have over: "is_answered (rp_phase S p) \<or> (\<exists>r. rp_phase S p = Joined r)" if "p \<in> A" for p
  proof -
    have "turns_left (rp_phase S p) \<le> 11 - turns p es"
      using run_turns_left [OF first, of p] by (simp add: replicas_at_def)
    then show ?thesis using often [OF that] turns_left_0 [of "rp_phase S p"] by simp
  qed
  from over [OF q] show ?thesis
  proof
    assume "is_answered (rp_phase S q)"
    then show ?thesis using run_answered [OF second, of q] by simp
  next
    assume "\<exists>r. rp_phase S q = Joined r"
    then obtain p where p: "rp_phase S q = Joined p" by blast
    have lead: "in_flight (rp_phase S p) \<or> is_answered (rp_phase S p)"
      using run_coalesced [OF first start_coalesced] p unfolding coalesced_def is_answered_def by blast
    have "p \<in> A"
    proof (rule ccontr)
      assume "p \<notin> A"
      then have "rp_phase S p = Reading" using run_untouched [OF first part] by (simp add: replicas_at_def)
      then show False using lead by (simp add: is_answered_def)
    qed
    then have "is_answered (rp_phase S p)" using over [of p] lead by auto
    then obtain res where "rp_phase S p = Answered res" by (auto simp: is_answered_def)
    from run_shared [OF second p this] show ?thesis using often [OF q] by (simp add: is_answered_def split: if_splits)
  qed
qed

text \<open>Who has joined gets the leader's answer, also when the leader's own client has gone: the \<open>fetch\<close>
  runs under the context of the request that started it.\<close>

lemma cancellation_is_shared:
  assumes "rp_phase S p = Waiting" and "cs_cancelled c" and "rp_phase S q = Joined p"
    and step: "stats_step R ks VC fits F S (Turn p c) T" and run: "stats_run R ks VC fits F T es U" and "1 \<le> turns q es"
  shows "rp_phase U q = Answered (Inl (Plain ''context canceled''))"
proof -
  have "rp_phase T p = Answered (Inl (Plain ''context canceled''))" using step assms(1,2) by (auto elim: turnE)
  moreover have "rp_phase T q = Joined p" using step_phase(1) [OF step, of q] assms(1,3) by force
  ultimately show ?thesis using run_shared [OF run] assms(6) by (simp split: if_splits)
qed

section \<open>A request on its own\<close>

text \<open>With nobody else in flight a request leads its own \<open>fetch\<close>; \<open>pause\<close> is what happens while it waits.\<close>

fun next_alone ::
  "('s, 'z) redis_scheme \<Rightarrow> 's fleet \<Rightarrow> ('s world \<Rightarrow> 's world option) \<Rightarrow> string \<Rightarrow> chances \<Rightarrow> phase \<times> 's world \<Rightarrow> phase \<times> 's world"
where
  "next_alone R F pause token c (Missed, w) = (Checking, w)"
| "next_alone R F pause token c (Waiting, w) =
     (case pause w of
        None \<Rightarrow> fetch_step R F token (c\<lparr>cs_cancelled := True\<rparr>) Waiting w
      | Some w' \<Rightarrow> fetch_step R F token (c\<lparr>cs_cancelled := False\<rparr>) Waiting w')"
| "next_alone R F pause token c (ph, w) = fetch_step R F token c ph w"

definition views_then_likes :: "bool \<Rightarrow> gotime \<Rightarrow> chances" where
  "views_then_likes likes_first now =
     \<lparr>cs_cancelled = False, cs_views_next = True, cs_likes_first = likes_first, cs_now = now\<rparr>"

lemma views_then_likes_simps [simp]:
  "cs_views_next (views_then_likes f now)" "cs_likes_first (views_then_likes f now) = f" "cs_now (views_then_likes f now) = now"
  by (simp_all add: views_then_likes_def)

lemma alone_answered: "(next_alone R F pause token c ^^ n) (Answered res, w) = (Answered res, w)"
  by (induction n) simp_all

lemma alone_recompute:
  "(next_alone R F pause token (views_then_likes first now) ^^ Suc (Suc (Suc (Suc (Suc n))))) (Gathering got None None, w) =
     (let (res, w') = stats_recompute R (fl_codec F) (fl_service F) first (fl_video F) token got now w in (Answered res, w'))"
  by (auto simp: funpow_swap1 stats_recompute_def stats_compute_def finish_def alone_answered Let_def
      split: prod.splits sum.splits)

lemma alone_early:
  "ph \<in> {Reading, Missed, Checking, Locking, Waiting, Rereading} \<Longrightarrow>
     (next_alone R F pause token c ^^ Suc n) (ph, w) = (next_alone R F pause token c ^^ n) (next_alone R F pause token c (ph, w))"
  by (simp add: funpow_swap1)

lemma stats_get_takes_its_turns:
  "(next_alone R F pause token (views_then_likes first now) ^^ 11) (Reading, w) =
     (let (res, w') = stats_get R (fl_codec F) (fl_service F) pause first (fl_video F) token now w in (Answered res, w'))"
proof -
  have n: "(11::nat) = Suc (Suc (Suc (Suc (Suc (Suc (Suc (Suc (Suc (Suc (Suc 0))))))))))" by simp
  show ?thesis unfolding n
    by (simp del: funpow.simps add: alone_early alone_recompute alone_answered stats_get_def stats_fetch_def Let_def
        split: prod.split sum.split bool.split option.split)
qed

text \<open>Its turns are a run.\<close>

lemma lone_turns:
  assumes "\<forall>p. p \<noteq> q \<longrightarrow> \<not> in_flight (rp_phase S p)" and "\<forall>p. rp_phase S q \<noteq> Joined p" and "\<not> cs_cancelled c"
  shows "\<exists>T. stats_run R ks VC fits F S (replicate n (Turn q c)) T
    \<and> (next_alone R F Some (fl_token F q) c ^^ n) (rp_phase S q, rp_world S) = (rp_phase T q, rp_world T)
    \<and> (\<forall>p. p \<noteq> q \<longrightarrow> rp_phase T p = rp_phase S p) \<and> (\<forall>p. rp_phase T q \<noteq> Joined p) \<and> rp_past T = rp_past S \<and> rp_lapsed T = rp_lapsed S"
proof (induction n)
  case 0
  show ?case by (intro exI [of _ S]) (simp add: assms(2) stats_run.stop)
next
  case (Suc n)
  then obtain T where T: "stats_run R ks VC fits F S (replicate n (Turn q c)) T"
    "(next_alone R F Some (fl_token F q) c ^^ n) (rp_phase S q, rp_world S) = (rp_phase T q, rp_world T)"
    "\<forall>p. p \<noteq> q \<longrightarrow> rp_phase T p = rp_phase S p" "\<forall>p. rp_phase T q \<noteq> Joined p" "rp_past T = rp_past S" "rp_lapsed T = rp_lapsed S" by blast
  obtain ph w where nx: "next_alone R F Some (fl_token F q) c (rp_phase T q, rp_world T) = (ph, w)" by (metis surj_pair)
  let ?U = "(to_phase T q ph)\<lparr>rp_world := w\<rparr>"
  have step: "stats_step R ks VC fits F T (Turn q c) ?U \<and> (\<forall>p. ph \<noteq> Joined p)"
  proof (cases "rp_phase T q = Missed")
    case True
    then have "ph = Checking" "w = rp_world T" using nx by simp_all
    moreover have "\<forall>p. fl_process F p = fl_process F q \<longrightarrow> \<not> in_flight (rp_phase T p)"
      using assms(1) T(3) True by (metis flight_simps(2))
    ultimately show ?thesis using stats_step.lead [OF True, of F R ks VC fits c] by simp
  next
    case False
    have c: "c\<lparr>cs_cancelled := False\<rparr> = c" using assms(3) by (cases c) simp
    have "next_alone R F Some (fl_token F q) c (x, y) = fetch_step R F (fl_token F q) c x y" if "x \<noteq> Missed" for x y
      using that by (cases x) (simp_all add: c)
    then have fs: "fetch_step R F (fl_token F q) c (rp_phase T q) (rp_world T) = (ph, w)" using nx False by simp
    show ?thesis using stats_step.call [OF T(4) False fs] fetch_moves(5) [OF fs False T(4)] by simp
  qed
  have "stats_run R ks VC fits F S (replicate (Suc n) (Turn q c)) ?U"
    using stats_run.go [OF T(1) conjunct1 [OF step]] by (simp only: replicate_Suc replicate_append_same [symmetric])
  then show ?case using T nx step by (intro exI [of _ ?U]) simp
qed

lemma lone_request:
  obtains T where "stats_run R ks VC fits F (replicas_at w) (replicate 11 (Turn q (views_then_likes first now))) T"
    and "rp_phase T q = Answered (fst (stats_get R (fl_codec F) (fl_service F) Some first (fl_video F) (fl_token F q) now w))"
    and "rp_past T = {(pg w, ch w)}"
proof -
  have "\<exists>T. stats_run R ks VC fits F (replicas_at w) (replicate 11 (Turn q (views_then_likes first now))) T
    \<and> (next_alone R F Some (fl_token F q) (views_then_likes first now) ^^ 11) (rp_phase (replicas_at w) q, rp_world (replicas_at w))
      = (rp_phase T q, rp_world T)
    \<and> (\<forall>p. p \<noteq> q \<longrightarrow> rp_phase T p = rp_phase (replicas_at w) p) \<and> (\<forall>p. rp_phase T q \<noteq> Joined p) \<and> rp_past T = rp_past (replicas_at w) \<and> rp_lapsed T = rp_lapsed (replicas_at w)"
    by (rule lone_turns) (simp_all add: replicas_at_def views_then_likes_def)
  then show ?thesis using that unfolding replicas_at_def replicas.simps stats_get_takes_its_turns
    by (auto simp: Let_def split: prod.splits)
qed

section \<open>Who changes the lock\<close>

context stats_fleet
begin

lemma lock_change:
  assumes "stats_step R ks C fits F S e T" and "fleet_ok S"
    and held: "lock_token R ks (fl_video F) (rp_world S) = Some (fl_token F p)"
    and changed: "lock_token R ks (fl_video F) (rp_world T) \<noteq> lock_token R ks (fl_video F) (rp_world S)"
  shows "(\<exists>c. e = Turn p c) \<or> (\<exists>d. e = Elapse d)"
  using assms(1)
proof (cases rule: stats_step.cases)
  case (call q c ph w)
  have "turn_ok (rp_past S) (fl_token F q) (rp_phase S q) (rp_world S) ph w"
    using assms(2) unfolding fleet_ok_def by (intro fetch_step_ok [OF _ _ call(5)]) blast+
  then have "str_val (lock (rp_world S)) = Some (fl_token F q)"
    using held changed call(2) unfolding turn_ok_def lock_token_def by auto
  then show ?thesis using held tokens call(1) by (auto simp: lock_token_def inj_eq)
next
  case (others w)
  then show ?thesis using changed by (simp add: lock_token_def others_may_def)
qed (use changed in simp_all)

lemma one_owner:
  assumes "fleet_ok S" and "owns (rp_phase S p)" "p \<notin> rp_lapsed S" and "owns (rp_phase S q)" "q \<notin> rp_lapsed S"
  shows "p = q"
  using assms tokens unfolding fleet_ok_def by (metis injD option.inject)

text \<open>While the tables stay as they are the answers are exact.\<close>

lemma told_exact:
  assumes "told (fl_video F) {(p, c)} st"
  shows "video_row (fl_video F) p \<noteq> None \<and> stats_exact (fl_video F) p c (st_computed_at st) st"
  using assms by (simp add: told_def rate_true_def video_seen_def views_seen_def likes_seen_def stats_exact_def)

end

section \<open>Properties\<close>

definition fleet_start ::
  "('s, 'z) redis_scheme \<Rightarrow> ('s \<Rightarrow> keyspace) \<Rightarrow> video codec \<Rightarrow> (video \<Rightarrow> bool) \<Rightarrow> 's fleet \<Rightarrow> 's world \<Rightarrow> bool"
where
  "fleet_start R ks VC fits F w \<longleftrightarrow> tables_ok fits (pg w) (ch w) \<and> video_cache_true R ks VC w
     \<and> is_str (ks (srv w) (stats_cache_key R (fl_video F))) \<and> is_str (ks (srv w) (stats_lock_key R (fl_video F)))
     \<and> (\<forall>st. stats_held R ks (fl_codec F) (fl_video F) w = Some st \<longrightarrow> told (fl_video F) {(pg w, ch w)} st)"

lemma fleet_loc:
  assumes "redis_server R ks" and "json_codec VC fits" and "json_codec (fl_codec F) rate_true"
    and "fl_service F = app_stats_service R (app_video_service R VC arrange dur_ttl hook) cache_ttl lock_ttl lock_retry"
    and "inj (fl_token F)" and "\<forall>q. fl_token F q \<noteq> []"
  shows "stats_fleet R ks VC fits arrange dur_ttl hook F cache_ttl lock_ttl lock_retry"
  using assms by (simp add: stats_fleet_def video_reads_def stats_fleet_axioms_def)

lemma fleet_invariant:
  assumes loc: "stats_fleet R ks VC fits arrange dur_ttl hook F cache_ttl lock_ttl lock_retry"
    and "fleet_start R ks VC fits F w" and "stats_run R ks VC fits F (replicas_at w) es S"
  shows "stats_fleet.fleet_ok R ks VC fits F S" and "coalesced F S"
proof -
  have "stats_fleet.world_ok R ks VC fits F w {(pg w, ch w)}"
    using assms(2) by (simp add: stats_fleet.world_ok_def [OF loc] fleet_start_def)
  from stats_fleet.run_ok [OF loc assms(3) stats_fleet.start_ok [OF loc this]]
  show "stats_fleet.fleet_ok R ks VC fits F S" .
  show "coalesced F S" by (rule run_coalesced [OF assms(3) start_coalesced])
qed

text \<open>
  C18. Requests for the statistics of a video, side by side in any number of processes, with any
  failures of the links, any other traffic and any passing of time: of those whose lock has not
  expired in their hands at most one owns it; in each process at most one \<open>fetch\<close> is under way; and
  a token in the lock is only ever removed by a turn of the request it belongs to, or by time.
\<close>

theorem stats_lock_has_one_owner:
  assumes "redis_server R ks" and "json_codec VC fits" and "json_codec (fl_codec F) rate_true"
    and "fl_service F = app_stats_service R (app_video_service R VC arrange dur_ttl hook) cache_ttl lock_ttl lock_retry"
    and "inj (fl_token F)" and "\<forall>q. fl_token F q \<noteq> []" and "fleet_start R ks VC fits F w"
    and run: "stats_run R ks VC fits F (replicas_at w) es S"
  shows "(\<forall>p q. owns (rp_phase S p) \<longrightarrow> p \<notin> rp_lapsed S \<longrightarrow> owns (rp_phase S q) \<longrightarrow> q \<notin> rp_lapsed S \<longrightarrow> p = q)
    \<and> (\<forall>p q. fl_process F p = fl_process F q \<longrightarrow> in_flight (rp_phase S p) \<longrightarrow> in_flight (rp_phase S q) \<longrightarrow> p = q)
    \<and> (\<forall>e T p. stats_step R ks VC fits F S e T \<longrightarrow> lock_token R ks (fl_video F) (rp_world S) = Some (fl_token F p) \<longrightarrow>
         lock_token R ks (fl_video F) (rp_world T) \<noteq> Some (fl_token F p) \<longrightarrow> (\<exists>c. e = Turn p c) \<or> (\<exists>d. e = Elapse d))"
proof -
  note loc = fleet_loc [OF assms(1-6)]
  note inv = fleet_invariant [OF loc assms(7) run]
  have "(\<exists>c. e = Turn p c) \<or> (\<exists>d. e = Elapse d)"
    if "stats_step R ks VC fits F S e T" "lock_token R ks (fl_video F) (rp_world S) = Some (fl_token F p)"
      "lock_token R ks (fl_video F) (rp_world T) \<noteq> Some (fl_token F p)" for e T p
    using stats_fleet.lock_change [OF loc that(1) inv(1) that(2)] that(2,3) by simp
  moreover have "\<forall>p q. fl_process F p = fl_process F q \<longrightarrow> in_flight (rp_phase S p) \<longrightarrow> in_flight (rp_phase S q) \<longrightarrow> p = q"
    using inv(2) unfolding coalesced_def by (rule conjunct1)
  ultimately show ?thesis using stats_fleet.one_owner [OF loc inv(1)] by blast
qed

text \<open>
  C17. What such a request answers was true: statistics are those of a video that existed, with the
  views and unique views of one moment of the run, the likes of one moment and their quotient, and
  not found means that at some moment there was no such video. The same holds of what the cache
  keeps for the next. If the tables did not change meanwhile, every answer is exact.
\<close>

theorem concurrent_statistics_are_true:
  assumes "redis_server R ks" and "json_codec VC fits" and "json_codec (fl_codec F) rate_true"
    and "fl_service F = app_stats_service R (app_video_service R VC arrange dur_ttl hook) cache_ttl lock_ttl lock_retry"
    and "inj (fl_token F)" and "\<forall>q. fl_token F q \<noteq> []" and "fleet_start R ks VC fits F w"
    and run: "stats_run R ks VC fits F (replicas_at w) es S"
  shows "(\<forall>q res. rp_phase S q = Answered res \<longrightarrow> answer_true (fl_video F) (rp_past S) res)
    \<and> (\<forall>st. stats_held R ks (fl_codec F) (fl_video F) (rp_world S) = Some st \<longrightarrow> told (fl_video F) (rp_past S) st)
    \<and> (\<forall>q st. rp_past S = {(pg w, ch w)} \<longrightarrow> rp_phase S q = Answered (Inr st) \<longrightarrow>
         video_row (fl_video F) (pg w) \<noteq> None \<and> stats_exact (fl_video F) (pg w) (ch w) (st_computed_at st) st)"
proof -
  note loc = fleet_loc [OF assms(1-6)]
  note ok = fleet_invariant(1) [OF loc assms(7) run, unfolded stats_fleet.fleet_ok_def [OF loc]]
  have answers: "answer_true (fl_video F) (rp_past S) res" if "rp_phase S q = Answered res" for q res
    using ok that by (metis phase_true.simps(7))
  have "video_row (fl_video F) (pg w) \<noteq> None \<and> stats_exact (fl_video F) (pg w) (ch w) (st_computed_at st) st"
    if "rp_past S = {(pg w, ch w)}" "rp_phase S q = Answered (Inr st)" for q st
    using answers [OF that(2)] that(1) by (intro stats_fleet.told_exact [OF loc]) (simp add: answer_true_def)
  moreover have "\<forall>st. stats_held R ks (fl_codec F) (fl_video F) (rp_world S) = Some st \<longrightarrow> told (fl_video F) (rp_past S) st"
    using ok unfolding stats_fleet.world_ok_def [OF loc] by blast
  ultimately show ?thesis using answers by blast
qed

text \<open>
  C19. Nobody waits for ever: in any run in which everyone who takes part gets eleven turns, in
  whatever order and with whatever in between, and then one more, everyone is answered - also
  those who joined the \<open>fetch\<close> of another, and whoever met a lock that was never given back.
\<close>

theorem every_statistics_request_is_answered:
  assumes "stats_run R ks VC fits F (replicas_at w) es S" and "stats_run R ks VC fits F S fs T"
    and "\<forall>q. q \<notin> A \<longrightarrow> turns q es = 0" and "\<forall>q \<in> A. 11 \<le> turns q es \<and> 1 \<le> turns q fs"
  shows "\<forall>q \<in> A. \<exists>res. rp_phase T q = Answered res"
  using all_answered [OF assms(1,2), of A] assms(3,4) unfolding is_answered_def by blast

text \<open>Two requests of two processes, on the world of the examples.\<close>

interpretation ref_stats: json_codec ref_stats_codec rate_true
  by unfold_locales (auto simp: ref_stats_codec_def rate_true_def)

definition example_fleet :: "keyspace fleet" where
  "example_fleet = \<lparr>fl_codec = ref_stats_codec, fl_service = stats_example_service, fl_video = 7,
     fl_token = (\<lambda>q. replicate (Suc q) (CHR ''t'')), fl_process = (\<lambda>q. q)\<rparr>"

interpretation ref_fleet: stats_fleet ref_redis "\<lambda>m. m" ref_video_codec "\<lambda>_. True" "\<lambda>vs. vs" 0 None example_fleet 0 0 0
proof (rule fleet_loc [OF ref_redis.redis_server_axioms ref_videos.json_codec_axioms])
  show "json_codec (fl_codec example_fleet) rate_true" by (simp add: example_fleet_def ref_stats.json_codec_axioms)
  show "fl_service example_fleet =
      app_stats_service ref_redis (app_video_service ref_redis ref_video_codec (\<lambda>vs. vs) 0 None) 0 0 0"
    by (simp add: example_fleet_def stats_example_service_def)
  show "inj (fl_token example_fleet)" by (rule injI) (simp add: example_fleet_def replicate_eq_replicate)
  show "\<forall>q. fl_token example_fleet q \<noteq> []" by (simp add: example_fleet_def)
qed

lemma example_start: "fleet_start ref_redis (\<lambda>m. m) ref_video_codec (\<lambda>_. True) example_fleet (stats_world ls)"
  using stats_world_ok stats_world_rolled_up
  by (simp add: fleet_start_def tables_ok_def stats_held_def cache_held_def)

text \<open>What its calls return.\<close>

lemma example_reads: "stats_read_cache ref_redis ref_stats_codec 7 (stats_world []) = (None, stats_world [])"
  by (simp add: stats_read_cache_def link_simps)

lemma example_present:
  obtains m where "video_is_present ref_redis (app_video_service ref_redis ref_video_codec (\<lambda>vs. vs) 0 None) 7 (stats_world []) =
     (Inr True, (stats_world [])\<lparr>srv := m\<rparr>)" and "m (stats_lock_key ref_redis 7) = None"
  by (simp add: video_is_present_def video_get_def app_video_service_def read_through_def json_cache_ops_def json_get_def
      pg_video_repo_def pg_find_video_def Let_def link_simps json_set_def video_row_def example_video_def
      ref_video_codec_def doc_set_def)

lemma example_likes: "pg_count 7 ((stats_world [])\<lparr>srv := m\<rparr>) = (Inr 1, (stats_world [])\<lparr>srv := m\<rparr>)"
proof -
  have "stats_count 7 (pg (stats_world [])) = Some 1" by (simp add: stats_world_def stats_count_def)
  then show ?thesis by (simp add: pg_count_def link_simps)
qed

lemma example_answer:
  "\<exists>st. fst (stats_get ref_redis ref_stats_codec stats_example_service Some False 7 token 9 (stats_world [])) = Inr st"
proof -
  obtain m where m: "video_is_present ref_redis (app_video_service ref_redis ref_video_codec (\<lambda>vs. vs) 0 None) 7 (stats_world []) =
     (Inr True, (stats_world [])\<lparr>srv := m\<rparr>)" "m (stats_lock_key ref_redis 7) = None" by (rule example_present)
  show ?thesis
    by (simp add: stats_get_def stats_fetch_def example_reads stats_example_service_def app_stats_service_def new_stats_service_def m
      acquire_lock_def link_simps Let_def stats_recompute_def stats_compute_def stats_assemble_def ch_counts_def example_likes)
qed

lemma example_owner:
  "\<exists>w. (next_alone ref_redis example_fleet Some token (views_then_likes False 9) ^^ 4) (Reading, stats_world []) = (Gathering True None None, w)"
proof -
  obtain m where m: "video_is_present ref_redis (app_video_service ref_redis ref_video_codec (\<lambda>vs. vs) 0 None) 7 (stats_world []) =
     (Inr True, (stats_world [])\<lparr>srv := m\<rparr>)" "m (stats_lock_key ref_redis 7) = None" by (rule example_present)
  then show ?thesis
    by (simp add: eval_nat_numeral example_fleet_def example_reads stats_example_service_def app_stats_service_def new_stats_service_def
      acquire_lock_def link_simps)
qed

lemmas example_hyps = ref_redis.redis_server_axioms ref_videos.json_codec_axioms
  ref_fleet.payload.json_codec_axioms ref_fleet.service ref_fleet.tokens

theorem stats_lock_has_one_owner_witness:
  "\<exists>S. stats_run ref_redis (\<lambda>m. m) ref_video_codec (\<lambda>_. True) example_fleet (replicas_at (stats_world []))
       (replicate 4 (Turn 0 (views_then_likes False 9))) S
     \<and> {q. owns (rp_phase S q) \<and> q \<notin> rp_lapsed S} = {0}"
proof -
  let ?c = "views_then_likes False 9" and ?S = "replicas_at (stats_world [])"
  have "\<exists>T. stats_run ref_redis (\<lambda>m. m) ref_video_codec (\<lambda>_. True) example_fleet ?S (replicate 4 (Turn 0 ?c)) T
    \<and> (next_alone ref_redis example_fleet Some (fl_token example_fleet 0) ?c ^^ 4) (rp_phase ?S 0, rp_world ?S) = (rp_phase T 0, rp_world T)
    \<and> (\<forall>p. p \<noteq> 0 \<longrightarrow> rp_phase T p = rp_phase ?S p) \<and> (\<forall>p. rp_phase T 0 \<noteq> Joined p) \<and> rp_past T = rp_past ?S \<and> rp_lapsed T = rp_lapsed ?S"
    by (rule lone_turns) (simp_all add: replicas_at_def views_then_likes_def)
  then obtain T where run: "stats_run ref_redis (\<lambda>m. m) ref_video_codec (\<lambda>_. True) example_fleet ?S (replicate 4 (Turn 0 ?c)) T"
    and T: "(next_alone ref_redis example_fleet Some (fl_token example_fleet 0) ?c ^^ 4) (Reading, stats_world []) = (rp_phase T 0, rp_world T)"
      "rp_lapsed T = {}" by (auto simp: replicas_at_def)
  have "owns (rp_phase T 0)" using T(1) example_owner [of "fl_token example_fleet 0"] by auto
  moreover from stats_lock_has_one_owner [OF example_hyps _ example_start run] ref_fleet.token_nonempty
  have "owns (rp_phase T q) \<Longrightarrow> owns (rp_phase T 0) \<Longrightarrow> q = 0" for q using T(2) by auto
  ultimately have "{q. owns (rp_phase T q) \<and> q \<notin> rp_lapsed T} = {0}" using T(2) by auto
  then show ?thesis using run by blast
qed

theorem concurrent_statistics_are_true_witness:
  "\<exists>S st. stats_run ref_redis (\<lambda>m. m) ref_video_codec (\<lambda>_. True) example_fleet (replicas_at (stats_world []))
       (replicate 11 (Turn 0 (views_then_likes False 9))) S
     \<and> rp_phase S 0 = Answered (Inr st) \<and> st_views st = 2 \<and> st_unique_views st = 1 \<and> st_likes st = 1"
proof -
  obtain T where run: "stats_run ref_redis (\<lambda>m. m) ref_video_codec (\<lambda>_. True) example_fleet (replicas_at (stats_world []))
      (replicate 11 (Turn 0 (views_then_likes False 9))) T"
    and T: "rp_phase T 0 = Answered (fst (stats_get ref_redis (fl_codec example_fleet) (fl_service example_fleet) Some False
        (fl_video example_fleet) (fl_token example_fleet 0) 9 (stats_world [])))"
      "rp_past T = {(pg (stats_world []), ch (stats_world []))}" by (rule lone_request)
  obtain st where st: "rp_phase T 0 = Answered (Inr st)"
    using T(1) example_answer [of "fl_token example_fleet 0"] by (auto simp: example_fleet_def)
  from concurrent_statistics_are_true [OF example_hyps _ example_start run] ref_fleet.token_nonempty T(2) st
  have "stats_exact 7 (pg (stats_world [])) (ch (stats_world [])) (st_computed_at st) st"
    by (simp add: example_fleet_def)
  then have "st_views st = 2 \<and> st_unique_views st = 1 \<and> st_likes st = 1" by (simp add: stats_exact_def seen_def)
  then show ?thesis using run st by blast
qed

theorem every_statistics_request_is_answered_witness:
  "\<exists>S T res. stats_run ref_redis (\<lambda>m. m) ref_video_codec (\<lambda>_. True) example_fleet (replicas_at (stats_world [Refused, ReplyLost]))
       (replicate 11 (Turn 0 (views_then_likes False 9))) S
     \<and> stats_run ref_redis (\<lambda>m. m) ref_video_codec (\<lambda>_. True) example_fleet S [Turn 0 (views_then_likes False 9)] T
     \<and> rp_phase T 0 = Answered res"
proof -
  let ?c = "views_then_likes False 9" and ?run = "stats_run ref_redis (\<lambda>m. m) ref_video_codec (\<lambda>_. True) example_fleet"
  obtain S where first: "?run (replicas_at (stats_world [Refused, ReplyLost])) (replicate 11 (Turn 0 ?c)) S"
    and S: "\<exists>res. rp_phase S 0 = Answered res" by (rule lone_request) blast
  then obtain ph w where "fetch_step ref_redis example_fleet (fl_token example_fleet 0) ?c (rp_phase S 0) (rp_world S) = (ph, w)"
    by (metis surj_pair)
  from stats_step.call [OF _ _ this] S obtain T where "stats_step ref_redis (\<lambda>m. m) ref_video_codec (\<lambda>_. True) example_fleet S (Turn 0 ?c) T"
    by force
  from stats_run.go [OF stats_run.stop this] have second: "?run S [Turn 0 ?c] T" by simp
  from every_statistics_request_is_answered [OF first second, of "{0}"] obtain res where "rp_phase T 0 = Answered res"
    by (auto simp: turns_def)
  then show ?thesis using first second by blast
qed

end
