(* ===== verification/Requests.thy ===== *)
theory Requests
  imports App
begin

text \<open>
  The bodies of requests: the structs the handlers bind JSON to, with their \<open>binding\<close> tags. The
  handlers take a body or an error; \<open>bind_json\<close> is \<open>ShouldBindJSON\<close>. The decoder of encoding/json is
  an argument (an error, or the struct, whose strings are valid UTF-8), the validator's \<open>email\<close> and
  \<open>url\<close> and its wording are parameters. Its lengths are in characters, those of the services'
  own validation in bytes; the property says what the two together accept.
\<close>

section \<open>Tags\<close>

record validator =
  vl_email :: "string \<Rightarrow> bool"
  vl_url :: "string \<Rightarrow> bool"
  vl_text :: "(string \<times> string) list \<Rightarrow> string"

text \<open>\<open>utf8.RuneCountInString\<close> of a valid string: its bytes that do not continue a character.\<close>

definition continues :: "char \<Rightarrow> bool" where
  "continues c \<longleftrightarrow> 128 \<le> (of_char c :: nat) \<and> (of_char c :: nat) < 192"

definition rune_count :: "string \<Rightarrow> nat" where
  "rune_count s = length (filter (\<lambda>c. \<not> continues c) s)"

text \<open>For each field its tags in order, and whether they hold; the first that does not is reported.\<close>

type_synonym tagged = "(string \<times> (string \<times> bool) list) list"

fun first_failed :: "(string \<times> bool) list \<Rightarrow> string option" where
  "first_failed [] = None"
| "first_failed ((t, holds) # ts) = (if holds then first_failed ts else Some t)"

definition failed_tags :: "tagged \<Rightarrow> (string \<times> string) list" where
  "failed_tags fs = concat (map (\<lambda>(f, ts). case first_failed ts of None \<Rightarrow> [] | Some t \<Rightarrow> [(f, t)]) fs)"

definition bind_json :: "validator \<Rightarrow> ('b \<Rightarrow> tagged) \<Rightarrow> string + 'b \<Rightarrow> string + 'b" where
  "bind_json V tags dec =
     (case dec of
        Inl msg \<Rightarrow> Inl msg
      | Inr b \<Rightarrow> if failed_tags (tags b) = [] then Inr b else Inl (vl_text V (failed_tags (tags b))))"

section \<open>The bodies\<close>

definition register_tags :: "validator \<Rightarrow> string \<times> string \<Rightarrow> tagged" where
  "register_tags V = (\<lambda>(email, password).
     [(''Email'', [(''required'', email \<noteq> []), (''email'', vl_email V email), (''max'', rune_count email \<le> 254)]),
      (''Password'', [(''required'', password \<noteq> []), (''min'', 8 \<le> rune_count password), (''max'', rune_count password \<le> 72)])])"

definition login_tags :: "validator \<Rightarrow> string \<times> string \<Rightarrow> tagged" where
  "login_tags V = (\<lambda>(email, password).
     [(''Email'', [(''required'', email \<noteq> []), (''email'', vl_email V email), (''max'', rune_count email \<le> 254)]),
      (''Password'', [(''required'', password \<noteq> []), (''min'', 1 \<le> rune_count password), (''max'', rune_count password \<le> 72)])])"

definition refresh_tags :: "string \<Rightarrow> tagged" where
  "refresh_tags token = [(''RefreshToken'', [(''required'', token \<noteq> [])])]"

definition video_tags :: "validator \<Rightarrow> video_input \<Rightarrow> tagged" where
  "video_tags V i =
     [(''Title'', [(''required'', vc_title i \<noteq> []), (''min'', 1 \<le> rune_count (vc_title i)), (''max'', rune_count (vc_title i) \<le> 200)]),
      (''Description'', [(''max'', rune_count (vc_description i) \<le> 5000)]),
      (''VideoURL'', [(''required'', vc_video_url i \<noteq> []), (''url'', vl_url V (vc_video_url i)),
         (''max'', rune_count (vc_video_url i) \<le> 2048)]),
      (''DurationSec'', [(''required'', vc_duration_sec i \<noteq> 0), (''min'', 1 \<le> vc_duration_sec i), (''max'', vc_duration_sec i \<le> 3600)])]"

definition product_tags :: "validator \<Rightarrow> product_input \<Rightarrow> tagged" where
  "product_tags V i =
     [(''VideoID'', [(''required'', pc_video_id i \<noteq> uuid_nil)]),
      (''Name'', [(''required'', pc_name i \<noteq> []), (''min'', 1 \<le> rune_count (pc_name i)), (''max'', rune_count (pc_name i) \<le> 200)]),
      (''PriceCents'', [(''gte'', 0 \<le> pc_price_cents i)]),
      (''Currency'', [(''required'', pc_currency i \<noteq> []), (''len'', rune_count (pc_currency i) = 3)]),
      (''ImageURL'', [(''required'', pc_image_url i \<noteq> []), (''url'', vl_url V (pc_image_url i)),
         (''max'', rune_count (pc_image_url i) \<le> 2048)])]"

section \<open>What a body must be\<close>

lemma rune_count_le: "rune_count s \<le> length s"
  by (simp add: rune_count_def)

lemma first_failed_none [simp]: "first_failed ts = None \<longleftrightarrow> (\<forall>x \<in> set ts. snd x)"
  by (induction ts rule: first_failed.induct) auto

lemma failed_tags_none: "failed_tags fs = [] \<longleftrightarrow> (\<forall>x \<in> set fs. \<forall>y \<in> set (snd x). snd y)"
proof (induction fs)
  case (Cons x fs)
  have "failed_tags (x # fs) = (case first_failed (snd x) of None \<Rightarrow> [] | Some t \<Rightarrow> [(fst x, t)]) @ failed_tags fs"
    by (simp add: failed_tags_def split_beta)
  then show ?case using Cons first_failed_none [of "snd x"] by (cases "first_failed (snd x)") simp_all
qed (simp add: failed_tags_def)

lemma bind_json_Inr: "bind_json V tags dec = Inr b \<longleftrightarrow> dec = Inr b \<and> (\<forall>x \<in> set (tags b). \<forall>y \<in> set (snd x). snd y)"
  by (auto simp: bind_json_def failed_tags_none split: sum.splits if_splits)

lemma bind_json_Inl: "bind_json V tags dec \<noteq> Inr b \<Longrightarrow> dec = Inr b \<Longrightarrow> \<exists>msg. bind_json V tags dec = Inl msg"
  by (auto simp: bind_json_def split: if_splits)

definition video_body_ok :: "validator \<Rightarrow> url_lib \<Rightarrow> video_input \<Rightarrow> bool" where
  "video_body_ok V url i \<longleftrightarrow> trim_space (vc_title i) \<noteq> [] \<and> 1 \<le> rune_count (vc_title i) \<and> rune_count (vc_title i) \<le> 200
     \<and> length (trim_space (vc_title i)) \<le> 200 \<and> length (vc_description i) \<le> 5000
     \<and> trim_space (vc_video_url i) \<noteq> [] \<and> length (vc_video_url i) \<le> 2048 \<and> vl_url V (vc_video_url i) \<and> http_url url (vc_video_url i)
     \<and> 1 \<le> vc_duration_sec i \<and> vc_duration_sec i \<le> 3600"

definition product_body_ok :: "validator \<Rightarrow> url_lib \<Rightarrow> product_input \<Rightarrow> bool" where
  "product_body_ok V url i \<longleftrightarrow> pc_video_id i \<noteq> uuid_nil
     \<and> trim_space (pc_name i) \<noteq> [] \<and> 1 \<le> rune_count (pc_name i) \<and> rune_count (pc_name i) \<le> 200 \<and> length (trim_space (pc_name i)) \<le> 200
     \<and> 0 \<le> pc_price_cents i \<and> pc_price_cents i \<le> 1000000000
     \<and> rune_count (pc_currency i) = 3 \<and> length (to_upper (trim_space (pc_currency i))) = 3
     \<and> trim_space (pc_image_url i) \<noteq> [] \<and> length (pc_image_url i) \<le> 2048 \<and> vl_url V (pc_image_url i) \<and> http_url url (pc_image_url i)"

definition register_body_ok :: "validator \<Rightarrow> string \<times> string \<Rightarrow> bool" where
  "register_body_ok V = (\<lambda>(email, password). vl_email V email \<and> rune_count email \<le> 254
     \<and> CHR ''@'' \<in> set (trim_space email) \<and> CHR '' '' \<notin> set (trim_space email) \<and> length (trim_space email) \<le> 254
     \<and> 8 \<le> rune_count password \<and> length password \<le> 72)"

definition login_body_ok :: "validator \<Rightarrow> string \<times> string \<Rightarrow> bool" where
  "login_body_ok V = (\<lambda>(email, password). email \<noteq> [] \<and> vl_email V email \<and> rune_count email \<le> 254
     \<and> 1 \<le> rune_count password \<and> rune_count password \<le> 72)"

lemma trim_nil [simp]: "trim_space [] = []"
  by (simp add: trim_space_def)

lemma trim_needs [simp]: "trim_space s \<noteq> [] \<Longrightarrow> s \<noteq> []"
  by auto

lemma screened_video:
  "bind_json V (video_tags V) (Inr i) = Inr i \<and> validate_video url i = None \<longleftrightarrow> video_body_ok V url i"
proof -
  have "length (vc_description i) \<le> 5000 \<Longrightarrow> rune_count (vc_description i) \<le> 5000"
    "length (vc_video_url i) \<le> 2048 \<Longrightarrow> rune_count (vc_video_url i) \<le> 2048"
    using rune_count_le le_trans by blast+
  then show ?thesis
    by (cases "trim_space (vc_title i) = [] \<or> trim_space (vc_video_url i) = []")
      (auto simp: bind_json_Inr video_tags_def validate_video_def video_body_ok_def Let_def)
qed

lemma screened_product:
  "bind_json V (product_tags V) (Inr i) = Inr i \<and> validate_product url i = None \<longleftrightarrow> product_body_ok V url i"
proof -
  have "length (pc_image_url i) \<le> 2048 \<Longrightarrow> rune_count (pc_image_url i) \<le> 2048"
    using rune_count_le le_trans by blast
  moreover have "rune_count (pc_currency i) = 3 \<Longrightarrow> pc_currency i \<noteq> []" by (auto simp: rune_count_def)
  ultimately show ?thesis
    by (cases "trim_space (pc_name i) = [] \<or> trim_space (pc_image_url i) = []")
      (auto simp: bind_json_Inr product_tags_def validate_product_def product_body_ok_def)
qed

lemma screened_register:
  "bind_json V (register_tags V) (Inr b) = Inr b \<and> validate_email (fst b) = None \<and> validate_password (snd b) = None
     \<longleftrightarrow> register_body_ok V b"
proof -
  obtain email pw where b: "b = (email, pw)" by (cases b)
  have "rune_count pw \<le> length pw" by (rule rune_count_le)
  moreover have "rune_count pw = 0" if "pw = []" using that by (simp add: rune_count_def)
  ultimately show ?thesis
    by (cases "trim_space email = []")
      (auto simp: b bind_json_Inr register_tags_def validate_email_def validate_password_def register_body_ok_def Let_def)
qed

section \<open>Who answers 400\<close>

definition good :: "('b \<Rightarrow> bool) \<Rightarrow> string + 'b \<Rightarrow> bool" where
  "good ok dec \<longleftrightarrow> (case dec of Inl msg \<Rightarrow> False | Inr b \<Rightarrow> ok b)"

text \<open>A handler refuses a bad body with 400 before it does anything, and answers nothing else with 400.\<close>

definition screens :: "bool \<Rightarrow> 'w \<Rightarrow> 'a response \<times> 'w \<Rightarrow> bool" where
  "screens fine w res \<longleftrightarrow> (status (fst res) = 400 \<longleftrightarrow> \<not> fine) \<and> (\<not> fine \<longrightarrow> snd res = w)"

lemma bound_cases:
  obtains (bad) msg where "bind_json V tags dec = Inl msg"
    | (bound) b where "dec = Inr b" and "bind_json V tags dec = Inr b" and "bind_json V tags (Inr b) = Inr b"
  by (cases "bind_json V tags dec") (auto simp: bind_json_Inr)

lemma bound_good:
  assumes "\<And>b. ok b \<longleftrightarrow> bind_json V tags (Inr b) = Inr b \<and> P b"
  shows "bind_json V tags dec = Inl msg \<Longrightarrow> \<not> good ok dec"
    and "bind_json V tags dec = Inr b \<Longrightarrow> good ok dec \<longleftrightarrow> P b"
proof -
  show "bind_json V tags dec = Inl msg \<Longrightarrow> \<not> good ok dec"
    using assms by (auto simp: good_def split: sum.splits)
  assume bound: "bind_json V tags dec = Inr b"
  then have "dec = Inr b" by (simp add: bind_json_Inr)
  then show "good ok dec \<longleftrightarrow> P b" using assms bound by (simp add: good_def)
qed

lemma video_screened:
  "screens (good (video_body_ok V url) dec) w
     (handle_create_video url R (app_video_service R C arrange ttl hook) uid (bind_json V (video_tags V) dec) fresh now w)"
proof (cases rule: bound_cases [of V "video_tags V" dec])
  case (bad msg)
  then show ?thesis using bound_good(1) [OF screened_video [of V _ url, symmetric] bad]
    by (simp add: screens_def handle_create_video_def httpx_error_detail_def)
next
  case (bound i)
  have fine: "good (video_body_ok V url) dec \<longleftrightarrow> validate_video url i = None"
    using bound_good(2) [OF screened_video [of V _ url, symmetric] bound(2)] .
  have "as_video_validation e = None" if "pg_create_video uid i fresh now w = (Inl e, w1)" for e w1
    using pg_create_video_cases(4) [OF that refl] .
  then show ?thesis
    unfolding screens_def fine bound(2)
    by (auto simp: handle_create_video_def video_create_def app_video_service_def pg_video_repo_def Let_def
        httpx_error_def httpx_created_def validate_video_def split: prod.splits sum.splits option.splits if_splits)
qed

lemma register_screened:
  fixes w :: "'s world"
  shows "screens (good (register_body_ok V) dec) w
     (handle_register B (app_auth_service R jwt cost ttl bloom) (bind_json V (register_tags V) dec) salt fresh now w)"
proof (cases rule: bound_cases [of V "register_tags V" dec])
  case (bad msg)
  then show ?thesis using bound_good(1) [OF screened_register [symmetric] bad]
    by (simp add: screens_def handle_register_def httpx_error_detail_def)
next
  case (bound b)
  have fine: "good (register_body_ok V) dec \<longleftrightarrow> validate_email (fst b) = None \<and> validate_password (snd b) = None"
    using bound_good(2) [OF screened_register [symmetric] bound(2)] .
  obtain email pw where b: "b = (email, pw)" by (cases b)
  let ?svc = "app_auth_service R jwt cost ttl bloom"
  obtain r w' where run: "auth_register B ?svc email pw salt fresh now w = (r, w')" by (metis surj_pair)
  have answer: "handle_register B ?svc (Inr b) salt fresh now w = (case r of Inr u \<Rightarrow> httpx_created u | Inl e \<Rightarrow>
      if errors_is e ErrEmailTaken then httpx_error 409 ''conflict'' ''email already registered''
      else case as_auth_validation e of Some msg \<Rightarrow> httpx_error 400 ''validation_failed'' msg
        | None \<Rightarrow> httpx_error 500 ''internal_error'' ''registration failed'', w')"
    by (cases r) (simp_all add: handle_register_def b run)
  have quiet: "as_auth_validation e = None" if "pg_create_user x h fresh now w1 = (Inl e, w2)" for e x h and w1 w2 :: "'s world"
    using pg_create_user_cases(3) [OF that refl] by simp
  show ?thesis
  proof (cases "validate_email email = None \<and> validate_password pw = None")
    case True
    then have "as_auth_validation e = None" if "r = Inl e" for e
      using run that
      by (auto simp: auth_register_def app_auth_service_def new_auth_service_def pg_user_repo_def Let_def
          split: prod.splits sum.splits option.splits if_splits dest: quiet)
    then show ?thesis using True unfolding screens_def fine bound(2) answer
      by (cases r) (auto simp: b httpx_error_def httpx_created_def)
  next
    case False
    then have "w' = w \<and> (\<exists>msg. r = Inl (AuthValidationError msg))"
      using run by (auto simp: auth_register_def validate_email_def validate_password_def Let_def split: if_splits)
    then show ?thesis using False unfolding screens_def fine bound(2) answer by (auto simp: b httpx_error_def)
  qed
qed

lemma assert_owner_errors:
  fixes w :: "'s world"
  assumes "assert_owner R (app_video_service R C arrange ttl hook) i uid w = (Inl e, w')"
  shows "as_product_validation e = None"
proof (cases "e = ErrForbidden")
  case False
  then have "video_get R (app_video_service R C arrange ttl hook) i w = (Inl e, w')"
    using assms by (auto simp: assert_owner_def split: prod.splits sum.splits if_splits)
  from read_through_errors [OF this [unfolded video_get_def]]
  obtain u1 u2 :: "'s world" where "pg_find_video i u1 = (Inl e, u2)" by (auto simp: app_video_service_def pg_video_repo_def)
  from pg_find_video_errors [OF this] show ?thesis by auto
qed simp

lemma product_screened:
  "screens (good (product_body_ok V url) dec) w
     (handle_create_product url R (app_product_service R PC (app_video_service R C arrange ttl hook) bloom) uid
        (bind_json V (product_tags V) dec) fresh now w)"
proof (cases rule: bound_cases [of V "product_tags V" dec])
  case (bad msg)
  then show ?thesis using bound_good(1) [OF screened_product [of V _ url, symmetric] bad]
    by (simp add: screens_def handle_create_product_def httpx_error_detail_def)
next
  case (bound i)
  have fine: "good (product_body_ok V url) dec \<longleftrightarrow> validate_product url i = None"
    using bound_good(2) [OF screened_product [of V _ url, symmetric] bound(2)] .
  have "as_product_validation e = None" if "pg_create_product i fresh now w1 = (Inl e, w2)" for e w1 w2
    using pg_create_product_cases(4) [OF that refl] by auto
  note quiet = this assert_owner_errors
  show ?thesis
  proof (cases "validate_product url i")
    case None
    let ?svc = "app_product_service R PC (app_video_service R C arrange ttl hook) bloom"
    obtain r w' where run: "product_create url R ?svc uid i fresh now w = (r, w')" by (metis surj_pair)
    have "as_product_validation e = None" if "r = Inl e" for e
      using run that None
      by (auto simp: product_create_def app_product_service_def pg_product_repo_def Let_def
          split: prod.splits sum.splits if_splits dest: quiet)
    then show ?thesis using None run unfolding screens_def fine bound(2)
      by (cases r) (auto simp: handle_create_product_def httpx_error_def httpx_created_def)
  next
    case (Some e)
    then show ?thesis unfolding screens_def fine bound(2)
      by (auto simp: handle_create_product_def product_create_def validate_product_def httpx_error_def split: if_splits)
  qed
qed

text \<open>The other three bodies are only bound.\<close>

lemma login_screened:
  "screens (good (login_body_ok V) dec) w (handle_login J B svc (bind_json V (login_tags V) dec) dr w)"
proof -
  have "bind_json V (login_tags V) (Inr b) = Inr b \<longleftrightarrow> login_body_ok V b" for b
    by (cases b) (auto simp: bind_json_Inr login_tags_def login_body_ok_def rune_count_def)
  note ok = this [symmetric]
  show ?thesis
  proof (cases rule: bound_cases [of V "login_tags V" dec])
    case (bad msg)
    then show ?thesis using bound_good(1) [of "login_body_ok V" V "login_tags V" "\<lambda>_. True", OF _ bad] ok
      by (simp add: screens_def handle_login_def httpx_error_detail_def)
  next
    case (bound b)
    then have "good (login_body_ok V) dec" by (simp add: good_def ok)
    then show ?thesis unfolding bound(2)
      by (cases b) (auto simp: screens_def handle_login_def httpx_error_def httpx_ok_def split: prod.split sum.split)
  qed
qed

lemma refresh_screened:
  "screens (good (\<lambda>t. t \<noteq> []) dec) w (handle_refresh J svc (bind_json V refresh_tags dec) dr w)"
  "screens (good (\<lambda>t. t \<noteq> []) dec) w (handle_logout svc (bind_json V refresh_tags dec) w)"
proof -
  have ok: "bind_json V refresh_tags dec = Inr t \<longleftrightarrow> dec = Inr t \<and> good (\<lambda>t. t \<noteq> []) dec" for t
    by (auto simp: bind_json_Inr refresh_tags_def good_def)
  have "screens (good (\<lambda>t. t \<noteq> []) dec) w (handle_refresh J svc (bind_json V refresh_tags dec) dr w)
    \<and> screens (good (\<lambda>t. t \<noteq> []) dec) w (handle_logout svc (bind_json V refresh_tags dec) w)"
  proof (cases "bind_json V refresh_tags dec")
    case (Inl msg)
    then have "\<not> good (\<lambda>t. t \<noteq> []) dec" using ok by (cases dec) (auto simp: good_def)
    then show ?thesis using Inl by (simp add: screens_def handle_refresh_def handle_logout_def httpx_error_detail_def)
  next
    case (Inr t)
    then have "good (\<lambda>t. t \<noteq> []) dec" using ok by blast
    then show ?thesis unfolding Inr
      by (auto simp: screens_def handle_refresh_def handle_logout_def httpx_error_def httpx_ok_def split: prod.split sum.split)
  qed
  then show "screens (good (\<lambda>t. t \<noteq> []) dec) w (handle_refresh J svc (bind_json V refresh_tags dec) dr w)"
    "screens (good (\<lambda>t. t \<noteq> []) dec) w (handle_logout svc (bind_json V refresh_tags dec) w)" by blast+
qed

text \<open>A title of 101 characters of two bytes each: its tags hold, and it is refused as too long.\<close>

definition accented :: "nat \<Rightarrow> string" where
  "accented n = concat (replicate n [CHR 0xC3, CHR 0xA9])"

lemma accented_length: "rune_count (accented n) = n" "length (accented n) = 2 * n"
  by (induction n) (simp_all add: accented_def rune_count_def continues_def)

lemma trim_space_id: "s \<noteq> [] \<Longrightarrow> \<not> is_space (hd s) \<Longrightarrow> \<not> is_space (last s) \<Longrightarrow> trim_space s = s"
proof -
  assume "s \<noteq> []" "\<not> is_space (hd s)" "\<not> is_space (last s)"
  then have "dropWhile is_space s = s" "dropWhile is_space (rev s) = rev s"
    by (simp_all add: dropWhile_eq_self_iff hd_rev)
  then show "trim_space s = s" by (simp add: trim_space_def)
qed

lemma accented_ends: "hd (accented (Suc n)) = CHR 0xC3" "last (accented (Suc n)) = CHR 0xA9"
  by (simp add: accented_def) (induction n; simp add: accented_def)

lemma bytes_are_not_characters:
  assumes "vc_title i = accented 101" and "vc_description i = []" and "vl_url V (vc_video_url i)" and "vc_video_url i \<noteq> []"
    and "rune_count (vc_video_url i) \<le> 2048" and "1 \<le> vc_duration_sec i" and "vc_duration_sec i \<le> 3600"
  shows "bind_json V (video_tags V) (Inr i) = Inr i"
    and "handle_create_video url R svc uid (bind_json V (video_tags V) (Inr i)) fresh now w
      = (httpx_error 400 ''validation_failed'' ''title must be at most 200 characters'', w)"
proof -
  have nonempty: "accented 101 \<noteq> []" using accented_length(2) [of 101] by auto
  have nil: "rune_count [] = 0" by (simp add: rune_count_def)
  show bound: "bind_json V (video_tags V) (Inr i) = Inr i"
    unfolding bind_json_Inr using assms(2-7) nonempty nil by (simp add: video_tags_def assms(1) accented_length)
  have "\<not> is_space (hd (accented 101))" "\<not> is_space (last (accented 101))"
    using accented_ends [of 100] by (simp_all add: is_space_def)
  then have "trim_space (accented 101) = accented 101" by (intro trim_space_id nonempty)
  then show "handle_create_video url R svc uid (bind_json V (video_tags V) (Inr i)) fresh now w
      = (httpx_error 400 ''validation_failed'' ''title must be at most 200 characters'', w)"
    unfolding bound using nonempty
    by (simp add: assms(1) accented_length handle_create_video_def video_create_def validate_video_def Let_def)
qed

section \<open>Property\<close>


end
