(* ===== verification/Lifecycle.thy ===== *)
theory Lifecycle
  imports WorkerMain
begin

text \<open>
  The life of the two processes: \<open>cmd/api\<close> with \<open>New\<close>, \<open>Run\<close> and \<open>Close\<close> of \<open>internal/platform/app\<close>,
  and \<open>run\<close> of \<open>cmd/worker\<close> with its deferred calls. Every connection that is opened and closed is
  logged, so that what a failed start-up leaves open can be stated. Signals, listeners and the
  grace periods appear as the way the process ends.
\<close>

section \<open>Connections\<close>

datatype store = PostgresS | RedisS | ClickHouseS

datatype conn_event = Opened store | Closed store

fun store_of :: "conn_event \<Rightarrow> store" where
  "store_of (Opened s) = s"
| "store_of (Closed s) = s"

text \<open>What the three clients open and, when their ping fails, close again.\<close>

definition opened :: "store \<Rightarrow> 'a result \<Rightarrow> conn_event list" where
  "opened s res = Opened s # (case res of Inl e \<Rightarrow> [Closed s] | Inr x \<Rightarrow> [])"

definition pool_events :: "drivers \<Rightarrow> postgres_config \<Rightarrow> unit result \<Rightarrow> conn_event list" where
  "pool_events D cfg res =
     (if dv_parse_dsn D (pc_dsn cfg) \<noteq> None \<or> dv_open_pool D (pool_options cfg) \<noteq> None then [] else opened PostgresS res)"

definition redis_events :: "unit result \<Rightarrow> conn_event list" where
  "redis_events res = opened RedisS res"

definition clickhouse_events :: "drivers \<Rightarrow> clickhouse_config \<Rightarrow> unit result \<Rightarrow> conn_event list" where
  "clickhouse_events D cfg res = (if dv_open_clickhouse D cfg \<noteq> None then [] else opened ClickHouseS res)"

section \<open>The API process\<close>

text \<open>\<open>Close\<close>: \<open>held\<close> are the fields that are not nil.\<close>

definition app_close :: "store set \<Rightarrow> conn_event list" where
  "app_close held = map Closed (filter (\<lambda>s. s \<in> held) [PostgresS, RedisS, ClickHouseS])"

definition app_new_traced ::
  "('s, 'z) redis_scheme \<Rightarrow> externals \<Rightarrow> config \<Rightarrow> 's world \<Rightarrow> 's application result \<times> 's world \<times> conn_event list"
where
  "app_new_traced R X cfg w =
     (let (a, w) = new_pool (x_drivers X) (cf_postgres cfg) w;
          tr = pool_events (x_drivers X) (cf_postgres cfg) a
      in case a of
           Inl e \<Rightarrow> (Inl (Wrapped ''postgres'' e), w, tr)
         | Inr _ \<Rightarrow>
             (let (b, w) = new_redis_client (cf_redis cfg) w; tr = tr @ redis_events b
              in case b of
                   Inl e \<Rightarrow> (Inl (Wrapped ''redis'' e), w, tr @ app_close {PostgresS})
                 | Inr _ \<Rightarrow>
                     (let (c, w) = new_clickhouse_conn (x_drivers X) (cf_clickhouse cfg) w;
                          tr = tr @ clickhouse_events (x_drivers X) (cf_clickhouse cfg) c
                      in case c of
                           Inl e \<Rightarrow> (Inl (Wrapped ''clickhouse'' e), w, tr @ app_close {PostgresS, RedisS})
                         | Inr _ \<Rightarrow>
                             (case warm_blooms R cfg w of
                                (Inl e, w) \<Rightarrow> (Inl e, w, tr @ app_close UNIV)
                              | (Inr _, w) \<Rightarrow>
                                  (case warm_feed R X cfg w of
                                     (Inl e, w) \<Rightarrow> (Inl e, w, tr @ app_close UNIV)
                                   | (Inr _, w) \<Rightarrow> (Inr (app_wire R X cfg), w, tr))))))"

text \<open>How serving ends: the listener fails, or a signal or a cancelled context asks for it and
  the server is shut down, which can fail too.\<close>

datatype serve_end = ListenFailed goerr | ListenClosed | Signalled | ContextDone

definition app_run :: "serve_end \<Rightarrow> goerr option \<Rightarrow> unit result" where
  "app_run en shutdown =
     (case en of
        ListenFailed e \<Rightarrow> Inl (Wrapped ''http server'' e)
      | _ \<Rightarrow> (case shutdown of Some e \<Rightarrow> Inl (Wrapped ''graceful shutdown'' e) | None \<Rightarrow> Inr ()))"

text \<open>The requests served in between, in the order their handlers finish.\<close>

fun serve_all ::
  "('s, 'z) redis_scheme \<Rightarrow> externals \<Rightarrow> 's application \<Rightarrow> (request \<times> 's chance) list \<Rightarrow> 's world \<Rightarrow> 's world"
where
  "serve_all R X a [] w = w"
| "serve_all R X a ((rq, cn) # rs) w = serve_all R X a rs (snd (serve R X a rq cn w))"

definition api_run ::
  "('s, 'z) redis_scheme \<Rightarrow> externals \<Rightarrow> env_lib \<Rightarrow> (request \<times> 's chance) list \<Rightarrow> serve_end \<Rightarrow> goerr option \<Rightarrow> 's world
     \<Rightarrow> unit result \<times> 's world \<times> conn_event list"
where
  "api_run R X V rs en shutdown w =
     (case config_load V ''.env'' of
        Inl e \<Rightarrow> (Inl (Wrapped ''load config'' e), w, [])
      | Inr cfg \<Rightarrow>
          (case app_new_traced R X cfg w of
             (Inl e, w, tr) \<Rightarrow> (Inl (Wrapped ''build app'' e), w, tr)
           | (Inr a, w, tr) \<Rightarrow> (app_run en shutdown, serve_all R X a rs w, tr @ app_close UNIV)))"

definition exit_code :: "unit result \<Rightarrow> nat" where
  "exit_code r = (case r of Inl e \<Rightarrow> 1 | Inr _ \<Rightarrow> 0)"

section \<open>The worker process\<close>

text \<open>The deferred calls run in reverse order. Whether the goroutines finish within the grace period
  makes no difference to the result.\<close>

definition worker_main ::
  "('s, 'z) redis_scheme \<Rightarrow> externals \<Rightarrow> env_lib \<Rightarrow> worker_turn list \<Rightarrow> 's world
     \<Rightarrow> unit result \<times> 's world \<times> conn_event list"
where
  "worker_main R X V ts w =
     (case config_load V ''.env'' of
        Inl e \<Rightarrow> (Inl (Wrapped ''load config'' e), w, [])
      | Inr cfg \<Rightarrow>
          (let (a, w) = new_pool (x_drivers X) (cf_postgres cfg) w;
               tr = pool_events (x_drivers X) (cf_postgres cfg) a
           in case a of
                Inl e \<Rightarrow> (Inl (Wrapped ''postgres'' e), w, tr)
              | Inr _ \<Rightarrow>
                  (let (b, w) = new_redis_client (cf_redis cfg) w; tr = tr @ redis_events b
                   in case b of
                        Inl e \<Rightarrow> (Inl (Wrapped ''redis'' e), w, tr @ [Closed PostgresS])
                      | Inr _ \<Rightarrow>
                          (let (c, w) = new_clickhouse_conn (x_drivers X) (cf_clickhouse cfg) w;
                               tr = tr @ clickhouse_events (x_drivers X) (cf_clickhouse cfg) c
                           in case c of
                                Inl e \<Rightarrow> (Inl (Wrapped ''clickhouse'' e), w, tr @ [Closed RedisS, Closed PostgresS])
                              | Inr _ \<Rightarrow>
                                  (Inr (), wp_world (worker_stop R cfg (worker_steps R cfg ts (worker_begin w))),
                                   tr @ [Closed ClickHouseS, Closed RedisS, Closed PostgresS])))))"

text \<open>The logging changes nothing.\<close>

lemma app_new_traced_same:
  "app_new_traced R X cfg w = (a, w', tr) \<Longrightarrow> app_new R X cfg w = (a, w')"
  by (auto simp: app_new_traced_def app_new_def open_stores_def Let_def split: prod.splits sum.splits)

lemma worker_main_same:
  "config_load V ''.env'' = Inr cfg \<Longrightarrow> worker_main R X V ts w = (a, w', tr) \<Longrightarrow> worker_run R X cfg ts w = (a, w')"
  by (auto simp: worker_main_def worker_run_def open_stores_def Let_def split: prod.splits sum.splits)

section \<open>Property\<close>

text \<open>A store is never opened, or opened once and then closed once.\<close>

definition closed_once :: "conn_event list \<Rightarrow> bool" where
  "closed_once tr \<longleftrightarrow> (\<forall>s. filter (\<lambda>e. store_of e = s) tr \<in> {[], [Opened s, Closed s]})"

lemma all_stores: "(\<forall>s. P s) \<longleftrightarrow> P PostgresS \<and> P RedisS \<and> P ClickHouseS"
  by (metis store.exhaust)

lemmas closed_once_simps = app_close_def closed_once_def all_stores

text \<open>A client that is returned was opened; one that is not was not opened or is closed again.\<close>

lemma client_traces:
  "new_pool D c w = (Inr u, w') \<Longrightarrow> pool_events D c (Inr u) = [Opened PostgresS]"
  "pool_events D c (Inl e) = [] \<or> pool_events D c (Inl e) = [Opened PostgresS, Closed PostgresS]"
  "redis_events (Inr u) = [Opened RedisS]" "redis_events (Inl e) = [Opened RedisS, Closed RedisS]"
  "new_clickhouse_conn D c' w = (Inr u, w') \<Longrightarrow> clickhouse_events D c' (Inr u) = [Opened ClickHouseS]"
  "clickhouse_events D c' (Inl e) = [] \<or> clickhouse_events D c' (Inl e) = [Opened ClickHouseS, Closed ClickHouseS]"
  by (auto simp: new_pool_def new_clickhouse_conn_def pool_events_def redis_events_def clickhouse_events_def opened_def
      split: option.splits)

text \<open>The three clients one after the other, in the order both processes open them.\<close>

lemma three_clients:
  obtains (pool) e w1 where "new_pool (x_drivers X) (cf_postgres cfg) w = (Inl e, w1)"
    | (cache) w1 e w2 where "new_pool (x_drivers X) (cf_postgres cfg) w = (Inr (), w1)"
        and "new_redis_client (cf_redis cfg) w1 = (Inl e, w2)"
    | (clicks) w1 w2 e w3 where "new_pool (x_drivers X) (cf_postgres cfg) w = (Inr (), w1)"
        and "new_redis_client (cf_redis cfg) w1 = (Inr (), w2)"
        and "new_clickhouse_conn (x_drivers X) (cf_clickhouse cfg) w2 = (Inl e, w3)"
    | (all) w1 w2 w3 where "new_pool (x_drivers X) (cf_postgres cfg) w = (Inr (), w1)"
        and "new_redis_client (cf_redis cfg) w1 = (Inr (), w2)"
        and "new_clickhouse_conn (x_drivers X) (cf_clickhouse cfg) w2 = (Inr (), w3)"
proof -
  obtain a w1 where a: "new_pool (x_drivers X) (cf_postgres cfg) w = (a, w1)" by (metis surj_pair)
  obtain b w2 where b: "new_redis_client (cf_redis cfg) w1 = (b, w2)" by (metis surj_pair)
  obtain c w3 where c: "new_clickhouse_conn (x_drivers X) (cf_clickhouse cfg) w2 = (c, w3)" by (metis surj_pair)
  show thesis using a b c that by (cases a; cases b; cases c) auto
qed

text \<open>After a start-up the application holds all three stores, and nothing after a failed one.\<close>

lemma app_new_trace:
  assumes "app_new_traced R X cfg w = (a, w', tr)"
  shows "case a of Inl e \<Rightarrow> closed_once tr | Inr x \<Rightarrow> tr = [Opened PostgresS, Opened RedisS, Opened ClickHouseS]"
proof (cases rule: three_clients [of X cfg w])
  case (pool e w1)
  then show ?thesis using assms client_traces(2) [of "x_drivers X" "cf_postgres cfg" e]
    by (auto simp: app_new_traced_def closed_once_simps)
next
  case (cache w1 e w2)
  then show ?thesis using assms by (auto simp: app_new_traced_def closed_once_simps client_traces(1,3-5))
next
  case (clicks w1 w2 e w3)
  then show ?thesis using assms client_traces(6) [of "x_drivers X" "cf_clickhouse cfg" e]
    by (auto simp: app_new_traced_def closed_once_simps client_traces(1,3-5))
next
  case (all w1 w2 w3)
  then show ?thesis using assms
    by (auto simp: app_new_traced_def closed_once_simps client_traces(1,3-5) Let_def split: prod.splits sum.splits)
qed

lemma worker_trace:
  assumes "config_load V ''.env'' = Inr cfg" and "worker_main R X V ts w = (r, w', tr)"
  shows "closed_once tr \<and> (exit_code r = 0 \<longleftrightarrow> fst (open_stores X cfg w) = Inr ())"
proof (cases rule: three_clients [of X cfg w])
  case (pool e w1)
  then show ?thesis using assms client_traces(2) [of "x_drivers X" "cf_postgres cfg" e]
    by (auto simp: worker_main_def open_stores_def exit_code_def closed_once_simps)
next
  case (cache w1 e w2)
  then show ?thesis using assms by (auto simp: worker_main_def open_stores_def exit_code_def closed_once_simps client_traces(1,3-5))
next
  case (clicks w1 w2 e w3)
  then show ?thesis using assms client_traces(6) [of "x_drivers X" "cf_clickhouse cfg" e]
    by (auto simp: worker_main_def open_stores_def exit_code_def closed_once_simps client_traces(1,3-5))
next
  case (all w1 w2 w3)
  then show ?thesis using assms by (auto simp: worker_main_def open_stores_def exit_code_def closed_once_simps client_traces(1,3-5))
qed

text \<open>
  C37. No connection outlives its process: whatever fails - the configuration, opening or reaching a
  store, warming a filter or the feed, the listener, the shutdown - each store is opened at most
  once, and every store that was opened is closed exactly once, after it was opened. The API process
  exits with 0 just when it started, its listener did not fail and its shutdown went well; the
  worker just when it could open its stores.
\<close>

theorem processes_close_what_they_open:
  "(\<forall>rs en sh. case api_run R X V rs en sh w of (r, w', tr) \<Rightarrow> closed_once tr \<and>
      (exit_code r = 0 \<longleftrightarrow> (\<exists>cfg a. config_load V ''.env'' = Inr cfg \<and> fst (app_new R X cfg w) = Inr a)
         \<and> sh = None \<and> (\<forall>e. en \<noteq> ListenFailed e)))
   \<and> (\<forall>ts. case worker_main R X V ts w of (r, w', tr) \<Rightarrow> closed_once tr \<and>
      (exit_code r = 0 \<longleftrightarrow> (\<exists>cfg. config_load V ''.env'' = Inr cfg \<and> fst (open_stores X cfg w) = Inr ())))"
proof (intro conjI allI)
  fix rs en sh
  show "case api_run R X V rs en sh w of (r, w', tr) \<Rightarrow> closed_once tr \<and>
      (exit_code r = 0 \<longleftrightarrow> (\<exists>cfg a. config_load V ''.env'' = Inr cfg \<and> fst (app_new R X cfg w) = Inr a)
         \<and> sh = None \<and> (\<forall>e. en \<noteq> ListenFailed e))"
  proof (cases "config_load V ''.env''")
    case (Inl e)
    then show ?thesis by (simp add: api_run_def closed_once_simps exit_code_def)
  next
    case (Inr cfg)
    obtain a w1 tr where new: "app_new_traced R X cfg w = (a, w1, tr)" by (metis surj_pair)
    note same = app_new_traced_same [OF new] and tr = app_new_trace [OF new]
    show ?thesis
      using tr Inr new same
      by (cases a; cases en; cases sh) (simp_all add: api_run_def exit_code_def app_run_def closed_once_simps)
  qed
next
  fix ts
  show "case worker_main R X V ts w of (r, w', tr) \<Rightarrow> closed_once tr \<and>
      (exit_code r = 0 \<longleftrightarrow> (\<exists>cfg. config_load V ''.env'' = Inr cfg \<and> fst (open_stores X cfg w) = Inr ()))"
  proof (cases "config_load V ''.env''")
    case (Inl e)
    then show ?thesis by (simp add: worker_main_def closed_once_simps exit_code_def)
  next
    case (Inr cfg)
    obtain r w' tr where run: "worker_main R X V ts w = (r, w', tr)" by (metis surj_pair)
    from worker_trace [OF Inr run] show ?thesis by (simp add: run Inr)
  qed
qed

end
