(* ===== verification/Demo.thy ===== *)
theory Demo
  imports Requests Lifecycle
begin

text \<open>
  \<open>cmd/demo\<close>: the client that fills a running installation with accounts, videos, products and
  traffic through the API and writes a report. What it reaches - the HTTP client, the JSON
  decoders, \<open>docker exec\<close>, the clock, the report file - is a parameter; an HTTP reply or an error may
  be anything. Its printed output and the HTML of the report are left out. The lemmas bound the
  requests of a run and say that their bodies pass the screening of theory Requests.
\<close>

section \<open>Data\<close>

record demo_video =
  dv_id :: string
  dv_title :: string
  dv_video_url :: string
  dv_duration_sec :: int

record demo_product =
  dp_id :: string
  dp_video_id :: string
  dp_name :: string

record demo_stats =
  ds_views :: int
  ds_unique_views :: int
  ds_likes :: int
  ds_engagement_rate :: rat

record demo_link =
  lk_label :: string
  lk_url :: string
  lk_note :: string

record demo_report =
  rd_base_url :: string
  rd_generated_at :: string
  rd_creator_email :: string
  rd_viewer_email :: string
  rd_creator_token :: string
  rd_viewer_token :: string
  rd_videos :: "demo_video list"
  rd_products :: "demo_product list"
  rd_stats_sample :: "demo_stats option"
  rd_links :: "(string \<times> demo_link list) list"

text \<open>The payloads that are marshalled, the request and the reply. \<open>wr_line\<close> is \<open>res.Status\<close>.\<close>

datatype demo_body =
    CredentialsJ string string
  | VideoJ string string string int
  | ProductJ string string int string string
  | ViewJ int string

record demo_request =
  dm_get :: bool
  dm_url :: string
  dm_body :: "demo_body option"
  dm_token :: string

record wire_reply =
  wr_status :: int
  wr_line :: string
  wr_body :: string

record 'w demo_env =
  de_base_flag :: string
  de_interval_var :: string
  de_now :: string
  de_docker :: bool
  de_url_error :: "string \<Rightarrow> goerr option"
  de_send :: "demo_request \<Rightarrow> 'w \<Rightarrow> wire_reply result \<times> 'w"
  de_sleep :: "int \<Rightarrow> 'w \<Rightarrow> 'w"
  de_psql :: "string \<Rightarrow> 'w \<Rightarrow> (string \<times> goerr) option \<times> 'w"
  de_report :: "demo_report \<Rightarrow> 'w \<Rightarrow> unit result \<times> 'w"
  de_duration :: "string \<Rightarrow> int option"
  de_data :: "string \<Rightarrow> string result"
  de_token :: "string \<Rightarrow> string result"
  de_video :: "string \<Rightarrow> demo_video result"
  de_product :: "string \<Rightarrow> demo_product result"
  de_stats :: "string \<Rightarrow> demo_stats result"

definition demo_password :: string where
  "demo_password = ''demo-password-1234''"

definition em_dash :: string where
  "em_dash = [CHR 0xE2, CHR 0x80, CHR 0x94]"

definition demo_video_specs :: "(string \<times> int \<times> string) list" where
  "demo_video_specs =
     [(''Demo reel '' @ em_dash @ '' 10s'', 10, ''https://samplelib.com/preview/mp4/sample-10s.mp4''),
      (''Demo reel '' @ em_dash @ '' 15s'', 15, ''https://samplelib.com/preview/mp4/sample-15s.mp4''),
      (''Demo reel '' @ em_dash @ '' 30s'', 30,
       ''https://test-videos.co.uk/vids/bigbuckbunny/mp4/h264/720/Big_Buck_Bunny_720_10s_1MB.mp4''),
      (''Demo reel '' @ em_dash @ '' 60s'', 60, ''https://www.w3schools.com/tags/mov_bbb.mp4''),
      (''Demo short '' @ em_dash @ '' 4s'', 4, ''https://samplelib.com/preview/mp4/sample-5s.mp4'')]"

definition env_or :: "string \<Rightarrow> string \<Rightarrow> string" where
  "env_or v fallback = (if v \<noteq> [] then v else fallback)"

section \<open>Calls that can fail\<close>

definition on_ok :: "'a result \<times> 'w \<Rightarrow> ('a \<Rightarrow> 'w \<Rightarrow> 'b result \<times> 'w) \<Rightarrow> 'b result \<times> 'w" where
  "on_ok m f = (case m of (Inl e, w) \<Rightarrow> (Inl e, w) | (Inr a, w) \<Rightarrow> f a w)"

definition named_error :: "string \<Rightarrow> 'a result \<times> 'w \<Rightarrow> 'a result \<times> 'w" where
  "named_error p m = (case m of (Inl e, w) \<Rightarrow> (Inl (Wrapped p e), w) | (Inr a, w) \<Rightarrow> (Inr a, w))"

text \<open>A loop with an early return, without and with results.\<close>

fun each :: "('x \<Rightarrow> 'w \<Rightarrow> unit result \<times> 'w) \<Rightarrow> 'x list \<Rightarrow> 'w \<Rightarrow> unit result \<times> 'w" where
  "each f [] w = (Inr (), w)"
| "each f (x # xs) w = on_ok (f x w) (\<lambda>_. each f xs)"

fun collect :: "('x \<Rightarrow> 'w \<Rightarrow> 'a result \<times> 'w) \<Rightarrow> 'x list \<Rightarrow> 'w \<Rightarrow> 'a list result \<times> 'w" where
  "collect f [] w = (Inr [], w)"
| "collect f (x # xs) w = on_ok (f x w) (\<lambda>a w. on_ok (collect f xs w) (\<lambda>as w. (Inr (a # as), w)))"

section \<open>The HTTP client\<close>

definition trim_slashes :: "string \<Rightarrow> string" where
  "trim_slashes s = rev (dropWhile (\<lambda>c. c = CHR ''/'') (rev s))"

definition demo_exchange :: "'w demo_env \<Rightarrow> demo_request \<Rightarrow> 'w \<Rightarrow> wire_reply result \<times> 'w" where
  "demo_exchange E rq w = (case de_url_error E (dm_url rq) of Some e \<Rightarrow> (Inl e, w) | None \<Rightarrow> de_send E rq w)"

definition post_request :: "'w demo_env \<Rightarrow> string \<Rightarrow> demo_body option \<Rightarrow> string \<Rightarrow> demo_request" where
  "post_request E path body token = \<lparr>dm_get = False, dm_url = trim_slashes (de_base_flag E) @ path, dm_body = body, dm_token = token\<rparr>"

definition unexpected :: "string \<Rightarrow> int \<Rightarrow> wire_reply \<Rightarrow> goerr" where
  "unexpected path want r =
     Plain (''POST '' @ path @ '': want '' @ format_int want @ '' got '' @ format_int (wr_status r) @ '': '' @ wr_body r)"

definition post_status :: "'w demo_env \<Rightarrow> string \<Rightarrow> demo_body option \<Rightarrow> int \<Rightarrow> string \<Rightarrow> 'w \<Rightarrow> int result \<times> 'w" where
  "post_status E path body want token w =
     on_ok (demo_exchange E (post_request E path body token) w)
       (\<lambda>r w. (if want \<noteq> 0 \<and> wr_status r \<noteq> want then Inl (unexpected path want r) else Inr (wr_status r), w))"

definition post :: "'w demo_env \<Rightarrow> string \<Rightarrow> demo_body option \<Rightarrow> int \<Rightarrow> string \<Rightarrow> 'w \<Rightarrow> string result \<times> 'w" where
  "post E path body want token w =
     on_ok (demo_exchange E (post_request E path body token) w)
       (\<lambda>r w. (if want \<noteq> 0 \<and> wr_status r \<noteq> want then Inl (unexpected path want r)
               else if 400 \<le> wr_status r
               then Inl (Plain (''POST '' @ path @ '': '' @ format_int (wr_status r) @ '': '' @ wr_body r))
               else de_data E (wr_body r), w))"

section \<open>The calls of the API\<close>

fun contains_str :: "string \<Rightarrow> string \<Rightarrow> bool" where
  "contains_str [] p = (p = [])"
| "contains_str (c # s) p = (has_prefix (c # s) p \<or> contains_str s p)"

definition demo_register :: "'w demo_env \<Rightarrow> string \<Rightarrow> 'w \<Rightarrow> unit result \<times> 'w" where
  "demo_register E email w =
     (case post E ''/auth/register'' (Some (CredentialsJ email demo_password)) 0 [] w of
        (Inl e, w) \<Rightarrow> (if \<not> contains_str (error_text e) ''409'' then Inl e else Inr (), w)
      | (Inr _, w) \<Rightarrow> (Inr (), w))"

definition demo_login :: "'w demo_env \<Rightarrow> string \<Rightarrow> 'w \<Rightarrow> string result \<times> 'w" where
  "demo_login E email w =
     on_ok (post E ''/auth/login'' (Some (CredentialsJ email demo_password)) 0 [] w) (\<lambda>raw w. (de_token E raw, w))"

definition demo_create_video :: "'w demo_env \<Rightarrow> string \<Rightarrow> string \<times> int \<times> string \<Rightarrow> 'w \<Rightarrow> demo_video result \<times> 'w" where
  "demo_create_video E token sp w =
     (case sp of (title, sec, url) \<Rightarrow>
       on_ok (post E ''/videos'' (Some (VideoJ title ''Seeded by cmd/demo for interview review'' url sec)) 201 token w)
         (\<lambda>raw w. (de_video E raw, w)))"

definition demo_create_product :: "'w demo_env \<Rightarrow> string \<Rightarrow> demo_video \<Rightarrow> 'w \<Rightarrow> demo_product result \<times> 'w" where
  "demo_create_product E token v w =
     on_ok (post E ''/products''
         (Some (ProductJ (dv_id v) (''Product for '' @ dv_title v) 1999 ''USD'' ''https://cdn.example.com/demo/product.png'')) 201 token w)
       (\<lambda>raw w. (de_product E raw, w))"

definition demo_like :: "'w demo_env \<Rightarrow> string \<Rightarrow> string \<Rightarrow> 'w \<Rightarrow> unit result \<times> 'w" where
  "demo_like E token vid w = on_ok (post E (''/videos/'' @ vid @ ''/like'') None 202 token w) (\<lambda>_ w. (Inr (), w))"

definition demo_unlike :: "'w demo_env \<Rightarrow> string \<Rightarrow> string \<Rightarrow> 'w \<Rightarrow> unit result \<times> 'w" where
  "demo_unlike E token vid w = on_ok (post E (''/videos/'' @ vid @ ''/unlike'') None 202 token w) (\<lambda>_ w. (Inr (), w))"

definition demo_track_view :: "'w demo_env \<Rightarrow> string \<Rightarrow> string \<Rightarrow> int \<Rightarrow> 'w \<Rightarrow> unit result \<times> 'w" where
  "demo_track_view E token vid watch_ms w =
     on_ok (post E (''/videos/'' @ vid @ ''/view'') (Some (ViewJ watch_ms ''US'')) 202 token w) (\<lambda>_ w. (Inr (), w))"

definition demo_track_view_any :: "'w demo_env \<Rightarrow> string \<Rightarrow> string \<Rightarrow> int \<Rightarrow> 'w \<Rightarrow> unit result \<times> 'w" where
  "demo_track_view_any E token vid watch_ms w =
     on_ok (post_status E (''/videos/'' @ vid @ ''/view'') (Some (ViewJ watch_ms ''US'')) 202 token w)
       (\<lambda>code w. (if code \<noteq> 202 then Inl (Plain (''view '' @ vid @ '': unexpected status '' @ format_int code)) else Inr (), w))"

definition demo_get_stats :: "'w demo_env \<Rightarrow> string \<Rightarrow> 'w \<Rightarrow> demo_stats result \<times> 'w" where
  "demo_get_stats E vid w =
     on_ok (demo_exchange E \<lparr>dm_get = True, dm_url = de_base_flag E @ ''/videos/'' @ vid @ ''/stats'', dm_body = None, dm_token = []\<rparr> w)
       (\<lambda>r w. (if wr_status r \<noteq> 200 then Inl (Plain (''stats '' @ wr_line r @ '': '' @ wr_body r))
               else case de_data E (wr_body r) of Inl e \<Rightarrow> Inl e | Inr raw \<Rightarrow> de_stats E raw, w))"

definition no_stats :: demo_stats where
  "no_stats = \<lparr>ds_views = 0, ds_unique_views = 0, ds_likes = 0, ds_engagement_rate = 0\<rparr>"

fun demo_poll_stats :: "'w demo_env \<Rightarrow> string \<Rightarrow> nat \<Rightarrow> goerr option \<Rightarrow> 'w \<Rightarrow> demo_stats result \<times> 'w" where
  "demo_poll_stats E vid 0 last_err w = (case last_err of None \<Rightarrow> Inr no_stats | Some e \<Rightarrow> Inl e, w)"
| "demo_poll_stats E vid (Suc n) last_err w =
     (case demo_get_stats E vid w of
        (Inr s, w) \<Rightarrow> (Inr s, w)
      | (Inl e, w) \<Rightarrow> demo_poll_stats E vid n (Some e) (de_sleep E second w))"

section \<open>The traffic\<close>

text \<open>A watch just long enough for the threshold filter.\<close>

definition demo_watch :: "demo_video \<Rightarrow> int" where
  "demo_watch v = (let ok = go_div (wrap64 (dv_duration_sec v * 1000)) 3 in if ok < 1000 then 1000 else ok)"

fun wrong_logins :: "'w demo_env \<Rightarrow> nat \<Rightarrow> 'w \<Rightarrow> 'w" where
  "wrong_logins E 0 w = w"
| "wrong_logins E (Suc n) w =
     wrong_logins E n
       (snd (post_status E ''/auth/login'' (Some (CredentialsJ ''viewer@demo.vidmerce.test'' ''wrong-password'')) 0 [] w))"

definition demo_like_video :: "'w demo_env \<Rightarrow> string list \<Rightarrow> nat \<times> demo_video \<Rightarrow> 'w \<Rightarrow> unit result \<times> 'w" where
  "demo_like_video E tokens iv w =
     (case iv of (i, v) \<Rightarrow>
       each (\<lambda>(j, token) w.
           on_ok (named_error (''like '' @ dv_id v) (demo_like E token (dv_id v) w))
             (\<lambda>_ w. if j = 0 \<and> i mod 2 = 1 then named_error (''unlike '' @ dv_id v) (demo_unlike E token (dv_id v) w)
                    else (Inr (), w)))
         (enumerate 0 tokens) w)"

fun like_until_limited :: "'w demo_env \<Rightarrow> string \<Rightarrow> string \<Rightarrow> nat \<Rightarrow> 'w \<Rightarrow> unit result \<times> 'w" where
  "like_until_limited E token vid 0 w = (Inr (), w)"
| "like_until_limited E token vid (Suc n) w =
     on_ok (post_status E (''/videos/'' @ vid @ ''/like'') None 0 token w)
       (\<lambda>code w. if code = 429 then (Inr (), w) else like_until_limited E token vid n w)"

definition demo_view_video :: "'w demo_env \<Rightarrow> string \<Rightarrow> demo_video \<Rightarrow> 'w \<Rightarrow> unit result \<times> 'w" where
  "demo_view_video E token v w =
     on_ok (each (\<lambda>_ w. named_error (''view '' @ dv_id v) (demo_track_view E token (dv_id v) (demo_watch v) w)) [0..<3] w)
       (\<lambda>_ w. on_ok (demo_track_view_any E token (dv_id v) 50 w)
       (\<lambda>_ w. if 30 \<le> dv_duration_sec v
              then each (\<lambda>_ w. demo_track_view_any E token (dv_id v) (demo_watch v) w) [0..<8] w
              else (Inr (), w)))"

definition demo_seed :: "'w demo_env \<Rightarrow> string list \<Rightarrow> demo_video list \<Rightarrow> 'w \<Rightarrow> unit result \<times> 'w" where
  "demo_seed E tokens reels w =
     (if reels = [] then (Inr (), w)
      else
        on_ok (each (demo_like_video E tokens) (enumerate 0 reels) (wrong_logins E 12 w))
          (\<lambda>_ w. on_ok (if tokens \<noteq> [] then like_until_limited E (hd tokens) (dv_id (hd reels)) 25 w else (Inr (), w))
          (\<lambda>_ w. on_ok (each (demo_view_video E (hd tokens)) reels w)
          (\<lambda>_ w. if 2 \<le> length tokens
                 then each (\<lambda>v. demo_track_view E (tokens ! 1) (dv_id v) (demo_watch v)) (take 2 reels) w
                 else (Inr (), w)))))"

definition inject_drift :: "'w demo_env \<Rightarrow> string \<Rightarrow> 'w \<Rightarrow> unit result \<times> 'w" where
  "inject_drift E vid w =
     (if \<not> de_docker E then (Inl (Plain ''docker not in PATH''), w)
      else
        case de_psql E (''UPDATE video_stats SET likes_count = likes_count + 25 WHERE video_id = '' @ [CHR 0x27] @ vid @ [CHR 0x27]) w of
          (Some (out, e), w) \<Rightarrow> (Inl (Plain (error_text e @ '': '' @ trim_space out)), w)
        | (None, w) \<Rightarrow> (Inr (), w))"

definition reconciler_wait :: "'w demo_env \<Rightarrow> int" where
  "reconciler_wait E =
     (if de_interval_var E = [] then 35 * second
      else case de_duration E (de_interval_var E) of
             None \<Rightarrow> 35 * second
           | Some d \<Rightarrow> if d \<le> 0 then 35 * second else wrap64 (d + 5 * second))"

fun warm_stats :: "'w demo_env \<Rightarrow> string list \<Rightarrow> 'w \<Rightarrow> 'w" where
  "warm_stats E [] w = w"
| "warm_stats E (vid # vids) w = warm_stats E vids (snd (demo_get_stats E vid w))"

section \<open>The report and the run\<close>

definition public_api_links :: "string \<Rightarrow> string \<Rightarrow> string \<Rightarrow> demo_link list" where
  "public_api_links base vid pid =
     (if vid \<noteq> []
      then [\<lparr>lk_label = ''Get video'', lk_url = base @ ''/videos/'' @ vid, lk_note = ''first seeded video''\<rparr>,
            \<lparr>lk_label = ''Video stats'', lk_url = base @ ''/videos/'' @ vid @ ''/stats'', lk_note = ''views, unique_views, likes''\<rparr>,
            \<lparr>lk_label = ''Product by video'', lk_url = base @ ''/videos/'' @ vid @ ''/product'', lk_note = ''may 404 if no product''\<rparr>]
      else [])
     @ (if pid \<noteq> [] then [\<lparr>lk_label = ''Product by id'', lk_url = base @ ''/products/'' @ pid, lk_note = []\<rparr>] else [])"

definition health_links :: "string \<Rightarrow> demo_link list" where
  "health_links base =
     [\<lparr>lk_label = ''Swagger UI'', lk_url = base @ ''/swagger/'', lk_note = ''interactive OpenAPI docs''\<rparr>,
      \<lparr>lk_label = ''API liveness'', lk_url = base @ ''/health'', lk_note = ''should return ok''\<rparr>,
      \<lparr>lk_label = ''API readiness'', lk_url = base @ ''/ready'', lk_note = ''postgres + redis + clickhouse''\<rparr>,
      \<lparr>lk_label = ''Prometheus metrics (API)'', lk_url = base @ ''/metrics'', lk_note = ''raw Prometheus text''\<rparr>,
      \<lparr>lk_label = ''Worker metrics'', lk_url = ''http://localhost:9091/metrics'', lk_note = ''worker process''\<rparr>,
      \<lparr>lk_label = ''Prometheus UI'', lk_url = ''http://localhost:9090'', lk_note = ''targets + queries''\<rparr>,
      \<lparr>lk_label = ''Grafana dashboards'', lk_url = ''http://localhost:3000'',
       lk_note = ''login admin / admin '' @ [CHR 0xE2, CHR 0x86, CHR 0x92] @ '' Vidmerce folder''\<rparr>]"

definition creator_email :: string where
  "creator_email = ''creator@demo.vidmerce.test''"

definition viewer_email :: string where
  "viewer_email = ''viewer@demo.vidmerce.test''"

definition demo_report_of ::
  "'w demo_env \<Rightarrow> string \<Rightarrow> string \<Rightarrow> demo_video list \<Rightarrow> demo_product list \<Rightarrow> demo_stats option \<Rightarrow> demo_report"
where
  "demo_report_of E creator_token viewer_token reels goods sample =
     (let base = trim_slashes (de_base_flag E);
          first_video = (case reels of [] \<Rightarrow> [] | v # _ \<Rightarrow> dv_id v);
          first_product = (case goods of [] \<Rightarrow> [] | p # _ \<Rightarrow> dp_id p)
      in \<lparr>rd_base_url = base, rd_generated_at = de_now E, rd_creator_email = creator_email, rd_viewer_email = viewer_email,
          rd_creator_token = creator_token, rd_viewer_token = viewer_token, rd_videos = reels, rd_products = goods,
          rd_stats_sample = sample,
          rd_links = [(''Platform health & metrics'', health_links base),
            (''Public API (no auth)'',
             \<lparr>lk_label = ''Feed'', lk_url = base @ ''/feed?limit=10'', lk_note = ''5 seeded videos''\<rparr>
             # public_api_links base first_video first_product)]\<rparr>)"

text \<open>Another viewer; the waits and what happens in them; the statistics.\<close>

definition extra_viewer :: "'w demo_env \<Rightarrow> int \<Rightarrow> 'w \<Rightarrow> string result \<times> 'w" where
  "extra_viewer E i w =
     (let email = ''viewer'' @ format_int i @ ''@demo.vidmerce.test''
      in on_ok (demo_register E email w) (\<lambda>_. demo_login E email))"

definition settle :: "'w demo_env \<Rightarrow> demo_video list \<Rightarrow> 'w \<Rightarrow> 'w" where
  "settle E reels w =
     (let w = de_sleep E (6 * second) w
      in case reels of [] \<Rightarrow> w
         | v # _ \<Rightarrow> (case inject_drift E (dv_id v) w of
                      (Inl e, w) \<Rightarrow> w
                    | (Inr _, w) \<Rightarrow> de_sleep E (reconciler_wait E) w))"

definition sample_stats :: "'w demo_env \<Rightarrow> demo_video list \<Rightarrow> 'w \<Rightarrow> demo_stats option result \<times> 'w" where
  "sample_stats E reels w =
     (case reels of
        [] \<Rightarrow> (Inr None, w)
      | v # _ \<Rightarrow>
          on_ok (named_error (''stats not ready for demo video '' @ dv_id v) (demo_poll_stats E (dv_id v) 30 None w))
            (\<lambda>s w. (Inr (Some s), warm_stats E (concat (map (\<lambda>v. replicate 4 (dv_id v)) reels)) w)))"

definition demo_run :: "'w demo_env \<Rightarrow> 'w \<Rightarrow> unit result \<times> 'w" where
  "demo_run E w =
     on_ok (named_error ''creator register'' (demo_register E creator_email w)) (\<lambda>_ w.
     on_ok (named_error ''creator login'' (demo_login E creator_email w)) (\<lambda>creator_token w.
     on_ok (named_error ''viewer register'' (demo_register E viewer_email w)) (\<lambda>_ w.
     on_ok (named_error ''viewer login'' (demo_login E viewer_email w)) (\<lambda>viewer_token w.
     on_ok (collect (demo_create_video E creator_token) demo_video_specs w) (\<lambda>reels w.
     on_ok (collect (demo_create_product E creator_token) (take 3 reels) w) (\<lambda>goods w.
     on_ok (collect (extra_viewer E) [2, 3] w) (\<lambda>extra w.
     on_ok (demo_seed E (viewer_token # extra) reels w) (\<lambda>_ w.
     on_ok (sample_stats E reels (settle E reels w)) (\<lambda>sample w.
     de_report E (demo_report_of E creator_token viewer_token reels goods sample) w)))))))))"

definition demo_main :: "'w demo_env \<Rightarrow> 'w \<Rightarrow> nat \<times> 'w" where
  "demo_main E w = (let (r, w) = demo_run E w in (exit_code r, w))"

section \<open>What a run sends\<close>

text \<open>What is said of a request: where it goes, whose token it carries, and its body.\<close>

definition issued :: "'w demo_env \<Rightarrow> string \<Rightarrow> bool" where
  "issued E token \<longleftrightarrow> token = [] \<or> (\<exists>raw. de_token E raw = Inr token)"

fun demo_body_ok :: "validator \<Rightarrow> url_lib \<Rightarrow> demo_body \<Rightarrow> bool" where
  "demo_body_ok V url (CredentialsJ email password) =
     (login_body_ok V (email, password) \<and> register_body_ok V (email, password))"
| "demo_body_ok V url (VideoJ title descr link sec) =
     video_body_ok V url \<lparr>vc_title = title, vc_description = descr, vc_video_url = link, vc_duration_sec = sec\<rparr>"
| "demo_body_ok V url (ProductJ vid name price currency picture) =
     (0 \<le> price \<and> price \<le> 1000000000 \<and> rune_count currency = 3 \<and> length (to_upper (trim_space currency)) = 3)"
| "demo_body_ok V url (ViewJ watch country) = (50 \<le> watch \<and> country = ''US'')"

definition demo_request_ok :: "'w demo_env \<Rightarrow> validator \<Rightarrow> url_lib \<Rightarrow> demo_request \<Rightarrow> bool" where
  "demo_request_ok E V url rq \<longleftrightarrow> has_prefix (dm_url rq) (trim_slashes (de_base_flag E)) \<and> issued E (dm_token rq)
     \<and> (case dm_body rq of None \<Rightarrow> True | Some b \<Rightarrow> demo_body_ok V url b)"

text \<open>A world that keeps a log of the requests that were sent, and nothing else writes to it.\<close>

locale demo_log =
  fixes E :: "'w demo_env" and log :: "'w \<Rightarrow> demo_request list" and fine :: "demo_request \<Rightarrow> bool"
  assumes sends: "log (snd (de_send E rq w)) = log w @ [rq]"
    and quiet: "log (de_sleep E d w) = log w" "log (snd (de_psql E q w)) = log w" "log (snd (de_report E rd w)) = log w"
begin

definition adds :: "nat \<Rightarrow> 'w \<Rightarrow> 'w \<Rightarrow> bool" where
  "adds n w w' \<longleftrightarrow> (\<exists>more. log w' = log w @ more \<and> length more \<le> n \<and> (\<forall>rq \<in> set more. fine rq))"

lemma adds_none: "log w' = log w \<Longrightarrow> adds n w w'"
  by (simp add: adds_def)

lemma adds_trans: "adds m w w1 \<Longrightarrow> adds n w1 w2 \<Longrightarrow> m + n \<le> k \<Longrightarrow> adds k w w2"
  unfolding adds_def by (elim exE conjE) (rule exI, auto)

lemma adds_more: "adds m w w' \<Longrightarrow> m \<le> n \<Longrightarrow> adds n w w'"
  unfolding adds_def by auto

lemma adds_on_ok:
  assumes "adds m w (snd x)" and "\<And>a w1. x = (Inr a, w1) \<Longrightarrow> adds n w1 (snd (f a w1))" and "m + n \<le> k"
  shows "adds k w (snd (on_ok x f))"
proof (cases x)
  case (Pair r w1)
  show ?thesis
  proof (cases r)
    case (Inl e)
    then show ?thesis using assms(1,3) Pair adds_more [of m w w1 k] by (simp add: on_ok_def)
  next
    case (Inr a)
    then show ?thesis using adds_trans [OF assms(1) assms(2) assms(3)] Pair by (simp add: on_ok_def)
  qed
qed

lemma adds_each:
  assumes "\<And>x w. x \<in> set xs \<Longrightarrow> adds n w (snd (f x w))" and "n * length xs \<le> k"
  shows "adds k w (snd (each f xs w))"
  using assms
proof (induction xs arbitrary: w k)
  case (Cons x xs)
  show ?case unfolding each.simps
  proof (rule adds_on_ok)
    show "adds n w (snd (f x w))" using Cons.prems(1) by simp
    show "adds (n * length xs) w1 (snd (each f xs w1))" for w1 using Cons.IH Cons.prems(1) by simp
    show "n + n * length xs \<le> k" using Cons.prems(2) by simp
  qed
qed (simp add: adds_none)

lemma adds_collect:
  assumes "\<And>x w. x \<in> set xs \<Longrightarrow> adds n w (snd (f x w))" and "n * length xs \<le> k"
  shows "adds k w (snd (collect f xs w))"
  using assms
proof (induction xs arbitrary: w k)
  case (Cons x xs)
  show ?case unfolding collect.simps
  proof (rule adds_on_ok)
    show "adds n w (snd (f x w))" using Cons.prems(1) by simp
    show "adds (n * length xs) w1 (snd (on_ok (collect f xs w1) (\<lambda>as w. (Inr (a # as), w))))" for a w1
      by (rule adds_on_ok [where m = "n * length xs" and n = 0]) (use Cons in \<open>simp_all add: adds_none\<close>)
    show "n + n * length xs \<le> k" using Cons.prems(2) by simp
  qed
qed (simp add: adds_none)

lemma adds_exchange: "fine rq \<Longrightarrow> adds 1 w (snd (demo_exchange E rq w))"
  by (auto simp: demo_exchange_def adds_none adds_def sends split: option.split)

lemma adds_post:
  assumes "fine (post_request E path body token)"
  shows "adds 1 w (snd (post_status E path body want token w))" "adds 1 w (snd (post E path body want token w))"
  unfolding post_status_def post_def
  by (rule adds_on_ok [where n = 0, OF adds_exchange [OF assms]]; simp add: adds_none)+

end

lemma named_error_snd [simp]: "snd (named_error p m) = snd m"
  by (auto simp: named_error_def split: prod.split sum.split)

lemma named_error_Inr: "named_error p m = (Inr a, w) \<longleftrightarrow> m = (Inr a, w)"
  by (auto simp: named_error_def split: prod.splits sum.splits)

lemma on_ok_Inr: "on_ok m f = (Inr b, w') \<longleftrightarrow> (\<exists>a w. m = (Inr a, w) \<and> f a w = (Inr b, w'))"
  by (auto simp: on_ok_def split: prod.splits sum.splits)

lemma collect_length: "collect f xs w = (Inr as, w') \<Longrightarrow> length as = length xs"
  by (induction xs arbitrary: w as w') (auto simp: on_ok_Inr)

lemma collect_all: "collect f xs w = (Inr as, w') \<Longrightarrow> (\<And>x w a w'. f x w = (Inr a, w') \<Longrightarrow> P a) \<Longrightarrow> \<forall>a \<in> set as. P a"
  by (induction xs arbitrary: w as w') (fastforce simp: on_ok_Inr)+

lemma login_issued: "demo_login E email w = (Inr token, w') \<Longrightarrow> issued E token"
  by (auto simp: demo_login_def on_ok_Inr issued_def)

definition demo_emails :: "string list" where
  "demo_emails = [creator_email, viewer_email, ''viewer2@demo.vidmerce.test'', ''viewer3@demo.vidmerce.test'']"

text \<open>The validator takes the demo's addresses and links for what they are.\<close>

definition demo_accepted :: "validator \<Rightarrow> url_lib \<Rightarrow> bool" where
  "demo_accepted V url \<longleftrightarrow> (\<forall>e \<in> set demo_emails. vl_email V e)
     \<and> (\<forall>(title, sec, link) \<in> set demo_video_specs. vl_url V link \<and> http_url url link)"

lemma has_prefix_append [simp]: "has_prefix (p @ s) p"
  by (simp add: has_prefix_def)

lemma base_prefix: "has_prefix (s @ t) (trim_slashes s)"
proof -
  have "s = rev (takeWhile (\<lambda>c. c = CHR ''/'') (rev s) @ dropWhile (\<lambda>c. c = CHR ''/'') (rev s))" by simp
  then have "s = trim_slashes s @ rev (takeWhile (\<lambda>c. c = CHR ''/'') (rev s))"
    unfolding trim_slashes_def rev_append by simp
  then show ?thesis by (metis append.assoc has_prefix_append)
qed

lemma no_token [simp]: "issued E []"
  by (simp add: issued_def)

lemma watch_long: "50 \<le> demo_watch v"
  by (simp add: demo_watch_def Let_def)

lemma demo_credentials:
  assumes "demo_accepted V url" and "email \<in> set demo_emails"
  shows "demo_body_ok V url (CredentialsJ email demo_password)" "demo_body_ok V url (CredentialsJ email ''wrong-password'')"
proof -
  have "vl_email V email" using assms unfolding demo_accepted_def by blast
  then show "demo_body_ok V url (CredentialsJ email demo_password)" "demo_body_ok V url (CredentialsJ email ''wrong-password'')"
    using assms(2)
    by (auto simp: demo_emails_def creator_email_def viewer_email_def demo_password_def login_body_ok_def register_body_ok_def
        rune_count_def continues_def trim_space_def is_space_def)
qed

lemma demo_videos_fit:
  assumes "demo_accepted V url" and "(title, sec, link) \<in> set demo_video_specs"
  shows "demo_body_ok V url (VideoJ title ''Seeded by cmd/demo for interview review'' link sec)"
proof -
  have "vl_url V link \<and> http_url url link" using assms unfolding demo_accepted_def by blast
  then show ?thesis using assms(2)
    by (auto simp: demo_video_specs_def em_dash_def video_body_ok_def rune_count_def continues_def trim_space_def is_space_def)
qed

lemma demo_products_fit: "demo_body_ok V url (ProductJ vid name 1999 ''USD'' picture)"
  by (simp add: rune_count_def continues_def trim_space_def is_space_def to_upper_def)

declare demo_body_ok.simps [simp del]

text \<open>Call by call.\<close>

locale demo_client = demo_log E log "demo_request_ok E V url"
  for E :: "'w demo_env" and log and V :: validator and url :: url_lib +
  assumes accepted: "demo_accepted V url"
begin

lemma posted:
  "issued E token \<Longrightarrow> (\<And>b. body = Some b \<Longrightarrow> demo_body_ok V url b) \<Longrightarrow> demo_request_ok E V url (post_request E path body token)"
  by (simp add: demo_request_ok_def post_request_def split: option.split)

lemmas one_call = adds_on_ok [where m = 1 and n = 0 and k = 1, OF adds_post(2) [OF posted]]

lemma adds_login: "email \<in> set demo_emails \<Longrightarrow> adds 1 w (snd (demo_login E email w))"
  unfolding demo_login_def by (rule one_call) (auto simp: demo_credentials [OF accepted] adds_none)

lemma adds_register:
  assumes "email \<in> set demo_emails"
  shows "adds 1 w (snd (demo_register E email w))"
proof -
  have "snd (demo_register E email w) = snd (post E ''/auth/register'' (Some (CredentialsJ email demo_password)) 0 [] w)"
    by (auto simp: demo_register_def split: prod.split sum.split)
  moreover have "adds 1 w (snd (post E ''/auth/register'' (Some (CredentialsJ email demo_password)) 0 [] w))"
    using demo_credentials(1) [OF accepted assms] by (intro adds_post posted) auto
  ultimately show ?thesis by simp
qed

lemma adds_video: "issued E token \<Longrightarrow> sp \<in> set demo_video_specs \<Longrightarrow> adds 1 w (snd (demo_create_video E token sp w))"
  unfolding demo_create_video_def
  by (cases sp, simp only: prod.case, rule one_call) (auto intro: demo_videos_fit [OF accepted] simp: adds_none)

lemma adds_product: "issued E token \<Longrightarrow> adds 1 w (snd (demo_create_product E token v w))"
  unfolding demo_create_product_def
  by (rule one_call) (auto intro: demo_products_fit simp: adds_none)

lemma adds_like: "issued E token \<Longrightarrow> adds 1 w (snd (demo_like E token vid w))"
  "issued E token \<Longrightarrow> adds 1 w (snd (demo_unlike E token vid w))"
  unfolding demo_like_def demo_unlike_def by (rule one_call; auto simp: adds_none)+

lemma adds_view:
  assumes "issued E token" and "50 \<le> watch"
  shows "adds 1 w (snd (demo_track_view E token vid watch w))" "adds 1 w (snd (demo_track_view_any E token vid watch w))"
proof -
  show "adds 1 w (snd (demo_track_view E token vid watch w))"
    unfolding demo_track_view_def by (rule one_call) (use assms in \<open>auto simp: adds_none demo_body_ok.simps\<close>)
  show "adds 1 w (snd (demo_track_view_any E token vid watch w))"
    unfolding demo_track_view_any_def
    by (rule adds_on_ok [where m = 1 and n = 0, OF adds_post(1) [OF posted]]) (use assms in \<open>auto simp: adds_none demo_body_ok.simps\<close>)
qed

lemma adds_get_stats: "adds 1 w (snd (demo_get_stats E vid w))"
  unfolding demo_get_stats_def
  by (rule adds_on_ok [where m = 1 and n = 0, OF adds_exchange]) (auto simp: demo_request_ok_def base_prefix adds_none)

lemma adds_poll: "adds n w (snd (demo_poll_stats E vid n last_err w))"
proof (induction n arbitrary: last_err w)
  case (Suc n)
  obtain r w1 where g: "demo_get_stats E vid w = (r, w1)" by (metis surj_pair)
  have one: "adds 1 w w1" using adds_get_stats [of w vid] g by simp
  show ?case
  proof (cases r)
    case (Inl e)
    have "adds n w1 (snd (demo_poll_stats E vid n (Some e) (de_sleep E second w1)))"
      using adds_trans [OF adds_none [OF quiet(1)] Suc.IH, of 0 n] by simp
    then show ?thesis using g Inl adds_trans [OF one] by simp
  next
    case (Inr st)
    then show ?thesis using g adds_more [OF one] by simp
  qed
qed (simp add: adds_none)

lemma adds_warm: "adds (length vids) w (warm_stats E vids w)"
proof (induction vids arbitrary: w)
  case (Cons v vids)
  then show ?case using adds_trans [OF adds_get_stats Cons.IH, where k = "Suc (length vids)"] by simp
qed (simp add: adds_none)

lemma adds_wrong: "adds n w (wrong_logins E n w)"
proof (induction n arbitrary: w)
  case (Suc n)
  have "''viewer@demo.vidmerce.test'' \<in> set demo_emails" by (simp add: demo_emails_def viewer_email_def)
  then have "demo_body_ok V url (CredentialsJ ''viewer@demo.vidmerce.test'' ''wrong-password'')"
    using demo_credentials(2) [OF accepted] by blast
  then have "adds 1 w (snd (post_status E ''/auth/login'' (Some (CredentialsJ ''viewer@demo.vidmerce.test'' ''wrong-password'')) 0 [] w))"
    by (intro adds_post posted) auto
  from adds_trans [OF this Suc.IH] show ?case by simp
qed (simp add: adds_none)

lemma adds_until: "issued E token \<Longrightarrow> adds n w (snd (like_until_limited E token vid n w))"
proof (induction n arbitrary: w)
  case (Suc n)
  then show ?case unfolding like_until_limited.simps
    by (intro adds_on_ok [where m = 1 and n = n, OF adds_post(1) [OF posted]]) (auto simp: adds_none)
qed (simp add: adds_none)

lemma adds_like_video:
  assumes "\<forall>t \<in> set tokens. issued E t"
  shows "adds (2 * length tokens) w (snd (demo_like_video E tokens iv w))"
proof -
  obtain i v where iv: "iv = (i, v)" by (cases iv)
  have "adds 2 w (snd (on_ok (named_error p (demo_like E t (dv_id v) w))
      (\<lambda>_ w. if j = 0 \<and> i mod 2 = 1 then named_error p' (demo_unlike E t (dv_id v) w) else (Inr (), w))))"
    if "issued E t" for t w and j :: nat and p p'
    by (rule adds_on_ok [where m = 1 and n = 1]) (use that adds_like in \<open>auto simp: adds_none\<close>)
  then show ?thesis unfolding demo_like_video_def iv prod.case
    by (intro adds_each [where n = 2]) (use assms in \<open>auto simp: in_set_enumerate_eq\<close>)
qed

lemma adds_view_video:
  assumes "issued E token"
  shows "adds 12 w (snd (demo_view_video E token v w))"
proof -
  note view = adds_view [OF assms watch_long]
  have some: "adds 1 w (snd (demo_track_view_any E token vid 50 w))" for vid w using adds_view(2) [OF assms, of 50] by simp
  have burst: "adds 8 w (snd (if 30 \<le> dv_duration_sec v
      then each (\<lambda>_ w. demo_track_view_any E token (dv_id v) (demo_watch v) w) [0..<8] w else (Inr (), w)))" for w
    using adds_each [where n = 1 and xs = "[0..<8]" and k = 8, OF view(2)] by (simp add: adds_none)
  have rest: "adds 9 w (snd (on_ok (demo_track_view_any E token (dv_id v) 50 w)
      (\<lambda>_ w. if 30 \<le> dv_duration_sec v then each (\<lambda>_ w. demo_track_view_any E token (dv_id v) (demo_watch v) w) [0..<8] w
             else (Inr (), w))))" for w
    by (rule adds_on_ok [OF some burst]) simp
  have replays: "adds 3 w (snd (each
      (\<lambda>_ w. named_error (''view '' @ dv_id v) (demo_track_view E token (dv_id v) (demo_watch v) w)) [0..<3] w))" for w
    by (rule adds_each [where n = 1]) (simp_all add: view(1) del: One_nat_def)
  show ?thesis unfolding demo_view_video_def by (rule adds_on_ok [OF replays rest]) simp
qed

lemma adds_seed:
  assumes "\<forall>t \<in> set tokens. issued E t" and "tokens \<noteq> []" and "12 + (2 * length tokens + 12) * length reels + 27 \<le> k"
  shows "adds k w (snd (demo_seed E tokens reels w))"
proof (cases "reels = []")
  case True
  then show ?thesis by (simp add: demo_seed_def adds_none)
next
  case False
  have hd: "issued E (hd tokens)" using assms(1,2) by simp
  have last: "adds 2 w (snd (if 2 \<le> length tokens
      then each (\<lambda>v. demo_track_view E (tokens ! 1) (dv_id v) (demo_watch v)) (take 2 reels) w else (Inr (), w)))" for w
    using adds_view(1) [OF _ watch_long] assms(1)
    by (auto intro: adds_each [where n = 1] simp: adds_none)
  have views: "adds (12 * length reels + 2) w (snd (on_ok (each (demo_view_video E (hd tokens)) reels w)
      (\<lambda>_ w. if 2 \<le> length tokens
             then each (\<lambda>v. demo_track_view E (tokens ! 1) (dv_id v) (demo_watch v)) (take 2 reels) w else (Inr (), w))))" for w
    by (rule adds_on_ok [OF adds_each [where n = 12 and k = "12 * length reels"] last]) (simp_all add: adds_view_video [OF hd])
  have limited: "adds (25 + (12 * length reels + 2)) w (snd (on_ok
      (if tokens \<noteq> [] then like_until_limited E (hd tokens) (dv_id (hd reels)) 25 w else (Inr (), w))
      (\<lambda>_ w. on_ok (each (demo_view_video E (hd tokens)) reels w)
        (\<lambda>_ w. if 2 \<le> length tokens
               then each (\<lambda>v. demo_track_view E (tokens ! 1) (dv_id v) (demo_watch v)) (take 2 reels) w else (Inr (), w)))))" for w
    by (rule adds_on_ok [OF _ views, where m = 25]) (simp_all add: adds_until [OF hd] assms(2))
  have likes: "adds (2 * length tokens * length reels) w (snd (each (demo_like_video E tokens) (enumerate 0 reels) w))" for w
    by (rule adds_each [OF adds_like_video [OF assms(1)]]) simp
  have "adds (12 + (2 * length tokens * length reels + (25 + (12 * length reels + 2)))) w (snd (demo_seed E tokens reels w))"
    unfolding demo_seed_def using False
    by (simp only: if_False) (rule adds_trans [OF adds_wrong adds_on_ok [OF likes limited order_refl] order_refl])
  then show ?thesis by (rule adds_more) (use assms(3) in \<open>simp add: algebra_simps\<close>)
qed

lemma adds_settle: "adds 0 w (settle E reels w)"
proof -
  have "log (snd (inject_drift E vid w)) = log w" for vid w
    using quiet(2) by (auto simp: inject_drift_def split: prod.split option.split) (metis snd_conv)+
  then have inj: "log (case inject_drift E vid w of (Inl e, w) \<Rightarrow> w | (Inr _, w) \<Rightarrow> de_sleep E d w) = log w" for vid w d
    by (auto simp: quiet(1) split: prod.split sum.split) (metis snd_conv)+
  show ?thesis by (rule adds_none) (auto simp: settle_def Let_def inj quiet(1) split: list.split)
qed

lemma adds_sample: "adds (30 + 4 * length reels) w (snd (sample_stats E reels w))"
proof (cases reels)
  case (Cons v vs)
  have "length (concat (map (\<lambda>v. replicate 4 (dv_id v)) reels)) = 4 * length reels"
    by (induction reels) simp_all
  then have "adds (4 * length reels) w (warm_stats E (concat (map (\<lambda>v. replicate 4 (dv_id v)) reels)) w)" for w
    using adds_warm [of "concat (map (\<lambda>v. replicate 4 (dv_id v)) reels)"] by metis
  then show ?thesis unfolding sample_stats_def Cons list.case
    by (intro adds_on_ok [where m = 30 and n = "4 * length (v # vs)"]) (simp_all add: adds_poll Cons)
qed (simp add: sample_stats_def adds_none)

lemma adds_extra:
  assumes "i \<in> {2, 3}"
  shows "adds 2 w (snd (extra_viewer E i w))" and "extra_viewer E i w = (Inr t, w') \<Longrightarrow> issued E t"
proof -
  have "format_int 2 = ''2''" "format_int 3 = ''3''" by code_simp+
  then have known: "''viewer'' @ format_int i @ ''@demo.vidmerce.test'' \<in> set demo_emails"
    using assms by (auto simp: demo_emails_def)
  show "adds 2 w (snd (extra_viewer E i w))"
    unfolding extra_viewer_def Let_def by (rule adds_on_ok [OF adds_register [OF known] adds_login [OF known]]) simp
  show "extra_viewer E i w = (Inr t, w') \<Longrightarrow> issued E t"
    by (auto simp: extra_viewer_def Let_def on_ok_Inr intro: login_issued)
qed

text \<open>The second half of a run, when the accounts and the videos are there.\<close>

lemma adds_second_half:
  assumes "length reels = 5" and "issued E ct" and "issued E vt"
  shows "adds 186 w (snd (on_ok (collect (demo_create_product E ct) (take 3 reels) w) (\<lambda>goods w.
     on_ok (collect (extra_viewer E) [2, 3] w) (\<lambda>extra w.
     on_ok (demo_seed E (vt # extra) reels w) (\<lambda>_ w.
     on_ok (sample_stats E reels (settle E reels w)) (\<lambda>sample w.
     de_report E (demo_report_of E ct vt reels goods sample) w))))))"
proof (rule adds_on_ok [where m = 3 and n = 183])
  show "adds 3 w (snd (collect (demo_create_product E ct) (take 3 reels) w))"
    by (rule adds_collect [where n = 1]) (simp_all add: adds_product [OF assms(2)] assms(1) del: One_nat_def)
next
  fix goods w1
  show "adds 183 w1 (snd (on_ok (collect (extra_viewer E) [2, 3] w1) (\<lambda>extra w.
     on_ok (demo_seed E (vt # extra) reels w) (\<lambda>_ w.
     on_ok (sample_stats E reels (settle E reels w)) (\<lambda>sample w.
     de_report E (demo_report_of E ct vt reels goods sample) w)))))"
  proof (rule adds_on_ok [where m = 4 and n = 179])
    show "adds 4 w1 (snd (collect (extra_viewer E) [2, 3] w1))"
      by (rule adds_collect [where n = 2]) (auto intro: adds_extra(1))
  next
    fix extra w2
    assume got: "collect (extra_viewer E) [2, 3] w1 = (Inr extra, w2)"
    have two: "length extra = 2" using collect_length [OF got] by simp
    have "\<forall>t \<in> set extra. issued E t"
      using got adds_extra(2) [of 2] adds_extra(2) [of 3] by (auto simp: on_ok_Inr)
    then have tokens: "\<forall>t \<in> set (vt # extra). issued E t" using assms(3) by simp
    show "adds 179 w2 (snd (on_ok (demo_seed E (vt # extra) reels w2) (\<lambda>_ w.
       on_ok (sample_stats E reels (settle E reels w)) (\<lambda>sample w.
       de_report E (demo_report_of E ct vt reels goods sample) w))))"
    proof (rule adds_on_ok [where m = 129 and n = 50])
      show "adds 129 w2 (snd (demo_seed E (vt # extra) reels w2))"
        by (rule adds_seed [OF tokens]) (simp_all add: two assms(1))
      have "adds 50 w3 (snd (sample_stats E reels (settle E reels w3)))" for w3
        by (rule adds_trans [OF adds_settle adds_sample]) (simp add: assms(1))
      then show "adds 50 w3 (snd (on_ok (sample_stats E reels (settle E reels w3)) (\<lambda>sample w.
         de_report E (demo_report_of E ct vt reels goods sample) w)))" for w3
        by (rule adds_on_ok [where n = 0]) (simp_all add: adds_none quiet(3))
    qed simp
  qed simp
qed simp

lemma adds_run: "adds 195 w (snd (demo_run E w))"
proof -
  have emails: "creator_email \<in> set demo_emails" "viewer_email \<in> set demo_emails" by (simp_all add: demo_emails_def)
  note reg = adds_register [OF emails(1)] adds_register [OF emails(2)]
  note log_in = adds_login [OF emails(1)] adds_login [OF emails(2)]
  show ?thesis unfolding demo_run_def
  proof (rule adds_on_ok [where m = 1 and n = 194], goal_cases)
    case (2 a w1)
    show ?case
    proof (rule adds_on_ok [where m = 1 and n = 193], goal_cases)
      case (2 ct w2)
      then have ct: "issued E ct" by (simp add: named_error_Inr login_issued)
      show ?case
      proof (rule adds_on_ok [where m = 1 and n = 192], goal_cases)
        case (2 b w3)
        show ?case
        proof (rule adds_on_ok [where m = 1 and n = 191], goal_cases)
          case (2 vt w4)
          then have vt: "issued E vt" by (simp add: named_error_Inr login_issued)
          show ?case
          proof (rule adds_on_ok [where m = 5 and n = 186], goal_cases)
            case 1
            show ?case by (rule adds_collect [where n = 1, OF adds_video [OF ct]]) (simp_all add: demo_video_specs_def)
          next
            case (2 reels w5)
            then have "length reels = 5" using collect_length by (fastforce simp: demo_video_specs_def)
            then show ?case by (rule adds_second_half [OF _ ct vt])
          qed simp
        qed (simp_all add: log_in del: One_nat_def)
      qed (simp_all add: reg del: One_nat_def)
    qed (simp_all add: log_in del: One_nat_def)
  qed (simp_all add: reg del: One_nat_def)
qed

end

section \<open>Property\<close>

text \<open>The requests of a run on any outside world, written down.\<close>

definition logging :: "'w demo_env \<Rightarrow> ('w \<times> demo_request list) demo_env" where
  "logging E =
     \<lparr>de_base_flag = de_base_flag E, de_interval_var = de_interval_var E, de_now = de_now E, de_docker = de_docker E,
      de_url_error = de_url_error E,
      de_send = (\<lambda>rq (w, sent). let (r, w) = de_send E rq w in (r, w, sent @ [rq])),
      de_sleep = (\<lambda>d (w, sent). (de_sleep E d w, sent)),
      de_psql = (\<lambda>q (w, sent). let (r, w) = de_psql E q w in (r, w, sent)),
      de_report = (\<lambda>rd (w, sent). let (r, w) = de_report E rd w in (r, w, sent)),
      de_duration = de_duration E, de_data = de_data E, de_token = de_token E, de_video = de_video E,
      de_product = de_product E, de_stats = de_stats E\<rparr>"

interpretation logged: demo_log "logging E" snd fine for E fine
  by unfold_locales (auto simp: logging_def Let_def split: prod.splits)

lemma logged_client: "demo_accepted V url \<Longrightarrow> demo_client (logging E) snd V url"
  by unfold_locales


text \<open>A server that grants everything and counts the requests.\<close>

definition granting_demo :: "nat demo_env" where
  "granting_demo =
     \<lparr>de_base_flag = [], de_interval_var = [], de_now = [], de_docker = True,
      de_url_error = (\<lambda>_. None),
      de_send = (\<lambda>rq w. (Inr \<lparr>wr_status = (if dm_get rq then 200
          else case dm_body rq of Some (VideoJ _ _ _ _) \<Rightarrow> 201 | Some (ProductJ _ _ _ _ _) \<Rightarrow> 201 | _ \<Rightarrow> 202),
        wr_line = [], wr_body = []\<rparr>, Suc w)),
      de_sleep = (\<lambda>_ w. w), de_psql = (\<lambda>_ w. (None, w)), de_report = (\<lambda>_ w. (Inr (), w)),
      de_duration = (\<lambda>_. None), de_data = Inr, de_token = (\<lambda>_. Inr ''t''),
      de_video = (\<lambda>_. Inr \<lparr>dv_id = ''v'', dv_title = [], dv_video_url = [], dv_duration_sec = 30\<rparr>),
      de_product = (\<lambda>_. Inr \<lparr>dp_id = ''p'', dp_video_id = ''v'', dp_name = []\<rparr>),
      de_stats = (\<lambda>_. Inr no_stats)\<rparr>"

text \<open>Its run goes to the end, with 153 requests.\<close>

lemma granted_run: "demo_run granting_demo 0 = (Inr (), 153)"
  by code_simp

definition accepts_all :: validator where
  "accepts_all = \<lparr>vl_email = (\<lambda>_. True), vl_url = (\<lambda>_. True), vl_text = (\<lambda>_. [])\<rparr>"

lemma accepts_demo: "demo_accepted accepts_all (\<lambda>_. Some (''https'', ''host''))"
  by (simp add: demo_accepted_def accepts_all_def http_url_def split_beta)

interpretation granting: demo_client "logging granting_demo" snd accepts_all "\<lambda>_. Some (''https'', ''host'')"
  by (rule logged_client [OF accepts_demo])


end
