(* ===== verification/Spec2Isabelle.thy ===== *)
theory Spec2Isabelle
  imports WorkerMetrics StatsReplicas Demo
begin

text \<open>
  Verification library of vidmerce: the back end of a short-video shop, an HTTP API
  (\<open>cmd/api\<close>, wired in \<open>internal/platform/app\<close>) and a background process (\<open>cmd/worker\<close>) over
  Postgres, Redis and ClickHouse.

  \<^bold>\<open>How the program works.\<close> Likes and views are write-heavy, so the API answers them from Redis
  alone: a like is one Lua script that flips a set entry, adjusts a counter and appends to the
  stream \<open>stream:likes\<close>; a view passes a chain of filters, takes a uniqueness marker and is appended
  to \<open>stream:views\<close>. The worker process drains the streams: likes into the tables \<open>likes\<close> and
  \<open>video_stats\<close>, views in batches into ClickHouse, where a materialized view keeps daily totals. A
  reconciler compares the like counters with the like rows and repairs them. Videos, products and
  accounts are written to Postgres directly, with JSON caches and Bloom filters in front; the
  statistics of a video are computed from both databases behind a cache and a lock; the feed is
  served by keyset pages (pull) or from a sorted set (push).

  \<^bold>\<open>The world.\<close> Theory World has the record \<open>world\<close>: the Redis server's state, the Postgres and
  ClickHouse tables (the columns of \<open>migrations/\<close>) and for each of the three links the outcomes of
  the calls to come: \<open>Up\<close>, \<open>Refused\<close> (no effect) or \<open>ReplyLost\<close> (the effect happened, the caller
  sees an error). An exhausted list means \<open>Up\<close>. Every operation takes a world to a result and a
  world, so a theorem about every world is one about every outage. Errors are values of
  \<open>goerr\<close> in a sum; clock readings, fresh identifiers and random bytes are arguments; Go's integers
  are unbounded with the wrap-around or the range written out where it can matter, identifiers are
  \<open>128 word\<close>s and pool sizes \<open>32 word\<close>s. What other replicas do to Redis while a request
  waits for a lock is a function argument in Stats and a step of the relation in StatsReplicas.

  \<^bold>\<open>What is outside.\<close> Redis is the record \<open>redis\<close> of its commands over an abstract state, with the
  laws of its documentation in the locale \<open>redis_server\<close>; \<open>ref_redis\<close>, a keyspace as a function, is
  the instance the witnesses compute with. Likewise \<open>uuid_lib\<close> (text form of identifiers),
  \<open>json_codec\<close> and \<open>cursor_codec\<close> (encoding/json), \<open>bcrypt\<close>, \<open>jwt_library\<close>, \<open>url_lib\<close>, the driver
  and configuration readers of the record \<open>externals\<close>. SQL statements of the repository are
  definitions on the table records, with their constraints.

  \<^bold>\<open>Theories and sources.\<close>
  \<^item> Prelude, GoLib, Base64, Uuid: error values, links, \<open>strconv\<close>, \<open>strings\<close>, base64url with its
    round trip. Redis, Streams, World: commands, consumer groups, tables.
  \<^item> Httpx: \<open>internal/platform/httpx\<close>. RateLimit: \<open>internal/platform/ratelimit\<close> - the script, its
    equivalence with a token bucket, the admission bound of any window, the exactness of
    \<open>retry_after\<close>, and what skewed clocks do to the limit.
  \<^item> LikeStore, LikeApi, LikeWorker, LikeReconciler: \<open>internal/like\<close>. The script refines an abstract
    step on edges and events; the stream replays to the edges; worker and API interleave under an
    invariant (\<open>like_lag\<close>) and the worker converges; the statements keep the counters exact; the
    reconciler repairs its sample, and its race with the worker is exhibited.
  \<^item> View, ViewWorker: \<open>internal/view\<close>. The outcomes of \<open>Track\<close>, the filters, uniqueness, and a
    batching loop that acknowledges no row before it is stored.
  \<^item> JsonCache, Bloom: \<open>internal/platform/cache\<close> and \<open>bloom\<close>; the contracts \<open>value_cache\<close> and
    \<open>member_filter\<close> that the services rely on. Video, Product: \<open>internal/video\<close>, \<open>internal/product\<close>;
    products use videos through the locale \<open>owner_check\<close>.
  \<^item> Feed, FeedPush: \<open>internal/feed\<close>; completeness of the pull feed and the equality of the two feeds
    while the sorted set mirrors the table. Stats: \<open>internal/stats\<close>, one request from its first to
    its last call. StatsReplicas: any number of them in several processes, cut at their calls and
    coalesced as \<open>singleflight\<close> does, as an inductive step relation; invariants of its runs say who
    owns the lock, what an answer is worth and that everyone is answered.
  \<^item> Jwt, RefreshStore, Auth: \<open>internal/platform/jwt\<close> and \<open>internal/auth\<close>. The locale \<open>token_store\<close> is
    the contract of refresh tokens that the service's theorems rest on.
  \<^item> Config, Health, App: \<open>internal/platform/config\<close>, the three clients, \<open>internal/health\<close>, and the
    wiring and routes of \<open>internal/platform/app\<close>. \<open>app_new\<close> is \<open>New\<close>, \<open>serve\<close> is one request
    through the router with its middlewares in order.
  \<^item> Requests: the request structs of the handlers with their \<open>binding\<close> tags, and what tags and
    validation accept together. Demo: \<open>cmd/demo\<close>, a client of the API that seeds a running
    installation; how many requests it sends, and that they pass the screening of Requests.
  \<^item> WorkerMain: \<open>cmd/worker\<close>, whose goroutines are interleaved as a list of turns. Lifecycle: both
    processes from their configuration to their exit code, with a log of the connections they open
    and close (\<open>cmd/api\<close>, \<open>New\<close>, \<open>Run\<close> and \<open>Close\<close> of \<open>internal/platform/app\<close>).
  \<^item> Metrics, WorkerMetrics: \<open>internal/platform/metrics\<close> and the log levels of
    \<open>internal/platform/logger\<close>. Every operation that records is modelled once more with its recording
    (\<open>metered_...\<close>) and proved to do the same otherwise; the metrics agree with the stream and with
    the tables, and the pending gauge shows the likes that are stuck.
  \<^item> Tables, Frames: for every route, which tables and which rate-limit keys it leaves alone.
    LoginLimit, StartUp, Journeys, CatchUp: properties of the whole: the bound on password
    guesses over any sequence of requests, what a start-up establishes, a video and its views
    through the router, the safety of the worker process under any outage and interleaving, and
    that the statistics catch up with what users did.

  \<^bold>\<open>Bounds.\<close> All loops over data are recursions on the data. The workers' endless loops are a
  given number of passes; that enough of them drain a backlog is proved with the number: a
  backlog of \<open>n\<close> entries takes \<open>n\<close> divided by the batch size, rounded up. Following the pull feed
  takes one request per page, and that it ends is a theorem. A run of the demo sends at most 195
  requests, its polling included. The insertion sort of the push feed
  is bounded by the position of the element.

  \<^bold>\<open>Reading the properties.\<close> Each stands after a text block with its number. Hypotheses on the
  state say that keys hold values of the type the program stores under them, that counters have
  room below \<open>2 ^ 63\<close>, and what the component's invariant is; every one has a witness at a concrete
  world. Several theorems state weaknesses of the code as it is: a like whose transaction failed is
  never retried, since workers read only new entries; the reconciler's three statements can
  introduce the drift they look for; a false positive of a Bloom filter refuses a free email for
  good; a failed emission loses a unique view.

  \<^bold>\<open>Not modelled.\<close> Sockets, signals (how serving ends is an argument), the ten seconds of grace at shutdown and the pauses after
  failed reads (time passes between turns, not in them); timeouts, which are link outcomes;
  rounding of floating point in Lua; \<open>Scan\<close> errors of single rows; the storage and export of the Prometheus client,
  the log handlers and the Swagger page, which are output only; the JSON decoder and the
  validator's tests for an address and a URL, which are arguments of Requests; what \<open>cmd/demo\<close> prints
  and the HTML of its report.
\<close>

end
